(* ===== verification/Prelude.thy ===== *)
theory Prelude
  imports Main "HOL-Library.Word"
begin

unbundle bit_operations_syntax

text \<open>
  Shared vocabulary of the development: the machine integers of the kernel, the outcome of
  running Rust code, checked arithmetic in both build profiles, pointer stores, and the
  generic lemmas on them that the component theories use.

  Every operation that can panic or dereference a pointer returns an \<open>outcome\<close>:
  \<open>Ret x\<close> is a normal return, \<open>Panic\<close> is a Rust panic (a failed \<open>assert!\<close>,
  \<open>expect\<close>, \<open>unwrap\<close>, bounds check, or, in a debug build, an arithmetic overflow), and
  \<open>Fault\<close> is the dereference of a pointer at which no object lives (undefined behaviour
  in the source, always inside an \<open>unsafe\<close> block).
  A Rust \<open>Result\<close> is a sum: \<open>Inl e\<close> is \<open>Err(e)\<close>, \<open>Inr x\<close> is \<open>Ok(x)\<close>.
\<close>

section \<open>Types\<close>

type_synonym u8 = "8 word"
type_synonym u16 = "16 word"
type_synonym u32 = "32 word"
type_synonym u64 = "64 word"
type_synonym usize = "64 word"
type_synonym ptr = "64 word"

named_theorems outcome_simps \<open>how sequencing acts on each outcome\<close>
named_theorems layout_simps \<open>bit fields of capability words and page-table entries\<close>

section \<open>Outcomes\<close>

datatype 'a outcome = Ret 'a | Panic | Fault

fun obind :: "'a outcome \<Rightarrow> ('a \<Rightarrow> 'b outcome) \<Rightarrow> 'b outcome" where
  "obind (Ret x) f = f x"
| "obind Panic f = Panic"
| "obind Fault f = Fault"

declare obind.simps [outcome_simps]

lemma obind_Ret_iff [outcome_simps]:
  "obind m f = Ret y \<longleftrightarrow> (\<exists>x. m = Ret x \<and> f x = Ret y)"
  by (cases m) auto

lemma obind_Panic_iff [outcome_simps]:
  "obind m f = Panic \<longleftrightarrow> m = Panic \<or> (\<exists>x. m = Ret x \<and> f x = Panic)"
  by (cases m) auto

lemma obind_Fault_iff [outcome_simps]:
  "obind m f = Fault \<longleftrightarrow> m = Fault \<or> (\<exists>x. m = Ret x \<and> f x = Fault)"
  by (cases m) auto

lemma obind_assoc: "obind (obind m f) g = obind m (\<lambda>x. obind (f x) g)"
  by (cases m) auto

lemma obind_cong [fundef_cong]:
  "m = m' \<Longrightarrow> (\<And>x. m' = Ret x \<Longrightarrow> f x = g x) \<Longrightarrow> obind m f = obind m' g"
  by (cases m') auto

definition assert_that :: "bool \<Rightarrow> unit outcome" where
  "assert_that b = (if b then Ret () else Panic)"

text \<open>\<open>debug_assert!\<close>: checked in a debug build only.\<close>

definition debug_assert :: "bool \<Rightarrow> bool \<Rightarrow> unit outcome" where
  "debug_assert dbg b = (if dbg \<and> \<not> b then Panic else Ret ())"

lemma assert_that_simps [simp]:
  "assert_that True = Ret ()" "assert_that False = Panic"
  by (simp_all add: assert_that_def)

lemma debug_assert_simps [simp]:
  "debug_assert False b = Ret ()" "debug_assert dbg True = Ret ()"
  "debug_assert True False = Panic"
  by (simp_all add: debug_assert_def)

lemma assert_that_Ret_iff [outcome_simps]: "assert_that b = Ret u \<longleftrightarrow> b"
  by (simp add: assert_that_def)

lemma debug_assert_Ret_iff [outcome_simps]: "debug_assert dbg b = Ret u \<longleftrightarrow> (dbg \<longrightarrow> b)"
  by (simp add: debug_assert_def)

text \<open>\<open>Option::expect\<close> and \<open>Option::unwrap\<close>.\<close>

definition expect :: "'a option \<Rightarrow> 'a outcome" where
  "expect x = (case x of None \<Rightarrow> Panic | Some v \<Rightarrow> Ret v)"

lemma expect_simps [simp]: "expect None = Panic" "expect (Some v) = Ret v"
  by (simp_all add: expect_def)

lemma expect_Ret_iff [outcome_simps]: "expect x = Ret v \<longleftrightarrow> x = Some v"
  by (cases x) auto

section \<open>Checked and wrapping arithmetic\<close>

text \<open>
  \<open>dbg\<close> is the build profile: rustc's debug profile checks overflow and shift amounts
  and panics, the release profile wraps (and masks the shift amount).
\<close>

definition u_add :: "bool \<Rightarrow> 'a::len word \<Rightarrow> 'a word \<Rightarrow> 'a word outcome" where
  "u_add dbg a b = (if dbg \<and> 2 ^ LENGTH('a) \<le> unat a + unat b then Panic else Ret (a + b))"

definition u_sub :: "bool \<Rightarrow> 'a::len word \<Rightarrow> 'a word \<Rightarrow> 'a word outcome" where
  "u_sub dbg a b = (if dbg \<and> a < b then Panic else Ret (a - b))"

definition u_mul :: "bool \<Rightarrow> 'a::len word \<Rightarrow> 'a word \<Rightarrow> 'a word outcome" where
  "u_mul dbg a b = (if dbg \<and> 2 ^ LENGTH('a) \<le> unat a * unat b then Panic else Ret (a * b))"

definition u_shl :: "bool \<Rightarrow> 'a::len word \<Rightarrow> usize \<Rightarrow> 'a word outcome" where
  "u_shl dbg a n =
     (if unat n < LENGTH('a) then Ret (push_bit (unat n) a)
      else if dbg then Panic else Ret (push_bit (unat n mod LENGTH('a)) a))"

definition u_shr :: "bool \<Rightarrow> 'a::len word \<Rightarrow> usize \<Rightarrow> 'a word outcome" where
  "u_shr dbg a n =
     (if unat n < LENGTH('a) then Ret (drop_bit (unat n) a)
      else if dbg then Panic else Ret (drop_bit (unat n mod LENGTH('a)) a))"

definition checked_add :: "'a::len word \<Rightarrow> 'a word \<Rightarrow> 'a word option" where
  "checked_add a b = (if unat a + unat b < 2 ^ LENGTH('a) then Some (a + b) else None)"

definition checked_mul :: "'a::len word \<Rightarrow> 'a word \<Rightarrow> 'a word option" where
  "checked_mul a b = (if unat a * unat b < 2 ^ LENGTH('a) then Some (a * b) else None)"

definition saturating_sub :: "'a::len word \<Rightarrow> 'a word \<Rightarrow> 'a word" where
  "saturating_sub a b = (if a < b then 0 else a - b)"

lemma unat_bound: "unat x < 2 ^ LENGTH('a)" for x :: "'a::len word"
  by (rule unsigned_less)

lemma unat_bound64: "unat x < 2 ^ 64" for x :: "64 word"
  using unat_bound [of x] by simp

lemma unat_add_exact:
  "unat a + unat b < 2 ^ LENGTH('a) \<Longrightarrow> unat (a + b) = unat a + unat b" for a b :: "'a::len word"
  by (simp add: unat_word_ariths)

lemma unat_mult_exact:
  "unat a * unat b < 2 ^ LENGTH('a) \<Longrightarrow> unat (a * b) = unat a * unat b" for a b :: "'a::len word"
  by (simp add: unat_word_ariths)

lemma checked_add_SomeD:
  "checked_add a b = Some c \<Longrightarrow> unat c = unat a + unat b" for a b c :: "'a::len word"
  by (auto simp: checked_add_def unat_add_exact split: if_splits)

lemma checked_mul_SomeD:
  "checked_mul a b = Some c \<Longrightarrow> unat c = unat a * unat b" for a b c :: "'a::len word"
  by (auto simp: checked_mul_def unat_mult_exact split: if_splits)

lemma u_add_exact:
  "unat a + unat b < 2 ^ LENGTH('a) \<Longrightarrow> u_add dbg a b = Ret (a + b)" for a b :: "'a::len word"
  by (simp add: u_add_def)

lemma u_sub_exact: "b \<le> a \<Longrightarrow> u_sub dbg a b = Ret (a - b)" for a b :: "'a::len word"
  by (auto simp: u_sub_def)

lemma u_add_release [simp]: "u_add False a b = Ret (a + b)"
  by (simp add: u_add_def)

lemma u_add_Ret_iff [outcome_simps]:
  "u_add dbg a b = Ret c \<longleftrightarrow> c = a + b \<and> (dbg \<longrightarrow> unat a + unat b < 2 ^ LENGTH('a))"
  for a b c :: "'a::len word"
  by (auto simp: u_add_def)

lemma u_sub_Ret_iff [outcome_simps]:
  "u_sub dbg a b = Ret c \<longleftrightarrow> c = a - b \<and> (dbg \<longrightarrow> b \<le> a)" for a b c :: "'a::len word"
  by (auto simp: u_sub_def)

lemma u_add_not_Fault [simp]: "u_add dbg a b \<noteq> Fault"
  by (simp add: u_add_def)

section \<open>Stores\<close>

text \<open>Memory holding objects of one type: an address without an object faults.\<close>

definition deref :: "(ptr \<rightharpoonup> 'a) \<Rightarrow> ptr \<Rightarrow> 'a outcome" where
  "deref m p = (case m p of None \<Rightarrow> Fault | Some v \<Rightarrow> Ret v)"

definition modify :: "(ptr \<rightharpoonup> 'a) \<Rightarrow> ptr \<Rightarrow> ('a \<Rightarrow> 'a) \<Rightarrow> (ptr \<rightharpoonup> 'a) outcome" where
  "modify m p f = (case m p of None \<Rightarrow> Fault | Some v \<Rightarrow> Ret (m(p \<mapsto> f v)))"

text \<open>\<open>if let Some(p) = q { .. }\<close> around the update of the object at \<open>p\<close>.\<close>

definition modify_opt :: "(ptr \<rightharpoonup> 'a) \<Rightarrow> ptr option \<Rightarrow> ('a \<Rightarrow> 'a) \<Rightarrow> (ptr \<rightharpoonup> 'a) outcome" where
  "modify_opt m q f = (case q of None \<Rightarrow> Ret m | Some p \<Rightarrow> modify m p f)"

lemma modify_opt_simps [simp]:
  "modify_opt m None f = Ret m" "modify_opt m (Some p) f = modify m p f"
  by (simp_all add: modify_opt_def)

lemma deref_Some [simp]: "m p = Some v \<Longrightarrow> deref m p = Ret v"
  by (simp add: deref_def)

lemma deref_None [simp]: "m p = None \<Longrightarrow> deref m p = Fault"
  by (simp add: deref_def)

lemma deref_Ret_iff [outcome_simps]: "deref m p = Ret v \<longleftrightarrow> m p = Some v"
  by (simp add: deref_def split: option.splits)

lemma deref_not_Panic [simp]: "deref m p \<noteq> Panic"
  by (simp add: deref_def split: option.splits)

lemma modify_Some [simp]: "m p = Some v \<Longrightarrow> modify m p f = Ret (m(p \<mapsto> f v))"
  by (simp add: modify_def)

lemma modify_None [simp]: "m p = None \<Longrightarrow> modify m p f = Fault"
  by (simp add: modify_def)

lemma modify_Ret_iff [outcome_simps]:
  "modify m p f = Ret m' \<longleftrightarrow> (\<exists>v. m p = Some v \<and> m' = m(p \<mapsto> f v))"
  by (auto simp: modify_def split: option.splits)

section \<open>Pieces of Rust values\<close>

text \<open>\<open>b as usize\<close> for a Boolean.\<close>

definition bool_usize :: "bool \<Rightarrow> usize" where
  "bool_usize b = (if b then 1 else 0)"

lemma bool_usize_simps [simp]: "bool_usize True = 1" "bool_usize False = 0"
  by (simp_all add: bool_usize_def)

lemma bool_usize_eq_iff [simp]: "bool_usize b = 0 \<longleftrightarrow> \<not> b" "bool_usize b = 1 \<longleftrightarrow> b"
  by (simp_all add: bool_usize_def)

section \<open>Bit fields\<close>

text \<open>
  A field of width \<open>w\<close> at offset \<open>off\<close> of a word: how the kernel packs several
  values into one word (\<open>(x >> off) & mask\<close> reads it, \<open>(x & !(mask << off)) | (v << off)\<close>
  writes it). The laws below are the only word-level facts the component proofs need.
\<close>

definition field_get :: "nat \<Rightarrow> nat \<Rightarrow> 'a::len word \<Rightarrow> 'a word" where
  "field_get off w x = drop_bit off x AND mask w"

definition field_set :: "nat \<Rightarrow> nat \<Rightarrow> 'a::len word \<Rightarrow> 'a word \<Rightarrow> 'a word" where
  "field_set off w v x = (x AND NOT (push_bit off (mask w))) OR push_bit off v"

lemma bit_field_get:
  "bit (field_get off w x) n \<longleftrightarrow> n < w \<and> bit x (off + n)" for x :: "'a::len word"
  by (auto simp: field_get_def bit_simps dest: bit_imp_le_length)

lemma small_bit_bound:
  "v AND mask w = v \<Longrightarrow> bit v n \<Longrightarrow> n < w" for v :: "'a::len word"
  by (metis bit_and_iff bit_mask_iff)

lemma field_get_set_same:
  fixes x v :: "'a::len word"
  assumes "v AND mask w = v" and "off + w \<le> LENGTH('a)"
  shows "field_get off w (field_set off w v x) = v"
proof (rule bit_word_eqI)
  fix n assume "n < LENGTH('a)"
  then show "bit (field_get off w (field_set off w v x)) n = bit v n"
    using assms small_bit_bound [OF assms(1), of n]
    by (auto simp: bit_field_get field_set_def bit_simps)
qed

lemma field_get_set_other:
  fixes x v :: "'a::len word"
  assumes "v AND mask w = v" and "off + w \<le> off' \<or> off' + w' \<le> off"
  shows "field_get off' w' (field_set off w v x) = field_get off' w' x"
proof (rule bit_word_eqI)
  fix n assume "n < LENGTH('a)"
  show "bit (field_get off' w' (field_set off w v x)) n = bit (field_get off' w' x) n"
    using assms(2) small_bit_bound [OF assms(1), of "off' + n - off"]
    by (auto simp: bit_field_get field_set_def bit_simps dest: bit_imp_le_length)
qed

lemma field_get_small: "field_get off w x AND mask w = field_get off w x" for x :: "'a::len word"
  by (simp add: field_get_def and.assoc)

lemma unat_field_get:
  fixes x :: "'a::len word"
  shows "unat (field_get off w x) < 2 ^ w"
proof -
  have "field_get off w x = take_bit w (drop_bit off x)"
    by (simp add: field_get_def take_bit_eq_mask)
  then have "unat (field_get off w x) = take_bit w (unat (drop_bit off x))"
    by (simp add: unsigned_take_bit_eq)
  then show ?thesis by simp
qed

lemma small_if_less: "unat v < 2 ^ w \<Longrightarrow> v AND mask w = v" for v :: "'a::len word"
proof -
  assume "unat v < 2 ^ w"
  then have "take_bit w (unat v) = unat v" by (simp add: take_bit_nat_eq_self)
  then have "unat (take_bit w v) = unat v" by (simp add: unsigned_take_bit_eq)
  then have "take_bit w v = v" by (simp only: word_unat_eq_iff)
  then show ?thesis by (simp add: take_bit_eq_mask)
qed

end
