(* ===== verification/Caps.thy ===== *)
theory Caps
  imports Prelude
begin

text \<open>
  The vocabulary of capabilities: \<open>macros.rs\<close>, \<open>error.rs\<close>, \<open>objects/mod.rs\<close>,
  \<open>objects/traits.rs\<close> and \<open>objects/nullcap.rs\<close>, and the record of what the kernel
  calls in third-party crates.
\<close>

section \<open>Third-party crates\<close>

text \<open>
  The kernel calls \<open>x86_64::PhysAddr::new\<close> and the \<open>contains\<close> and union operators
  that \<open>bitflags!\<close> generates. They are fields of a record that every definition using
  them takes as an argument; \<open>ext_ok\<close> states their documented behaviour:
  \<open>PhysAddr::new\<close> panics (\<open>None\<close>) when one of the bits 52 to 63 is set and otherwise
  keeps the address, \<open>contains\<close> says that all bits of the second set are in the first,
  and \<open>|\<close> is the union of two sets of flags.
\<close>

record ext =
  phys_new :: "u64 \<Rightarrow> u64 option"
  flags_contains :: "u8 \<Rightarrow> u8 \<Rightarrow> bool"
  flags_union :: "u8 \<Rightarrow> u8 \<Rightarrow> u8"

definition ext_ok :: "ext \<Rightarrow> bool" where
  "ext_ok E \<longleftrightarrow>
     (\<forall>a. phys_new E a = (if a < 0x10000000000000 then Some a else None)) \<and>
     (\<forall>a b. flags_contains E a b \<longleftrightarrow> a AND b = b) \<and>
     (\<forall>a b. flags_union E a b = a OR b)"

text \<open>An instance, for the witnesses.\<close>

definition ext_doc :: ext where
  "ext_doc = \<lparr>phys_new = (\<lambda>a. if a < 0x10000000000000 then Some a else None),
    flags_contains = (\<lambda>a b. a AND b = b), flags_union = (\<lambda>a b. a OR b)\<rparr>"

lemma ext_doc_ok [simp]: "ext_ok ext_doc"
  by (simp add: ext_ok_def ext_doc_def)

lemma ext_okD:
  assumes "ext_ok E"
  shows "phys_new E a = (if a < 0x10000000000000 then Some a else None)"
    and "flags_contains E f g \<longleftrightarrow> f AND g = g"
    and "flags_union E f g = f OR g"
  using assms by (auto simp: ext_ok_def)

section \<open>Macros\<close>

text \<open>
  \<open>bit!\<close> and \<open>mask!\<close> are used with shift amounts below the word size only;
  \<open>alignup!\<close> adds before it subtracts, so the addition is the one that can overflow.
\<close>

definition kbit :: "nat \<Rightarrow> 'a::len word" where
  "kbit x = push_bit x 1"

definition kmask :: "nat \<Rightarrow> 'a::len word" where
  "kmask x = kbit x - 1"

definition alignup :: "bool \<Rightarrow> usize \<Rightarrow> nat \<Rightarrow> usize outcome" where
  "alignup dbg addr sz =
     obind (u_add dbg addr (kbit sz)) (\<lambda>a.
     obind (u_sub dbg a 1) (\<lambda>b. Ret (b AND NOT (kmask sz))))"

lemma kmask_eq [layout_simps]: "kmask x = mask x"
  by (simp add: kmask_def kbit_def mask_eq_exp_minus_1 push_bit_eq_mult)

lemma unat_kbit: "sz < 64 \<Longrightarrow> unat (kbit sz :: usize) = 2 ^ sz"
proof -
  assume "sz < 64"
  then have "unat (push_bit sz 1 :: usize) = push_bit sz 1"
    by (simp only: unsigned_push_bit_eq unsigned_1) (simp add: take_bit_nat_eq_self)
  then show ?thesis by (simp only: kbit_def) simp
qed

lemma mask_not_eq: "b AND NOT (mask n) = push_bit n (drop_bit n b)" for b :: "'a::len word"
  by (rule bit_word_eqI) (auto simp: bit_simps)

text \<open>\<open>alignup!\<close> is rounding up to a multiple of \<open>2 ^ sz\<close>, when nothing overflows.\<close>

lemma alignup_unat:
  assumes "sz < 64" "unat addr + 2 ^ sz < 2 ^ 64"
  shows "\<exists>r. alignup dbg addr sz = Ret r \<and>
    unat r = (unat addr + 2 ^ sz - 1) div 2 ^ sz * 2 ^ sz"
proof -
  let ?b = "addr + kbit sz - 1 :: usize"
  have sum: "unat (addr + kbit sz) = unat addr + 2 ^ sz"
    using assms by (simp add: unat_add_exact unat_kbit)
  have one: "(1::usize) \<le> addr + kbit sz"
    using sum by (simp add: word_le_nat_alt Suc_le_eq)
  then have "unat ?b = unat (addr + kbit sz) - unat (1::usize)" by (rule unat_sub)
  then have b: "unat ?b = unat addr + 2 ^ sz - 1" using sum by simp
  have "unat (drop_bit sz ?b) = unat ?b div 2 ^ sz"
    by (simp only: unat_drop_bit_eq) (simp add: drop_bit_eq_div)
  moreover have "unat (push_bit sz (drop_bit sz ?b)) = unat (drop_bit sz ?b) * 2 ^ sz"
  proof -
    have "unat ?b div 2 ^ sz * 2 ^ sz \<le> unat ?b" by (rule div_times_less_eq_dividend)
    also have "unat ?b < 2 ^ 64" by (rule unat_bound64)
    finally have "unat (drop_bit sz ?b) * 2 ^ sz < 2 ^ 64"
      by (simp only: \<open>unat (drop_bit sz ?b) = unat ?b div 2 ^ sz\<close>)
    then have "take_bit 64 (push_bit sz (unat (drop_bit sz ?b))) = unat (drop_bit sz ?b) * 2 ^ sz"
      by (simp add: push_bit_eq_mult take_bit_nat_eq_self)
    then show ?thesis by (simp only: unsigned_push_bit_eq) simp
  qed
  ultimately have "unat (?b AND NOT (mask sz)) = (unat addr + 2 ^ sz - 1) div 2 ^ sz * 2 ^ sz"
    by (simp add: mask_not_eq b)
  moreover have "alignup dbg addr sz = Ret (?b AND NOT (mask sz))"
    using assms one by (simp add: alignup_def u_add_exact u_sub_exact unat_kbit kmask_eq)
  ultimately show ?thesis by blast
qed

section \<open>Errors\<close>

datatype SysError = SysNone | CSpaceNotFound | CapabilityTypeError | LookupError
  | UnableToDerive | SlotNotEmpty | SlotEmpty | UnsupportedSyscallOp | VSpaceCapMapped
  | VSpaceCapNotMapped | VSpaceTableMiss | VSpaceSlotOccupied | VSpacePermissionError
  | InvalidValue | SizeTooSmall | OutOfMemory | FrameAlreadyMapped | FrameNotMapped
  | InvalidOperation | AlignmentError | RangeError | RevokeFailed | DeleteFailed

fun as_code :: "SysError \<Rightarrow> usize" where
  "as_code SysNone = 0"
| "as_code CSpaceNotFound = 1"
| "as_code CapabilityTypeError = 2"
| "as_code LookupError = 3"
| "as_code UnableToDerive = 4"
| "as_code SlotNotEmpty = 5"
| "as_code SlotEmpty = 6"
| "as_code UnsupportedSyscallOp = 7"
| "as_code VSpaceCapMapped = 8"
| "as_code VSpaceCapNotMapped = 9"
| "as_code VSpaceTableMiss = 10"
| "as_code VSpaceSlotOccupied = 11"
| "as_code VSpacePermissionError = 12"
| "as_code InvalidValue = 13"
| "as_code SizeTooSmall = 14"
| "as_code OutOfMemory = 15"
| "as_code FrameAlreadyMapped = 16"
| "as_code FrameNotMapped = 17"
| "as_code InvalidOperation = 18"
| "as_code AlignmentError = 19"
| "as_code RangeError = 20"
| "as_code RevokeFailed = 21"
| "as_code DeleteFailed = 22"

definition is_ok :: "SysError \<Rightarrow> bool" where
  "is_ok e = (case e of SysNone \<Rightarrow> True | _ \<Rightarrow> False)"

datatype VSpaceError = InvalidVAddr | MisalignedPAddr | MisalignedVAddr | AlreadyMapped
  | NotMappedErr | MissingTable | UnsupportedPageSize | InvalidAsid | AllocationFailed

fun SysError_from :: "VSpaceError \<Rightarrow> SysError" where
  "SysError_from InvalidVAddr = InvalidValue"
| "SysError_from MisalignedPAddr = InvalidValue"
| "SysError_from MisalignedVAddr = InvalidValue"
| "SysError_from AlreadyMapped = FrameAlreadyMapped"
| "SysError_from NotMappedErr = LookupError"
| "SysError_from MissingTable = LookupError"
| "SysError_from UnsupportedPageSize = InvalidValue"
| "SysError_from InvalidAsid = InvalidValue"
| "SysError_from AllocationFailed = OutOfMemory"

lemma as_code_zero: "as_code e = 0 \<longleftrightarrow> is_ok e"
  by (cases e) (simp_all add: is_ok_def)

section \<open>Object types, rights, raw capabilities\<close>

datatype ObjType = NullObj | Untyped | CNode | Tcb | Frame | Endpoint | Reply | Monitor
  | Interrupt | VSpace

fun ObjType_code :: "ObjType \<Rightarrow> usize" where
  "ObjType_code NullObj = 0"
| "ObjType_code Untyped = 1"
| "ObjType_code CNode = 2"
| "ObjType_code Tcb = 3"
| "ObjType_code Frame = 4"
| "ObjType_code Endpoint = 5"
| "ObjType_code Reply = 6"
| "ObjType_code Monitor = 7"
| "ObjType_code Interrupt = 8"
| "ObjType_code VSpace = 9"

type_synonym CapRights = u8

definition R_NONE :: CapRights where "R_NONE = 0x00"
definition R_READ :: CapRights where "R_READ = 0x01"
definition R_WRITE :: CapRights where "R_WRITE = 0x02"
definition R_EXECUTE :: CapRights where "R_EXECUTE = 0x04"
definition R_GRANT :: CapRights where "R_GRANT = 0x08"
definition R_CONTROL :: CapRights where "R_CONTROL = 0x10"
definition R_SEND :: CapRights where "R_SEND = 0x20"
definition R_RECEIVE :: CapRights where "R_RECEIVE = 0x40"

definition rights_includes :: "CapRights \<Rightarrow> CapRights \<Rightarrow> bool" where
  "rights_includes self other \<longleftrightarrow> self AND other = other"

record CapRaw =
  arg1 :: usize
  arg2 :: usize
  paddr :: usize
  cap_type :: ObjType
  rights :: CapRights
  mdb_prev :: "ptr option"
  mdb_next :: "ptr option"

definition CapRaw_default :: CapRaw where
  "CapRaw_default = \<lparr>arg1 = 0, arg2 = 0, paddr = 0, cap_type = NullObj, rights = R_NONE,
     mdb_prev = None, mdb_next = None\<rparr>"

definition default_with_type :: "ObjType \<Rightarrow> CapRaw" where
  "default_with_type t = CapRaw_default\<lparr>cap_type := t\<rparr>"

text \<open>
  A \<open>CNodeEntry\<close> is a \<open>Cell<CapRaw>\<close>: a slot. Slots are shared and mutated through
  shared references, so they live in a store indexed by their address.
\<close>

type_synonym cstore = "ptr \<rightharpoonup> CapRaw"

text \<open>The kinds of kernel object a \<open>CapRef<T>\<close> can be typed with.\<close>

datatype KernelObject = KNullObj | KCNodeObj | KUntypedObj | KFrameObj | KVSpaceObj
  | KEndpointObj | KTcb

fun OBJ_TYPE :: "KernelObject \<Rightarrow> ObjType" where
  "OBJ_TYPE KNullObj = NullObj"
| "OBJ_TYPE KCNodeObj = CNode"
| "OBJ_TYPE KUntypedObj = Untyped"
| "OBJ_TYPE KFrameObj = Frame"
| "OBJ_TYPE KVSpaceObj = VSpace"
| "OBJ_TYPE KEndpointObj = Endpoint"
| "OBJ_TYPE KTcb = Tcb"

text \<open>
  A \<open>CapRef<T>\<close> is a slot address together with the phantom type \<open>T\<close>.
\<close>

definition CapRef_cap_type :: "KernelObject \<Rightarrow> ObjType" where
  "CapRef_cap_type T = OBJ_TYPE T"

text \<open>\<open>cap_type_matches\<close>, the type discipline that the source states for references.\<close>

definition cap_type_matches :: "KernelObject \<Rightarrow> CapRaw \<Rightarrow> bool" where
  "cap_type_matches T raw \<longleftrightarrow> OBJ_TYPE T = cap_type raw"

definition CapRef_paddr :: "ext \<Rightarrow> CapRaw \<Rightarrow> u64 outcome" where
  "CapRef_paddr E raw = expect (phys_new E (paddr raw))"

definition CapRef_rights :: "CapRaw \<Rightarrow> CapRights" where
  "CapRef_rights raw = rights raw"

definition try_from :: "KernelObject \<Rightarrow> CapRaw \<Rightarrow> SysError + unit" where
  "try_from T value = (if OBJ_TYPE T \<noteq> cap_type value then Inl CapabilityTypeError else Inr ())"

lemma try_from_Inr_iff: "try_from T raw = Inr u \<longleftrightarrow> cap_type_matches T raw"
  by (simp add: try_from_def cap_type_matches_def)

text \<open>The inclusion of rights is a preorder.\<close>

lemma rights_reflexive: "rights_includes a a"
  by (simp add: rights_includes_def)

lemma rights_transitive: "rights_includes a b \<Longrightarrow> rights_includes b c \<Longrightarrow> rights_includes a c"
  unfolding rights_includes_def by (metis and.assoc)

lemma CapRef_paddr_Ret:
  "ext_ok E \<Longrightarrow> CapRef_paddr E raw = Ret a \<longleftrightarrow> a = paddr raw \<and> paddr raw < 0x10000000000000"
  by (auto simp: CapRef_paddr_def ext_okD)

lemma default_with_type_simps [simp]:
  "arg1 (default_with_type t) = 0" "arg2 (default_with_type t) = 0"
  "paddr (default_with_type t) = 0" "cap_type (default_with_type t) = t"
  "rights (default_with_type t) = R_NONE" "mdb_prev (default_with_type t) = None"
  "mdb_next (default_with_type t) = None"
  by (simp_all add: default_with_type_def CapRaw_default_def)

section \<open>Null capabilities\<close>

definition NullCap_mint :: CapRaw where
  "NullCap_mint = CapRaw_default"

text \<open>
  \<open>NullCap::insert\<close> consumes the null reference, writes the slot and returns the same
  slot typed as \<open>T\<close>; \<open>insert_raw\<close> only writes. Writing through the reference needs
  the slot to exist.
\<close>

definition NullCap_insert :: "cstore \<Rightarrow> ptr \<Rightarrow> CapRaw \<Rightarrow> (ptr \<times> cstore) outcome" where
  "NullCap_insert st slot raw = obind (modify st slot (\<lambda>_. raw)) (\<lambda>st'. Ret (slot, st'))"

definition NullCap_insert_raw :: "cstore \<Rightarrow> ptr \<Rightarrow> CapRaw \<Rightarrow> cstore outcome" where
  "NullCap_insert_raw st slot raw = modify st slot (\<lambda>_. raw)"

end
