(* ===== verification/Links.thy ===== *)
theory Links
  imports Prelude
begin

text \<open>
  Intrusive doubly linked lists. Two components of the kernel thread objects together with
  \<open>prev\<close>/\<open>next\<close> pointers stored inside the objects: the capability derivation chain
  (\<open>mdb_prev\<close>, \<open>mdb_next\<close> of a \<open>CapRaw\<close>) and the endpoint queues (\<open>ep_prev\<close>,
  \<open>ep_next\<close> of a \<open>Tcb\<close>). The locale \<open>linked_node\<close> is what both rely on: two
  fields that can be read and written independently. Its lemmas say how pointer writes
  change the list of addresses a chain spells; they are proved once and used by both.
\<close>

section \<open>Chains as address lists\<close>

definition first_or :: "ptr list \<Rightarrow> ptr option \<Rightarrow> ptr option" where
  "first_or xs n = (case xs of [] \<Rightarrow> n | x # _ \<Rightarrow> Some x)"

definition last_or :: "ptr list \<Rightarrow> ptr option \<Rightarrow> ptr option" where
  "last_or xs p = (if xs = [] then p else Some (last xs))"

lemma first_or_simps [simp]:
  "first_or [] n = n" "first_or (x # xs) n = Some x"
  "xs \<noteq> [] \<Longrightarrow> first_or (xs @ ys) n = first_or xs n"
  "first_or xs None = None \<longleftrightarrow> xs = []"
  by (auto simp: first_or_def split: list.splits)

lemma last_or_simps [simp]:
  "last_or [] p = p" "last_or (xs @ [x]) p = Some x"
  "ys \<noteq> [] \<Longrightarrow> last_or (xs @ ys) p = last_or ys p"
  "last_or xs None = None \<longleftrightarrow> xs = []"
  "last_or (x # xs) p = last_or xs (Some x)"
  by (auto simp: last_or_def)

lemma first_or_append: "first_or (xs @ ys) n = first_or xs (first_or ys n)"
  by (cases xs) auto

lemma last_or_append: "last_or (xs @ ys) p = last_or ys (last_or xs p)"
  by (cases "ys = []") (auto simp: last_or_def)

lemma first_or_nonempty: "xs \<noteq> [] \<Longrightarrow> first_or xs n = Some (hd xs)"
  by (cases xs) auto

lemma last_or_nonempty: "xs \<noteq> [] \<Longrightarrow> last_or xs p = Some (last xs)"
  by (simp add: last_or_def)

lemma first_or_in: "first_or xs None = Some q \<Longrightarrow> q \<in> set xs"
  by (cases xs) auto

lemma last_or_in: "last_or xs None = Some q \<Longrightarrow> q \<in> set xs"
  by (auto simp: last_or_def split: if_splits)

lemma last_or_Some_split: "last_or xs None = Some q \<longleftrightarrow> (\<exists>ys. xs = ys @ [q])"
  by (cases xs rule: rev_cases) auto

text \<open>
  \<open>dseg gp gn m p xs n\<close>: in the store \<open>m\<close> the objects at the addresses \<open>xs\<close> form a
  chain, entered from \<open>p\<close> (the \<open>prev\<close> of the first) and left to \<open>n\<close> (the
  \<open>next\<close> of the last).
\<close>

fun dseg :: "('n \<Rightarrow> ptr option) \<Rightarrow> ('n \<Rightarrow> ptr option) \<Rightarrow> (ptr \<rightharpoonup> 'n) \<Rightarrow>
    ptr option \<Rightarrow> ptr list \<Rightarrow> ptr option \<Rightarrow> bool" where
  "dseg gp gn m p [] n = True"
| "dseg gp gn m p (x # xs) n =
     ((case m x of None \<Rightarrow> False | Some v \<Rightarrow> gp v = p \<and> gn v = first_or xs n) \<and>
      dseg gp gn m (Some x) xs n)"

text \<open>Write one field of the object an optional pointer designates.\<close>

definition put :: "('a \<Rightarrow> 'n \<Rightarrow> 'n) \<Rightarrow> ptr option \<Rightarrow> 'a \<Rightarrow> (ptr \<rightharpoonup> 'n) \<Rightarrow> (ptr \<rightharpoonup> 'n)" where
  "put s q a m = (case q of None \<Rightarrow> m | Some x \<Rightarrow> m(x := map_option (s a) (m x)))"

lemma put_None [simp]: "put s None a m = m"
  by (simp add: put_def)

lemma put_other: "q \<noteq> Some x \<Longrightarrow> put s q a m x = m x"
  by (auto simp: put_def split: option.splits)

lemma put_ends_other [simp]:
  "x \<notin> set xs \<Longrightarrow> put s (first_or xs None) a m x = m x"
  "x \<notin> set xs \<Longrightarrow> put s (last_or xs None) a m x = m x"
  by (auto intro!: put_other dest: first_or_in last_or_in)

lemma put_at [simp]: "put s (Some x) a m x = map_option (s a) (m x)"
  by (simp add: put_def)

lemma put_Some: "m x = Some v \<Longrightarrow> put s (Some x) a m = m(x \<mapsto> s a v)"
  by (simp add: put_def)

lemma dom_put [simp]: "dom (put s q a m) = dom m"
  by (auto simp: put_def split: option.splits if_splits)

lemma modify_opt_put:
  "(\<And>p. q = Some p \<Longrightarrow> p \<in> dom m) \<Longrightarrow> modify_opt m q (s a) = Ret (put s q a m)"
  by (cases q) (auto simp: put_Some)

lemma modify_opt_ends:
  "set xs \<subseteq> dom m \<Longrightarrow> modify_opt m (first_or xs None) (s a) = Ret (put s (first_or xs None) a m)"
  "set xs \<subseteq> dom m \<Longrightarrow> modify_opt m (last_or xs None) (s a) = Ret (put s (last_or xs None) a m)"
  by (rule modify_opt_put; blast dest: first_or_in last_or_in)+

lemma dseg_append:
  "dseg gp gn m p (xs @ ys) n \<longleftrightarrow>
   dseg gp gn m p xs (first_or ys n) \<and> dseg gp gn m (last_or xs p) ys n"
  by (induction xs arbitrary: p) (auto simp: first_or_append split: option.splits)

lemma dseg_cong:
  assumes "\<And>x. x \<in> set xs \<Longrightarrow>
    map_option (\<lambda>v. (gp v, gn v)) (m' x) = map_option (\<lambda>v. (gp v, gn v)) (m x)"
  shows "dseg gp gn m' p xs n \<longleftrightarrow> dseg gp gn m p xs n"
  using assms
proof (induction xs arbitrary: p)
  case Nil
  show ?case by simp
next
  case (Cons x xs)
  have "dseg gp gn m' (Some x) xs n \<longleftrightarrow> dseg gp gn m (Some x) xs n"
    using Cons.prems by (intro Cons.IH) simp
  moreover have "map_option (\<lambda>v. (gp v, gn v)) (m' x) = map_option (\<lambda>v. (gp v, gn v)) (m x)"
    using Cons.prems by simp
  ultimately show ?case by (cases "m x"; cases "m' x") simp_all
qed

lemma dseg_frame:
  "(\<And>x. x \<in> set xs \<Longrightarrow> m' x = m x) \<Longrightarrow> dseg gp gn m' p xs n \<longleftrightarrow> dseg gp gn m p xs n"
  by (rule dseg_cong) simp

lemma dseg_dom: "dseg gp gn m p xs n \<Longrightarrow> set xs \<subseteq> dom m"
  by (induction xs arbitrary: p) (auto split: option.splits)

lemma dseg_member:
  "dseg gp gn m p (xs @ x # ys) n \<Longrightarrow>
   \<exists>v. m x = Some v \<and> gp v = last_or xs p \<and> gn v = first_or ys n"
  by (auto simp: dseg_append split: option.splits)

lemma dseg_unique:
  assumes "dseg gp gn m p xs None" "dseg gp gn m q ys None" "first_or xs None = first_or ys None"
  shows "xs = ys"
  using assms
proof (induction xs arbitrary: p q ys)
  case Nil
  then show ?case by (cases ys) auto
next
  case (Cons x xs)
  then obtain ys' where ys: "ys = x # ys'" by (cases ys) auto
  from Cons.prems ys have "dseg gp gn m (Some x) xs None" "dseg gp gn m (Some x) ys' None"
    "first_or xs None = first_or ys' None"
    by (auto split: option.splits)
  then have "xs = ys'" by (rule Cons.IH)
  with ys show ?case by simp
qed

section \<open>Nodes with two independent link fields\<close>

locale linked_node =
  fixes gp gn :: "'n \<Rightarrow> ptr option"
    and sp sn :: "ptr option \<Rightarrow> 'n \<Rightarrow> 'n"
  assumes gp_sp: "gp (sp a v) = a" and gn_sp: "gn (sp a v) = gn v"
    and gn_sn: "gn (sn a v) = a" and gp_sn: "gp (sn a v) = gp v"
begin

lemma put_last:
  assumes "dseg gp gn m p xs n" "distinct xs"
  shows "dseg gp gn (put sn (last_or xs None) n' m) p xs n'"
  using assms
proof (cases xs rule: rev_cases)
  case (snoc ys y)
  have "dseg gp gn (put sn (Some y) n' m) p ys (Some y) \<longleftrightarrow> dseg gp gn m p ys (Some y)"
    using assms(2) snoc by (intro dseg_frame put_other) auto
  with assms snoc show ?thesis
    by (auto simp: dseg_append gp_sn gn_sn split: option.splits)
qed simp

lemma put_first:
  assumes "dseg gp gn m p xs n" "distinct xs"
  shows "dseg gp gn (put sp (first_or xs None) p' m) p' xs n"
  using assms
proof (cases xs)
  case (Cons y ys)
  have "dseg gp gn (put sp (Some y) p' m) (Some y) ys n \<longleftrightarrow> dseg gp gn m (Some y) ys n"
    using assms(2) Cons by (intro dseg_frame put_other) auto
  with assms Cons show ?thesis
    by (auto simp: gp_sp gn_sp split: option.splits)
qed simp

lemma put_frame:
  assumes "dseg gp gn m p xs n" "\<And>q. o' = Some q \<Longrightarrow> q \<notin> set xs"
  shows "dseg gp gn (put s o' a m) p xs n"
proof -
  have "dseg gp gn (put s o' a m) p xs n \<longleftrightarrow> dseg gp gn m p xs n"
    using assms(2) by (intro dseg_frame put_other) auto
  with assms(1) show ?thesis by simp
qed

lemma upd_frame: "dseg gp gn m p xs n \<Longrightarrow> x \<notin> set xs \<Longrightarrow> dseg gp gn (m(x := v)) p xs n"
  by (subst dseg_frame [of xs _ m]) auto

text \<open>Taking one object out: its neighbours are pointed at each other.\<close>

lemma unlink:
  assumes seg: "dseg gp gn m None (xs @ x # ys) None" and dist: "distinct (xs @ x # ys)"
  shows "dseg gp gn (put sp (first_or ys None) (last_or xs None)
           (put sn (last_or xs None) (first_or ys None) m)) None (xs @ ys) None"
proof -
  let ?m1 = "put sn (last_or xs None) (first_or ys None) m"
  let ?m2 = "put sp (first_or ys None) (last_or xs None) ?m1"
  from seg have "dseg gp gn m None xs (Some x)" and ys: "dseg gp gn m (Some x) ys None"
    by (auto simp: dseg_append)
  then have xs1: "dseg gp gn ?m1 None xs (first_or ys None)"
    using dist by (intro put_last) auto
  have "dseg gp gn ?m1 (Some x) ys None"
    using dist by (intro put_frame [OF ys]) (auto dest: last_or_in)
  then have ys2: "dseg gp gn ?m2 (last_or xs None) ys None"
    using dist by (intro put_first) auto
  have "dseg gp gn ?m2 None xs (first_or ys None)"
    using dist by (intro put_frame [OF xs1]) (auto dest: first_or_in)
  with ys2 show ?thesis by (simp add: dseg_append)
qed

text \<open>Putting a fresh object \<open>d\<close> between a list and the rest.\<close>

lemma link_between:
  assumes seg: "dseg gp gn m None (xs @ ys) None" and dist: "distinct (xs @ ys)"
    and fresh: "d \<notin> set (xs @ ys)" and v: "gp v = last_or xs None" "gn v = first_or ys None"
  shows "dseg gp gn (put sn (last_or xs None) (Some d)
           (put sp (first_or ys None) (Some d) (m(d \<mapsto> v)))) None (xs @ d # ys) None"
proof -
  let ?m1 = "m(d \<mapsto> v)"
  let ?m2 = "put sp (first_or ys None) (Some d) ?m1"
  let ?m3 = "put sn (last_or xs None) (Some d) ?m2"
  have xs1: "dseg gp gn ?m1 None xs (first_or ys None)"
    and ys1: "dseg gp gn ?m1 (last_or xs None) ys None"
    using seg fresh by (auto simp: dseg_append intro: upd_frame)
  have ys2: "dseg gp gn ?m2 (Some d) ys None"
    using dist by (intro put_first [OF ys1]) auto
  have xs2: "dseg gp gn ?m2 None xs (first_or ys None)"
    using dist by (intro put_frame [OF xs1]) (auto dest: first_or_in)
  have xs3: "dseg gp gn ?m3 None xs (Some d)"
    using dist by (intro put_last [OF xs2]) auto
  have ys3: "dseg gp gn ?m3 (Some d) ys None"
    using dist by (intro put_frame [OF ys2]) (auto dest: last_or_in)
  have "?m3 d = Some v"
    using fresh by (auto simp: put_def split: option.splits dest: first_or_in last_or_in)
  with v xs3 ys3 show ?thesis by (simp add: dseg_append)
qed

end

end
