(* ===== verification/Mdb.thy ===== *)
theory Mdb
  imports Caps Links
begin

text \<open>
  The capability derivation chain (MDB) of \<open>objects/cnode.rs\<close>: every slot carries
  \<open>mdb_prev\<close>/\<open>mdb_next\<close>, and \<open>mdb_insert_after\<close>, \<open>mdb_remove\<close> and
  \<open>revoke\<close> maintain the doubly linked chain. The operations are modelled statement by
  statement on the slot store, including the reads of whole entries into local copies.
\<close>

section \<open>Slots\<close>

definition CNodeEntry_new :: CapRaw where
  "CNodeEntry_new = \<lparr>arg1 = 0, arg2 = 0, paddr = 0, cap_type = NullObj, rights = R_NONE,
     mdb_prev = None, mdb_next = None\<rparr>"

definition entry_get :: "cstore \<Rightarrow> ptr \<Rightarrow> CapRaw outcome" where
  "entry_get st p = deref st p"

definition entry_set :: "cstore \<Rightarrow> ptr \<Rightarrow> CapRaw \<Rightarrow> cstore outcome" where
  "entry_set st p cap = modify st p (\<lambda>_. cap)"

definition is_null :: "CapRaw \<Rightarrow> bool" where
  "is_null raw \<longleftrightarrow> cap_type raw = NullObj"

definition mdb_isolated :: "CapRaw \<Rightarrow> bool" where
  "mdb_isolated raw \<longleftrightarrow> mdb_prev raw = None \<and> mdb_next raw = None"

section \<open>Chain operations\<close>

definition mdb_insert_after :: "cstore \<Rightarrow> ptr \<Rightarrow> ptr \<Rightarrow> cstore outcome" where
  "mdb_insert_after st src dst =
     obind (entry_get st src) (\<lambda>src_raw.
     obind (entry_get st dst) (\<lambda>dst_raw.
       let orig_next = mdb_next src_raw in
     obind (entry_set st dst (dst_raw\<lparr>mdb_prev := Some src, mdb_next := orig_next\<rparr>)) (\<lambda>st1.
     obind (modify_opt st1 orig_next (\<lambda>next_raw. next_raw\<lparr>mdb_prev := Some dst\<rparr>)) (\<lambda>st2.
       entry_set st2 src (src_raw\<lparr>mdb_next := Some dst\<rparr>)))))"

definition mdb_remove :: "cstore \<Rightarrow> ptr \<Rightarrow> cstore outcome" where
  "mdb_remove st self =
     obind (entry_get st self) (\<lambda>self_raw.
       let prev = mdb_prev self_raw; nxt = mdb_next self_raw in
     obind (modify_opt st prev (\<lambda>prev_raw. prev_raw\<lparr>mdb_next := nxt\<rparr>)) (\<lambda>st1.
     obind (modify_opt st1 nxt (\<lambda>next_raw. next_raw\<lparr>mdb_prev := prev\<rparr>)) (\<lambda>st2.
       entry_set st2 self (self_raw\<lparr>mdb_prev := None, mdb_next := None\<rparr>))))"

definition is_nullified :: "CapRaw \<Rightarrow> bool" where
  "is_nullified raw \<longleftrightarrow> cap_type raw = NullObj \<and> rights raw = R_NONE \<and> paddr raw = 0 \<and>
     arg1 raw = 0 \<and> arg2 raw = 0"

definition erase :: "CapRaw \<Rightarrow> CapRaw" where
  "erase raw = raw\<lparr>cap_type := NullObj, rights := R_NONE, paddr := 0, arg1 := 0, arg2 := 0\<rparr>"

text \<open>One turn of the loop of \<open>revoke\<close>: erase the entry, take it out of the chain.\<close>

definition revoke_step :: "cstore \<Rightarrow> ptr \<Rightarrow> (cstore \<times> ptr option) outcome" where
  "revoke_step st p =
     obind (entry_get st p) (\<lambda>raw.
       let cur = mdb_next raw in
     obind (entry_set st p (erase raw)) (\<lambda>st1.
     obind (mdb_remove st1 p) (\<lambda>st2. Ret (st2, cur))))"

partial_function (option) revoke_loop :: "cstore \<Rightarrow> ptr option \<Rightarrow> cstore outcome option" where
  "revoke_loop st cur =
     (case cur of
        None \<Rightarrow> Some (Ret st)
      | Some p \<Rightarrow>
          (case revoke_step st p of
             Ret r \<Rightarrow> revoke_loop (fst r) (snd r)
           | Panic \<Rightarrow> Some Panic
           | Fault \<Rightarrow> Some Fault))"

declare revoke_loop.simps [code]

definition revoke :: "cstore \<Rightarrow> ptr \<Rightarrow> cstore outcome option" where
  "revoke st self =
     (case entry_get st self of
        Ret raw \<Rightarrow> revoke_loop st (mdb_next raw)
      | Panic \<Rightarrow> Some Panic
      | Fault \<Rightarrow> Some Fault)"

section \<open>Chains\<close>

text \<open>
  The source states what a chain is as ghost code (\<open>MdbChainGhost\<close>): the first entry has
  no predecessor, the last no successor, neighbours are linked both ways, and no entry occurs
  twice. \<open>mdb_chain\<close> is the same in the form the proofs use.
\<close>

definition adjacent_linked :: "cstore \<Rightarrow> ptr list \<Rightarrow> nat \<Rightarrow> bool" where
  "adjacent_linked st es i =
     (case (st (es ! i), st (es ! Suc i)) of
        (Some cur, Some nxt) \<Rightarrow>
          mdb_next cur = Some (es ! Suc i) \<and> mdb_prev nxt = Some (es ! i)
      | _ \<Rightarrow> False)"

definition well_formed :: "cstore \<Rightarrow> ptr list \<Rightarrow> bool" where
  "well_formed st es \<longleftrightarrow>
     (es \<noteq> [] \<longrightarrow> (\<exists>r. st (es ! 0) = Some r \<and> mdb_prev r = None)) \<and>
     (es \<noteq> [] \<longrightarrow> (\<exists>r. st (es ! (length es - 1)) = Some r \<and> mdb_next r = None)) \<and>
     (\<forall>i < length es - 1. adjacent_linked st es i)"

definition acyclic_chain :: "ptr list \<Rightarrow> bool" where
  "acyclic_chain es \<longleftrightarrow> (\<forall>i j. i < j \<and> j < length es \<longrightarrow> es ! i \<noteq> es ! j)"

abbreviation mdb_seg :: "cstore \<Rightarrow> ptr option \<Rightarrow> ptr list \<Rightarrow> ptr option \<Rightarrow> bool" where
  "mdb_seg \<equiv> dseg mdb_prev mdb_next"

definition mdb_chain :: "cstore \<Rightarrow> ptr list \<Rightarrow> bool" where
  "mdb_chain st xs \<longleftrightarrow> mdb_seg st None xs None \<and> distinct xs"

text \<open>What a slot holds apart from its links.\<close>

definition contents :: "CapRaw \<Rightarrow> CapRaw" where
  "contents raw = raw\<lparr>mdb_prev := None, mdb_next := None\<rparr>"

interpretation mdb: linked_node mdb_prev mdb_next
    "\<lambda>a v. v\<lparr>mdb_prev := a\<rparr>" "\<lambda>a v. v\<lparr>mdb_next := a\<rparr>"
  by unfold_locales simp_all

lemma contents_links [simp]:
  "contents (v\<lparr>mdb_prev := a\<rparr>) = contents v" "contents (v\<lparr>mdb_next := b\<rparr>) = contents v"
  by (simp_all add: contents_def)

lemma put_contents [simp]:
  "map_option contents (put (\<lambda>a v. v\<lparr>mdb_prev := a\<rparr>) q a m x) = map_option contents (m x)"
  "map_option contents (put (\<lambda>a v. v\<lparr>mdb_next := a\<rparr>) q a m x) = map_option contents (m x)"
  by (cases "q = Some x"; cases "m x"; simp add: put_other)+

lemmas slot_simps = entry_get_def entry_set_def

subsection \<open>The ghost predicate and the list predicate agree\<close>

lemma mdb_seg_nth:
  "mdb_seg st p xs n \<longleftrightarrow>
     (\<forall>i < length xs. \<exists>r. st (xs ! i) = Some r \<and>
        mdb_prev r = (if i = 0 then p else Some (xs ! (i - 1))) \<and>
        mdb_next r = (if Suc i = length xs then n else Some (xs ! Suc i)))"
proof (induction xs arbitrary: p)
  case Nil
  show ?case by simp
next
  case (Cons x xs)
  have first: "first_or xs n = (if xs = [] then n else Some (xs ! 0))"
    by (cases xs) auto
  have shift: "Some ((x # xs) ! i) = (if i = 0 then Some x else Some (xs ! (i - 1)))" for i
    by (cases i) auto
  have hd_case: "(case st x of None \<Rightarrow> False | Some v \<Rightarrow> mdb_prev v = p \<and> mdb_next v = first_or xs n)
      \<longleftrightarrow> (\<exists>r. st x = Some r \<and> mdb_prev r = p \<and>
            mdb_next r = (if xs = [] then n else Some (xs ! 0)))"
    by (simp add: first split: option.splits)
  show ?case
    by (simp add: All_less_Suc2 Cons.IH hd_case shift del: nth_Cons_Suc)
qed

lemma distinct_acyclic: "distinct es \<longleftrightarrow> acyclic_chain es"
proof
  show "distinct es \<Longrightarrow> acyclic_chain es"
    by (auto simp: acyclic_chain_def nth_eq_iff_index_eq)
  assume ac: "acyclic_chain es"
  have "es ! i \<noteq> es ! j" if "i < length es" "j < length es" "i \<noteq> j" for i j
    using ac that by (cases i j rule: linorder_cases) (fastforce simp: acyclic_chain_def)+
  then show "distinct es" by (simp add: distinct_conv_nth)
qed

lemma mdb_chain_well_formed:
  "mdb_chain st es \<longleftrightarrow> well_formed st es \<and> acyclic_chain es"
proof (cases "es = []")
  case True
  then show ?thesis by (simp add: mdb_chain_def well_formed_def acyclic_chain_def)
next
  case False
  have "mdb_seg st None es None \<longleftrightarrow> well_formed st es"
  proof
    assume seg: "mdb_seg st None es None"
    have nth: "\<exists>r. st (es ! i) = Some r \<and> mdb_prev r = (if i = 0 then None else Some (es ! (i - 1)))
        \<and> mdb_next r = (if Suc i = length es then None else Some (es ! Suc i))"
      if "i < length es" for i
      using seg that by (simp add: mdb_seg_nth)
    have "adjacent_linked st es i" if i: "i < length es - 1" for i
    proof -
      from i have "i < length es" "Suc i < length es" by auto
      with nth [of i] nth [of "Suc i"] show ?thesis by (auto simp: adjacent_linked_def)
    qed
    then show "well_formed st es"
      using nth [of 0] nth [of "length es - 1"] False by (auto simp: well_formed_def)
  next
    assume wf: "well_formed st es"
    have adj: "\<exists>a b. st (es ! i) = Some a \<and> st (es ! Suc i) = Some b \<and>
        mdb_next a = Some (es ! Suc i) \<and> mdb_prev b = Some (es ! i)" if i: "Suc i < length es" for i
    proof -
      from wf i have "adjacent_linked st es i" by (simp add: well_formed_def)
      then show ?thesis by (simp add: adjacent_linked_def split: option.splits)
    qed
    have "\<exists>r. st (es ! i) = Some r \<and> mdb_prev r = (if i = 0 then None else Some (es ! (i - 1)))
        \<and> mdb_next r = (if Suc i = length es then None else Some (es ! Suc i))"
      if i: "i < length es" for i
    proof -
      have "\<exists>r. st (es ! i) = Some r \<and> mdb_prev r = (if i = 0 then None else Some (es ! (i - 1)))"
      proof (cases i)
        case 0
        with wf False show ?thesis by (simp add: well_formed_def)
      next
        case (Suc j)
        with i adj [of j] show ?thesis by auto
      qed
      then obtain r where r: "st (es ! i) = Some r"
        "mdb_prev r = (if i = 0 then None else Some (es ! (i - 1)))"
        by blast
      moreover have "mdb_next r = (if Suc i = length es then None else Some (es ! Suc i))"
      proof (cases "Suc i = length es")
        case True
        then have "i = length es - 1" by simp
        with True wf \<open>es \<noteq> []\<close> r(1) show ?thesis by (simp add: well_formed_def)
      next
        case False
        with i have "Suc i < length es" by simp
        with False adj [of i] r(1) show ?thesis by auto
      qed
      ultimately show ?thesis by blast
    qed
    then show "mdb_seg st None es None" by (simp add: mdb_seg_nth)
  qed
  then show ?thesis by (simp add: mdb_chain_def distinct_acyclic)
qed

section \<open>The operations on a chain\<close>

text \<open>
  On a chain, each operation is a fixed composition of the link writes of \<open>linked_node\<close>.
\<close>

lemma mdb_remove_eq:
  assumes seg: "mdb_seg st None (xs @ x # ys) None" and dist: "distinct (xs @ x # ys)"
    and x: "st x = Some raw"
  shows "mdb_remove st x = Ret ((put (\<lambda>a v. v\<lparr>mdb_prev := a\<rparr>) (first_or ys None) (last_or xs None)
      (put (\<lambda>a v. v\<lparr>mdb_next := a\<rparr>) (last_or xs None) (first_or ys None) st))
      (x \<mapsto> raw\<lparr>mdb_prev := None, mdb_next := None\<rparr>))" (is "_ = Ret (?m2(x \<mapsto> _))")
proof -
  let ?m1 = "put (\<lambda>a v. v\<lparr>mdb_next := a\<rparr>) (last_or xs None) (first_or ys None) st"
  from dseg_member [OF seg] x
  have links: "mdb_prev raw = last_or xs None" "mdb_next raw = first_or ys None" by auto
  from dseg_dom [OF seg] have dom: "set xs \<subseteq> dom st" "set ys \<subseteq> dom st" by auto
  have one: "modify_opt st (last_or xs None) (\<lambda>r. r\<lparr>mdb_next := first_or ys None\<rparr>) = Ret ?m1"
    using dom(1) by (rule modify_opt_ends)
  have two: "modify_opt ?m1 (first_or ys None) (\<lambda>r. r\<lparr>mdb_prev := last_or xs None\<rparr>) = Ret ?m2"
    by (rule modify_opt_ends) (simp add: dom)
  have "?m2 x = Some raw"
    using x dist by simp
  with x links one two show ?thesis
    by (simp add: mdb_remove_def slot_simps Let_def)
qed

lemma mdb_remove_chain:
  assumes chain: "mdb_chain st (xs @ x # ys)"
  shows "\<exists>st'. mdb_remove st x = Ret st' \<and> mdb_chain st' (xs @ ys) \<and>
    (\<exists>r. st' x = Some r \<and> mdb_isolated r) \<and>
    (\<forall>p. map_option contents (st' p) = map_option contents (st p)) \<and>
    (\<forall>p. p \<notin> set (xs @ x # ys) \<longrightarrow> st' p = st p)"
proof -
  from chain have seg: "mdb_seg st None (xs @ x # ys) None" and dist: "distinct (xs @ x # ys)"
    by (auto simp: mdb_chain_def)
  from dseg_member [OF seg] obtain raw where raw: "st x = Some raw" by auto
  let ?m2 = "put (\<lambda>a v. v\<lparr>mdb_prev := a\<rparr>) (first_or ys None) (last_or xs None)
      (put (\<lambda>a v. v\<lparr>mdb_next := a\<rparr>) (last_or xs None) (first_or ys None) st)"
  let ?m3 = "?m2(x \<mapsto> raw\<lparr>mdb_prev := None, mdb_next := None\<rparr>)"
  from mdb.unlink [OF seg dist] have "mdb_seg ?m3 None (xs @ ys) None"
    using dist by (intro mdb.upd_frame) auto
  then have "mdb_chain ?m3 (xs @ ys)" using dist by (simp add: mdb_chain_def)
  moreover have "map_option contents (?m3 p) = map_option contents (st p)" for p
    using raw by (cases "p = x") (simp_all only: put_contents fun_upd_apply if_True if_False,
      simp add: contents_def)
  moreover have "?m3 p = st p" if "p \<notin> set (xs @ x # ys)" for p
    using that by simp
  ultimately show ?thesis
    using mdb_remove_eq [OF seg dist raw] by (auto simp: mdb_isolated_def)
qed

lemma mdb_insert_after_chain:
  assumes chain: "mdb_chain st (xs @ src # ys)" and dst: "st dst = Some draw"
    and fresh: "dst \<notin> set (xs @ src # ys)"
  shows "\<exists>st'. mdb_insert_after st src dst = Ret st' \<and> mdb_chain st' (xs @ src # dst # ys) \<and>
    (\<forall>p. map_option contents (st' p) = map_option contents (st p)) \<and>
    (\<forall>p. p \<notin> set (xs @ src # dst # ys) \<longrightarrow> st' p = st p)"
proof -
  from chain have seg: "mdb_seg st None ((xs @ [src]) @ ys) None" and dist: "distinct ((xs @ [src]) @ ys)"
    by (auto simp: mdb_chain_def)
  from dseg_member [of _ _ st None xs src ys None] seg
  obtain sraw where sraw: "st src = Some sraw" "mdb_next sraw = first_or ys None" by auto
  let ?d = "draw\<lparr>mdb_prev := Some src, mdb_next := first_or ys None\<rparr>"
  let ?m1 = "st(dst \<mapsto> ?d)"
  let ?m2 = "put (\<lambda>a v. v\<lparr>mdb_prev := a\<rparr>) (first_or ys None) (Some dst) ?m1"
  let ?m3 = "put (\<lambda>a v. v\<lparr>mdb_next := a\<rparr>) (Some src) (Some dst) ?m2"
  have "mdb_seg ?m3 None ((xs @ [src]) @ dst # ys) None"
    using mdb.link_between [OF seg dist, of dst ?d] fresh by simp
  then have "mdb_chain ?m3 (xs @ src # dst # ys)"
    using dist fresh by (auto simp: mdb_chain_def)
  moreover have "map_option contents (?m3 p) = map_option contents (st p)" for p
    using dst by (simp add: contents_def [of draw] contents_def [of ?d])
  moreover have "?m3 p = st p" if "p \<notin> set (xs @ src # dst # ys)" for p
    using that by (auto simp: put_other dest: first_or_in)
  moreover have "mdb_insert_after st src dst = Ret ?m3"
  proof -
    have "set ys \<subseteq> dom ?m1" using dseg_dom [OF seg] by auto
    then have two: "modify_opt ?m1 (first_or ys None) (\<lambda>r. r\<lparr>mdb_prev := Some dst\<rparr>) = Ret ?m2"
      by (rule modify_opt_ends)
    have "?m2 src = Some sraw"
      using sraw dist fresh by auto
    with sraw dst two show ?thesis
      by (simp add: mdb_insert_after_def slot_simps put_Some Let_def)
  qed
  ultimately show ?thesis by blast
qed

lemma erase_contents: "contents (erase raw) = CapRaw_default"
  by (simp add: erase_def contents_def CapRaw_default_def)

lemma contents_isolated: "mdb_isolated r \<Longrightarrow> contents r = r"
  by (simp add: contents_def mdb_isolated_def)

lemma revoke_step_chain:
  assumes chain: "mdb_chain st (xs @ x # ys)"
  shows "\<exists>st'. revoke_step st x = Ret (st', first_or ys None) \<and> mdb_chain st' (xs @ ys) \<and>
    st' x = Some CapRaw_default \<and>
    (\<forall>p. p \<noteq> x \<longrightarrow> map_option contents (st' p) = map_option contents (st p)) \<and>
    (\<forall>p. p \<notin> set (xs @ x # ys) \<longrightarrow> st' p = st p)"
proof -
  from chain have seg: "mdb_seg st None (xs @ x # ys) None" by (simp add: mdb_chain_def)
  from dseg_member [OF seg] obtain raw where
    raw: "st x = Some raw" "mdb_next raw = first_or ys None" by auto
  let ?st1 = "st(x \<mapsto> erase raw)"
  have "mdb_seg ?st1 None (xs @ x # ys) None \<longleftrightarrow> mdb_seg st None (xs @ x # ys) None"
    using raw by (intro dseg_cong) (auto simp: erase_def)
  with chain have "mdb_chain ?st1 (xs @ x # ys)" by (simp add: mdb_chain_def)
  from mdb_remove_chain [OF this] obtain st' r where
    st': "mdb_remove ?st1 x = Ret st'" "mdb_chain st' (xs @ ys)" "st' x = Some r" "mdb_isolated r"
    "\<And>p. map_option contents (st' p) = map_option contents (?st1 p)"
    "\<And>p. p \<notin> set (xs @ x # ys) \<Longrightarrow> st' p = ?st1 p"
    by blast
  have "contents r = contents (erase raw)" using st'(3) st'(5) [of x] by simp
  then have "r = CapRaw_default" by (simp only: erase_contents contents_isolated [OF st'(4)])
  moreover have "revoke_step st x = Ret (st', first_or ys None)"
    using raw st'(1) by (simp add: revoke_step_def slot_simps Let_def)
  moreover have "map_option contents (st' p) = map_option contents (st p)" if "p \<noteq> x" for p
    using st'(5) [of p] that by simp
  moreover have "st' p = st p" if "p \<notin> set (xs @ x # ys)" for p
    using st'(6) [OF that] that by simp
  ultimately show ?thesis using st'(2,3) by blast
qed

lemma revoke_loop_chain:
  assumes "mdb_chain st (xs @ ys)"
  shows "\<exists>st'. revoke_loop st (first_or ys None) = Some (Ret st') \<and> mdb_chain st' xs \<and>
    (\<forall>p \<in> set ys. st' p = Some CapRaw_default) \<and>
    (\<forall>p. p \<notin> set ys \<longrightarrow> map_option contents (st' p) = map_option contents (st p)) \<and>
    (\<forall>p. p \<notin> set (xs @ ys) \<longrightarrow> st' p = st p)"
  using assms
proof (induction ys arbitrary: st)
  case Nil
  then show ?case by (subst revoke_loop.simps) simp
next
  case (Cons y ys)
  from revoke_step_chain [OF Cons.prems] obtain st1 where
    st1: "revoke_step st y = Ret (st1, first_or ys None)" "mdb_chain st1 (xs @ ys)"
    "st1 y = Some CapRaw_default"
    "\<And>p. p \<noteq> y \<Longrightarrow> map_option contents (st1 p) = map_option contents (st p)"
    "\<And>p. p \<notin> set (xs @ y # ys) \<Longrightarrow> st1 p = st p" by blast
  from Cons.IH [OF st1(2)] obtain st' where
    st': "revoke_loop st1 (first_or ys None) = Some (Ret st')" "mdb_chain st' xs"
    "\<And>p. p \<in> set ys \<Longrightarrow> st' p = Some CapRaw_default"
    "\<And>p. p \<notin> set ys \<Longrightarrow> map_option contents (st' p) = map_option contents (st1 p)"
    "\<And>p. p \<notin> set (xs @ ys) \<Longrightarrow> st' p = st1 p" by blast
  have y: "y \<notin> set (xs @ ys)" using Cons.prems by (auto simp: mdb_chain_def)
  then have "st' y = Some CapRaw_default" using st'(5) st1(3) by simp
  moreover have "revoke_loop st (first_or (y # ys) None) = Some (Ret st')"
    using st1(1) st'(1) by (subst revoke_loop.simps) simp
  moreover have "map_option contents (st' p) = map_option contents (st p)" if "p \<notin> set (y # ys)" for p
    using st'(4) [of p] st1(4) [of p] that by simp
  moreover have "st' p = st p" if "p \<notin> set (xs @ y # ys)" for p
    using st'(5) [of p] st1(5) [of p] that by simp
  ultimately show ?case using st'(2,3) by (intro exI [of _ st']) auto
qed

lemma revoke_chain:
  assumes chain: "mdb_chain st (xs @ self # ys)"
  shows "\<exists>st'. revoke st self = Some (Ret st') \<and> mdb_chain st' (xs @ [self]) \<and>
    (\<forall>p \<in> set ys. st' p = Some CapRaw_default) \<and>
    (\<forall>p. p \<notin> set ys \<longrightarrow> map_option contents (st' p) = map_option contents (st p)) \<and>
    (\<forall>p. p \<notin> set (xs @ self # ys) \<longrightarrow> st' p = st p)"
proof -
  from chain have "mdb_seg st None (xs @ self # ys) None" by (simp add: mdb_chain_def)
  from dseg_member [OF this] obtain raw where
    raw: "st self = Some raw" "mdb_next raw = first_or ys None" by auto
  then have "revoke st self = revoke_loop st (first_or ys None)"
    by (simp add: revoke_def slot_simps)
  with revoke_loop_chain [of st "xs @ [self]" ys] chain show ?thesis by simp
qed

text \<open>The links of a chain are determined by its list of addresses.\<close>

lemma mdb_chain_determines:
  assumes "mdb_chain st xs" "mdb_chain st' xs" "p \<in> set xs"
    and "map_option contents (st' p) = map_option contents (st p)"
  shows "st' p = st p"
proof -
  from assms(3) obtain as bs where xs: "xs = as @ p # bs" by (auto dest: split_list)
  with assms(1,2) have "mdb_seg st None (as @ p # bs) None" "mdb_seg st' None (as @ p # bs) None"
    by (simp_all add: mdb_chain_def)
  from this [THEN dseg_member] obtain v v' where v: "st p = Some v" "mdb_prev v = last_or as None"
      "mdb_next v = first_or bs None"
    and v': "st' p = Some v'" "mdb_prev v' = last_or as None" "mdb_next v' = first_or bs None"
    by blast
  from assms(4) v(1) v'(1) have "contents v' = contents v" by simp
  then have "v' = v" using v(2,3) v'(2,3) by (cases v; cases v') (simp add: contents_def)
  with v(1) v'(1) show ?thesis by simp
qed

section \<open>Properties\<close>

text \<open>A concrete store: the chain 0x1000, 0x1040, 0x1080 and the isolated slot 0x10c0.\<close>

definition demo_slot :: "ptr option \<Rightarrow> ptr option \<Rightarrow> CapRaw" where
  "demo_slot p n = \<lparr>arg1 = 0, arg2 = 12, paddr = 0x200000, cap_type = Untyped,
     rights = R_CONTROL, mdb_prev = p, mdb_next = n\<rparr>"

definition demo_store :: cstore where
  "demo_store = [0x1000 \<mapsto> demo_slot None (Some 0x1040),
     0x1040 \<mapsto> demo_slot (Some 0x1000) (Some 0x1080),
     0x1080 \<mapsto> demo_slot (Some 0x1040) None, 0x10c0 \<mapsto> demo_slot None None]"

lemma demo_store_wf:
  "well_formed demo_store [0x1000, 0x1040, 0x1080]" "acyclic_chain [0x1000, 0x1040, 0x1080]"
proof -
  have "mdb_chain demo_store [0x1000, 0x1040, 0x1080]"
    by (simp add: mdb_chain_def demo_store_def demo_slot_def)
  then show "well_formed demo_store [0x1000, 0x1040, 0x1080]" "acyclic_chain [0x1000, 0x1040, 0x1080]"
    by (simp_all add: mdb_chain_well_formed)
qed

text \<open>
  Claim C13. On a well-formed acyclic chain, \<open>mdb_insert_after\<close> of a slot that is not in
  the chain succeeds, puts the slot right behind its source, keeps the chain well-formed and
  acyclic, changes nothing but link fields, and touches no slot outside the chain.
\<close>

theorem mdb_insert_after_correct:
  assumes "well_formed st (xs @ src # ys)" "acyclic_chain (xs @ src # ys)"
    and "dst \<in> dom st" "dst \<notin> set (xs @ src # ys)"
  shows "\<exists>st'. mdb_insert_after st src dst = Ret st' \<and>
    well_formed st' (xs @ src # dst # ys) \<and> acyclic_chain (xs @ src # dst # ys) \<and>
    (\<forall>p. map_option contents (st' p) = map_option contents (st p)) \<and>
    (\<forall>p. p \<notin> set (xs @ src # dst # ys) \<longrightarrow> st' p = st p)"
proof -
  from assms(1,2) have "mdb_chain st (xs @ src # ys)" by (simp add: mdb_chain_well_formed)
  moreover from assms(3) obtain draw where "st dst = Some draw" by blast
  ultimately obtain st' where "mdb_insert_after st src dst = Ret st'"
    "mdb_chain st' (xs @ src # dst # ys)"
    "\<forall>p. map_option contents (st' p) = map_option contents (st p)"
    "\<forall>p. p \<notin> set (xs @ src # dst # ys) \<longrightarrow> st' p = st p"
    using mdb_insert_after_chain assms(4) by blast
  then show ?thesis by (auto simp: mdb_chain_well_formed)
qed

theorem mdb_insert_after_correct_witness:
  "\<exists>st'. mdb_insert_after demo_store 0x1040 0x10c0 = Ret st' \<and>
    well_formed st' [0x1000, 0x1040, 0x10c0, 0x1080]"
  using mdb_insert_after_correct [of demo_store "[0x1000]" "0x1040" "[0x1080]" "0x10c0"] demo_store_wf
  by (auto simp: demo_store_def)

text \<open>
  Claim C14. On a well-formed acyclic chain, \<open>mdb_remove\<close> of any member succeeds, leaves
  the chain without it well-formed and acyclic, leaves the member isolated, changes nothing
  but link fields, and touches no slot outside the chain.
\<close>

theorem mdb_remove_correct:
  assumes "well_formed st (xs @ x # ys)" "acyclic_chain (xs @ x # ys)"
  shows "\<exists>st'. mdb_remove st x = Ret st' \<and> well_formed st' (xs @ ys) \<and> acyclic_chain (xs @ ys) \<and>
    (\<exists>r. st' x = Some r \<and> mdb_isolated r) \<and>
    (\<forall>p. map_option contents (st' p) = map_option contents (st p)) \<and>
    (\<forall>p. p \<notin> set (xs @ x # ys) \<longrightarrow> st' p = st p)"
  using mdb_remove_chain [of st xs x ys] assms by (simp only: mdb_chain_well_formed) blast

theorem mdb_remove_correct_witness:
  "\<exists>st'. mdb_remove demo_store 0x1040 = Ret st' \<and> well_formed st' [0x1000, 0x1080]"
  using mdb_remove_correct [of demo_store "[0x1000]" "0x1040" "[0x1080]"] demo_store_wf by auto

text \<open>
  Claim C2. \<open>revoke\<close> on a member of a well-formed acyclic chain terminates: every entry
  behind the member becomes the null capability without links, the chain up to and including
  the member stays well-formed and acyclic, the contents of all other slots are kept, and
  slots outside the chain are untouched.
\<close>

theorem revoke_correct:
  assumes "well_formed st (xs @ self # ys)" "acyclic_chain (xs @ self # ys)"
  shows "\<exists>st'. revoke st self = Some (Ret st') \<and>
    well_formed st' (xs @ [self]) \<and> acyclic_chain (xs @ [self]) \<and>
    (\<forall>p \<in> set ys. \<exists>r. st' p = Some r \<and> is_nullified r \<and> mdb_isolated r) \<and>
    (\<forall>p. p \<notin> set ys \<longrightarrow> map_option contents (st' p) = map_option contents (st p)) \<and>
    (\<forall>p. p \<notin> set (xs @ self # ys) \<longrightarrow> st' p = st p)"
proof -
  have null: "is_nullified CapRaw_default" "mdb_isolated CapRaw_default"
    by (simp_all add: is_nullified_def mdb_isolated_def CapRaw_default_def)
  from assms have "mdb_chain st (xs @ self # ys)" by (simp add: mdb_chain_well_formed)
  from revoke_chain [OF this] obtain st' where st': "revoke st self = Some (Ret st')"
    "mdb_chain st' (xs @ [self])" "\<forall>p \<in> set ys. st' p = Some CapRaw_default"
    "\<forall>p. p \<notin> set ys \<longrightarrow> map_option contents (st' p) = map_option contents (st p)"
    "\<forall>p. p \<notin> set (xs @ self # ys) \<longrightarrow> st' p = st p"
    by blast
  from st'(3) null have "\<forall>p \<in> set ys. \<exists>r. st' p = Some r \<and> is_nullified r \<and> mdb_isolated r"
    by blast
  with st' show ?thesis by (simp only: mdb_chain_well_formed) blast
qed

theorem revoke_correct_witness:
  "\<exists>st'. revoke demo_store 0x1000 = Some (Ret st') \<and> well_formed st' [0x1000] \<and>
    (\<exists>r. st' 0x1080 = Some r \<and> is_nullified r)"
  using revoke_correct [of demo_store "[]" "0x1000" "[0x1040, 0x1080]"] demo_store_wf by auto

text \<open>
  Removing a slot right after it was inserted undoes the insertion: when the slot
  was isolated before, the whole store is as it was.
\<close>

theorem mdb_insert_remove_roundtrip:
  assumes "well_formed st (xs @ src # ys)" "acyclic_chain (xs @ src # ys)"
    and "st dst = Some draw" "mdb_isolated draw" "dst \<notin> set (xs @ src # ys)"
  shows "obind (mdb_insert_after st src dst) (\<lambda>st1. mdb_remove st1 dst) = Ret st"
proof -
  from assms(1,2) have chain: "mdb_chain st (xs @ src # ys)" by (simp add: mdb_chain_well_formed)
  from mdb_insert_after_chain [OF chain assms(3,5)] obtain st1 where
    st1: "mdb_insert_after st src dst = Ret st1" "mdb_chain st1 ((xs @ [src]) @ dst # ys)"
    "\<And>p. map_option contents (st1 p) = map_option contents (st p)"
    "\<And>p. p \<notin> set (xs @ src # dst # ys) \<Longrightarrow> st1 p = st p" by auto
  from mdb_remove_chain [OF st1(2)] obtain st2 r where
    st2: "mdb_remove st1 dst = Ret st2" "mdb_chain st2 (xs @ src # ys)" "st2 dst = Some r"
    "mdb_isolated r" "\<And>p. map_option contents (st2 p) = map_option contents (st1 p)"
    "\<And>p. p \<notin> set ((xs @ [src]) @ dst # ys) \<Longrightarrow> st2 p = st1 p" by auto
  have "contents r = contents draw" using st2(3) st2(5) [of dst] st1(3) [of dst] assms(3) by simp
  then have "st2 dst = st dst"
    using st2(3,4) assms(3,4) by (simp add: contents_isolated)
  moreover have "st2 p = st p" if "p \<in> set (xs @ src # ys)" for p
    using mdb_chain_determines [OF chain st2(2) that] st2(5) [of p] st1(3) [of p] by simp
  moreover have "st2 p = st p" if "p \<notin> set (xs @ src # dst # ys)" for p
    using st2(6) [of p] st1(4) [of p] that by simp
  ultimately have "st2 p = st p" for p
    by (cases "p = dst"; cases "p \<in> set (xs @ src # ys)") auto
  then have "st2 = st" by (rule ext)
  with st1(1) st2(1) show ?thesis by simp
qed

theorem mdb_insert_remove_roundtrip_witness:
  "obind (mdb_insert_after demo_store 0x1000 0x10c0) (\<lambda>st1. mdb_remove st1 0x10c0) = Ret demo_store"
  using mdb_insert_remove_roundtrip [of demo_store "[]" "0x1000" "[0x1040, 0x1080]" "0x10c0"
      "demo_slot None None"] demo_store_wf
  by (simp add: demo_store_def demo_slot_def mdb_isolated_def)

end
