(* ===== verification/CNodes.thy ===== *)
theory CNodes
  imports Mdb
begin

text \<open>
  Capability nodes (\<open>CNodeCap\<close> of \<open>objects/cnode.rs\<close>): the encoding of radix and guard
  in the capability words, the slots of the node in memory, and initialisation.
\<close>

section \<open>Encoding\<close>

text \<open>
  A \<open>CNodeEntry\<close> holds three words, two one-byte enums and two optional non-null
  pointers, 42 bytes, in a type aligned to 32 bytes: \<open>size_of\<close> is 64, which is its own
  next power of two and has six trailing zeros.
\<close>

definition CNODE_DEPTH :: usize where "CNODE_DEPTH = 32"
definition CNODE_ENTRY_SZ :: usize where "CNODE_ENTRY_SZ = 64"
definition CNODE_ENTRY_BIT_SZ :: usize where "CNODE_ENTRY_BIT_SZ = 6"

definition GUARD_BITS :: nat where "GUARD_BITS = 6"
definition GUARD_OFFSET :: nat where "GUARD_OFFSET = 0"
definition RADIX_BITS :: nat where "RADIX_BITS = 6"
definition RADIX_OFFSET :: nat where "RADIX_OFFSET = GUARD_OFFSET + GUARD_BITS"

definition cnode_mask :: "nat \<Rightarrow> usize" where
  "cnode_mask bits = (if bits \<ge> 64 then - 1 else push_bit bits 1 - 1)"

text \<open>The specification functions of the source: the mask, and when a radix and a guard width are valid.\<close>

definition mask_spec :: "usize \<Rightarrow> usize" where
  "mask_spec bits = (if 64 \<le> bits then - 1 else push_bit (unat bits) 1 - 1)"

definition mint_valid :: "usize \<Rightarrow> usize \<Rightarrow> bool" where
  "mint_valid radix gbits \<longleftrightarrow> unat radix + unat gbits \<le> unat CNODE_DEPTH"

definition try_from_slot :: "CapRaw \<Rightarrow> CapRaw option" where
  "try_from_slot slot = (if cap_type slot = CNode then Some slot else None)"

definition guard_bits :: "CapRaw \<Rightarrow> usize" where
  "guard_bits raw = drop_bit GUARD_OFFSET (arg1 raw) AND cnode_mask GUARD_BITS"

definition radix_bits :: "CapRaw \<Rightarrow> usize" where
  "radix_bits raw = drop_bit RADIX_OFFSET (arg1 raw) AND cnode_mask RADIX_BITS"

definition cnode_size :: "CapRaw \<Rightarrow> usize" where
  "cnode_size raw = push_bit (unat (radix_bits raw)) 1"

definition cnode_guard :: "CapRaw \<Rightarrow> usize" where
  "cnode_guard raw = arg2 raw"

definition CNodeCap_mint :: "usize \<Rightarrow> usize \<Rightarrow> usize \<Rightarrow> usize \<Rightarrow> CapRights \<Rightarrow> CapRaw outcome" where
  "CNodeCap_mint addr radix gbits guard rts =
     (let guard_sz = gbits AND cnode_mask GUARD_BITS;
          radix_sz = radix AND cnode_mask RADIX_BITS in
      obind (assert_that (radix_sz + guard_sz \<le> CNODE_DEPTH)) (\<lambda>_.
        let a1 = push_bit GUARD_OFFSET guard_sz OR push_bit RADIX_OFFSET radix_sz in
        Ret ((default_with_type CNode)\<lparr>paddr := addr, arg1 := a1, arg2 := guard, rights := rts\<rparr>)))"

text \<open>\<open>cnode_cap_well_formed\<close>, a specification predicate of the source.\<close>

definition cnode_cap_well_formed :: "CapRaw \<Rightarrow> bool" where
  "cnode_cap_well_formed cap \<longleftrightarrow>
     cap_type cap = CNode \<and> guard_bits cap + radix_bits cap \<le> CNODE_DEPTH \<and> paddr cap \<noteq> 0"

section \<open>Slots in memory\<close>

text \<open>\<open>as_object\<close> is the slice of \<open>size\<close> entries at the capability's address.\<close>

definition cnode_slot :: "CapRaw \<Rightarrow> usize \<Rightarrow> ptr" where
  "cnode_slot raw i = paddr raw + CNODE_ENTRY_SZ * i"

definition as_object_get :: "CapRaw \<Rightarrow> usize \<Rightarrow> ptr option" where
  "as_object_get raw i = (if i < cnode_size raw then Some (cnode_slot raw i) else None)"

text \<open>\<open>as_object_mut\<close> is the same slice: its address and its length.\<close>

definition as_object_mut :: "CapRaw \<Rightarrow> ptr \<times> usize" where
  "as_object_mut raw = (paddr raw, push_bit (unat (radix_bits raw)) 1)"

function cnode_init_loop :: "cstore \<Rightarrow> CapRaw \<Rightarrow> nat \<Rightarrow> cstore outcome" where
  "cnode_init_loop st raw idx =
     (if idx < unat (snd (as_object_mut raw))
      then obind (entry_set st (fst (as_object_mut raw) + CNODE_ENTRY_SZ * of_nat idx) CapRaw_default)
             (\<lambda>st'. cnode_init_loop st' raw (Suc idx))
      else Ret st)"
  by pat_completeness auto
termination
  by (relation "measure (\<lambda>(st, raw, idx). unat (snd (as_object_mut raw)) - idx)") auto

declare cnode_init_loop.simps [simp del]

definition cnode_init :: "cstore \<Rightarrow> CapRaw \<Rightarrow> cstore outcome" where
  "cnode_init st raw = cnode_init_loop st raw 0"

section \<open>Lemmas\<close>

lemmas cnode_consts = CNODE_DEPTH_def CNODE_ENTRY_SZ_def CNODE_ENTRY_BIT_SZ_def
  GUARD_BITS_def GUARD_OFFSET_def RADIX_BITS_def RADIX_OFFSET_def

lemma cnode_mask_eq [layout_simps]: "bits < 64 \<Longrightarrow> cnode_mask bits = mask bits"
  by (simp add: cnode_mask_def mask_eq_exp_minus_1 push_bit_eq_mult)

lemma mask_spec_eq: "bits < 64 \<Longrightarrow> mask_spec (of_nat bits) = cnode_mask bits"
  by (simp add: mask_spec_def cnode_mask_def word_le_nat_alt unat_of_nat take_bit_nat_eq_self)

lemma as_object_mut_eq: "snd (as_object_mut raw) = cnode_size raw"
  "fst (as_object_mut raw) + CNODE_ENTRY_SZ * i = cnode_slot raw i"
  by (simp_all add: as_object_mut_def cnode_size_def cnode_slot_def)

lemmas cnode_init_loop_eq = cnode_init_loop.simps [unfolded as_object_mut_eq]
lemmas cnode_init_loop_induct = cnode_init_loop.induct [unfolded as_object_mut_eq]

lemma guard_bits_field: "guard_bits raw = field_get 0 6 (arg1 raw)"
  by (simp add: guard_bits_def field_get_def cnode_consts cnode_mask_eq)

lemma radix_bits_field: "radix_bits raw = field_get 6 6 (arg1 raw)"
  by (simp add: radix_bits_def field_get_def cnode_consts cnode_mask_eq)

lemma guard_bits_bound: "unat (guard_bits raw) < 64"
  using unat_field_get [of 0 6 "arg1 raw"] by (simp add: guard_bits_field)

lemma radix_bits_bound: "unat (radix_bits raw) < 64"
  using unat_field_get [of 6 6 "arg1 raw"] by (simp add: radix_bits_field)

lemma unat_push_one: "n < 64 \<Longrightarrow> unat (push_bit n 1 :: usize) = 2 ^ n"
  using unat_kbit [of n] by (simp only: kbit_def)

lemma unat_cnode_size: "unat (cnode_size raw) = 2 ^ unat (radix_bits raw)"
  by (simp only: cnode_size_def unat_push_one [OF radix_bits_bound])

lemma mint_words:
  fixes g r :: usize
  assumes "g AND mask 6 = g" "r AND mask 6 = r"
  shows "field_get 0 6 (push_bit 0 g OR push_bit 6 r) = g"
    and "field_get 6 6 (push_bit 0 g OR push_bit 6 r) = r"
proof -
  have eq: "push_bit 0 g OR push_bit 6 r = field_set 6 6 r (field_set 0 6 g 0)"
    by (simp add: field_set_def or.commute) 
       (rule bit_word_eqI, auto simp: bit_simps dest: small_bit_bound [OF assms(1)])
  show "field_get 0 6 (push_bit 0 g OR push_bit 6 r) = g"
    unfolding eq by (simp add: field_get_set_other field_get_set_same assms)
  show "field_get 6 6 (push_bit 0 g OR push_bit 6 r) = r"
    unfolding eq by (simp add: field_get_set_same assms)
qed

lemma small64: "unat x < 64 \<Longrightarrow> x AND mask 6 = x" for x :: usize
  by (rule small_if_less) simp

lemma CNodeCap_mint_Ret:
  assumes "unat radix < 64" "unat gbits < 64"
  shows "CNodeCap_mint addr radix gbits guard rts =
    (if unat radix + unat gbits \<le> 32
     then Ret ((default_with_type CNode)\<lparr>paddr := addr,
       arg1 := push_bit 0 gbits OR push_bit 6 radix, arg2 := guard, rights := rts\<rparr>)
     else Panic)"
proof -
  have "unat (radix + gbits) = unat radix + unat gbits"
    using assms by (simp add: unat_add_exact)
  then have "radix + gbits \<le> 32 \<longleftrightarrow> unat radix + unat gbits \<le> 32"
    by (simp add: word_le_nat_alt)
  then show ?thesis
    using assms by (simp add: CNodeCap_mint_def cnode_consts cnode_mask_eq small64 Let_def)
qed

lemma as_object_get_masked:
  assumes "unat i < 2 ^ unat (radix_bits raw)"
  shows "as_object_get raw i = Some (cnode_slot raw i)"
  using assms by (simp add: as_object_get_def word_less_nat_alt unat_cnode_size)

lemma cnode_init_loop_all:
  assumes "\<And>i. i < unat (cnode_size raw) \<Longrightarrow> cnode_slot raw (of_nat i) \<in> dom st"
    and "idx \<le> unat (cnode_size raw)"
  shows "\<exists>st'. cnode_init_loop st raw idx = Ret st' \<and> dom st' = dom st \<and>
    (\<forall>p. st' p = (if \<exists>i. idx \<le> i \<and> i < unat (cnode_size raw) \<and> p = cnode_slot raw (of_nat i)
                  then Some CapRaw_default else st p))"
  using assms
proof (induction st raw idx rule: cnode_init_loop_induct)
  case (1 st raw idx)
  show ?case
  proof (cases "idx < unat (cnode_size raw)")
    case False
    then show ?thesis by (subst cnode_init_loop_eq) auto
  next
    case True
    let ?p = "cnode_slot raw (of_nat idx)"
    let ?st = "st(?p \<mapsto> CapRaw_default)"
    have set: "entry_set st ?p CapRaw_default = Ret ?st"
      using "1.prems"(1) [OF True] by (auto simp: slot_simps)
    have dom: "dom ?st = dom st" using "1.prems"(1) [OF True] by auto
    have slots: "cnode_slot raw (of_nat i) \<in> dom ?st" if "i < unat (cnode_size raw)" for i
      unfolding dom using that by (rule "1.prems"(1))
    from True have "Suc idx \<le> unat (cnode_size raw)" by simp
    from "1.IH" [OF True set slots this]
    obtain st' where st': "cnode_init_loop ?st raw (Suc idx) = Ret st'" "dom st' = dom st"
      "\<forall>p. st' p = (if \<exists>i. Suc idx \<le> i \<and> i < unat (cnode_size raw) \<and> p = cnode_slot raw (of_nat i)
                  then Some CapRaw_default else ?st p)"
      unfolding dom by blast
    have "st' p = (if \<exists>i. idx \<le> i \<and> i < unat (cnode_size raw) \<and> p = cnode_slot raw (of_nat i)
                  then Some CapRaw_default else st p)" for p
    proof (cases "\<exists>i. Suc idx \<le> i \<and> i < unat (cnode_size raw) \<and> p = cnode_slot raw (of_nat i)")
      case True
      with spec [OF st'(3), of p] have "st' p = Some CapRaw_default" by (simp only: if_True)
      moreover from True have "\<exists>i. idx \<le> i \<and> i < unat (cnode_size raw) \<and> p = cnode_slot raw (of_nat i)"
        using Suc_leD by blast
      ultimately show ?thesis by simp
    next
      case False
      with spec [OF st'(3), of p] have "st' p = ?st p" by (simp only: if_False)
      moreover from False have "(\<exists>i. idx \<le> i \<and> i < unat (cnode_size raw) \<and> p = cnode_slot raw (of_nat i))
          \<longleftrightarrow> p = ?p"
        using \<open>idx < unat (cnode_size raw)\<close> by (auto simp: Suc_le_eq order_le_less)
      ultimately show ?thesis by simp
    qed
    moreover have "cnode_init_loop st raw idx = Ret st'"
      using True set st'(1) by (subst cnode_init_loop_eq) simp
    ultimately show ?thesis using st'(2) by blast
  qed
qed

section \<open>Properties\<close>

text \<open>
  \<open>CNodeCap::mint\<close> panics exactly when radix and guard width are not valid in the
  sense of the source, that is when together they exceed the depth of 32 bits; otherwise the capability it returns decodes to the radix, guard width,
  guard, address and rights it was given, its size is two to the radix, and it satisfies the
  source's own well-formedness predicate whenever its address is not null.
\<close>

theorem CNodeCap_mint_roundtrip:
  assumes "unat radix < 64" "unat gbits < 64"
  shows "(CNodeCap_mint addr radix gbits guard rts = Panic \<longleftrightarrow> \<not> mint_valid radix gbits) \<and>
    (mint_valid radix gbits \<longrightarrow>
      (\<exists>cap. CNodeCap_mint addr radix gbits guard rts = Ret cap \<and>
        drop_bit RADIX_OFFSET (arg1 cap) AND mask_spec (of_nat RADIX_BITS) = radix AND mask_spec (of_nat RADIX_BITS) \<and>
        drop_bit GUARD_OFFSET (arg1 cap) AND mask_spec (of_nat GUARD_BITS) = gbits AND mask_spec (of_nat GUARD_BITS) \<and>
        radix_bits cap = radix \<and> guard_bits cap = gbits \<and> cnode_guard cap = guard \<and>
        unat (cnode_size cap) = 2 ^ unat radix \<and> paddr cap = addr \<and> rights cap = rts \<and>
        mdb_isolated cap \<and> try_from_slot cap = Some cap \<and>
        (cnode_cap_well_formed cap \<longleftrightarrow> addr \<noteq> 0)))"
proof -
  let ?cap = "(default_with_type CNode)\<lparr>paddr := addr,
       arg1 := push_bit 0 gbits OR push_bit 6 radix, arg2 := guard, rights := rts\<rparr>"
  note words = mint_words [OF small64 [OF assms(2)] small64 [OF assms(1)]]
  have fields: "radix_bits ?cap = radix" "guard_bits ?cap = gbits"
    using words by (simp_all add: radix_bits_field guard_bits_field)
  have "unat (gbits + radix) = unat gbits + unat radix"
    using assms by (simp add: unat_add_exact)
  then have "gbits + radix \<le> CNODE_DEPTH \<longleftrightarrow> unat radix + unat gbits \<le> 32"
    by (auto simp: word_le_nat_alt CNODE_DEPTH_def)
  moreover have "mint_valid radix gbits \<longleftrightarrow> unat radix + unat gbits \<le> 32" by (simp add: mint_valid_def CNODE_DEPTH_def)
  moreover have "drop_bit RADIX_OFFSET (arg1 ?cap) AND mask_spec (of_nat RADIX_BITS) = radix AND mask_spec (of_nat RADIX_BITS)"
    "drop_bit GUARD_OFFSET (arg1 ?cap) AND mask_spec (of_nat GUARD_BITS) = gbits AND mask_spec (of_nat GUARD_BITS)"
    using fields small64 [OF assms(1)] small64 [OF assms(2)] mask_spec_eq [of 6]
    by (simp_all add: radix_bits_def guard_bits_def cnode_consts cnode_mask_eq)
  ultimately show ?thesis using fields
    unfolding CNodeCap_mint_Ret [OF assms]
    by (auto simp: unat_cnode_size cnode_guard_def mdb_isolated_def try_from_slot_def
        cnode_cap_well_formed_def)
qed

theorem CNodeCap_mint_roundtrip_witness:
  "\<exists>cap. CNodeCap_mint 0x4000 4 28 0xABCDEF R_CONTROL = Ret cap \<and> radix_bits cap = 4 \<and>
     guard_bits cap = 28 \<and> cnode_cap_well_formed cap"
  using CNodeCap_mint_roundtrip [of 4 28 "0x4000" "0xABCDEF" R_CONTROL]
  by (auto simp: mint_valid_def CNODE_DEPTH_def)

text \<open>
  \<open>CNodeCap::init\<close> writes the null capability to every slot of the node and to
  nothing else.
\<close>

theorem cnode_init_correct:
  assumes "\<forall>i < unat (cnode_size raw). cnode_slot raw (of_nat i) \<in> dom st"
  shows "\<exists>st'. cnode_init st raw = Ret st' \<and>
    (\<forall>i < unat (cnode_size raw). st' (cnode_slot raw (of_nat i)) = Some CapRaw_default) \<and>
    (\<forall>p. (\<forall>i < unat (cnode_size raw). p \<noteq> cnode_slot raw (of_nat i)) \<longrightarrow> st' p = st p)"
proof -
  have slots: "cnode_slot raw (of_nat i) \<in> dom st" if "i < unat (cnode_size raw)" for i
    using assms that by blast
  from cnode_init_loop_all [where st = st, OF slots le0] obtain st' where
    st': "cnode_init_loop st raw 0 = Ret st'"
    "\<And>p. st' p = (if \<exists>i. 0 \<le> i \<and> i < unat (cnode_size raw) \<and> p = cnode_slot raw (of_nat i)
                  then Some CapRaw_default else st p)" by blast
  then show ?thesis by (auto simp: cnode_init_def)
qed

theorem cnode_init_correct_witness:
  "\<exists>st'. cnode_init [0x1000 \<mapsto> default_with_type Frame, 0x1040 \<mapsto> default_with_type Tcb]
       ((default_with_type CNode)\<lparr>paddr := 0x1000, arg1 := 64\<rparr>) = Ret st' \<and>
     st' 0x1040 = Some CapRaw_default"
proof -
  let ?raw = "(default_with_type CNode)\<lparr>paddr := 0x1000, arg1 := 64\<rparr>"
  have size: "unat (cnode_size ?raw) = 2"
    by (simp add: cnode_size_def radix_bits_def cnode_consts cnode_mask_def)
  have "\<forall>i < unat (cnode_size ?raw). cnode_slot ?raw (of_nat i) \<in>
      dom [0x1000 \<mapsto> default_with_type Frame, 0x1040 \<mapsto> default_with_type Tcb]"
    unfolding size by (auto simp: less_2_cases_iff cnode_slot_def cnode_consts)
  from cnode_init_correct [OF this] obtain st' where
    st': "cnode_init [0x1000 \<mapsto> default_with_type Frame, 0x1040 \<mapsto> default_with_type Tcb] ?raw = Ret st'"
    "\<forall>i < unat (cnode_size ?raw). st' (cnode_slot ?raw (of_nat i)) = Some CapRaw_default"
    by blast
  have "st' 0x1040 = Some CapRaw_default"
    using spec [OF st'(2), of 1] unfolding size by (simp add: cnode_slot_def cnode_consts)
  with st'(1) show ?thesis by blast
qed

end
