(* ===== verification/CSpaces.thy ===== *)
theory CSpaces
  imports CNodes
begin

text \<open>
  Capability lookup (\<open>cspace.rs\<close>): resolving the bits of a capability pointer through a
  tree of capability nodes. The loop of \<open>resolve_internal\<close> is a
  \<^theory_text>\<open>partial_function\<close>, because nothing in the code bounds it; \<open>None\<close> is a
  lookup that never returns. The abstract specification \<open>resolves\<close> reads an address as a
  list of bits, most significant first, and never mentions shifts or masks.
\<close>

section \<open>The code\<close>

definition WORD_BITS :: nat where "WORD_BITS = 64"
definition WORD_RADIX :: nat where "WORD_RADIX = 6"

record ResolveResult =
  slot :: ptr
  bits_remaining :: usize

text \<open>
  A \<open>CSpace\<close> is a pointer to its root entry; the lookup only reads through it, so the
  model keeps the entry's contents.
\<close>

record CSpace =
  root :: CapRaw

definition CSpace_new :: "CapRaw \<Rightarrow> SysError + CSpace" where
  "CSpace_new root_entry =
     (if cap_type root_entry \<noteq> CNode then Inl CSpaceNotFound else Inr \<lparr>root = root_entry\<rparr>)"

datatype resolve_next = Resolved "SysError + ResolveResult" | Descend CapRaw usize

text \<open>One turn of the loop, on the contents \<open>entry\<close> of the current entry.\<close>

definition resolve_step :: "bool \<Rightarrow> cstore \<Rightarrow> CapRaw \<Rightarrow> usize \<Rightarrow> usize \<Rightarrow> resolve_next outcome" where
  "resolve_step dbg st entry cptr n_bits =
     (case try_from_slot entry of
        None \<Rightarrow> Ret (Resolved (Inl CSpaceNotFound))
      | Some cap \<Rightarrow>
          let rb = radix_bits cap; gb = guard_bits cap; level_bits = rb + gb in
          obind (debug_assert dbg (level_bits \<noteq> 0)) (\<lambda>_.
            let shift = (n_bits - gb) AND kmask WORD_RADIX in
          obind (if gb = 0 then Ret 0
                 else obind (u_shr dbg cptr shift) (\<lambda>x. Ret (x AND kmask (unat gb)))) (\<lambda>guard.
            if gb > n_bits \<or> guard \<noteq> cnode_guard cap then Ret (Resolved (Inl LookupError))
            else if level_bits > n_bits then Ret (Resolved (Inl LookupError))
            else
          obind (if rb = 0 then Ret 0
                 else obind (u_sub dbg n_bits level_bits) (\<lambda>d.
                      obind (u_shr dbg cptr d) (\<lambda>x. Ret (x AND kmask (unat rb))))) (\<lambda>index.
            case as_object_get cap index of
              None \<Rightarrow> Ret (Resolved (Inl SlotEmpty))
            | Some p \<Rightarrow>
                if n_bits = level_bits
                then Ret (Resolved (Inr \<lparr>slot = p, bits_remaining = 0\<rparr>))
                else obind (u_sub dbg n_bits level_bits) (\<lambda>n_bits'.
                     obind (entry_get st p) (\<lambda>raw.
                       if cap_type raw \<noteq> CNode
                       then Ret (Resolved (Inr \<lparr>slot = p, bits_remaining = n_bits'\<rparr>))
                       else Ret (Descend raw n_bits')))))))"

partial_function (option) resolve_internal ::
    "bool \<Rightarrow> cstore \<Rightarrow> CapRaw \<Rightarrow> usize \<Rightarrow> usize \<Rightarrow> (SysError + ResolveResult) outcome option" where
  "resolve_internal dbg st current cptr n_bits =
     (case resolve_step dbg st current cptr n_bits of
        Ret r \<Rightarrow>
          (case r of
             Resolved res \<Rightarrow> Some (Ret res)
           | Descend c n \<Rightarrow> resolve_internal dbg st c cptr n)
      | Panic \<Rightarrow> Some Panic
      | Fault \<Rightarrow> Some Fault)"

declare resolve_internal.simps [code]

definition resolve ::
    "bool \<Rightarrow> cstore \<Rightarrow> CSpace \<Rightarrow> usize \<Rightarrow> usize \<Rightarrow> (SysError + ResolveResult) outcome option" where
  "resolve dbg st self cptr n_bits = resolve_internal dbg st (root self) cptr n_bits"

definition lookup_with_depth ::
    "bool \<Rightarrow> cstore \<Rightarrow> CSpace \<Rightarrow> usize \<Rightarrow> usize \<Rightarrow> (SysError + ptr) outcome option" where
  "lookup_with_depth dbg st self cptr depth =
     (if \<not> (1 \<le> depth \<and> depth \<le> CNODE_DEPTH) then Some (Ret (Inl InvalidValue))
      else
        (case resolve dbg st self cptr depth of
           None \<Rightarrow> None
         | Some out \<Rightarrow> Some (obind out (\<lambda>res.
             case res of
               Inl e \<Rightarrow> Ret (Inl e)
             | Inr r \<Rightarrow> if bits_remaining r \<noteq> 0 then Ret (Inl LookupError)
                        else Ret (Inr (slot r))))))"

definition lookup :: "bool \<Rightarrow> cstore \<Rightarrow> CSpace \<Rightarrow> usize \<Rightarrow> (SysError + ptr) outcome option" where
  "lookup dbg st self cptr = lookup_with_depth dbg st self cptr CNODE_DEPTH"

section \<open>Addresses as bit lists\<close>

definition addr_bits :: "nat \<Rightarrow> usize \<Rightarrow> bool list" where
  "addr_bits n x = map (bit x) (rev [0..<n])"

definition bits_val :: "bool list \<Rightarrow> nat" where
  "bits_val bs = horner_sum of_bool 2 (rev bs)"

lemma length_addr_bits [simp]: "length (addr_bits n x) = n"
  by (simp add: addr_bits_def)

lemma addr_bits_eq_Nil [simp]: "addr_bits n x = [] \<longleftrightarrow> n = 0"
  by (simp add: addr_bits_def)

lemma drop_addr_bits: "k \<le> n \<Longrightarrow> drop k (addr_bits n x) = addr_bits (n - k) x"
  by (simp add: addr_bits_def drop_map drop_rev)

lemma take_addr_bits: "k \<le> n \<Longrightarrow> take k (addr_bits n x) = map (bit x) (rev [n - k..<n])"
  by (simp add: addr_bits_def take_map take_rev)

lemma unat_field_bits:
  "off + w \<le> 64 \<Longrightarrow> unat (field_get off w x) = bits_val (map (bit x) (rev [off..<off + w]))"
  for x :: usize
proof -
  assume "off + w \<le> 64"
  have "field_get off w x = take_bit w (drop_bit off x)"
    by (simp add: field_get_def take_bit_eq_mask)
  then have "unat (field_get off w x) = take_bit w (drop_bit off (unat x))"
    by (simp add: unsigned_take_bit_eq unat_drop_bit_eq)
  also have "\<dots> = horner_sum of_bool 2 (map (bit (drop_bit off (unat x))) [0..<w])"
    by (simp only: horner_sum_bit_eq_take_bit)
  also have "map (bit (drop_bit off (unat x))) [0..<w] = map (bit x) [off..<off + w]"
    by (rule nth_equalityI) (auto simp: bit_simps)
  finally show ?thesis by (simp add: bits_val_def rev_map)
qed

section \<open>Specification\<close>

text \<open>
  \<open>resolves st cap bs (p, k)\<close>: following the address bits \<open>bs\<close> from the node
  \<open>cap\<close> reaches the slot \<open>p\<close> with \<open>k\<close> bits left over.
\<close>

definition entry_at :: "CapRaw \<Rightarrow> bool list \<Rightarrow> ptr" where
  "entry_at cap is = cnode_slot cap (of_nat (bits_val is))"

definition level_split :: "CapRaw \<Rightarrow> bool list \<Rightarrow> bool list \<Rightarrow> bool" where
  "level_split cap gs is \<longleftrightarrow> cap_type cap = CNode \<and>
     length gs = unat (guard_bits cap) \<and> bits_val gs = unat (cnode_guard cap) \<and>
     length is = unat (radix_bits cap)"

inductive resolves :: "cstore \<Rightarrow> CapRaw \<Rightarrow> bool list \<Rightarrow> ptr \<times> nat \<Rightarrow> bool" where
  exact: "level_split cap gs is \<Longrightarrow> st (entry_at cap is) = Some raw \<Longrightarrow>
    resolves st cap (gs @ is) (entry_at cap is, 0)"
| stop: "level_split cap gs is \<Longrightarrow> st (entry_at cap is) = Some raw \<Longrightarrow> rest \<noteq> [] \<Longrightarrow>
    cap_type raw \<noteq> CNode \<Longrightarrow> resolves st cap (gs @ is @ rest) (entry_at cap is, length rest)"
| down: "level_split cap gs is \<Longrightarrow> st (entry_at cap is) = Some raw \<Longrightarrow> rest \<noteq> [] \<Longrightarrow>
    cap_type raw = CNode \<Longrightarrow> resolves st raw rest res \<Longrightarrow> resolves st cap (gs @ is @ rest) res"

text \<open>The tree a lookup walks is in memory, and every node consumes at least one bit.\<close>

definition cnode_ok :: "cstore \<Rightarrow> CapRaw \<Rightarrow> bool" where
  "cnode_ok st cap \<longleftrightarrow> unat (guard_bits cap) + unat (radix_bits cap) \<noteq> 0 \<and>
     (\<forall>i < 2 ^ unat (radix_bits cap). cnode_slot cap (of_nat i) \<in> dom st)"

definition cspace_ok :: "cstore \<Rightarrow> CapRaw \<Rightarrow> bool" where
  "cspace_ok st cap \<longleftrightarrow> cap_type cap = CNode \<and> cnode_ok st cap \<and>
     (\<forall>p c. st p = Some c \<and> cap_type c = CNode \<longrightarrow> cnode_ok st c)"

section \<open>One level\<close>

lemma level_bits_unat:
  "unat (radix_bits cap + guard_bits cap) = unat (guard_bits cap) + unat (radix_bits cap)"
  using guard_bits_bound [of cap] radix_bits_bound [of cap] by (simp add: unat_add_exact)

lemma shift_exact:
  fixes n gb :: usize
  assumes "gb \<noteq> 0" "gb \<le> n" "unat n \<le> 64"
  shows "(n - gb) AND mask 6 = n - gb" and "unat (n - gb) < 64"
proof -
  have "unat (n - gb) = unat n - unat gb" using assms(2) by (rule unat_sub)
  moreover have "unat gb \<noteq> 0" using assms(1) by (simp add: unat_eq_0)
  ultimately show lt: "unat (n - gb) < 64" using assms(3) by simp
  then show "(n - gb) AND mask 6 = n - gb" by (rule small64)
qed

text \<open>The guard the code extracts is the value of the first \<open>gb\<close> address bits.\<close>

lemma guard_extract:
  fixes n gb cptr :: usize
  assumes "gb \<le> n" "unat n \<le> 64"
  shows "\<exists>g. (if gb = 0 then Ret 0
      else obind (u_shr dbg cptr ((n - gb) AND kmask WORD_RADIX)) (\<lambda>x. Ret (x AND kmask (unat gb)))) = Ret g
      \<and> unat g = bits_val (take (unat gb) (addr_bits (unat n) cptr))"
proof (cases "gb = 0")
  case True
  then show ?thesis by (simp add: bits_val_def)
next
  case False
  have le: "unat gb \<le> unat n" using assms(1) by (simp add: word_le_nat_alt)
  have d: "unat (n - gb) = unat n - unat gb" using assms(1) by (rule unat_sub)
  have "u_shr dbg cptr ((n - gb) AND kmask WORD_RADIX) = Ret (drop_bit (unat n - unat gb) cptr)"
    using shift_exact [OF False assms] d by (simp add: u_shr_def kmask_eq WORD_RADIX_def)
  moreover have "unat (field_get (unat n - unat gb) (unat gb) cptr) =
      bits_val (take (unat gb) (addr_bits (unat n) cptr))"
    using le assms(2) by (simp add: unat_field_bits take_addr_bits)
  ultimately show ?thesis using False by (simp add: field_get_def kmask_eq)
qed

text \<open>The slot index is the value of the next \<open>rb\<close> bits.\<close>

lemma index_extract:
  fixes n lb rb cptr :: usize
  assumes "unat lb = g + unat rb" "lb \<le> n" "unat n \<le> 64"
  shows "\<exists>i. (if rb = 0 then Ret 0
      else obind (u_sub dbg n lb) (\<lambda>d. obind (u_shr dbg cptr d) (\<lambda>x. Ret (x AND kmask (unat rb))))) = Ret i
      \<and> unat i = bits_val (take (unat rb) (drop g (addr_bits (unat n) cptr)))
      \<and> unat i < 2 ^ unat rb"
proof (cases "rb = 0")
  case True
  then show ?thesis by (simp add: bits_val_def)
next
  case False
  have le: "g + unat rb \<le> unat n" using assms(1,2) by (simp add: word_le_nat_alt)
  have d: "unat (n - lb) = unat n - (g + unat rb)" using assms(1,2) by (simp add: unat_sub)
  have "unat rb \<noteq> 0" using False by (simp add: unat_eq_0)
  then have lt: "unat n - (g + unat rb) < 64" using assms(3) by linarith
  have "u_shr dbg cptr (n - lb) = Ret (drop_bit (unat n - (g + unat rb)) cptr)"
    using d lt by (simp add: u_shr_def)
  moreover have "unat (field_get (unat n - (g + unat rb)) (unat rb) cptr) =
      bits_val (take (unat rb) (drop g (addr_bits (unat n) cptr)))"
    using le assms(3) by (simp add: unat_field_bits drop_addr_bits take_addr_bits)
  ultimately show ?thesis
    using False assms(2) unat_field_get [of "unat n - (g + unat rb)" "unat rb" cptr]
    by (simp add: field_get_def kmask_eq u_sub_exact)
qed

lemma guard_total:
  "\<exists>g. (if gb = 0 then Ret 0
      else obind (u_shr dbg cptr ((n - gb) AND kmask WORD_RADIX)) (\<lambda>x. Ret (x AND kmask (unat gb)))) = Ret g"
  for cptr n gb :: usize
proof -
  have "unat ((n - gb) AND mask 6) < 64"
    using unat_field_get [of 0 6 "n - gb"] by (simp add: field_get_def)
  then show ?thesis by (simp add: u_shr_def kmask_eq WORD_RADIX_def)
qed

text \<open>One turn of the loop, said with bit lists.\<close>

lemma resolve_step_bits:
  assumes node: "cap_type cap = CNode" and ok: "cnode_ok st cap" and n: "unat n \<le> 64"
    and bs: "bs = addr_bits (unat n) cptr"
    and g: "g = unat (guard_bits cap)" and r: "r = unat (radix_bits cap)"
    and p: "p = entry_at cap (take r (drop g bs))"
  shows "g + r \<le> length bs \<Longrightarrow> bits_val (take g bs) = unat (cnode_guard cap) \<Longrightarrow>
      \<exists>raw. st p = Some raw \<and> resolve_step dbg st cap cptr n = Ret (
        if length bs = g + r then Resolved (Inr \<lparr>slot = p, bits_remaining = 0\<rparr>)
        else if cap_type raw \<noteq> CNode
        then Resolved (Inr \<lparr>slot = p, bits_remaining = n - (radix_bits cap + guard_bits cap)\<rparr>)
        else Descend raw (n - (radix_bits cap + guard_bits cap)))"
    and "\<not> (g + r \<le> length bs \<and> bits_val (take g bs) = unat (cnode_guard cap)) \<Longrightarrow>
      resolve_step dbg st cap cptr n = Ret (Resolved (Inl LookupError))"
proof -
  let ?lb = "radix_bits cap + guard_bits cap"
  let ?guard = "if guard_bits cap = 0 then Ret 0
      else obind (u_shr dbg cptr ((n - guard_bits cap) AND kmask WORD_RADIX))
        (\<lambda>x. Ret (x AND kmask (unat (guard_bits cap))))"
  have lb: "unat ?lb = g + r" by (simp add: level_bits_unat g r)
  have lb0: "?lb \<noteq> 0" using lb ok by (auto simp: cnode_ok_def g r)
  have len: "length bs = unat n" by (simp add: bs)
  have lb_le: "?lb \<le> n \<longleftrightarrow> g + r \<le> length bs" by (simp add: word_le_nat_alt lb len)
  have gb_le: "guard_bits cap \<le> n \<longleftrightarrow> g \<le> length bs" by (simp add: word_le_nat_alt g len)
  have lb_eq: "n = ?lb \<longleftrightarrow> length bs = g + r" by (simp add: word_unat_eq_iff lb len)
  {
    assume fits: "g + r \<le> length bs" and guard: "bits_val (take g bs) = unat (cnode_guard cap)"
    from fits have le: "guard_bits cap \<le> n" "?lb \<le> n" by (simp_all add: gb_le lb_le)
    from guard_extract [OF le(1) n, of dbg cptr] guard
    have one: "?guard = Ret (cnode_guard cap)"
      by (auto simp: bs g word_unat_eq_iff)
    from index_extract [OF _ le(2) n, of g "radix_bits cap" dbg cptr] lb
    obtain i where i: "(if radix_bits cap = 0 then Ret 0
        else obind (u_sub dbg n ?lb) (\<lambda>d. obind (u_shr dbg cptr d)
          (\<lambda>x. Ret (x AND kmask (unat (radix_bits cap)))))) = Ret i"
      "unat i = bits_val (take r (drop g bs))" "unat i < 2 ^ r"
      by (auto simp: bs r)
    have slot: "p = cnode_slot cap i" by (simp add: p entry_at_def flip: i(2))
    have "cnode_slot cap (of_nat (unat i)) \<in> dom st"
      using ok i(3) unfolding cnode_ok_def r by blast
    then obtain raw where raw: "st p = Some raw" using slot by auto
    have get: "as_object_get cap i = Some p"
      using i(3) slot by (simp add: as_object_get_masked r)
    have "resolve_step dbg st cap cptr n = Ret (
        if length bs = g + r then Resolved (Inr \<lparr>slot = p, bits_remaining = 0\<rparr>)
        else if cap_type raw \<noteq> CNode
        then Resolved (Inr \<lparr>slot = p, bits_remaining = n - ?lb\<rparr>)
        else Descend raw (n - ?lb))"
      using node le lb0 raw get
      by (simp add: resolve_step_def try_from_slot_def Let_def one i(1) slot_simps lb_eq not_less u_sub_exact)
    with raw show "\<exists>raw. st p = Some raw \<and> resolve_step dbg st cap cptr n = Ret (
        if length bs = g + r then Resolved (Inr \<lparr>slot = p, bits_remaining = 0\<rparr>)
        else if cap_type raw \<noteq> CNode
        then Resolved (Inr \<lparr>slot = p, bits_remaining = n - ?lb\<rparr>)
        else Descend raw (n - ?lb))" by blast
  }
  {
    assume bad: "\<not> (g + r \<le> length bs \<and> bits_val (take g bs) = unat (cnode_guard cap))"
    from guard_total [of "guard_bits cap" dbg cptr n] obtain w where w: "?guard = Ret w" by blast
    have "guard_bits cap > n \<or> w \<noteq> cnode_guard cap \<or> ?lb > n"
    proof (rule ccontr)
      assume "\<not> ?thesis"
      then have le: "guard_bits cap \<le> n" "?lb \<le> n" and "w = cnode_guard cap" by auto
      with guard_extract [OF le(1) n, of dbg cptr] w
      have "bits_val (take g bs) = unat (cnode_guard cap)" by (auto simp: bs g)
      with le(2) bad show False by (simp add: lb_le)
    qed
    then show "resolve_step dbg st cap cptr n = Ret (Resolved (Inl LookupError))"
      using node lb0
      by (auto simp: resolve_step_def try_from_slot_def Let_def w)
  }
qed

section \<open>The whole walk\<close>

lemma resolves_level:
  assumes node: "cap_type cap = CNode"
    and g: "g = unat (guard_bits cap)" and r: "r = unat (radix_bits cap)"
    and p: "p = entry_at cap (take r (drop g bs))"
  shows "resolves st cap bs res \<longleftrightarrow>
    g + r \<le> length bs \<and> bits_val (take g bs) = unat (cnode_guard cap) \<and>
    (\<exists>raw. st p = Some raw \<and>
      (if length bs = g + r then res = (p, 0)
       else if cap_type raw \<noteq> CNode then res = (p, length bs - (g + r))
       else resolves st raw (drop (g + r) bs) res))" (is "?L \<longleftrightarrow> ?R")
proof
  assume ?L
  then show ?R
  proof cases
    case (exact gs "is" raw)
    then show ?thesis by (auto simp: level_split_def g r p)
  next
    case (stop gs "is" raw rest)
    then show ?thesis by (auto simp: level_split_def g r p)
  next
    case (down gs "is" raw rest)
    then show ?thesis by (auto simp: level_split_def g r p)
  qed
next
  assume R: ?R
  then obtain raw where raw: "st p = Some raw" and fits: "g + r \<le> length bs"
    and cont: "if length bs = g + r then res = (p, 0)
       else if cap_type raw \<noteq> CNode then res = (p, length bs - (g + r))
       else resolves st raw (drop (g + r) bs) res" by blast
  let ?gs = "take g bs" and ?is = "take r (drop g bs)" and ?rest = "drop (g + r) bs"
  have split: "level_split cap ?gs ?is"
    using R node by (auto simp: level_split_def g r)
  have bs: "bs = ?gs @ ?is @ ?rest"
    by (metis append_take_drop_id drop_drop add.commute)
  have raw': "st (entry_at cap ?is) = Some raw" using raw p by simp
  consider "length bs = g + r" | "length bs \<noteq> g + r" "cap_type raw \<noteq> CNode"
    | "length bs \<noteq> g + r" "cap_type raw = CNode" by blast
  then show ?L
  proof cases
    case 1
    then have "bs = ?gs @ ?is" using bs by simp
    with resolves.exact [where st = st, OF split raw'] cont 1 p show ?thesis by simp
  next
    case 2
    then have rest: "?rest \<noteq> []" using fits by simp
    have "resolves st cap (?gs @ ?is @ ?rest) (p, length ?rest)"
      unfolding p by (rule resolves.stop [where st = st, OF split raw' rest 2(2)])
    with cont 2 bs show ?thesis by simp
  next
    case 3
    then have rest: "?rest \<noteq> []" using fits by simp
    have "resolves st raw ?rest res" using cont 3 by simp
    with resolves.down [where st = st, OF split raw' rest 3(2)] bs show ?thesis by metis
  qed
qed

lemma resolves_deterministic:
  "resolves st cap bs res \<Longrightarrow> resolves st cap bs res' \<Longrightarrow> res = res'"
proof (induction arbitrary: res' rule: resolves.induct)
  case (exact cap gs "is" st raw)
  then show ?case
    by (subst (asm) resolves_level [OF _ refl refl refl]) (auto simp: level_split_def)
next
  case (stop cap gs "is" st raw rest)
  then show ?case
    by (subst (asm) resolves_level [OF _ refl refl refl]) (auto simp: level_split_def)
next
  case (down cap gs "is" st raw rest res)
  then show ?case
    by (subst (asm) (2) resolves_level [OF _ refl refl refl]) (auto simp: level_split_def)
qed

lemma resolves_slot_exists: "resolves st cap bs res \<Longrightarrow> fst res \<in> dom st"
  by (induction rule: resolves.induct) auto

lemma resolve_internal_bits:
  assumes "cspace_ok st cap" "unat n \<le> 64"
  shows "\<exists>r. resolve_internal dbg st cap cptr n = Some (Ret r) \<and>
    (case r of
       Inl e \<Rightarrow> e = LookupError \<and> (\<nexists>res. resolves st cap (addr_bits (unat n) cptr) res)
     | Inr rr \<Rightarrow> resolves st cap (addr_bits (unat n) cptr) (slot rr, unat (bits_remaining rr)))"
  using assms
proof (induction "unat n" arbitrary: n cap rule: less_induct)
  case less
  define bs where "bs = addr_bits (unat n) cptr"
  define g where "g = unat (guard_bits cap)"
  define r where "r = unat (radix_bits cap)"
  define p where "p = entry_at cap (take r (drop g bs))"
  let ?lb = "radix_bits cap + guard_bits cap"
  from less.prems have node: "cap_type cap = CNode" and ok: "cnode_ok st cap"
    by (simp_all add: cspace_ok_def)
  note step = resolve_step_bits [OF node ok less.prems(2) bs_def g_def r_def p_def, of dbg]
  note level = resolves_level [OF node g_def r_def p_def]
  have len: "length bs = unat n" by (simp add: bs_def)
  show ?case
  proof (cases "g + r \<le> length bs \<and> bits_val (take g bs) = unat (cnode_guard cap)")
    case False
    then have "resolve_internal dbg st cap cptr n = Some (Ret (Inl LookupError))"
      using step(2) by (subst resolve_internal.simps) simp
    moreover have "\<not> resolves st cap bs res" for res using False level by blast
    ultimately show ?thesis by (simp add: bs_def)
  next
    case True
    with step(1) obtain raw where raw: "st p = Some raw"
      and st: "resolve_step dbg st cap cptr n = Ret (
        if length bs = g + r then Resolved (Inr \<lparr>slot = p, bits_remaining = 0\<rparr>)
        else if cap_type raw \<noteq> CNode then Resolved (Inr \<lparr>slot = p, bits_remaining = n - ?lb\<rparr>)
        else Descend raw (n - ?lb))" by blast
    have "?lb \<le> n" using True len by (simp add: word_le_nat_alt level_bits_unat g_def r_def)
    then have rem: "unat (n - ?lb) = unat n - (g + r)"
      by (simp add: unat_sub level_bits_unat g_def r_def)
    consider "length bs = g + r" | "length bs \<noteq> g + r" "cap_type raw \<noteq> CNode"
      | "length bs \<noteq> g + r" "cap_type raw = CNode" by blast
    then show ?thesis
    proof cases
      case 1
      then have "resolves st cap bs (p, 0)" using True raw level by auto
      moreover have "resolve_internal dbg st cap cptr n =
          Some (Ret (Inr \<lparr>slot = p, bits_remaining = 0\<rparr>))"
        using st 1 by (subst resolve_internal.simps) simp
      ultimately show ?thesis by (simp add: bs_def)
    next
      case 2
      then have "resolves st cap bs (p, unat n - (g + r))" using True raw len level by auto
      moreover have "resolve_internal dbg st cap cptr n =
          Some (Ret (Inr \<lparr>slot = p, bits_remaining = n - ?lb\<rparr>))"
        using st 2 by (subst resolve_internal.simps) simp
      ultimately show ?thesis by (simp add: bs_def rem)
    next
      case 3
      have "g + r \<noteq> 0" using ok by (simp add: cnode_ok_def g_def r_def)
      then have lt: "unat (n - ?lb) < unat n" using rem True len by linarith
      have "cspace_ok st raw" using less.prems(1) raw 3 by (auto simp: cspace_ok_def)
      moreover have "unat (n - ?lb) \<le> 64" using lt less.prems(2) by simp
      ultimately obtain res where res:
        "resolve_internal dbg st raw cptr (n - ?lb) = Some (Ret res)"
        "case res of
           Inl e \<Rightarrow> e = LookupError \<and> (\<nexists>x. resolves st raw (addr_bits (unat (n - ?lb)) cptr) x)
         | Inr rr \<Rightarrow> resolves st raw (addr_bits (unat (n - ?lb)) cptr) (slot rr, unat (bits_remaining rr))"
        using less.hyps [OF lt] by blast
      have "addr_bits (unat (n - ?lb)) cptr = drop (g + r) bs"
        using True len by (simp add: bs_def drop_addr_bits rem)
      then have down: "resolves st cap bs x \<longleftrightarrow> resolves st raw (addr_bits (unat (n - ?lb)) cptr) x" for x
        using level [of st x] True raw 3 by simp
      have "resolve_internal dbg st cap cptr n = Some (Ret res)"
        using st 3 res(1) by (subst resolve_internal.simps) simp
      with res(2) down show ?thesis by (auto simp: bs_def split: sum.splits)
    qed
  qed
qed

section \<open>A node that consumes no bits\<close>

lemma zero_level_step:
  assumes "cap_type cap = CNode" "arg1 cap = 0" "arg2 cap = 0" "st (paddr cap) = Some cap" "n \<noteq> 0"
  shows "resolve_step dbg st cap cptr n = (if dbg then Panic else Ret (Descend cap n))"
proof -
  have "guard_bits cap = 0" "radix_bits cap = 0"
    using assms(2) by (simp_all add: guard_bits_def radix_bits_def)
  moreover from this have "as_object_get cap 0 = Some (paddr cap)"
    by (simp add: as_object_get_def cnode_size_def cnode_slot_def)
  ultimately show ?thesis
    using assms by (simp add: resolve_step_def try_from_slot_def cnode_guard_def slot_simps u_sub_exact)
qed

lemma zero_level_loop:
  assumes cap: "cap_type cap = CNode" "arg1 cap = 0" "arg2 cap = 0" "st (paddr cap) = Some cap" "n \<noteq> 0"
  shows "resolve_internal False st cap cptr n = None"
proof (rule ccontr)
  assume "resolve_internal False st cap cptr n \<noteq> None"
  then obtain r where ret: "resolve_internal False st cap cptr n = Some r" by blast
  let ?P = "\<lambda>dbg st' c x m (r :: (SysError + ResolveResult) outcome).
      \<not> (dbg = False \<and> st' = st \<and> c = cap \<and> x = cptr \<and> m = n)"
  have "?P False st cap cptr n r"
  proof (rule resolve_internal.raw_induct [where P = ?P, OF _ ret])
    fix f and dbg st' c x m and r :: "(SysError + ResolveResult) outcome"
    assume IH: "\<And>dbg st' c x m r. f dbg st' c x m = Some r \<Longrightarrow> ?P dbg st' c x m r"
      and eq: "(case resolve_step dbg st' c x m of
          Ret r \<Rightarrow> (case r of Resolved res \<Rightarrow> Some (Ret res) | Descend c' n' \<Rightarrow> f dbg st' c' x n')
        | Panic \<Rightarrow> Some Panic | Fault \<Rightarrow> Some Fault) = Some r"
    show "?P dbg st' c x m r"
    proof
      assume "dbg = False \<and> st' = st \<and> c = cap \<and> x = cptr \<and> m = n"
      with eq zero_level_step [where st = st, OF cap, of False cptr] IH [of False st cap cptr n] show False by simp
    qed
  qed
  then show False by simp
qed

section \<open>A two-level address space, for the witnesses\<close>

definition demo_leaf :: CapRaw where
  "demo_leaf = (default_with_type CNode)\<lparr>paddr := 0x2000, arg1 := 91\<rparr>"

definition demo_root :: CapRaw where
  "demo_root = (default_with_type CNode)\<lparr>paddr := 0x1000, arg1 := 67, arg2 := 5\<rparr>"

definition demo_cspace :: cstore where
  "demo_cspace = [0x1000 \<mapsto> CapRaw_default, 0x1040 \<mapsto> demo_leaf,
     0x2000 \<mapsto> CapRaw_default, 0x2040 \<mapsto> default_with_type Endpoint]"

lemma demo_bits:
  "guard_bits demo_root = 3" "radix_bits demo_root = 1"
  "guard_bits demo_leaf = 27" "radix_bits demo_leaf = 1"
  by (simp_all add: guard_bits_def radix_bits_def demo_root_def demo_leaf_def cnode_consts
      cnode_mask_def)

lemma demo_fields [simp]:
  "cap_type demo_root = CNode" "paddr demo_root = 0x1000" "arg2 demo_root = 5"
  "cap_type demo_leaf = CNode" "paddr demo_leaf = 0x2000" "arg2 demo_leaf = 0"
  by (simp_all add: demo_root_def demo_leaf_def)

lemma demo_nodes: "cnode_ok demo_cspace demo_root" "cnode_ok demo_cspace demo_leaf"
  by (auto simp: cnode_ok_def demo_bits less_2_cases_iff cnode_slot_def cnode_consts demo_cspace_def)

lemma demo_ok: "cspace_ok demo_cspace demo_root"
  using demo_nodes
  by (auto simp: cspace_ok_def demo_cspace_def CapRaw_default_def split: if_splits)

section \<open>Properties\<close>

text \<open>
  Claim C1. Capability lookup is correct: from a node of a well-formed address space,
  \<open>resolve\<close> returns in both build profiles, without panic or invalid access, for every
  pointer and every number of bits up to 64; it returns a slot and a number of remaining bits
  exactly when following the address bits through guards and indices leads there.
\<close>

theorem resolve_correct:
  assumes "cspace_ok st (root cs)" and "unat n_bits \<le> 64"
  shows "(\<exists>r. resolve dbg st cs cptr n_bits = Some (Ret r)) \<and>
    (\<forall>rr. resolve dbg st cs cptr n_bits = Some (Ret (Inr rr)) \<longleftrightarrow>
       resolves st (root cs) (addr_bits (unat n_bits) cptr) (slot rr, unat (bits_remaining rr)))"
proof -
  obtain r where r: "resolve dbg st cs cptr n_bits = Some (Ret r)"
    "case r of
       Inl e \<Rightarrow> e = LookupError \<and> (\<nexists>res. resolves st (root cs) (addr_bits (unat n_bits) cptr) res)
     | Inr rr \<Rightarrow> resolves st (root cs) (addr_bits (unat n_bits) cptr) (slot rr, unat (bits_remaining rr))"
    using resolve_internal_bits [OF assms, of dbg cptr] by (auto simp: resolve_def)
  have "rr = rr'" if "(slot rr, unat (bits_remaining rr)) = (slot rr', unat (bits_remaining rr'))"
    for rr rr' :: ResolveResult
    using that by (simp add: word_unat_eq_iff)
  with r resolves_deterministic show ?thesis by (auto split: sum.splits)
qed

lemma demo_resolve:
  "resolve False demo_cspace \<lparr>root = demo_root\<rparr> 0xB0000001 32 = Some (Ret (Inr \<lparr>slot = 0x2040, bits_remaining = 0\<rparr>))"
  by code_simp

theorem resolve_correct_witness:
  "resolves demo_cspace demo_root (addr_bits 32 0xB0000001) (0x2040, 0)"
proof -
  let ?rr = "\<lparr>slot = 0x2040, bits_remaining = 0\<rparr> :: ResolveResult"
  have "resolve False demo_cspace \<lparr>root = demo_root\<rparr> 0xB0000001 32 = Some (Ret (Inr ?rr)) \<longleftrightarrow>
      resolves demo_cspace demo_root (addr_bits 32 0xB0000001) (slot ?rr, unat (bits_remaining ?rr))"
    using resolve_correct [where st = demo_cspace and cs = "\<lparr>root = demo_root\<rparr>" and n_bits = 32
        and cptr = "0xB0000001" and dbg = False] demo_ok
    by simp
  with demo_resolve show ?thesis by simp
qed

text \<open>
  \<open>lookup_with_depth\<close> always returns: an invalid depth gives
  \<open>InvalidValue\<close>; otherwise the result is the slot, which exists in memory, that exactly
  the \<open>depth\<close> address bits lead to, or \<open>LookupError\<close> when there is none.
\<close>

theorem lookup_with_depth_total:
  assumes "cspace_ok st (root cs)"
  shows "(unat depth = 0 \<or> 32 < unat depth \<longrightarrow>
      lookup_with_depth dbg st cs cptr depth = Some (Ret (Inl InvalidValue))) \<and>
    (1 \<le> unat depth \<and> unat depth \<le> 32 \<longrightarrow>
      (\<forall>p. lookup_with_depth dbg st cs cptr depth = Some (Ret (Inr p)) \<longleftrightarrow>
         p \<in> dom st \<and> resolves st (root cs) (addr_bits (unat depth) cptr) (p, 0)) \<and>
      ((\<nexists>p. resolves st (root cs) (addr_bits (unat depth) cptr) (p, 0)) \<longrightarrow>
         lookup_with_depth dbg st cs cptr depth = Some (Ret (Inl LookupError))))"
proof (intro conjI impI)
  assume "unat depth = 0 \<or> 32 < unat depth"
  then show "lookup_with_depth dbg st cs cptr depth = Some (Ret (Inl InvalidValue))"
    by (auto simp: lookup_with_depth_def word_le_nat_alt cnode_consts)
next
  assume depth: "1 \<le> unat depth \<and> unat depth \<le> 32"
  then have range: "1 \<le> depth \<and> depth \<le> CNODE_DEPTH" and "unat depth \<le> 64"
    by (auto simp: word_le_nat_alt cnode_consts)
  obtain r where r: "resolve dbg st cs cptr depth = Some (Ret r)"
    "case r of
       Inl e \<Rightarrow> e = LookupError \<and> (\<nexists>res. resolves st (root cs) (addr_bits (unat depth) cptr) res)
     | Inr rr \<Rightarrow> resolves st (root cs) (addr_bits (unat depth) cptr) (slot rr, unat (bits_remaining rr))"
    using resolve_internal_bits [OF assms \<open>unat depth \<le> 64\<close>, of dbg cptr] by (auto simp: resolve_def)
  have "(\<forall>p. lookup_with_depth dbg st cs cptr depth = Some (Ret (Inr p)) \<longleftrightarrow>
         p \<in> dom st \<and> resolves st (root cs) (addr_bits (unat depth) cptr) (p, 0)) \<and>
      ((\<nexists>p. resolves st (root cs) (addr_bits (unat depth) cptr) (p, 0)) \<longrightarrow>
         lookup_with_depth dbg st cs cptr depth = Some (Ret (Inl LookupError)))"
  proof (cases r)
    case (Inl e)
    with r range show ?thesis by (auto simp: lookup_with_depth_def)
  next
    case (Inr rr)
    with r have res: "resolves st (root cs) (addr_bits (unat depth) cptr) (slot rr, unat (bits_remaining rr))"
      by simp
    have only: "resolves st (root cs) (addr_bits (unat depth) cptr) (p, 0) \<longleftrightarrow>
        bits_remaining rr = 0 \<and> p = slot rr" for p
      using res resolves_deterministic [OF res, of "(p, 0)"] by (auto simp: unat_eq_0)
    with resolves_slot_exists [OF res] r(1) Inr range show ?thesis
      by (auto simp: lookup_with_depth_def)
  qed
  then show "\<forall>p. lookup_with_depth dbg st cs cptr depth = Some (Ret (Inr p)) \<longleftrightarrow>
        p \<in> dom st \<and> resolves st (root cs) (addr_bits (unat depth) cptr) (p, 0)"
    and "\<nexists>p. resolves st (root cs) (addr_bits (unat depth) cptr) (p, 0) \<Longrightarrow>
        lookup_with_depth dbg st cs cptr depth = Some (Ret (Inl LookupError))"
    by blast+
qed

theorem lookup_with_depth_total_witness:
  "lookup_with_depth True demo_cspace \<lparr>root = demo_root\<rparr> 0 33 = Some (Ret (Inl InvalidValue)) \<and>
   (lookup_with_depth False demo_cspace \<lparr>root = demo_root\<rparr> 0xB0000001 32 = Some (Ret (Inr 0x2040)) \<longleftrightarrow>
    0x2040 \<in> dom demo_cspace \<and> resolves demo_cspace demo_root (addr_bits 32 0xB0000001) (0x2040, 0))"
  using lookup_with_depth_total [where st = demo_cspace and cs = "\<lparr>root = demo_root\<rparr>"
      and depth = 33 and dbg = True and cptr = 0]
    lookup_with_depth_total [where st = demo_cspace and cs = "\<lparr>root = demo_root\<rparr>"
      and depth = 32 and dbg = False and cptr = "0xB0000001"] demo_ok
  by simp

text \<open>
  Claim C40. A node whose radix and guard are both empty and whose only slot holds the node
  itself makes every lookup through it spin forever in a release build; in a debug build the
  assertion on the node's width panics instead. \<open>retype\<close> makes such a node from 64 bytes.
\<close>

theorem zero_width_node_never_resolves:
  assumes "cap_type cap = CNode" "arg1 cap = 0" "arg2 cap = 0"
    and "st (paddr cap) = Some cap" and "n_bits \<noteq> 0"
  shows "resolve False st \<lparr>root = cap\<rparr> cptr n_bits = None \<and>
    resolve True st \<lparr>root = cap\<rparr> cptr n_bits = Some Panic"
proof -
  have "resolve_internal True st cap cptr n_bits = Some Panic"
    using zero_level_step [where st = st, OF assms, of True cptr]
    by (subst resolve_internal.simps) simp
  with zero_level_loop [where st = st, OF assms] show ?thesis by (simp add: resolve_def)
qed

theorem zero_width_node_never_resolves_witness:
  "lookup False [0x1000 \<mapsto> (default_with_type CNode)\<lparr>paddr := 0x1000\<rparr>]
     \<lparr>root = (default_with_type CNode)\<lparr>paddr := 0x1000\<rparr>\<rparr> 7 = None"
  using zero_width_node_never_resolves
    [of "(default_with_type CNode)\<lparr>paddr := 0x1000\<rparr>"
        "[0x1000 \<mapsto> (default_with_type CNode)\<lparr>paddr := 0x1000\<rparr>]" 32 7]
  by (simp add: lookup_def lookup_with_depth_def cnode_consts)

text \<open>
  In a single-level address space made by \<open>CNodeCap::mint\<close> whose guard and
  radix make up the 32 bits of the depth, \<open>lookup\<close> of the pointer \<open>(guard << radix) | i\<close>
  returns exactly the \<open>i\<close>-th slot of the node.
\<close>

theorem minted_cspace_lookup:
  assumes mint: "CNodeCap_mint addr radix gbits guard rts = Ret cap"
    and depth: "unat radix + unat gbits = 32" and guard: "unat guard < 2 ^ unat gbits"
    and slots: "\<forall>k < 2 ^ unat radix. addr + 64 * of_nat k \<in> dom st"
    and i: "unat i < 2 ^ unat radix"
  shows "lookup dbg st \<lparr>root = cap\<rparr> (push_bit (unat radix) guard OR i) = Some (Ret (Inr (addr + 64 * i)))"
proof -
  let ?x = "push_bit (unat radix) guard OR i"
  have lt: "unat radix < 64" "unat gbits < 64" using depth by auto
  have cap: "cap = (default_with_type CNode)\<lparr>paddr := addr,
       arg1 := push_bit 0 gbits OR push_bit 6 radix, arg2 := guard, rights := rts\<rparr>"
    using mint depth by (simp add: CNodeCap_mint_Ret [OF lt])
  have node: "cap_type cap = CNode" "paddr cap = addr" "cnode_guard cap = guard"
    by (simp_all add: cap cnode_guard_def)
  have bits: "radix_bits cap = radix" "guard_bits cap = gbits"
    using mint_words [OF small64 [OF lt(2)] small64 [OF lt(1)]]
    by (simp_all add: cap radix_bits_field guard_bits_field)
  have ok: "cnode_ok st cap"
    using slots depth by (auto simp: cnode_ok_def bits cnode_slot_def node cnode_consts)
  let ?bs = "addr_bits (unat (32::usize)) ?x"
  have bs: "?bs = addr_bits (unat radix + unat gbits) ?x" using depth by simp
  have le64: "unat radix + unat gbits \<le> 64" using depth by simp
  have small: "guard AND mask (unat gbits) = guard" "i AND mask (unat radix) = i"
    using guard i by (auto intro: small_if_less)
  have x: "?x = field_set (unat radix) (unat gbits) guard (field_set 0 (unat radix) i 0)"
    by (rule bit_word_eqI)
       (auto simp: field_set_def bit_simps dest: small_bit_bound [OF small(2)])
  have g: "bits_val (take (unat gbits) ?bs) = unat guard"
  proof -
    have "bits_val (take (unat gbits) ?bs) = unat (field_get (unat radix) (unat gbits) ?x)"
      using le64 unat_field_bits [of "unat radix" "unat gbits" ?x]
      unfolding bs by (simp add: take_addr_bits)
    then show ?thesis
      unfolding x using depth by (simp add: field_get_set_same small(1))
  qed
  have ix: "bits_val (take (unat radix) (drop (unat gbits) ?bs)) = unat i"
  proof -
    have "bits_val (take (unat radix) (drop (unat gbits) ?bs)) = unat (field_get 0 (unat radix) ?x)"
      using le64 unat_field_bits [of 0 "unat radix" ?x]
      unfolding bs by (simp add: drop_addr_bits) (simp add: addr_bits_def)
    also have "field_get 0 (unat radix) ?x = field_get 0 (unat radix) (field_set 0 (unat radix) i 0)"
      unfolding x using depth by (intro field_get_set_other small(1)) simp
    finally show ?thesis using depth by (simp add: field_get_set_same small(2))
  qed
  have "resolve_step dbg st cap ?x 32 = Ret (Resolved (Inr \<lparr>slot = addr + 64 * i, bits_remaining = 0\<rparr>))"
    using resolve_step_bits(1) [OF node(1) ok _ refl refl refl refl, of 32 ?x dbg] depth g ix
    by (auto simp: bits node entry_at_def cnode_slot_def cnode_consts)
  then have "resolve_internal dbg st cap ?x 32 = Some (Ret (Inr \<lparr>slot = addr + 64 * i, bits_remaining = 0\<rparr>))"
    by (subst resolve_internal.simps) simp
  then show ?thesis by (simp add: lookup_def lookup_with_depth_def resolve_def cnode_consts)
qed

theorem minted_cspace_lookup_witness:
  "\<exists>cap. CNodeCap_mint 0x1000 1 31 5 R_CONTROL = Ret cap \<and>
     lookup True [0x1000 \<mapsto> CapRaw_default, 0x1040 \<mapsto> CapRaw_default] \<lparr>root = cap\<rparr> 11 =
       Some (Ret (Inr 0x1040))"
proof -
  obtain cap where cap: "CNodeCap_mint 0x1000 1 31 5 R_CONTROL = Ret cap"
    by (simp add: CNodeCap_mint_Ret)
  have "\<forall>k < 2 ^ unat (1::usize). (0x1000::usize) + 64 * of_nat k \<in>
      dom [0x1000 \<mapsto> CapRaw_default, 0x1040 \<mapsto> CapRaw_default]"
    by (auto simp: less_2_cases_iff)
  from minted_cspace_lookup [OF cap _ _ this, of 1 True] cap show ?thesis by simp
qed

end
