(* ===== verification/Threads.thy ===== *)
theory Threads
  imports CSpaces
begin

text \<open>
  Threads: the trap frame and its message registers (\<open>arch/x86_64/trapframe.rs\<close>), the
  thread control block and the queue of threads waiting on an endpoint (\<open>objects/tcb.rs\<close>).
  The queue is intrusive: its links are fields of the blocks, so its operations take the
  memory of thread control blocks and return it updated. What a client of the queue may rely
  on is the locale \<open>fifo_queue\<close>, interpreted on the queue at the end of the theory.
\<close>

section \<open>Trap frames\<close>

definition REGISTERS_SIZE :: nat where "REGISTERS_SIZE = 15"

record TrapFrame =
  registers :: "usize list"
  error_code :: usize
  rip :: usize
  cs :: usize
  rflags :: u64
  rsp :: usize
  ss :: usize

definition TrapFrame_new :: TrapFrame where
  "TrapFrame_new = \<lparr>registers = replicate REGISTERS_SIZE 0, error_code = 0, rip = 0, cs = 0,
     rflags = 0, rsp = 0, ss = 0\<rparr>"

text \<open>
  The message registers are accessed with a debug assertion on the index, then the bounds
  check of the array.
\<close>

definition TrapFrame_get_mr :: "bool \<Rightarrow> TrapFrame \<Rightarrow> usize \<Rightarrow> usize outcome" where
  "TrapFrame_get_mr dbg tf idx =
     obind (debug_assert dbg (0 < idx \<and> unat idx < REGISTERS_SIZE)) (\<lambda>_.
       if unat idx < length (registers tf) then Ret (registers tf ! unat idx) else Panic)"

definition TrapFrame_set_mr :: "bool \<Rightarrow> TrapFrame \<Rightarrow> usize \<Rightarrow> usize \<Rightarrow> TrapFrame outcome" where
  "TrapFrame_set_mr dbg tf idx mr =
     obind (debug_assert dbg (0 < idx \<and> unat idx < REGISTERS_SIZE)) (\<lambda>_.
       if unat idx < length (registers tf)
       then Ret (tf\<lparr>registers := (registers tf)[unat idx := mr]\<rparr>) else Panic)"

text \<open>
  What \<open>restore\<close> loads into the processor: it pops the fifteen registers in order, skips
  the error code, and \<open>iretq\<close> pops the rest.
\<close>

record cpu_regs =
  gprs :: "(string \<times> usize) list"
  frame :: "usize list"

definition TrapFrame_restore :: "TrapFrame \<Rightarrow> cpu_regs" where
  "TrapFrame_restore tf = \<lparr>gprs = zip [''rax'', ''rbx'', ''rcx'', ''rdx'', ''rsi'', ''rdi'', ''rbp'',
       ''r8'', ''r9'', ''r10'', ''r11'', ''r12'', ''r13'', ''r14'', ''r15''] (registers tf),
     frame = [rip tf, cs tf, rflags tf, rsp tf, ss tf]\<rparr>"

section \<open>Thread control blocks\<close>

record IpcState =
  badge :: usize
  can_grant :: bool
  can_grant_reply :: bool
  is_call :: bool

datatype ThreadState = Inactive | Ready | Running | Restart | BlockedOnReceive | BlockedOnSend
  | BlockedOnReply | BlockedOnNotification | RunningVm | Idle

datatype Fault = Cap usize bool | UnknownSyscall usize | UserException usize usize
  | Timeout usize | DebugException usize usize usize | Unknown usize

record SchedContext =
  ticks :: usize
  ticks_consumed :: usize
  deadline :: u64
  sc_thread :: u8

text \<open>
  The capability slots inside a thread control block are kept by value: they are read and
  written only through the block.
\<close>

record Tcb =
  ctx :: TrapFrame
  notification :: usize
  fault :: "Fault option"
  fault_ep :: CapRaw
  sched_context :: "ptr option"
  ipc_buffer :: CapRaw
  cspace_root :: CapRaw
  vspace_root :: CapRaw
  tstate :: ThreadState
  ep_next :: "ptr option"
  ep_prev :: "ptr option"
  blocking_object :: "ptr option"
  ipc_state :: IpcState
  reply_to :: "ptr option"
  caller :: "ptr option"

definition Tcb_new :: Tcb where
  "Tcb_new = \<lparr>ctx = TrapFrame_new, notification = 0, fault = None, fault_ep = CNodeEntry_new,
     sched_context = None, ipc_buffer = CNodeEntry_new, cspace_root = CNodeEntry_new,
     vspace_root = CNodeEntry_new, tstate = Running, ep_next = None, ep_prev = None,
     blocking_object = None,
     ipc_state = \<lparr>badge = 0, can_grant = False, can_grant_reply = False, is_call = False\<rparr>,
     reply_to = None, caller = None\<rparr>"

definition Tcb_cspace :: "Tcb \<Rightarrow> SysError + CSpace" where
  "Tcb_cspace tcb = CSpace_new (cspace_root tcb)"

definition CSpace_from_tcb :: "Tcb \<Rightarrow> SysError + CSpace" where
  "CSpace_from_tcb tcb = CSpace_new (cspace_root tcb)"

definition get_mr :: "bool \<Rightarrow> Tcb \<Rightarrow> usize \<Rightarrow> usize outcome" where
  "get_mr dbg tcb idx = TrapFrame_get_mr dbg (ctx tcb) idx"

definition set_mr :: "bool \<Rightarrow> Tcb \<Rightarrow> usize \<Rightarrow> usize \<Rightarrow> Tcb outcome" where
  "set_mr dbg tcb idx mr =
     obind (TrapFrame_set_mr dbg (ctx tcb) idx mr) (\<lambda>tf. Ret (tcb\<lparr>ctx := tf\<rparr>))"

definition MR1 :: usize where "MR1 = 0"
definition MR2 :: usize where "MR2 = 1"
definition MR3 :: usize where "MR3 = 9"
definition MR4 :: usize where "MR4 = 10"
definition MR5 :: usize where "MR5 = 11"
definition MR6 :: usize where "MR6 = 12"

lemmas mr_consts = MR1_def MR2_def MR3_def MR4_def MR5_def MR6_def REGISTERS_SIZE_def

definition TcbCap_mint :: "usize \<Rightarrow> CapRaw" where
  "TcbCap_mint addr = (default_with_type Tcb)\<lparr>paddr := addr\<rparr>"

definition TcbCap_identify :: "bool \<Rightarrow> Tcb \<Rightarrow> (Tcb \<times> usize) outcome" where
  "TcbCap_identify dbg tcb =
     obind (set_mr dbg tcb MR1 (ObjType_code (CapRef_cap_type KTcb))) (\<lambda>t. Ret (t, 1))"

definition NullCap_identify :: "bool \<Rightarrow> Tcb \<Rightarrow> (Tcb \<times> usize) outcome" where
  "NullCap_identify dbg tcb =
     obind (set_mr dbg tcb MR1 (ObjType_code (CapRef_cap_type KNullObj))) (\<lambda>t. Ret (t, 1))"

section \<open>Queues of threads\<close>

type_synonym tmem = "ptr \<rightharpoonup> Tcb"

record TcbQueue =
  head :: "ptr option"
  tail :: "ptr option"

definition TcbQueue_new :: TcbQueue where
  "TcbQueue_new = \<lparr>head = None, tail = None\<rparr>"

definition queue_is_empty :: "TcbQueue \<Rightarrow> bool" where
  "queue_is_empty q \<longleftrightarrow> head q = None"

definition queue_append :: "tmem \<Rightarrow> TcbQueue \<Rightarrow> ptr \<Rightarrow> (tmem \<times> TcbQueue) outcome" where
  "queue_append m q tcb =
     obind (modify m tcb (\<lambda>t. t\<lparr>ep_next := None\<rparr>)) (\<lambda>m1.
     obind (modify m1 tcb (\<lambda>t. t\<lparr>ep_prev := tail q\<rparr>)) (\<lambda>m2.
     obind (case tail q of
              Some t \<Rightarrow> obind (modify m2 t (\<lambda>x. x\<lparr>ep_next := Some tcb\<rparr>)) (\<lambda>m3. Ret (m3, q))
            | None \<Rightarrow> Ret (m2, q\<lparr>head := Some tcb\<rparr>)) (\<lambda>(m3, q3).
       Ret (m3, q3\<lparr>tail := Some tcb\<rparr>))))"

definition dequeue_head :: "tmem \<Rightarrow> TcbQueue \<Rightarrow> (ptr option \<times> tmem \<times> TcbQueue) outcome" where
  "dequeue_head m q =
     (case head q of
        None \<Rightarrow> Ret (None, m, q)
      | Some h \<Rightarrow>
          obind (deref m h) (\<lambda>hd_tcb.
            let q1 = q\<lparr>head := ep_next hd_tcb\<rparr> in
          obind (case head q1 of
                   Some n \<Rightarrow> obind (modify m n (\<lambda>x. x\<lparr>ep_prev := None\<rparr>)) (\<lambda>m1. Ret (m1, q1))
                 | None \<Rightarrow> Ret (m, q1\<lparr>tail := None\<rparr>)) (\<lambda>(m1, q2).
          obind (modify m1 h (\<lambda>x. x\<lparr>ep_next := None\<rparr>)) (\<lambda>m2.
          obind (modify m2 h (\<lambda>x. x\<lparr>ep_prev := None\<rparr>)) (\<lambda>m3.
            Ret (Some h, m3, q2))))))"

definition queue_remove :: "tmem \<Rightarrow> TcbQueue \<Rightarrow> ptr \<Rightarrow> (tmem \<times> TcbQueue) outcome" where
  "queue_remove m q tcb =
     obind (deref m tcb) (\<lambda>t.
       let prev = ep_prev t; nxt = ep_next t in
     obind (case prev of
              Some p \<Rightarrow> obind (modify m p (\<lambda>x. x\<lparr>ep_next := nxt\<rparr>)) (\<lambda>m1. Ret (m1, q))
            | None \<Rightarrow> Ret (m, q\<lparr>head := nxt\<rparr>)) (\<lambda>(m1, q1).
     obind (case nxt of
              Some n \<Rightarrow> obind (modify m1 n (\<lambda>x. x\<lparr>ep_prev := prev\<rparr>)) (\<lambda>m2. Ret (m2, q1))
            | None \<Rightarrow> Ret (m1, q1\<lparr>tail := prev\<rparr>)) (\<lambda>(m2, q2).
     obind (modify m2 tcb (\<lambda>x. x\<lparr>ep_next := None\<rparr>)) (\<lambda>m3.
     obind (modify m3 tcb (\<lambda>x. x\<lparr>ep_prev := None\<rparr>)) (\<lambda>m4.
       Ret (m4, q2))))))"

section \<open>The interface of the queue\<close>

text \<open>
  A memory of objects and a queue through it represent a list of addresses. Appending and
  dequeuing act on the list as expected, keep what the objects hold apart from the links
  (\<open>body\<close>), and keep every queue over other objects.
\<close>

locale fifo_queue =
  fixes rep :: "'m \<Rightarrow> 'q \<Rightarrow> ptr list \<Rightarrow> bool"
    and body :: "'m \<Rightarrow> ptr \<Rightarrow> 'b option"
    and new :: 'q
    and enq :: "'m \<Rightarrow> 'q \<Rightarrow> ptr \<Rightarrow> ('m \<times> 'q) outcome"
    and deq :: "'m \<Rightarrow> 'q \<Rightarrow> (ptr option \<times> 'm \<times> 'q) outcome"
    and del :: "'m \<Rightarrow> 'q \<Rightarrow> ptr \<Rightarrow> ('m \<times> 'q) outcome"
    and nil :: "'q \<Rightarrow> bool"
  assumes rep_new: "rep m new xs \<longleftrightarrow> xs = []"
    and rep_distinct: "rep m q xs \<Longrightarrow> distinct xs"
    and rep_body: "rep m q xs \<Longrightarrow> x \<in> set xs \<Longrightarrow> body m x \<noteq> None"
    and nil_iff: "rep m q xs \<Longrightarrow> nil q \<longleftrightarrow> xs = []"
    and enq_rep: "rep m q xs \<Longrightarrow> body m x \<noteq> None \<Longrightarrow> x \<notin> set xs \<Longrightarrow>
      \<exists>m' q'. enq m q x = Ret (m', q') \<and> rep m' q' (xs @ [x]) \<and> body m' = body m \<and>
        (\<forall>q2 ys. set ys \<inter> insert x (set xs) = {} \<longrightarrow> rep m q2 ys \<longrightarrow> rep m' q2 ys)"
    and deq_nil: "rep m q [] \<Longrightarrow> deq m q = Ret (None, m, q)"
    and deq_rep: "rep m q (x # xs) \<Longrightarrow>
      \<exists>m' q'. deq m q = Ret (Some x, m', q') \<and> rep m' q' xs \<and> body m' = body m \<and>
        (\<forall>q2 ys. set ys \<inter> insert x (set xs) = {} \<longrightarrow> rep m q2 ys \<longrightarrow> rep m' q2 ys)"
    and del_rep: "rep m q (xs @ x # ys) \<Longrightarrow>
      \<exists>m' q'. del m q x = Ret (m', q') \<and> rep m' q' (xs @ ys) \<and> body m' = body m \<and>
        (\<forall>q2 zs. set zs \<inter> set (xs @ x # ys) = {} \<longrightarrow> rep m q2 zs \<longrightarrow> rep m' q2 zs)"
begin

text \<open>Clients: append a list of objects; take out a number of objects.\<close>

fun enq_all :: "'m \<Rightarrow> 'q \<Rightarrow> ptr list \<Rightarrow> ('m \<times> 'q) outcome" where
  "enq_all m q [] = Ret (m, q)"
| "enq_all m q (x # xs) = obind (enq m q x) (\<lambda>(m', q'). enq_all m' q' xs)"

fun deq_n :: "'m \<Rightarrow> 'q \<Rightarrow> nat \<Rightarrow> (ptr option list \<times> 'm \<times> 'q) outcome" where
  "deq_n m q 0 = Ret ([], m, q)"
| "deq_n m q (Suc n) = obind (deq m q) (\<lambda>(x, m', q').
     obind (deq_n m' q' n) (\<lambda>(xs, r). Ret (x # xs, r)))"

lemma enq_all_rep:
  assumes "rep m q ys" "distinct (ys @ xs)" "\<forall>x \<in> set xs. body m x \<noteq> None"
  shows "\<exists>m' q'. enq_all m q xs = Ret (m', q') \<and> rep m' q' (ys @ xs) \<and> body m' = body m"
  using assms
proof (induction xs arbitrary: m q ys)
  case (Cons x xs)
  then obtain m1 q1 where 1: "enq m q x = Ret (m1, q1)" "rep m1 q1 (ys @ [x])" "body m1 = body m"
    using enq_rep [of m q ys x] by auto
  from Cons.IH [OF 1(2)] Cons.prems 1(3) obtain m' q' where
    "enq_all m1 q1 xs = Ret (m', q')" "rep m' q' ((ys @ [x]) @ xs)" "body m' = body m1"
    by auto
  with 1 show ?case by simp
qed simp

lemma deq_n_rep:
  assumes "rep m q xs"
  shows "\<exists>m' q'. deq_n m q (length xs) = Ret (map Some xs, m', q') \<and> rep m' q' [] \<and> body m' = body m"
  using assms
proof (induction xs arbitrary: m q)
  case (Cons x xs)
  from deq_rep [OF Cons.prems] obtain m1 q1 where
    1: "deq m q = Ret (Some x, m1, q1)" "rep m1 q1 xs" "body m1 = body m" by blast
  from Cons.IH [OF 1(2)] 1 show ?case by auto
qed simp

text \<open>First in, first out.\<close>

lemma fifo:
  assumes "rep m q ys" "distinct (ys @ xs)" "\<forall>x \<in> set xs. body m x \<noteq> None"
  shows "\<exists>m' q'. obind (enq_all m q xs) (\<lambda>(m, q). deq_n m q (length (ys @ xs))) =
      Ret (map Some (ys @ xs), m', q') \<and> rep m' q' [] \<and> body m' = body m"
proof -
  from enq_all_rep [OF assms] obtain m1 q1 where
    1: "enq_all m q xs = Ret (m1, q1)" "rep m1 q1 (ys @ xs)" "body m1 = body m" by blast
  from deq_n_rep [OF 1(2)] 1 show ?thesis by auto
qed

end

section \<open>The queue implements the interface\<close>

definition queue_rep :: "tmem \<Rightarrow> TcbQueue \<Rightarrow> ptr list \<Rightarrow> bool" where
  "queue_rep m q xs \<longleftrightarrow> head q = first_or xs None \<and> tail q = last_or xs None \<and>
     dseg ep_prev ep_next m None xs None \<and> distinct xs"

definition tcb_body :: "Tcb \<Rightarrow> Tcb" where
  "tcb_body t = t\<lparr>ep_next := None, ep_prev := None\<rparr>"

definition tmem_body :: "tmem \<Rightarrow> ptr \<Rightarrow> Tcb option" where
  "tmem_body m p = map_option tcb_body (m p)"

interpretation tl: linked_node ep_prev ep_next
    "\<lambda>a t. t\<lparr>ep_prev := a\<rparr>" "\<lambda>a t. t\<lparr>ep_next := a\<rparr>"
  by unfold_locales simp_all

lemma tcb_body_links [simp]:
  "tcb_body (t\<lparr>ep_prev := a\<rparr>) = tcb_body t" "tcb_body (t\<lparr>ep_next := a\<rparr>) = tcb_body t"
  by (simp_all add: tcb_body_def)

lemma put_tmem_body [simp]:
  "tmem_body (put (\<lambda>a t. t\<lparr>ep_prev := a\<rparr>) q a m) = tmem_body m"
  "tmem_body (put (\<lambda>a t. t\<lparr>ep_next := a\<rparr>) q a m) = tmem_body m"
proof -
  have "tmem_body (put (\<lambda>a t. t\<lparr>ep_prev := a\<rparr>) q a m) x = tmem_body m x" for x
    by (cases "q = Some x"; cases "m x"; simp add: put_other tmem_body_def)
  then show "tmem_body (put (\<lambda>a t. t\<lparr>ep_prev := a\<rparr>) q a m) = tmem_body m" by (rule ext)
  have "tmem_body (put (\<lambda>a t. t\<lparr>ep_next := a\<rparr>) q a m) x = tmem_body m x" for x
    by (cases "q = Some x"; cases "m x"; simp add: put_other tmem_body_def)
  then show "tmem_body (put (\<lambda>a t. t\<lparr>ep_next := a\<rparr>) q a m) = tmem_body m" by (rule ext)
qed

lemma upd_tmem_body:
  "m x = Some t \<Longrightarrow> tcb_body t' = tcb_body t \<Longrightarrow> tmem_body (m(x \<mapsto> t')) = tmem_body m"
  by (rule ext) (simp add: tmem_body_def)

lemma tmem_body_None [simp]: "tmem_body m x = None \<longleftrightarrow> x \<notin> dom m"
  by (auto simp: tmem_body_def)

lemma tmem_body_dom: "tmem_body m' = tmem_body m \<Longrightarrow> dom m' = dom m"
proof -
  assume eq: "tmem_body m' = tmem_body m"
  have "x \<in> dom m' \<longleftrightarrow> x \<in> dom m" for x
    using fun_cong [OF eq, of x] by (cases "m x"; cases "m' x") (simp_all add: tmem_body_def domIff)
  then show ?thesis by blast
qed

lemma queue_rep_frame:
  "queue_rep m q ys \<Longrightarrow> (\<And>p. p \<in> set ys \<Longrightarrow> m' p = m p) \<Longrightarrow> queue_rep m' q ys"
  using dseg_frame [of ys m' m] by (simp add: queue_rep_def)

lemma queue_append_rep:
  assumes rep: "queue_rep m q xs" and x: "m x = Some t" "x \<notin> set xs"
  shows "\<exists>m' q'. queue_append m q x = Ret (m', q') \<and> queue_rep m' q' (xs @ [x]) \<and>
    tmem_body m' = tmem_body m \<and> (\<forall>p. p \<notin> insert x (set xs) \<longrightarrow> m' p = m p)"
proof -
  let ?v = "t\<lparr>ep_next := None, ep_prev := last_or xs None\<rparr>"
  let ?m2 = "m(x \<mapsto> ?v)"
  let ?m3 = "put (\<lambda>a t. t\<lparr>ep_next := a\<rparr>) (last_or xs None) (Some x) ?m2"
  let ?q' = "\<lparr>head = first_or (xs @ [x]) None, tail = Some x\<rparr>"
  from rep have seg: "dseg ep_prev ep_next m None (xs @ []) None" and dist: "distinct (xs @ [])"
    and q: "head q = first_or xs None" "tail q = last_or xs None"
    by (simp_all add: queue_rep_def)
  have "queue_rep ?m3 ?q' (xs @ [x])"
    using tl.link_between [OF seg dist, of x ?v] x dist by (simp add: queue_rep_def)
  moreover have "queue_append m q x = Ret (?m3, ?q')"
  proof (cases xs rule: rev_cases)
    case Nil
    then show ?thesis using q x by (simp add: queue_append_def)
  next
    case (snoc ys y)
    then obtain ty where "m y = Some ty" using dseg_dom [OF seg] by auto
    with snoc x q show ?thesis
      by (cases q) (auto simp: queue_append_def put_Some first_or_append)
  qed
  moreover have "tmem_body ?m3 = tmem_body m" using x by (simp add: upd_tmem_body)
  moreover have "?m3 p = m p" if "p \<notin> insert x (set xs)" for p using that by simp
  ultimately show ?thesis by blast
qed

lemma dequeue_head_rep:
  assumes rep: "queue_rep m q (x # xs)"
  shows "\<exists>m' q' t. dequeue_head m q = Ret (Some x, m', q') \<and> queue_rep m' q' xs \<and>
    tmem_body m' = tmem_body m \<and> (\<forall>p. p \<notin> insert x (set xs) \<longrightarrow> m' p = m p) \<and>
    m x = Some t \<and> m' x = Some (tcb_body t)"
proof -
  from rep have seg: "dseg ep_prev ep_next m None ([] @ x # xs) None"
    and dist: "distinct ([] @ x # xs)"
    and q: "head q = Some x" "tail q = last_or xs (Some x)"
    by (simp_all add: queue_rep_def)
  from dseg_member [OF seg] obtain t where t: "m x = Some t" "ep_next t = first_or xs None" by auto
  let ?m1 = "put (\<lambda>a t. t\<lparr>ep_prev := a\<rparr>) (first_or xs None) None m"
  let ?m3 = "?m1(x \<mapsto> tcb_body t)"
  let ?q' = "\<lparr>head = first_or xs None, tail = last_or xs None\<rparr>"
  have "dseg ep_prev ep_next ?m1 None xs None"
    using tl.unlink [OF seg dist] by simp
  then have "dseg ep_prev ep_next ?m3 None xs None"
    using dist by (intro tl.upd_frame) auto
  then have "queue_rep ?m3 ?q' xs" using dist by (simp add: queue_rep_def)
  moreover have "dequeue_head m q = Ret (Some x, ?m3, ?q')"
  proof (cases xs)
    case Nil
    then show ?thesis using q t by (cases q) (simp add: dequeue_head_def tcb_body_def)
  next
    case (Cons y ys)
    then obtain ty where "m y = Some ty" using dseg_dom [OF seg] by auto
    with Cons q t dist show ?thesis
      by (cases q) (simp add: dequeue_head_def tcb_body_def put_Some last_or_def)
  qed
  moreover have "tmem_body ?m3 = tmem_body m"
  proof -
    have "?m1 x = Some t" using t dist by simp
    then have "tmem_body ?m3 = tmem_body ?m1"
      by (rule upd_tmem_body) (simp add: tcb_body_def)
    then show ?thesis by simp
  qed
  moreover have "?m3 p = m p" if "p \<notin> insert x (set xs)" for p using that by simp
  moreover have "?m3 x = Some (tcb_body t)" by simp
  ultimately show ?thesis using t(1) by blast
qed

lemma dequeue_head_empty: "queue_rep m q [] \<Longrightarrow> dequeue_head m q = Ret (None, m, q)"
  by (simp add: queue_rep_def dequeue_head_def)

lemma queue_remove_rep:
  assumes rep: "queue_rep m q (xs @ x # ys)"
  shows "\<exists>m' q' t. queue_remove m q x = Ret (m', q') \<and> queue_rep m' q' (xs @ ys) \<and>
    tmem_body m' = tmem_body m \<and> (\<forall>p. p \<notin> set (xs @ x # ys) \<longrightarrow> m' p = m p) \<and>
    m x = Some t \<and> m' x = Some (tcb_body t)"
proof -
  from rep have seg: "dseg ep_prev ep_next m None (xs @ x # ys) None"
    and dist: "distinct (xs @ x # ys)"
    and q: "head q = first_or (xs @ x # ys) None" "tail q = last_or (xs @ x # ys) None"
    by (simp_all add: queue_rep_def)
  from dseg_member [OF seg] obtain t where
    t: "m x = Some t" "ep_prev t = last_or xs None" "ep_next t = first_or ys None" by auto
  let ?m1 = "put (\<lambda>a t. t\<lparr>ep_next := a\<rparr>) (last_or xs None) (first_or ys None) m"
  let ?m2 = "put (\<lambda>a t. t\<lparr>ep_prev := a\<rparr>) (first_or ys None) (last_or xs None) ?m1"
  let ?m3 = "?m2(x \<mapsto> tcb_body t)"
  let ?q1 = "if xs = [] then q\<lparr>head := first_or ys None\<rparr> else q"
  let ?q2 = "if ys = [] then ?q1\<lparr>tail := last_or xs None\<rparr> else ?q1"
  from dseg_dom [OF seg] have dom: "set xs \<subseteq> dom m" "set ys \<subseteq> dom ?m1" by auto
  have one: "(case last_or xs None of
       Some p \<Rightarrow> obind (modify m p (\<lambda>x. x\<lparr>ep_next := first_or ys None\<rparr>)) (\<lambda>m1. Ret (m1, q))
     | None \<Rightarrow> Ret (m, q\<lparr>head := first_or ys None\<rparr>)) = Ret (?m1, ?q1)"
    using modify_opt_ends(2) [OF dom(1), of "\<lambda>a t. t\<lparr>ep_next := a\<rparr>" "first_or ys None"]
    by (cases "last_or xs None") (auto simp: last_or_def)
  have two: "(case first_or ys None of
       Some n \<Rightarrow> obind (modify ?m1 n (\<lambda>x. x\<lparr>ep_prev := last_or xs None\<rparr>)) (\<lambda>m2. Ret (m2, ?q1))
     | None \<Rightarrow> Ret (?m1, ?q1\<lparr>tail := last_or xs None\<rparr>)) = Ret (?m2, ?q2)"
    using modify_opt_ends(1) [OF dom(2), of "\<lambda>a t. t\<lparr>ep_prev := a\<rparr>" "last_or xs None"]
    by (cases ys) auto
  have x2: "?m2 x = Some t" using t dist by simp
  have "queue_remove m q x = Ret (?m3, ?q2)"
    unfolding queue_remove_def using t x2
    by (simp only: deref_Some obind.simps Let_def one two prod.case modify_Some)
       (simp add: tcb_body_def)
  moreover have "dseg ep_prev ep_next ?m3 None (xs @ ys) None"
    using tl.unlink [OF seg dist] dist by (intro tl.upd_frame) auto
  then have "queue_rep ?m3 ?q2 (xs @ ys)"
    using dist q by (auto simp: queue_rep_def first_or_append last_or_append first_or_nonempty last_or_nonempty)
  moreover have "tmem_body ?m3 = tmem_body ?m2"
    using x2 by (rule upd_tmem_body) (simp add: tcb_body_def)
  then have "tmem_body ?m3 = tmem_body m" by simp
  moreover have "?m3 p = m p" if "p \<notin> set (xs @ x # ys)" for p using that by simp
  moreover have "?m3 x = Some (tcb_body t)" by simp
  ultimately show ?thesis using t(1) by blast
qed

interpretation tq: fifo_queue queue_rep tmem_body TcbQueue_new queue_append dequeue_head
    queue_remove queue_is_empty
proof unfold_locales
  fix m q x and xs :: "ptr list"
  show "queue_rep m TcbQueue_new xs \<longleftrightarrow> xs = []"
    by (cases xs) (auto simp: queue_rep_def TcbQueue_new_def)
  assume rep: "queue_rep m q xs"
  then show "distinct xs" by (simp add: queue_rep_def)
  from rep have "set xs \<subseteq> dom m" by (auto simp: queue_rep_def dest: dseg_dom)
  then show "tmem_body m x \<noteq> None" if "x \<in> set xs" using that by auto
  from rep show "queue_is_empty q \<longleftrightarrow> xs = []"
    by (auto simp: queue_rep_def queue_is_empty_def)
  assume "tmem_body m x \<noteq> None" "x \<notin> set xs"
  moreover from this(1) obtain t where "m x = Some t" by auto
  ultimately obtain m' q' where "queue_append m q x = Ret (m', q')" "queue_rep m' q' (xs @ [x])"
    "tmem_body m' = tmem_body m" "\<forall>p. p \<notin> insert x (set xs) \<longrightarrow> m' p = m p"
    using queue_append_rep [OF rep] by blast
  then show "\<exists>m' q'. queue_append m q x = Ret (m', q') \<and> queue_rep m' q' (xs @ [x]) \<and>
      tmem_body m' = tmem_body m \<and>
      (\<forall>q2 ys. set ys \<inter> insert x (set xs) = {} \<longrightarrow> queue_rep m q2 ys \<longrightarrow> queue_rep m' q2 ys)"
    by (intro exI [of _ m'] exI [of _ q'])
       (auto intro!: queue_rep_frame [of m] simp: disjoint_iff)
next
  fix m q x and xs :: "ptr list"
  assume "queue_rep m q (x # xs)"
  from dequeue_head_rep [OF this] obtain m' q' where
    "dequeue_head m q = Ret (Some x, m', q')" "queue_rep m' q' xs"
    "tmem_body m' = tmem_body m" "\<forall>p. p \<notin> insert x (set xs) \<longrightarrow> m' p = m p" by blast
  then show "\<exists>m' q'. dequeue_head m q = Ret (Some x, m', q') \<and> queue_rep m' q' xs \<and>
      tmem_body m' = tmem_body m \<and>
      (\<forall>q2 ys. set ys \<inter> insert x (set xs) = {} \<longrightarrow> queue_rep m q2 ys \<longrightarrow> queue_rep m' q2 ys)"
    by (intro exI [of _ m'] exI [of _ q'])
       (auto intro!: queue_rep_frame [of m] simp: disjoint_iff)
next
  fix m q x and xs ys :: "ptr list"
  assume "queue_rep m q (xs @ x # ys)"
  from queue_remove_rep [OF this] obtain m' q' where
    "queue_remove m q x = Ret (m', q')" "queue_rep m' q' (xs @ ys)"
    "tmem_body m' = tmem_body m" "\<forall>p. p \<notin> set (xs @ x # ys) \<longrightarrow> m' p = m p" by blast
  then show "\<exists>m' q'. queue_remove m q x = Ret (m', q') \<and> queue_rep m' q' (xs @ ys) \<and>
      tmem_body m' = tmem_body m \<and>
      (\<forall>q2 zs. set zs \<inter> set (xs @ x # ys) = {} \<longrightarrow> queue_rep m q2 zs \<longrightarrow> queue_rep m' q2 zs)"
    by (intro exI [of _ m'] exI [of _ q'])
       (auto intro!: queue_rep_frame [of m] simp: disjoint_iff)
qed (rule dequeue_head_empty)

section \<open>Message registers\<close>

definition regs_ok :: "Tcb \<Rightarrow> bool" where
  "regs_ok t \<longleftrightarrow> length (registers (ctx t)) = REGISTERS_SIZE"

lemma set_mr_Ret:
  assumes "regs_ok t" "unat idx < 15" "dbg \<longrightarrow> idx \<noteq> 0"
  shows "set_mr dbg t idx v = Ret (t\<lparr>ctx := (ctx t)\<lparr>registers := (registers (ctx t))[unat idx := v]\<rparr>\<rparr>)"
  using assms by (auto simp: set_mr_def TrapFrame_set_mr_def regs_ok_def mr_consts word_neq_0_conv)

lemma get_mr_Ret:
  assumes "regs_ok t" "unat idx < 15" "dbg \<longrightarrow> idx \<noteq> 0"
  shows "get_mr dbg t idx = Ret (registers (ctx t) ! unat idx)"
  using assms by (auto simp: get_mr_def TrapFrame_get_mr_def regs_ok_def mr_consts word_neq_0_conv)

lemma set_mr_keeps:
  assumes "set_mr dbg t idx v = Ret t'"
  shows "regs_ok t' \<longleftrightarrow> regs_ok t" and "t' = t\<lparr>ctx := ctx t'\<rparr>"
  using assms by (auto simp: set_mr_def TrapFrame_set_mr_def regs_ok_def outcome_simps split: if_splits)

lemma Tcb_new_regs [simp]: "regs_ok Tcb_new"
  by (simp add: regs_ok_def Tcb_new_def TrapFrame_new_def)

section \<open>Properties\<close>

text \<open>Two threads waiting in a queue and one outside, for the witnesses.\<close>

definition demo_tmem :: tmem where
  "demo_tmem = [0x400 \<mapsto> Tcb_new\<lparr>ep_next := Some 0x800\<rparr>, 0x800 \<mapsto> Tcb_new\<lparr>ep_prev := Some 0x400\<rparr>,
     0xc00 \<mapsto> Tcb_new]"

definition demo_queue :: TcbQueue where
  "demo_queue = \<lparr>head = Some 0x400, tail = Some 0x800\<rparr>"

lemma demo_queue_rep: "queue_rep demo_tmem demo_queue [0x400, 0x800]"
  by (simp add: queue_rep_def demo_tmem_def demo_queue_def Tcb_new_def)

text \<open>
  Claim C25. The endpoint queue is first in, first out: after any threads that are not queued
  yet are appended in some order to a queue, dequeuing as many threads as there are returns
  the old members and then the new ones in exactly that order, leaves the queue empty, and
  changes nothing in any thread but its queue links.
\<close>

theorem tcb_queue_fifo:
  assumes "queue_rep m q ys" "distinct (ys @ xs)" "set xs \<subseteq> dom m"
  shows "\<exists>m' q'. obind (tq.enq_all m q xs) (\<lambda>(m, q). tq.deq_n m q (length (ys @ xs))) =
      Ret (map Some (ys @ xs), m', q') \<and> queue_is_empty q' \<and> tmem_body m' = tmem_body m"
proof -
  have "\<forall>x \<in> set xs. tmem_body m x \<noteq> None" using assms(3) by auto
  from tq.fifo [OF assms(1,2) this] show ?thesis by (metis tq.nil_iff)
qed

theorem tcb_queue_fifo_witness:
  "\<exists>m' q'. obind (tq.enq_all demo_tmem demo_queue [0xc00]) (\<lambda>(m, q). tq.deq_n m q 3) =
      Ret ([Some 0x400, Some 0x800, Some 0xc00], m', q') \<and> queue_is_empty q'"
proof -
  have new: "set [0xc00] \<subseteq> dom demo_tmem" "distinct ([0x400, 0x800] @ [0xc00 :: ptr])"
    and len: "length ([0x400, 0x800] @ [0xc00 :: ptr]) = 3"
    by (simp_all add: demo_tmem_def)
  from tcb_queue_fifo [OF demo_queue_rep new(2,1), unfolded len]
  show ?thesis by (simp only: list.map append.simps) blast
qed

text \<open>
  Removing any member from an endpoint queue succeeds, keeps the order of the
  others, leaves the removed thread with both links empty, changes nothing but queue links,
  and touches no thread outside the queue.
\<close>

theorem queue_remove_correct:
  assumes "queue_rep m q (xs @ x # ys)"
  shows "\<exists>m' q'. queue_remove m q x = Ret (m', q') \<and> queue_rep m' q' (xs @ ys) \<and>
    (\<exists>t. m' x = Some t \<and> ep_next t = None \<and> ep_prev t = None) \<and>
    tmem_body m' = tmem_body m \<and> (\<forall>p. p \<notin> set (xs @ x # ys) \<longrightarrow> m' p = m p)"
proof -
  from queue_remove_rep [OF assms] obtain m' q' t where
    "queue_remove m q x = Ret (m', q')" "queue_rep m' q' (xs @ ys)" "tmem_body m' = tmem_body m"
    "\<forall>p. p \<notin> set (xs @ x # ys) \<longrightarrow> m' p = m p" "m' x = Some (tcb_body t)" by blast
  then show ?thesis by (auto simp: tcb_body_def)
qed

theorem queue_remove_correct_witness:
  "\<exists>m' q'. queue_remove demo_tmem demo_queue 0x400 = Ret (m', q') \<and> queue_rep m' q' [0x800]"
  using queue_remove_correct [of demo_tmem demo_queue "[]" "0x400" "[0x800]"] demo_queue_rep by auto

text \<open>
  Message registers: in a release build writing register \<open>idx\<close> below 15 and
  reading any register back gives the written value at \<open>idx\<close> and the old value elsewhere,
  and an index of 15 or more panics; in a debug build every access to \<open>MR1\<close>, whose index
  is 0, panics.
\<close>

theorem message_registers:
  assumes "regs_ok t"
  shows "(unat idx < 15 \<longrightarrow>
      (\<exists>t'. set_mr False t idx v = Ret t' \<and> regs_ok t' \<and> t'\<lparr>ctx := ctx t\<rparr> = t \<and>
        (\<forall>j. unat j < 15 \<longrightarrow> get_mr False t' j = (if j = idx then Ret v else get_mr False t j)))) \<and>
    (15 \<le> unat idx \<longrightarrow> set_mr False t idx v = Panic \<and> get_mr False t idx = Panic) \<and>
    set_mr True t MR1 v = Panic \<and> get_mr True t MR1 = Panic"
proof (intro conjI impI)
  assume idx: "unat idx < 15"
  let ?t' = "t\<lparr>ctx := (ctx t)\<lparr>registers := (registers (ctx t))[unat idx := v]\<rparr>\<rparr>"
  have ok: "regs_ok ?t'" using assms by (simp add: regs_ok_def)
  have "get_mr False ?t' j = (if j = idx then Ret v else get_mr False t j)" if "unat j < 15" for j
    using assms that idx get_mr_Ret [OF ok that, of False] get_mr_Ret [OF assms that, of False]
    by (auto simp: nth_list_update regs_ok_def mr_consts word_unat_eq_iff)
  with ok set_mr_Ret [OF assms idx, of False v]
  show "\<exists>t'. set_mr False t idx v = Ret t' \<and> regs_ok t' \<and> t'\<lparr>ctx := ctx t\<rparr> = t \<and>
        (\<forall>j. unat j < 15 \<longrightarrow> get_mr False t' j = (if j = idx then Ret v else get_mr False t j))"
    by simp
next
  assume "15 \<le> unat idx"
  then show "set_mr False t idx v = Panic" "get_mr False t idx = Panic"
    using assms by (simp_all add: set_mr_def get_mr_def TrapFrame_set_mr_def TrapFrame_get_mr_def
        regs_ok_def mr_consts)
qed (simp_all add: set_mr_def get_mr_def TrapFrame_set_mr_def TrapFrame_get_mr_def mr_consts)

theorem message_registers_witness:
  "\<exists>t'. set_mr False Tcb_new MR3 42 = Ret t' \<and> get_mr False t' MR3 = Ret 42 \<and>
     get_mr False t' MR4 = get_mr False Tcb_new MR4"
  using message_registers [of Tcb_new MR3 42] by (auto simp: mr_consts)

end
