(* ===== verification/Contracts.thy ===== *)
theory Contracts
  imports Threads
begin

unbundle bit_operations_syntax

text \<open>
  The contracts that the source states in its own annotation language: the clauses
  \<open>requires\<close> and \<open>ensures\<close>, the loop invariant and the proof functions of
  \<open>objects/cnode.rs\<close>, \<open>objects/mod.rs\<close> and \<open>objects/nullcap.rs\<close>. Each clause is a predicate
  on the model, and the locale \<open>contract\<close> says that an operation meets its clauses: under the
  precondition it returns, and what it returns satisfies the postcondition.

  References are valid by the type system of the source. The annotations do not mention it, and
  neither do they cover the pointers that the operations on chains follow in unsafe blocks; both are
  stated here as \<open>links_ok\<close>. Under it the contracts below hold, except two that are stated too strongly:
  that of \<open>mdb_insert_after\<close> for a slot that is inserted after itself, and that of \<open>revoke\<close> outside
  a chain.
\<close>

section \<open>Meeting a contract\<close>

locale contract =
  fixes op :: "'a \<Rightarrow> 'b outcome" and pre :: "'a \<Rightarrow> bool" and post :: "'a \<Rightarrow> 'b \<Rightarrow> bool"
  assumes meets: "pre x \<Longrightarrow> \<exists>y. op x = Ret y \<and> post x y"
begin

lemma holds: "pre x \<Longrightarrow> op x = Ret y \<Longrightarrow> post x y"
  using meets [of x] by auto

text \<open>A call in front of a continuation that needs no more than the postcondition.\<close>

lemma followed_by:
  assumes "pre x" "\<And>y. post x y \<Longrightarrow> \<exists>z. f y = Ret z \<and> Q z"
  shows "\<exists>z. obind (op x) f = Ret z \<and> Q z"
proof -
  from meets [OF assms(1)] obtain y where "op x = Ret y" "post x y" by blast
  with assms(2) [of y] show ?thesis by simp
qed

end

text \<open>A function that can not fail.\<close>

locale pure_contract =
  fixes f :: "'a \<Rightarrow> 'b" and pre :: "'a \<Rightarrow> bool" and post :: "'a \<Rightarrow> 'b \<Rightarrow> bool"
  assumes result: "pre x \<Longrightarrow> post x (f x)"

sublocale pure_contract \<subseteq> contract "\<lambda>x. Ret (f x)" pre post
  by unfold_locales (simp add: result)

section \<open>The clauses\<close>

subsection \<open>Slots\<close>

definition view :: "cstore \<Rightarrow> ptr \<Rightarrow> CapRaw option" where
  "view st p = st p"

definition set_ensures :: "cstore \<Rightarrow> ptr \<Rightarrow> CapRaw \<Rightarrow> bool" where
  "set_ensures st' p cap \<longleftrightarrow> view st' p = Some cap"

definition new_is_null :: bool where
  "new_is_null \<longleftrightarrow> cap_type CNodeEntry_new = NullObj"

definition links_ok :: "cstore \<Rightarrow> bool" where
  "links_ok st \<longleftrightarrow> (\<forall>p r q. st p = Some r \<longrightarrow> mdb_prev r = Some q \<or> mdb_next r = Some q \<longrightarrow> q \<in> dom st)"

definition mdb_insert_after_requires :: "cstore \<Rightarrow> ptr \<Rightarrow> ptr \<Rightarrow> bool" where
  "mdb_insert_after_requires st src dst = (case view st dst of Some d \<Rightarrow> mdb_isolated d | None \<Rightarrow> False)"

definition mdb_insert_after_ensures :: "cstore \<Rightarrow> ptr \<Rightarrow> ptr \<Rightarrow> bool" where
  "mdb_insert_after_ensures st' src dst \<longleftrightarrow>
     (case view st' dst of Some d \<Rightarrow> mdb_prev d \<noteq> None | None \<Rightarrow> False) \<and>
     (case view st' src of Some s \<Rightarrow> mdb_next s \<noteq> None | None \<Rightarrow> False)"

definition post_mdb_remove :: "CapRaw \<Rightarrow> bool" where
  "post_mdb_remove self \<longleftrightarrow> mdb_isolated self"

definition mdb_remove_ensures :: "cstore \<Rightarrow> ptr \<Rightarrow> bool" where
  "mdb_remove_ensures st' self =
     (case view st' self of
        Some r \<Rightarrow> mdb_isolated r \<and> mdb_prev r = None \<and> mdb_next r = None
      | None \<Rightarrow> False)"

definition revoke_ensures :: "cstore \<Rightarrow> ptr \<Rightarrow> bool" where
  "revoke_ensures st' self = (case view st' self of Some r \<Rightarrow> mdb_next r = None | None \<Rightarrow> False)"

subsection \<open>Nodes\<close>

definition mask_bounded :: "usize \<Rightarrow> bool" where
  "mask_bounded bits \<longleftrightarrow> (bits < 64 \<longrightarrow>
     mask_spec bits = push_bit (unat bits) 1 - 1 \<and> mask_spec bits < push_bit (unat bits) 1)"

definition mask_zero :: bool where
  "mask_zero \<longleftrightarrow> mask_spec 0 = 0"

definition mask_ensures :: "nat \<Rightarrow> usize \<Rightarrow> bool" where
  "mask_ensures bits result \<longleftrightarrow> result = mask_spec (of_nat bits) \<and>
     (bits < 64 \<longrightarrow> result = push_bit bits 1 - 1) \<and> (64 \<le> bits \<longrightarrow> result = - 1)"

definition try_from_slot_ensures :: "CapRaw \<Rightarrow> CapRaw option \<Rightarrow> bool" where
  "try_from_slot_ensures entry result \<longleftrightarrow>
     (result \<noteq> None \<longrightarrow> cap_type entry = CNode) \<and> (result = None \<longrightarrow> cap_type entry \<noteq> CNode)"

definition guard_bits_ensures :: "CapRaw \<Rightarrow> usize \<Rightarrow> bool" where
  "guard_bits_ensures self result \<longleftrightarrow> result \<le> mask_spec (of_nat GUARD_BITS) \<and> result < 64"

definition radix_bits_ensures :: "CapRaw \<Rightarrow> usize \<Rightarrow> bool" where
  "radix_bits_ensures self result \<longleftrightarrow> result \<le> mask_spec (of_nat RADIX_BITS) \<and> result < 64"

definition size_ensures :: "CapRaw \<Rightarrow> usize \<Rightarrow> bool" where
  "size_ensures self result \<longleftrightarrow> result = push_bit (unat (radix_bits self)) 1 \<and> 1 \<le> result \<and>
     (radix_bits self < 64 \<longrightarrow> result = push_bit (unat (radix_bits self)) 1)"

definition mint_depth_valid :: "usize \<Rightarrow> usize \<Rightarrow> bool" where
  "mint_depth_valid radix gbits \<longleftrightarrow> (mint_valid radix gbits \<longrightarrow> unat radix + unat gbits \<le> 32)"

definition mint_requires :: "usize \<Rightarrow> usize \<Rightarrow> bool" where
  "mint_requires radix gbits \<longleftrightarrow> mint_valid radix gbits \<and>
     unat (radix AND mask_spec (of_nat RADIX_BITS)) + unat (gbits AND mask_spec (of_nat GUARD_BITS)) \<le> unat CNODE_DEPTH"

definition mint_ensures :: "usize \<Rightarrow> usize \<Rightarrow> usize \<Rightarrow> usize \<Rightarrow> CapRights \<Rightarrow> CapRaw \<Rightarrow> bool" where
  "mint_ensures addr radix gbits guard rts result \<longleftrightarrow>
     cap_type result = CNode \<and> paddr result = addr \<and> arg2 result = guard \<and> rights result = rts \<and>
     drop_bit RADIX_OFFSET (arg1 result) AND mask_spec (of_nat RADIX_BITS) = radix AND mask_spec (of_nat RADIX_BITS) \<and>
     drop_bit GUARD_OFFSET (arg1 result) AND mask_spec (of_nat GUARD_BITS) = gbits AND mask_spec (of_nat GUARD_BITS)"

text \<open>The round trips, with the capability that is minted.\<close>

definition mint_radix_roundtrip :: "usize \<Rightarrow> usize \<Rightarrow> CapRaw \<Rightarrow> bool" where
  "mint_radix_roundtrip radix gbits cap \<longleftrightarrow> (mint_valid radix gbits \<and> radix < 64 \<and> gbits < 64 \<longrightarrow>
     (let extracted = drop_bit RADIX_OFFSET (arg1 cap) AND mask_spec (of_nat RADIX_BITS)
      in extracted = radix AND mask_spec (of_nat RADIX_BITS)))"

definition mint_guard_roundtrip :: "usize \<Rightarrow> usize \<Rightarrow> CapRaw \<Rightarrow> bool" where
  "mint_guard_roundtrip radix gbits cap \<longleftrightarrow> (mint_valid radix gbits \<and> radix < 64 \<and> gbits < 64 \<longrightarrow>
     (let extracted = drop_bit GUARD_OFFSET (arg1 cap) AND mask_spec (of_nat GUARD_BITS)
      in extracted = gbits AND mask_spec (of_nat GUARD_BITS)))"

definition mint_well_formed :: "usize \<Rightarrow> usize \<Rightarrow> usize \<Rightarrow> CapRaw \<Rightarrow> bool" where
  "mint_well_formed addr radix gbits cap \<longleftrightarrow>
     (mint_valid radix gbits \<and> addr \<noteq> 0 \<and> radix < 64 \<and> gbits < 64 \<longrightarrow> cnode_cap_well_formed cap)"

definition as_object_requires :: "CapRaw \<Rightarrow> bool" where
  "as_object_requires self \<longleftrightarrow> paddr self \<noteq> 0"

definition as_object_mut_requires :: "CapRaw \<Rightarrow> bool" where
  "as_object_mut_requires self \<longleftrightarrow> paddr self \<noteq> 0 \<and> rights_includes (rights self) R_WRITE"

definition as_object_mut_ensures :: "CapRaw \<Rightarrow> ptr \<times> usize \<Rightarrow> bool" where
  "as_object_mut_ensures self result \<longleftrightarrow> snd result = push_bit (unat (radix_bits self)) 1"

definition init_requires :: "CapRaw \<Rightarrow> bool" where
  "init_requires self \<longleftrightarrow> paddr self \<noteq> 0 \<and> rights_includes (rights self) R_WRITE"

definition slot_null :: "cstore \<Rightarrow> CapRaw \<Rightarrow> nat \<Rightarrow> bool" where
  "slot_null st self i = (case view st (cnode_slot self (of_nat i)) of Some r \<Rightarrow> cap_type r = NullObj | None \<Rightarrow> False)"

definition init_invariant :: "cstore \<Rightarrow> CapRaw \<Rightarrow> nat \<Rightarrow> bool" where
  "init_invariant st self idx \<longleftrightarrow> idx \<le> unat (cnode_size self) \<and> (\<forall>i < idx. slot_null st self i)"

definition init_ensures :: "cstore \<Rightarrow> CapRaw \<Rightarrow> bool" where
  "init_ensures st' self \<longleftrightarrow> (\<forall>i < unat (cnode_size self). slot_null st' self i)"

definition try_from_ensures :: "KernelObject \<Rightarrow> CapRaw \<Rightarrow> SysError + unit \<Rightarrow> bool" where
  "try_from_ensures T value result \<longleftrightarrow>
     (\<not> isl result \<longrightarrow> OBJ_TYPE T = cap_type value) \<and> (isl result \<longrightarrow> OBJ_TYPE T \<noteq> cap_type value)"

definition cnode_depth_value :: bool where
  "cnode_depth_value \<longleftrightarrow> CNODE_DEPTH = 32"

definition radix_guard_bounded :: "usize \<Rightarrow> usize \<Rightarrow> bool" where
  "radix_guard_bounded radix guard \<longleftrightarrow>
     (radix \<le> 63 \<and> guard \<le> 63 \<and> unat radix + unat guard \<le> unat CNODE_DEPTH \<longrightarrow> unat radix + unat guard \<le> 32)"

subsection \<open>References and null capabilities\<close>

definition reflexive :: "CapRights \<Rightarrow> bool" where
  "reflexive self \<longleftrightarrow> rights_includes self self"

definition transitive :: "CapRights \<Rightarrow> CapRights \<Rightarrow> CapRights \<Rightarrow> bool" where
  "transitive a b c \<longleftrightarrow> (rights_includes a b \<and> rights_includes b c \<longrightarrow> rights_includes a c)"

definition cap_type_ensures :: "KernelObject \<Rightarrow> CapRaw \<Rightarrow> ObjType \<Rightarrow> bool" where
  "cap_type_ensures T raw result \<longleftrightarrow> result = OBJ_TYPE T \<and> result = cap_type raw"

definition is_null_cap :: "CapRaw \<Rightarrow> bool" where
  "is_null_cap raw \<longleftrightarrow> raw = CapRaw_default"

definition insert_ensures :: "CapRaw \<Rightarrow> ptr \<times> cstore \<Rightarrow> bool" where
  "insert_ensures raw result \<longleftrightarrow> view (snd result) (fst result) = Some raw"

text \<open>
  The clauses of \<open>identify\<close> also mention \<open>tcb.is_valid()\<close>, which the source defines nowhere; they
  are stated without it.
\<close>

definition identify_ensures :: "Tcb \<times> usize \<Rightarrow> bool" where
  "identify_ensures result \<longleftrightarrow> snd result = 1 \<and>
     get_mr False (fst result) MR1 = Ret (ObjType_code (CapRef_cap_type KNullObj))"

section \<open>Chains\<close>

lemma links_okD:
  assumes "links_ok st" "st p = Some r"
  shows "mdb_prev r = Some q \<Longrightarrow> q \<in> dom st" "mdb_next r = Some q \<Longrightarrow> q \<in> dom st"
  using assms unfolding links_ok_def by blast+

text \<open>Writing links into the store keeps the links valid.\<close>

lemma links_ok_upd:
  assumes "links_ok st" "p \<in> dom st"
    and "\<And>q. mdb_prev r = Some q \<or> mdb_next r = Some q \<Longrightarrow> q \<in> dom st"
  shows "links_ok (st(p \<mapsto> r))" "dom (st(p \<mapsto> r)) = dom st"
proof -
  show dom: "dom (st(p \<mapsto> r)) = dom st" using assms(2) by auto
  show "links_ok (st(p \<mapsto> r))"
    unfolding links_ok_def dom
  proof (intro allI impI)
    fix x r' q assume "(st(p \<mapsto> r)) x = Some r'" "mdb_prev r' = Some q \<or> mdb_next r' = Some q"
    with assms links_okD [OF assms(1), of x r' q] show "q \<in> dom st" by (auto split: if_splits)
  qed
qed

lemma modify_opt_links:
  assumes ok: "links_ok st" and q: "\<And>x. q = Some x \<Longrightarrow> x \<in> dom st"
    and f: "\<And>r y. mdb_prev (f r) = Some y \<or> mdb_next (f r) = Some y \<Longrightarrow>
      mdb_prev r = Some y \<or> mdb_next r = Some y \<or> y \<in> dom st"
  obtains st' where "modify_opt st q f = Ret st'" "links_ok st'" "dom st' = dom st"
    "\<forall>x. q \<noteq> Some x \<longrightarrow> st' x = st x" "\<forall>x r. q = Some x \<longrightarrow> st x = Some r \<longrightarrow> st' x = Some (f r)"
proof (cases q)
  case None
  then show thesis using that [of st] ok by simp
next
  case (Some x)
  with q obtain r where r: "st x = Some r" by blast
  have "y \<in> dom st" if "mdb_prev (f r) = Some y \<or> mdb_next (f r) = Some y" for y
    using f [OF that] links_okD [OF ok r] by blast
  from links_ok_upd [where r = "f r", OF ok domI [of st, OF r] this] have upd: "links_ok (st(x \<mapsto> f r))" "dom (st(x \<mapsto> f r)) = dom st" by blast+
  show thesis by (rule that [OF _ upd]) (use Some r in auto)
qed

lemma mdb_insert_after_meets:
  assumes ok: "links_ok st" and src: "src \<in> dom st" and req: "mdb_insert_after_requires st src dst"
  shows "\<exists>st'. mdb_insert_after st src dst = Ret st' \<and> links_ok st' \<and>
    (mdb_insert_after_ensures st' src dst \<longleftrightarrow> src \<noteq> dst)"
proof -
  from src obtain s where s: "st src = Some s" by blast
  from req obtain d where d: "st dst = Some d" "mdb_isolated d"
    by (auto simp: mdb_insert_after_requires_def view_def split: option.splits)
  let ?d = "d\<lparr>mdb_prev := Some src, mdb_next := mdb_next s\<rparr>"
  have ok1: "links_ok (st(dst \<mapsto> ?d))" "dom (st(dst \<mapsto> ?d)) = dom st"
    using links_okD(2) [OF ok s] s d(1) by (intro links_ok_upd [OF ok domI [of st, OF d(1)]], auto)+
  have next_ok: "mdb_prev (v\<lparr>mdb_prev := Some dst\<rparr>) = Some y \<or> mdb_next (v\<lparr>mdb_prev := Some dst\<rparr>) = Some y \<Longrightarrow>
      mdb_prev v = Some y \<or> mdb_next v = Some y \<or> y \<in> dom (st(dst \<mapsto> ?d))" for v :: CapRaw and y
    by auto
  obtain st2 where st2: "modify_opt (st(dst \<mapsto> ?d)) (mdb_next s) (\<lambda>r. r\<lparr>mdb_prev := Some dst\<rparr>) = Ret st2"
    "links_ok st2" "dom st2 = dom (st(dst \<mapsto> ?d))" "\<forall>x. mdb_next s \<noteq> Some x \<longrightarrow> st2 x = (st(dst \<mapsto> ?d)) x"
    "\<forall>x r. mdb_next s = Some x \<longrightarrow> (st(dst \<mapsto> ?d)) x = Some r \<longrightarrow> st2 x = Some (r\<lparr>mdb_prev := Some dst\<rparr>)"
    by (rule modify_opt_links [OF ok1(1) links_okD(2) [OF ok s, folded ok1(2)] next_ok])
  note dom2 = st2(3) [unfolded ok1(2)]
  let ?st' = "st2(src \<mapsto> s\<lparr>mdb_next := Some dst\<rparr>)"
  from dom2 s obtain s2 where s2: "st2 src = Some s2" by blast
  have run: "mdb_insert_after st src dst = Ret ?st'"
    using s d(1) st2(1) s2 by (simp add: mdb_insert_after_def slot_simps Let_def)
  have "links_ok ?st'"
    using s d(1) links_okD [OF ok s] by (intro links_ok_upd(1) [OF st2(2)]) (auto simp: dom2)
  moreover have "mdb_insert_after_ensures ?st' src dst \<longleftrightarrow> src \<noteq> dst"
  proof (cases "src = dst")
    case True
    then have "s = d" using s d(1) by simp
    with True d(2) show ?thesis by (simp add: mdb_insert_after_ensures_def view_def mdb_isolated_def)
  next
    case False
    have "\<exists>r. st2 dst = Some r \<and> mdb_prev r \<noteq> None"
      using spec [OF st2(4), of dst] spec [OF st2(5), of dst] by (cases "mdb_next s = Some dst") auto
    with False show ?thesis by (auto simp: mdb_insert_after_ensures_def view_def)
  qed
  ultimately show ?thesis using run by blast
qed

lemma mdb_remove_meets:
  assumes ok: "links_ok st" and self: "self \<in> dom st"
  shows "\<exists>st'. mdb_remove st self = Ret st' \<and> links_ok st' \<and> mdb_remove_ensures st' self"
proof -
  from self obtain r where r: "st self = Some r" by blast
  note l = links_okD [OF ok r]
  have next_ok: "mdb_prev (v\<lparr>mdb_next := mdb_next r\<rparr>) = Some y \<or> mdb_next (v\<lparr>mdb_next := mdb_next r\<rparr>) = Some y \<Longrightarrow>
      mdb_prev v = Some y \<or> mdb_next v = Some y \<or> y \<in> dom st" for v :: CapRaw and y
    using l(2) by simp blast
  obtain st1 where st1: "modify_opt st (mdb_prev r) (\<lambda>v. v\<lparr>mdb_next := mdb_next r\<rparr>) = Ret st1" "links_ok st1"
    "dom st1 = dom st" by (rule modify_opt_links [OF ok l(1) next_ok])
  have prev_ok: "mdb_prev (v\<lparr>mdb_prev := mdb_prev r\<rparr>) = Some y \<or> mdb_next (v\<lparr>mdb_prev := mdb_prev r\<rparr>) = Some y \<Longrightarrow>
      mdb_prev v = Some y \<or> mdb_next v = Some y \<or> y \<in> dom st1" for v :: CapRaw and y
    using l(1) st1(3) by simp blast
  obtain st2 where st2: "modify_opt st1 (mdb_next r) (\<lambda>v. v\<lparr>mdb_prev := mdb_prev r\<rparr>) = Ret st2" "links_ok st2"
    "dom st2 = dom st1" by (rule modify_opt_links [OF st1(2) l(2) [folded st1(3)] prev_ok])
  let ?st' = "st2(self \<mapsto> r\<lparr>mdb_prev := None, mdb_next := None\<rparr>)"
  have self2: "self \<in> dom st2" using self st1(3) st2(3) by simp
  then obtain r2 where r2: "st2 self = Some r2" by blast
  have run: "mdb_remove st self = Ret ?st'"
    using r st1(1) st2(1) r2 by (simp add: mdb_remove_def slot_simps Let_def)
  have "links_ok ?st'" by (rule links_ok_upd(1) [OF st2(2) self2]) simp
  with run show ?thesis by (auto simp: mdb_remove_ensures_def view_def mdb_isolated_def)
qed

interpretation insert_after: contract "\<lambda>(st, src, dst). mdb_insert_after st src dst"
    "\<lambda>(st, src, dst). links_ok st \<and> src \<in> dom st \<and> src \<noteq> dst \<and> mdb_insert_after_requires st src dst"
    "\<lambda>(st, src, dst) st'. links_ok st' \<and> mdb_insert_after_ensures st' src dst"
proof (unfold_locales, goal_cases)
  case (1 x)
  then show ?case using mdb_insert_after_meets [of "fst x" "fst (snd x)" "snd (snd x)"] by (cases x) auto
qed

interpretation remove: contract "\<lambda>(st, self). mdb_remove st self" "\<lambda>(st, self). links_ok st \<and> self \<in> dom st"
    "\<lambda>(st, self) st'. links_ok st' \<and> mdb_remove_ensures st' self"
proof (unfold_locales, goal_cases)
  case (1 x)
  then show ?case using mdb_remove_meets [of "fst x" "snd x"] by (cases x) auto
qed

interpretation entry: contract "\<lambda>(st, p, cap). entry_set st p cap" "\<lambda>(st, p, cap). p \<in> dom st"
    "\<lambda>(st, p, cap) st'. set_ensures st' p cap"
  by unfold_locales (auto simp: entry_set_def set_ensures_def view_def)

text \<open>A capability that is written to an empty slot and then linked into a chain.\<close>

lemma set_then_insert_after:
  assumes "links_ok st" "src \<in> dom st" "dst \<in> dom st" "src \<noteq> dst" "mdb_isolated cap"
  shows "\<exists>st'. obind (entry_set st dst cap) (\<lambda>st1. mdb_insert_after st1 src dst) = Ret st' \<and>
    links_ok st' \<and> mdb_insert_after_ensures st' src dst"
proof -
  have set: "entry_set st dst cap = Ret (st(dst \<mapsto> cap))" using assms(3) by (auto simp: entry_set_def)
  have "links_ok (st(dst \<mapsto> cap))"
    using assms(5) by (intro links_ok_upd(1) [OF assms(1,3)]) (simp add: mdb_isolated_def)
  with assms(2,4,5) insert_after.meets [of "(st(dst \<mapsto> cap), src, dst)"] set show ?thesis
    by (auto simp: mdb_insert_after_requires_def view_def)
qed

section \<open>Nodes and null capabilities\<close>

lemma mint_requires_iff: "mint_requires radix gbits \<longleftrightarrow> mint_valid radix gbits"
proof -
  have "unat (x AND mask_spec 6) \<le> unat x" for x
    using mask_spec_eq [of 6] by (simp add: cnode_mask_eq word_and_le2 flip: word_le_nat_alt)
  from add_mono [OF this this] show ?thesis
    by (auto simp: mint_requires_def mint_valid_def cnode_consts intro: order_trans)
qed

lemma mint_meets:
  assumes "mint_valid radix gbits"
  shows "\<exists>cap. CNodeCap_mint addr radix gbits guard rts = Ret cap \<and> mint_ensures addr radix gbits guard rts cap \<and>
    mint_radix_roundtrip radix gbits cap \<and> mint_guard_roundtrip radix gbits cap \<and> mint_well_formed addr radix gbits cap \<and>
    radix_bits cap = radix \<and> guard_bits cap = gbits \<and> cnode_guard cap = guard \<and> paddr cap = addr"
proof -
  have "unat radix < 64" "unat gbits < 64" using assms by (simp_all add: mint_valid_def CNODE_DEPTH_def)
  from CNodeCap_mint_roundtrip [OF this, of addr guard rts] assms obtain cap where
    "CNodeCap_mint addr radix gbits guard rts = Ret cap"
    "drop_bit RADIX_OFFSET (arg1 cap) AND mask_spec (of_nat RADIX_BITS) = radix AND mask_spec (of_nat RADIX_BITS)"
    "drop_bit GUARD_OFFSET (arg1 cap) AND mask_spec (of_nat GUARD_BITS) = gbits AND mask_spec (of_nat GUARD_BITS)"
    "radix_bits cap = radix" "guard_bits cap = gbits"
    "cnode_guard cap = guard" "paddr cap = addr" "rights cap = rts" "try_from_slot cap = Some cap"
    "cnode_cap_well_formed cap \<longleftrightarrow> addr \<noteq> 0" by blast
  then show ?thesis
    by (auto simp: mint_ensures_def mint_radix_roundtrip_def mint_guard_roundtrip_def mint_well_formed_def
        cnode_guard_def try_from_slot_def Let_def split: if_splits)
qed

text \<open>The loop of \<open>init\<close> keeps the source's invariant, which gives its postcondition at the end.\<close>

lemma init_invariant_step:
  assumes "init_invariant st self idx" "idx < unat (cnode_size self)"
    and "entry_set st (cnode_slot self (of_nat idx)) CapRaw_default = Ret st'"
  shows "init_invariant st' self (Suc idx)"
  using assms
  by (auto simp: init_invariant_def slot_null_def view_def entry_set_def modify_Ret_iff less_Suc_eq CapRaw_default_def)

lemma init_loop_meets:
  assumes "\<And>i. i < unat (cnode_size self) \<Longrightarrow> cnode_slot self (of_nat i) \<in> dom st" "init_invariant st self idx"
  shows "\<exists>st'. cnode_init_loop st self idx = Ret st' \<and> init_ensures st' self"
  using assms
proof (induction st self idx rule: cnode_init_loop_induct)
  case (1 st self idx)
  show ?case
  proof (cases "idx < unat (cnode_size self)")
    case True
    let ?p = "cnode_slot self (of_nat idx)"
    have set: "entry_set st ?p CapRaw_default = Ret (st(?p \<mapsto> CapRaw_default))"
      using "1.prems"(1) [OF True] by (auto simp: entry_set_def)
    have slots: "cnode_slot self (of_nat i) \<in> dom (st(?p \<mapsto> CapRaw_default))" if "i < unat (cnode_size self)" for i
      using "1.prems"(1) [OF that] by auto
    from "1.IH" [OF True set slots init_invariant_step [OF "1.prems"(2) True set]] show ?thesis
      unfolding cnode_init_loop_eq [of st] by (simp only: True if_True set obind.simps)
  next
    case False
    then show ?thesis using "1.prems"(2)
      by (subst cnode_init_loop_eq) (auto simp: init_invariant_def init_ensures_def)
  qed
qed

text \<open>The slots of the node exist: what the safety comment asks of the address.\<close>

definition slots_valid :: "cstore \<Rightarrow> CapRaw \<Rightarrow> bool" where
  "slots_valid st self \<longleftrightarrow> (\<forall>i < unat (cnode_size self). cnode_slot self (of_nat i) \<in> dom st)"

interpretation node_init: contract "\<lambda>(st, self). cnode_init st self" "\<lambda>(st, self). init_requires self \<and> slots_valid st self"
    "\<lambda>(st, self) st'. init_ensures st' self"
proof (unfold_locales, goal_cases)
  case (1 x)
  moreover have "init_invariant (fst x) (snd x) 0" by (simp add: init_invariant_def)
  ultimately show ?case using init_loop_meets [of "snd x" "fst x" 0] by (cases x) (auto simp: cnode_init_def slots_valid_def)
qed

interpretation mint: contract "\<lambda>(addr, radix, gbits, guard, rts). CNodeCap_mint addr radix gbits guard rts"
    "\<lambda>(addr, radix, gbits, guard, rts). mint_requires radix gbits"
    "\<lambda>(addr, radix, gbits, guard, rts) cap. mint_ensures addr radix gbits guard rts cap"
proof (unfold_locales, goal_cases)
  case (1 x)
  then show ?case
    using mint_meets [of "fst (snd x)" "fst (snd (snd x))" "fst x" "fst (snd (snd (snd x)))" "snd (snd (snd (snd x)))"]
    by (cases x) (auto simp: mint_requires_iff)
qed

interpretation node_mask: pure_contract cnode_mask "\<lambda>bits. bits < 2 ^ 64" mask_ensures
proof (unfold_locales, goal_cases)
  case (1 bits)
  then have "unat (of_nat bits :: usize) = bits" by (simp add: unat_of_nat take_bit_nat_eq_self)
  then show ?case by (simp add: mask_ensures_def mask_spec_def cnode_mask_def word_le_nat_alt)
qed

interpretation node_guard: pure_contract guard_bits "\<lambda>_. True" guard_bits_ensures
proof (unfold_locales, goal_cases)
  case (1 raw)
  have "mask_spec 6 = 63" by (simp add: mask_spec_def)
  with guard_bits_bound [of raw] show ?case
    by (simp add: guard_bits_ensures_def GUARD_BITS_def word_le_nat_alt word_less_nat_alt)
qed

interpretation node_radix: pure_contract radix_bits "\<lambda>_. True" radix_bits_ensures
proof (unfold_locales, goal_cases)
  case (1 raw)
  have "mask_spec 6 = 63" by (simp add: mask_spec_def)
  with radix_bits_bound [of raw] show ?case
    by (simp add: radix_bits_ensures_def RADIX_BITS_def word_le_nat_alt word_less_nat_alt)
qed

interpretation node_size: pure_contract cnode_size "\<lambda>_. True" size_ensures
proof (unfold_locales, goal_cases)
  case (1 raw)
  have "1 \<le> unat (cnode_size raw)" by (simp add: unat_cnode_size)
  then have "1 \<le> cnode_size raw" by (simp add: word_le_nat_alt)
  then show ?case by (simp add: size_ensures_def cnode_size_def)
qed

interpretation node_slice: pure_contract as_object_mut as_object_mut_requires as_object_mut_ensures
  by unfold_locales (simp add: as_object_mut_def as_object_mut_ensures_def)

text \<open>\<open>as_object\<close> is the same slice and asks for less.\<close>

interpretation node_read: pure_contract as_object_mut as_object_requires as_object_mut_ensures
  by unfold_locales (simp add: as_object_mut_def as_object_mut_ensures_def)

interpretation slot_type: pure_contract try_from_slot "\<lambda>_. True" try_from_slot_ensures
  by unfold_locales (simp add: try_from_slot_def try_from_slot_ensures_def)

interpretation typed: pure_contract "\<lambda>(T, raw). try_from T raw" "\<lambda>_. True" "\<lambda>(T, raw) r. try_from_ensures T raw r"
  by unfold_locales (auto simp: try_from_def try_from_ensures_def split: if_splits)

interpretation cap_kind: pure_contract "\<lambda>(T, raw). CapRef_cap_type T" "\<lambda>(T, raw). cap_type_matches T raw"
    "\<lambda>(T, raw) r. cap_type_ensures T raw r"
  by unfold_locales (auto simp: CapRef_cap_type_def cap_type_matches_def cap_type_ensures_def)

interpretation null_insert: contract "\<lambda>(T, st, p, raw). NullCap_insert st p raw"
    "\<lambda>(T, st, p, raw). p \<in> dom st \<and> cap_type_matches T raw" "\<lambda>(T, st, p, raw) r. insert_ensures raw r"
  by unfold_locales (auto simp: NullCap_insert_def insert_ensures_def view_def)

text \<open>In a debug build the first message register is out of the range that \<open>set_mr\<close> asserts.\<close>

interpretation null_identify: contract "NullCap_identify False" regs_ok "\<lambda>_ r. identify_ensures r \<and> regs_ok (fst r)"
proof (unfold_locales, goal_cases)
  case (1 tcb)
  then show ?case
    by (auto simp: NullCap_identify_def identify_ensures_def set_mr_Ret get_mr_Ret MR1_def regs_ok_def REGISTERS_SIZE_def)
qed

text \<open>An inserted capability converts to a reference of the type it was inserted with.\<close>

lemma inserted_converts:
  assumes "p \<in> dom st" "cap_type_matches T raw"
  shows "\<exists>r. obind (NullCap_insert st p raw) (\<lambda>(q, st'). obind (entry_get st' q) (\<lambda>v. Ret (try_from T v))) = Ret r \<and> r = Inr ()"
  using null_insert.followed_by [of "(T, st, p, raw)" "\<lambda>(q, st'). obind (entry_get st' q) (\<lambda>v. Ret (try_from T v))" "\<lambda>r. r = Inr ()"]
    assms by (auto simp: insert_ensures_def view_def entry_get_def try_from_Inr_iff)

text \<open>The proof functions of the source, and the contracts of functions without an argument.\<close>

lemma proof_functions:
  "mask_bounded bits" "mask_zero" "cnode_depth_value" "radix_guard_bounded radix gbits" "mint_depth_valid radix gbits"
  "new_is_null" "reflexive a" "transitive a b c" "is_null_cap NullCap_mint" "post_mdb_remove CNodeEntry_new"
proof -
  show "mask_bounded bits"
  proof -
    have "push_bit (unat bits) 1 - 1 < (push_bit (unat bits) 1 :: usize)" if "bits < 64"
    proof -
      from that have "unat bits < 64" by (simp add: word_less_nat_alt)
      then have n: "unat (push_bit (unat bits) 1 :: usize) = 2 ^ unat bits" by (rule unat_push_one)
      then have "1 \<le> unat (push_bit (unat bits) 1 :: usize)" by simp
      then have "(1 :: usize) \<le> push_bit (unat bits) 1" by (simp only: word_le_nat_alt unat_1)
      from unat_sub [OF this] n have "unat (push_bit (unat bits) 1 - 1 :: usize) < unat (push_bit (unat bits) 1 :: usize)" by simp
      then show ?thesis by (simp only: word_less_nat_alt)
    qed
    then show ?thesis by (auto simp: mask_bounded_def mask_spec_def not_le)
  qed
  show "mask_zero" "cnode_depth_value" "radix_guard_bounded radix gbits" "mint_depth_valid radix gbits"
    "new_is_null" "reflexive a" "is_null_cap NullCap_mint" "post_mdb_remove CNodeEntry_new"
    by (simp_all add: mask_zero_def mask_spec_def cnode_depth_value_def radix_guard_bounded_def mint_depth_valid_def
        mint_valid_def CNODE_DEPTH_def new_is_null_def CNodeEntry_new_def reflexive_def rights_reflexive is_null_cap_def
        NullCap_mint_def post_mdb_remove_def mdb_isolated_def)
  show "transitive a b c" using rights_transitive by (auto simp: transitive_def)
qed

text \<open>A link in one direction only: \<open>revoke\<close> erases the entry behind it but leaves the link.\<close>

lemma one_way_link:
  defines "st \<equiv> [0x1000 \<mapsto> demo_slot None (Some 0x1040), 0x1040 \<mapsto> demo_slot None None]"
  shows "links_ok st \<and> 0x1000 \<in> dom st \<and> (\<exists>st'. revoke st 0x1000 = Some (Ret st') \<and> \<not> revoke_ensures st' 0x1000)"
proof -
  have "revoke st 0x1000 = Some (Ret (st(0x1040 \<mapsto> erase (demo_slot None None))))"
    by (simp add: st_def revoke_def revoke_loop.simps [of _ "Some _"] revoke_loop.simps [of _ None] revoke_step_def mdb_remove_def
        slot_simps demo_slot_def erase_def Let_def)
  moreover have "links_ok st" by (auto simp: links_ok_def st_def demo_slot_def split: if_splits)
  ultimately show ?thesis by (simp add: revoke_ensures_def view_def st_def demo_slot_def)
qed

section \<open>Properties\<close>

text \<open>
  Claim C15. The contracts that the source states for capability nodes hold. When the widths satisfy
  the precondition of \<open>mint\<close>, it returns a capability with the fields and the encoded widths that
  its postcondition and the two round-trip lemmas of the source give, well-formed when the address
  is not null; the accessors read the two widths and the guard back exactly, and the slice of the
  node is \<open>2 ^ radix\<close> slots at the address it was minted with. \<open>init\<close> on this node, under its
  precondition and on valid slots, leaves every slot null and all other slots as they were. For
  every raw capability, minted or not, the widths, the size and the length of the slice are within
  the bounds of their postconditions, and the two conversions succeed exactly on the right type.
\<close>

theorem cnode_contracts:
  assumes "mint_requires radix gbits"
  shows "(\<exists>cap. CNodeCap_mint addr radix gbits guard rts = Ret cap \<and> mint_ensures addr radix gbits guard rts cap \<and>
      mint_radix_roundtrip radix gbits cap \<and> mint_guard_roundtrip radix gbits cap \<and> mint_well_formed addr radix gbits cap \<and>
      radix_bits cap = radix \<and> guard_bits cap = gbits \<and> cnode_guard cap = guard \<and>
      as_object_mut cap = (addr, 2 ^ unat radix) \<and>
      (\<forall>st. init_requires cap \<and> slots_valid st cap \<longrightarrow> (\<exists>st'. cnode_init st cap = Ret st' \<and> init_ensures st' cap \<and>
        (\<forall>p. (\<forall>i < 2 ^ unat radix. p \<noteq> addr + 64 * of_nat i) \<longrightarrow> st' p = st p)))) \<and>
    guard_bits_ensures raw (guard_bits raw) \<and> radix_bits_ensures raw (radix_bits raw) \<and>
    size_ensures raw (cnode_size raw) \<and> as_object_mut_ensures raw (as_object_mut raw) \<and>
    try_from_slot_ensures raw (try_from_slot raw) \<and> try_from_ensures T raw (try_from T raw)"
proof
  from assms have "mint_valid radix gbits" by (simp add: mint_requires_iff)
  from mint_meets [OF this, of addr guard rts] obtain cap where
    cap: "CNodeCap_mint addr radix gbits guard rts = Ret cap" "mint_ensures addr radix gbits guard rts cap"
    "mint_radix_roundtrip radix gbits cap" "mint_guard_roundtrip radix gbits cap" "mint_well_formed addr radix gbits cap" and
    fields: "radix_bits cap = radix" "guard_bits cap = gbits" "cnode_guard cap = guard" "paddr cap = addr" by blast
  have slice: "as_object_mut cap = (addr, 2 ^ unat radix)"
    using fields by (simp add: as_object_mut_def push_bit_eq_mult)
  have size: "unat (cnode_size cap) = 2 ^ unat radix" using fields by (simp add: unat_cnode_size)
  have "\<exists>st'. cnode_init st cap = Ret st' \<and> init_ensures st' cap \<and>
      (\<forall>p. (\<forall>i < 2 ^ unat radix. p \<noteq> addr + 64 * of_nat i) \<longrightarrow> st' p = st p)"
    if "init_requires cap" "slots_valid st cap" for st
  proof -
    from node_init.meets [of "(st, cap)"] that obtain st' where
      st': "cnode_init st cap = Ret st'" "init_ensures st' cap" by auto
    from cnode_init_correct [of cap st] that(2) st'(1) show ?thesis
      unfolding slots_valid_def size by (auto simp: st' cnode_slot_def cnode_consts fields)
  qed
  with cap fields slice show "\<exists>cap. CNodeCap_mint addr radix gbits guard rts = Ret cap \<and>
      mint_ensures addr radix gbits guard rts cap \<and> mint_radix_roundtrip radix gbits cap \<and>
      mint_guard_roundtrip radix gbits cap \<and> mint_well_formed addr radix gbits cap \<and>
      radix_bits cap = radix \<and> guard_bits cap = gbits \<and> cnode_guard cap = guard \<and>
      as_object_mut cap = (addr, 2 ^ unat radix) \<and>
      (\<forall>st. init_requires cap \<and> slots_valid st cap \<longrightarrow> (\<exists>st'. cnode_init st cap = Ret st' \<and> init_ensures st' cap \<and>
        (\<forall>p. (\<forall>i < 2 ^ unat radix. p \<noteq> addr + 64 * of_nat i) \<longrightarrow> st' p = st p)))" by blast
  have "as_object_mut_ensures raw (as_object_mut raw)" by (simp add: as_object_mut_def as_object_mut_ensures_def)
  with node_guard.result [of raw] node_radix.result [of raw] node_size.result [of raw] slot_type.result [of raw]
    typed.result [of "(T, raw)"]
  show "guard_bits_ensures raw (guard_bits raw) \<and> radix_bits_ensures raw (radix_bits raw) \<and>
    size_ensures raw (cnode_size raw) \<and> as_object_mut_ensures raw (as_object_mut raw) \<and>
    try_from_slot_ensures raw (try_from_slot raw) \<and> try_from_ensures T raw (try_from T raw)" by simp
qed

theorem cnode_contracts_witness:
  "\<exists>cap st'. CNodeCap_mint 0x1000 1 3 5 R_WRITE = Ret cap \<and> mint_ensures 0x1000 1 3 5 R_WRITE cap \<and>
     cnode_cap_well_formed cap \<and>
     cnode_init [0x1000 \<mapsto> default_with_type Frame, 0x1040 \<mapsto> default_with_type Tcb] cap = Ret st' \<and> init_ensures st' cap"
proof -
  let ?st = "[0x1000 \<mapsto> default_with_type Frame, 0x1040 \<mapsto> default_with_type Tcb]"
  have req: "mint_requires 1 3" by (simp add: mint_requires_iff mint_valid_def CNODE_DEPTH_def)
  from conjunct1 [OF cnode_contracts [OF req, of "0x1000" 5 R_WRITE]] obtain cap where
    cap: "CNodeCap_mint 0x1000 1 3 5 R_WRITE = Ret cap" "mint_ensures 0x1000 1 3 5 R_WRITE cap" "mint_well_formed 0x1000 1 3 cap"
    "\<forall>st. init_requires cap \<and> slots_valid st cap \<longrightarrow> (\<exists>st'. cnode_init st cap = Ret st' \<and> init_ensures st' cap \<and>
        (\<forall>p. (\<forall>i < 2 ^ unat (1 :: usize). p \<noteq> 0x1000 + 64 * of_nat i) \<longrightarrow> st' p = st p))" and
    radix: "radix_bits cap = 1" by blast
  then have "slots_valid ?st cap"
    using cap(2) by (auto simp: slots_valid_def unat_cnode_size less_2_cases_iff cnode_slot_def cnode_consts mint_ensures_def)
  moreover have "init_requires cap" using cap(2) by (simp add: init_requires_def mint_ensures_def rights_reflexive)
  ultimately obtain st' where "cnode_init ?st cap = Ret st'" "init_ensures st' cap" using cap(4) by blast
  moreover have "cnode_cap_well_formed cap" using cap(3) req by (simp add: mint_well_formed_def mint_requires_iff)
  ultimately show ?thesis using cap(1,2) by blast
qed

text \<open>
  Claim C16. The contracts that the source states for the derivation chain, on a store whose links are
  valid: that of \<open>mdb_remove\<close> holds for every slot; that of \<open>mdb_insert_after\<close> holds exactly when the
  two slots are different, although its precondition does not ask for it; that of \<open>revoke\<close> holds
  for a member of a well-formed acyclic chain, but not for every slot.
\<close>

theorem mdb_contracts:
  assumes ok: "links_ok st" and src: "src \<in> dom st"
  shows "(\<exists>st'. mdb_remove st src = Ret st' \<and> links_ok st' \<and> mdb_remove_ensures st' src) \<and>
    (mdb_insert_after_requires st src dst \<longrightarrow>
      (\<exists>st'. mdb_insert_after st src dst = Ret st' \<and> links_ok st' \<and> (mdb_insert_after_ensures st' src dst \<longleftrightarrow> src \<noteq> dst))) \<and>
    (\<forall>xs ys. well_formed st (xs @ src # ys) \<and> acyclic_chain (xs @ src # ys) \<longrightarrow>
      (\<exists>st'. revoke st src = Some (Ret st') \<and> revoke_ensures st' src)) \<and>
    (\<exists>bad p st'. links_ok bad \<and> p \<in> dom bad \<and> revoke bad p = Some (Ret st') \<and> \<not> revoke_ensures st' p)"
proof (intro conjI allI impI)
  show "\<exists>st'. mdb_remove st src = Ret st' \<and> links_ok st' \<and> mdb_remove_ensures st' src"
    using remove.meets [of "(st, src)"] ok src by simp
  show "\<exists>st'. mdb_insert_after st src dst = Ret st' \<and> links_ok st' \<and> (mdb_insert_after_ensures st' src dst \<longleftrightarrow> src \<noteq> dst)"
    if "mdb_insert_after_requires st src dst" using mdb_insert_after_meets [OF ok src that] .
  show "\<exists>st'. revoke st src = Some (Ret st') \<and> revoke_ensures st' src"
    if "well_formed st (xs @ src # ys) \<and> acyclic_chain (xs @ src # ys)" for xs ys
  proof -
    from that have "mdb_chain st (xs @ src # ys)" by (simp add: mdb_chain_well_formed)
    from revoke_chain [OF this] obtain st' where st': "revoke st src = Some (Ret st')" "mdb_chain st' (xs @ [src])" by blast
    from dseg_member [of mdb_prev mdb_next st' None xs src "[]" None] st'(2) obtain r where
      "st' src = Some r" "mdb_next r = None" by (auto simp: mdb_chain_def)
    with st'(1) show ?thesis by (simp add: revoke_ensures_def view_def)
  qed
  show "\<exists>bad p st'. links_ok bad \<and> p \<in> dom bad \<and> revoke bad p = Some (Ret st') \<and> \<not> revoke_ensures st' p"
    using one_way_link by blast
qed

theorem mdb_contracts_witness:
  "\<exists>st'. mdb_insert_after demo_store 0x10c0 0x10c0 = Ret st' \<and> \<not> mdb_insert_after_ensures st' 0x10c0 0x10c0"
proof -
  have "links_ok demo_store" by (auto simp: links_ok_def demo_store_def demo_slot_def split: if_splits)
  moreover have "0x10c0 \<in> dom demo_store" "mdb_insert_after_requires demo_store 0x10c0 0x10c0"
    by (simp_all add: demo_store_def mdb_insert_after_requires_def view_def demo_slot_def mdb_isolated_def)
  ultimately show ?thesis using mdb_contracts [of demo_store "0x10c0" "0x10c0"] by blast
qed

end
