(* ===== verification/Scheduler.thy ===== *)
theory Scheduler
  imports Threads "HOL-Library.Multiset"
begin

text \<open>
  The earliest-deadline-first scheduler of one core (\<open>scheduler/executor.rs\<close>). The ready
  queue is a \<open>heapless::BinaryHeap\<close>, a third-party container: its operations are a record
  that the definitions take as an argument, and \<open>heap_spec\<close> states its documented
  behaviour, a bounded priority queue that pops a least element.

  Functions that never return to their caller (type \<open>!\<close> in the source) end by resuming a
  thread or by halting the processor; the value \<open>control\<close> says which.

  Shown: any sequence of calls with live threads is safe, and when a call panics; exactly which
  calls keep every thread in at most one place; that preemption follows the earliest deadline; and
  what dispatching, yielding and waking do.
\<close>

section \<open>Ready-queue entries\<close>

datatype Entry = Entry (edeadline: u64) (etcb: ptr)

text \<open>The derived order: by deadline, then by the address of the thread.\<close>

instantiation Entry :: linorder
begin

definition less_eq_Entry :: "Entry \<Rightarrow> Entry \<Rightarrow> bool" where
  "less_eq_Entry a b \<longleftrightarrow>
     edeadline a < edeadline b \<or> edeadline a = edeadline b \<and> etcb a \<le> etcb b"

definition less_Entry :: "Entry \<Rightarrow> Entry \<Rightarrow> bool" where
  "less_Entry a b \<longleftrightarrow>
     edeadline a < edeadline b \<or> edeadline a = edeadline b \<and> etcb a < etcb b"

instance
  by standard (auto simp: less_eq_Entry_def less_Entry_def intro: Entry.expand)

end

lemma Entry_le_deadline: "a \<le> b \<Longrightarrow> edeadline a \<le> edeadline b" for a b :: Entry
  by (auto simp: less_eq_Entry_def)

datatype SchedError = QueueFull | InvalidState | NotFound

definition MAX_TCB_PER_CORE :: nat where "MAX_TCB_PER_CORE = 64"

section \<open>The third-party heap\<close>

text \<open>\<open>h_push\<close> takes the capacity, a type parameter of the container.\<close>

record 'h heap_ops =
  h_new :: 'h
  h_push :: "nat \<Rightarrow> Entry \<Rightarrow> 'h \<Rightarrow> 'h option"
  h_pop :: "'h \<Rightarrow> (Entry \<times> 'h) option"
  h_peek :: "'h \<Rightarrow> Entry option"

definition heap_spec :: "'h heap_ops \<Rightarrow> ('h \<Rightarrow> bool) \<Rightarrow> ('h \<Rightarrow> Entry multiset) \<Rightarrow> bool" where
  "heap_spec H I \<alpha> \<longleftrightarrow>
     I (h_new H) \<and> \<alpha> (h_new H) = {#} \<and>
     (\<forall>h e n. I h \<longrightarrow>
        (if size (\<alpha> h) < n
         then \<exists>h'. h_push H n e h = Some h' \<and> I h' \<and> \<alpha> h' = add_mset e (\<alpha> h)
         else h_push H n e h = None)) \<and>
     (\<forall>h. I h \<longrightarrow>
        (if \<alpha> h = {#} then h_pop H h = None
         else \<exists>e h'. h_pop H h = Some (e, h') \<and> I h' \<and> \<alpha> h = add_mset e (\<alpha> h') \<and>
                (\<forall>x \<in># \<alpha> h. e \<le> x))) \<and>
     (\<forall>h. I h \<longrightarrow> h_peek H h = map_option fst (h_pop H h))"

text \<open>A concrete container, for the witnesses: a sorted list.\<close>

definition list_heap :: "Entry list heap_ops" where
  "list_heap = \<lparr>h_new = [],
     h_push = (\<lambda>n e h. if length h < n then Some (insort e h) else None),
     h_pop = (\<lambda>h. case h of [] \<Rightarrow> None | e # h' \<Rightarrow> Some (e, h')),
     h_peek = (\<lambda>h. case h of [] \<Rightarrow> None | e # _ \<Rightarrow> Some e)\<rparr>"

section \<open>The executor\<close>

record 'h Executor =
  ready :: 'h
  current :: "Entry option"
  idle :: "ptr option"

text \<open>What the executor of a core acts on: itself and the memory behind its pointers.\<close>

record 'h cpu =
  tcbs :: tmem
  scs :: "ptr \<rightharpoonup> SchedContext"
  exec :: "'h Executor"

datatype control = Return | Resume ptr | Halted

definition Executor_new :: "'h heap_ops \<Rightarrow> 'h Executor" where
  "Executor_new H = \<lparr>ready = h_new H, current = None, idle = None\<rparr>"

definition set_idle :: "'h cpu \<Rightarrow> ptr \<Rightarrow> 'h cpu outcome" where
  "set_idle s tcb =
     obind (modify (tcbs s) tcb (\<lambda>t. t\<lparr>tstate := Inactive\<rparr>)) (\<lambda>m.
       Ret (s\<lparr>tcbs := m, exec := (exec s)\<lparr>idle := Some tcb\<rparr>\<rparr>))"

definition deadline_of :: "'h cpu \<Rightarrow> ptr \<Rightarrow> u64 outcome" where
  "deadline_of s tcb =
     obind (deref (tcbs s) tcb) (\<lambda>t.
       case sched_context t of
         None \<Rightarrow> Ret (- 1)
       | Some sc \<Rightarrow> obind (deref (scs s) sc) (\<lambda>c. Ret (deadline c)))"

definition enqueue :: "'h heap_ops \<Rightarrow> 'h cpu \<Rightarrow> ptr \<Rightarrow> ((SchedError + unit) \<times> 'h cpu) outcome" where
  "enqueue H s tcb =
     obind (deref (tcbs s) tcb) (\<lambda>tcb_ref.
       if tstate tcb_ref \<noteq> Inactive then Ret (Inl InvalidState, s)
       else obind (deadline_of s tcb) (\<lambda>d.
         case h_push H MAX_TCB_PER_CORE (Entry d tcb) (ready (exec s)) of
           Some h \<Rightarrow> Ret (Inr (), s\<lparr>exec := (exec s)\<lparr>ready := h\<rparr>\<rparr>)
         | None \<Rightarrow> Ret (Inl QueueFull, s)))"

definition should_preempt :: "'h heap_ops \<Rightarrow> 'h Executor \<Rightarrow> bool" where
  "should_preempt H ex =
     (case (current ex, h_peek H (ready ex)) of
        (Some cur, Some next) \<Rightarrow> edeadline next < edeadline cur
      | (None, Some _) \<Rightarrow> True
      | _ \<Rightarrow> False)"

definition context_switch :: "'h heap_ops \<Rightarrow> 'h cpu \<Rightarrow> Entry \<Rightarrow> ('h cpu \<times> control) outcome" where
  "context_switch H s next =
     obind (case current (exec s) of
              None \<Rightarrow> Ret s
            | Some cur \<Rightarrow>
                let s1 = s\<lparr>exec := (exec s)\<lparr>current := None\<rparr>\<rparr> in
                obind (deref (tcbs s1) (etcb cur)) (\<lambda>cur_tcb.
                  if tstate cur_tcb = Running
                  then obind (modify (tcbs s1) (etcb cur) (\<lambda>t. t\<lparr>tstate := Inactive\<rparr>)) (\<lambda>m.
                       obind (expect (h_push H MAX_TCB_PER_CORE cur (ready (exec s1)))) (\<lambda>h.
                         Ret (s1\<lparr>tcbs := m, exec := (exec s1)\<lparr>ready := h\<rparr>\<rparr>)))
                  else Ret s1)) (\<lambda>s2.
     obind (modify (tcbs s2) (etcb next) (\<lambda>t. t\<lparr>tstate := Running\<rparr>)) (\<lambda>m.
       Ret (s2\<lparr>tcbs := m, exec := (exec s2)\<lparr>current := Some next\<rparr>\<rparr>, Resume (etcb next))))"

definition inc_tick :: "bool \<Rightarrow> 'h cpu \<Rightarrow> 'h cpu outcome" where
  "inc_tick dbg s =
     (case current (exec s) of
        None \<Rightarrow> Ret s
      | Some cur \<Rightarrow>
          obind (deref (tcbs s) (etcb cur)) (\<lambda>t.
            case sched_context t of
              None \<Rightarrow> Ret s
            | Some sc \<Rightarrow>
                obind (deref (scs s) sc) (\<lambda>c.
                obind (u_add dbg (ticks_consumed c) 1) (\<lambda>n.
                  Ret (s\<lparr>scs := (scs s)(sc \<mapsto> c\<lparr>ticks_consumed := n\<rparr>)\<rparr>)))))"

definition preempt :: "bool \<Rightarrow> 'h heap_ops \<Rightarrow> 'h cpu \<Rightarrow> ('h cpu \<times> control) outcome" where
  "preempt dbg H s =
     obind (inc_tick dbg s) (\<lambda>s1.
       if \<not> should_preempt H (exec s1) then Ret (s1, Return)
       else obind (expect (h_pop H (ready (exec s1)))) (\<lambda>(next, h).
         context_switch H (s1\<lparr>exec := (exec s1)\<lparr>ready := h\<rparr>\<rparr>) next))"

definition schedule :: "'h heap_ops \<Rightarrow> 'h cpu \<Rightarrow> ('h cpu \<times> control) outcome" where
  "schedule H s =
     (case h_pop H (ready (exec s)) of
        Some (next, h) \<Rightarrow> context_switch H (s\<lparr>exec := (exec s)\<lparr>ready := h\<rparr>\<rparr>) next
      | None \<Rightarrow>
          (case idle (exec s) of
             Some p \<Rightarrow> context_switch H s (Entry (- 1) p)
           | None \<Rightarrow> Ret (s, Halted)))"

definition yield_current :: "'h heap_ops \<Rightarrow> 'h cpu \<Rightarrow> ('h cpu \<times> control) outcome" where
  "yield_current H s =
     obind (case current (exec s) of
              None \<Rightarrow> Ret s
            | Some cur \<Rightarrow>
                let s1 = s\<lparr>exec := (exec s)\<lparr>current := None\<rparr>\<rparr> in
                obind (modify (tcbs s1) (etcb cur) (\<lambda>t. t\<lparr>tstate := Inactive\<rparr>)) (\<lambda>m.
                obind (expect (h_push H MAX_TCB_PER_CORE cur (ready (exec s1)))) (\<lambda>h.
                  Ret (s1\<lparr>tcbs := m, exec := (exec s1)\<lparr>ready := h\<rparr>\<rparr>)))) (\<lambda>s2.
       schedule H s2)"

definition is_blocked :: "ThreadState \<Rightarrow> bool" where
  "is_blocked st \<longleftrightarrow> st \<in> {BlockedOnReceive, BlockedOnSend, BlockedOnReply, BlockedOnNotification}"

definition block_current :: "'h heap_ops \<Rightarrow> 'h cpu \<Rightarrow> ThreadState \<Rightarrow> ('h cpu \<times> control) outcome" where
  "block_current H s st =
     obind (assert_that (is_blocked st)) (\<lambda>_.
     obind (case current (exec s) of
              None \<Rightarrow> Ret s
            | Some cur \<Rightarrow>
                let s1 = s\<lparr>exec := (exec s)\<lparr>current := None\<rparr>\<rparr> in
                obind (modify (tcbs s1) (etcb cur) (\<lambda>t. t\<lparr>tstate := st\<rparr>)) (\<lambda>m.
                  Ret (s1\<lparr>tcbs := m\<rparr>))) (\<lambda>s2.
       schedule H s2))"

definition wake :: "'h heap_ops \<Rightarrow> 'h cpu \<Rightarrow> ptr \<Rightarrow> ((SchedError + unit) \<times> 'h cpu) outcome" where
  "wake H s tcb =
     obind (deref (tcbs s) tcb) (\<lambda>tcb_ref.
       if \<not> is_blocked (tstate tcb_ref) then Ret (Inl InvalidState, s)
       else obind (modify (tcbs s) tcb (\<lambda>t. t\<lparr>tstate := Inactive\<rparr>)) (\<lambda>m.
         enqueue H (s\<lparr>tcbs := m\<rparr>) tcb))"

definition run :: "'h heap_ops \<Rightarrow> 'h cpu \<Rightarrow> ('h cpu \<times> control) outcome" where
  "run H s = schedule H s"

section \<open>The heap\<close>

lemma list_heap_spec: "heap_spec list_heap sorted mset"
  by (auto simp: heap_spec_def list_heap_def sorted_insort split: list.splits)

lemma heap_new: "heap_spec H I \<alpha> \<Longrightarrow> I (h_new H) \<and> \<alpha> (h_new H) = {#}"
  by (simp add: heap_spec_def)

lemma heap_push:
  assumes "heap_spec H I \<alpha>" "I h" "size (\<alpha> h) < n"
  obtains h' where "h_push H n e h = Some h'" "I h'" "\<alpha> h' = add_mset e (\<alpha> h)"
  using assms unfolding heap_spec_def by (metis (full_types))

lemma heap_push_full:
  assumes "heap_spec H I \<alpha>" "I h" "\<not> size (\<alpha> h) < n"
  shows "h_push H n e h = None"
  using assms unfolding heap_spec_def by metis

lemma heap_pop_empty: "heap_spec H I \<alpha> \<Longrightarrow> I h \<Longrightarrow> \<alpha> h = {#} \<Longrightarrow> h_pop H h = None"
  unfolding heap_spec_def by metis

lemma heap_pop:
  assumes "heap_spec H I \<alpha>" "I h" "\<alpha> h \<noteq> {#}"
  obtains e h' where "h_pop H h = Some (e, h')" "I h'" "\<alpha> h = add_mset e (\<alpha> h')"
    "\<And>x. x \<in># \<alpha> h \<Longrightarrow> e \<le> x"
  using assms unfolding heap_spec_def by (metis (full_types))

lemma heap_peek: "heap_spec H I \<alpha> \<Longrightarrow> I h \<Longrightarrow> h_peek H h = map_option fst (h_pop H h)"
  by (simp add: heap_spec_def)

section \<open>Invariant\<close>

text \<open>
  \<open>queued\<close> are the entries in the ready queue. A well-formed core queues each thread at
  most once, only inactive threads, never the current one, and at most as many as fit.
\<close>

definition queued :: "('h \<Rightarrow> Entry multiset) \<Rightarrow> 'h cpu \<Rightarrow> Entry multiset" where
  "queued \<alpha> s = \<alpha> (ready (exec s))"

definition in_state :: "'h cpu \<Rightarrow> ptr \<Rightarrow> ThreadState \<Rightarrow> bool" where
  "in_state s p st \<longleftrightarrow> (\<exists>t. tcbs s p = Some t \<and> tstate t = st)"

definition sched_ok :: "('h \<Rightarrow> bool) \<Rightarrow> ('h \<Rightarrow> Entry multiset) \<Rightarrow> 'h cpu \<Rightarrow> bool" where
  "sched_ok I \<alpha> s \<longleftrightarrow>
     I (ready (exec s)) \<and> size (queued \<alpha> s) \<le> MAX_TCB_PER_CORE \<and>
     (\<forall>p. count (image_mset etcb (queued \<alpha> s)) p \<le> 1) \<and>
     (\<forall>e \<in># queued \<alpha> s. in_state s (etcb e) Inactive) \<and>
     (\<forall>cur. current (exec s) = Some cur \<longrightarrow>
        etcb cur \<in> dom (tcbs s) \<and> etcb cur \<notin># image_mset etcb (queued \<alpha> s)) \<and>
     (\<forall>p. idle (exec s) = Some p \<longrightarrow> p \<in> dom (tcbs s))"

text \<open>The thread control blocks apart from the thread states.\<close>

definition tcb_frame :: "tmem \<Rightarrow> ptr \<Rightarrow> Tcb option" where
  "tcb_frame m p = map_option (\<lambda>t. t\<lparr>tstate := Inactive\<rparr>) (m p)"

lemma tcb_frame_upd [simp]:
  "m p = Some t \<Longrightarrow> tcb_frame (m(p \<mapsto> t\<lparr>tstate := st\<rparr>)) = tcb_frame m"
  by (rule ext) (simp add: tcb_frame_def)

lemma sched_okD:
  assumes "sched_ok I \<alpha> s"
  shows "I (ready (exec s))" "size (queued \<alpha> s) \<le> MAX_TCB_PER_CORE"
    "\<And>p. count (image_mset etcb (queued \<alpha> s)) p \<le> 1"
    "\<And>e. e \<in># queued \<alpha> s \<Longrightarrow> in_state s (etcb e) Inactive"
    "\<And>cur. current (exec s) = Some cur \<Longrightarrow> etcb cur \<in> dom (tcbs s)"
    "\<And>cur. current (exec s) = Some cur \<Longrightarrow> etcb cur \<notin># image_mset etcb (queued \<alpha> s)"
    "\<And>p. idle (exec s) = Some p \<Longrightarrow> p \<in> dom (tcbs s)"
  using assms unfolding sched_ok_def by blast+

lemma Executor_new_ok:
  "heap_spec H I \<alpha> \<Longrightarrow> sched_ok I \<alpha> \<lparr>tcbs = m, scs = c, exec = Executor_new H\<rparr>"
  by (simp add: sched_ok_def queued_def Executor_new_def heap_new)

lemma in_state_exec [simp]: "in_state (s\<lparr>exec := x\<rparr>) = in_state s"
  by (intro ext) (simp add: in_state_def)

text \<open>Popping the heap leaves a well-formed core whose queue misses one thread.\<close>

lemma pop_ok:
  assumes H: "heap_spec H I \<alpha>" and ok: "sched_ok I \<alpha> s" and ne: "queued \<alpha> s \<noteq> {#}"
  obtains e h where "h_pop H (ready (exec s)) = Some (e, h)"
    "queued \<alpha> s = add_mset e (\<alpha> h)" "\<And>x. x \<in># queued \<alpha> s \<Longrightarrow> e \<le> x"
    "sched_ok I \<alpha> (s\<lparr>exec := (exec s)\<lparr>ready := h\<rparr>\<rparr>)"
    "etcb e \<notin># image_mset etcb (\<alpha> h)" "size (\<alpha> h) < MAX_TCB_PER_CORE"
    "in_state s (etcb e) Inactive"
proof -
  note d = sched_okD [OF ok]
  from heap_pop [OF H d(1)] ne obtain e h where
    e: "h_pop H (ready (exec s)) = Some (e, h)" "I h" "queued \<alpha> s = add_mset e (\<alpha> h)"
    "\<And>x. x \<in># queued \<alpha> s \<Longrightarrow> e \<le> x" by (auto simp: queued_def)
  have cnt: "count (image_mset etcb (\<alpha> h)) p \<le> 1" for p
    using d(3) [of p] e(3) by (simp split: if_splits)
  have fresh: "etcb e \<notin># image_mset etcb (\<alpha> h)"
  proof -
    have "count (image_mset etcb (\<alpha> h)) (etcb e) = 0" using d(3) [of "etcb e"] e(3) by simp
    then show ?thesis by (rule iffD1 [OF count_eq_zero_iff])
  qed
  have "size (\<alpha> h) < MAX_TCB_PER_CORE" using d(2) e(3) by simp
  moreover have "sched_ok I \<alpha> (s\<lparr>exec := (exec s)\<lparr>ready := h\<rparr>\<rparr>)"
    unfolding sched_ok_def
    using e(2,3) d(2,4,5,6,7) cnt by (auto simp: queued_def in_state_def)
  ultimately show thesis using that e fresh d(4) [of e] by simp
qed

lemma in_state_upd:
  "in_state (s\<lparr>tcbs := (tcbs s)(p \<mapsto> t)\<rparr>) q st \<longleftrightarrow> (if q = p then tstate t = st else in_state s q st)"
  by (simp add: in_state_def)

text \<open>
  A switch to a thread that is neither current nor queued, with room for the current thread.
\<close>

lemma context_switch_ok:
  assumes H: "heap_spec H I \<alpha>" and ok: "sched_ok I \<alpha> s"
    and room: "size (queued \<alpha> s) < MAX_TCB_PER_CORE"
    and "next": "etcb nxt \<in> dom (tcbs s)" "etcb nxt \<notin># image_mset etcb (queued \<alpha> s)"
    and diff: "\<And>cur. current (exec s) = Some cur \<Longrightarrow> etcb cur \<noteq> etcb nxt"
  shows "\<exists>s'. context_switch H s nxt = Ret (s', Resume (etcb nxt)) \<and> sched_ok I \<alpha> s' \<and>
    current (exec s') = Some nxt \<and> in_state s' (etcb nxt) Running \<and>
    queued \<alpha> s' = (case current (exec s) of
       None \<Rightarrow> queued \<alpha> s
     | Some cur \<Rightarrow> if in_state s (etcb cur) Running then add_mset cur (queued \<alpha> s) else queued \<alpha> s) \<and>
    scs s' = scs s \<and> idle (exec s') = idle (exec s) \<and> tcb_frame (tcbs s') = tcb_frame (tcbs s)"
proof -
  note d = sched_okD [OF ok]
  have nq: "e \<in># queued \<alpha> s \<Longrightarrow> etcb e \<noteq> etcb nxt" for e
    using "next"(2) by (metis image_eqI set_image_mset)
  from "next"(1) obtain tn where tn: "tcbs s (etcb nxt) = Some tn" by blast
  consider (none) "current (exec s) = None"
    | (blocked) cur where "current (exec s) = Some cur" "\<not> in_state s (etcb cur) Running"
    | (running) cur where "current (exec s) = Some cur" "in_state s (etcb cur) Running"
    by fastforce
  then show ?thesis
  proof cases
    case none
    let ?s' = "s\<lparr>tcbs := (tcbs s)(etcb nxt \<mapsto> tn\<lparr>tstate := Running\<rparr>),
      exec := (exec s)\<lparr>current := Some nxt\<rparr>\<rparr>"
    have "context_switch H s nxt = Ret (?s', Resume (etcb nxt))"
      using none tn by (simp add: context_switch_def)
    moreover have "sched_ok I \<alpha> ?s'"
      unfolding sched_ok_def using d "next"(2) nq
      by (auto simp: queued_def in_state_def)
    ultimately show ?thesis using none tn by (simp add: queued_def in_state_def)
  next
    case (blocked cur)
    then obtain tc where tc: "tcbs s (etcb cur) = Some tc" using d(5) by blast
    let ?s' = "s\<lparr>tcbs := (tcbs s)(etcb nxt \<mapsto> tn\<lparr>tstate := Running\<rparr>),
      exec := (exec s)\<lparr>current := Some nxt\<rparr>\<rparr>"
    have "context_switch H s nxt = Ret (?s', Resume (etcb nxt))"
      using blocked tn tc by (simp add: context_switch_def in_state_def)
    moreover have "sched_ok I \<alpha> ?s'"
      unfolding sched_ok_def using d "next"(2) nq
      by (auto simp: queued_def in_state_def)
    ultimately show ?thesis using blocked tn by (simp add: queued_def in_state_def)
  next
    case (running cur)
    then obtain tc where tc: "tcbs s (etcb cur) = Some tc" "tstate tc = Running"
      by (auto simp: in_state_def)
    from heap_push [OF H d(1)] room obtain h where
      h: "h_push H MAX_TCB_PER_CORE cur (ready (exec s)) = Some h" "I h"
      "\<alpha> h = add_mset cur (queued \<alpha> s)" by (metis queued_def)
    let ?s' = "s\<lparr>tcbs := (tcbs s)(etcb cur \<mapsto> tc\<lparr>tstate := Inactive\<rparr>, etcb nxt \<mapsto> tn\<lparr>tstate := Running\<rparr>),
      exec := (exec s)\<lparr>ready := h, current := Some nxt\<rparr>\<rparr>"
    have ne: "etcb cur \<noteq> etcb nxt" using diff running by blast
    have "context_switch H s nxt = Ret (?s', Resume (etcb nxt))"
      using running tn tc h(1) ne by (simp add: context_switch_def)
    moreover have "count (image_mset etcb (\<alpha> h)) p \<le> 1" for p
      using d(3) [of p] iffD2 [OF count_eq_zero_iff d(6) [OF running(1)]] h(3) by auto
    then have "sched_ok I \<alpha> ?s'"
      unfolding sched_ok_def using d(4,7) "next"(2) nq h(2,3) room ne
      by (auto simp: queued_def in_state_def)
    moreover have "tcb_frame (tcbs ?s') = tcb_frame (tcbs s)" using tc tn ne by simp
    ultimately show ?thesis using running tn h(3) by (simp add: queued_def in_state_def)
  qed
qed

lemma schedule_ok:
  assumes H: "heap_spec H I \<alpha>" and ok: "sched_ok I \<alpha> s" and none: "current (exec s) = None"
  shows "queued \<alpha> s \<noteq> {#} \<Longrightarrow>
      \<exists>e s'. (\<forall>x \<in># queued \<alpha> s. e \<le> x) \<and> schedule H s = Ret (s', Resume (etcb e)) \<and>
        sched_ok I \<alpha> s' \<and> current (exec s') = Some e \<and> in_state s' (etcb e) Running \<and>
        add_mset e (queued \<alpha> s') = queued \<alpha> s \<and> scs s' = scs s \<and> idle (exec s') = idle (exec s) \<and>
        tcb_frame (tcbs s') = tcb_frame (tcbs s)"
    and "queued \<alpha> s = {#} \<Longrightarrow> idle (exec s) = Some p \<Longrightarrow>
      \<exists>s'. schedule H s = Ret (s', Resume p) \<and> sched_ok I \<alpha> s' \<and>
        current (exec s') = Some (Entry (- 1) p) \<and> in_state s' p Running \<and> queued \<alpha> s' = {#} \<and>
        scs s' = scs s \<and> idle (exec s') = idle (exec s) \<and> tcb_frame (tcbs s') = tcb_frame (tcbs s)"
    and "queued \<alpha> s = {#} \<Longrightarrow> idle (exec s) = None \<Longrightarrow> schedule H s = Ret (s, Halted)"
proof -
  note d = sched_okD [OF ok]
  {
    assume "queued \<alpha> s \<noteq> {#}"
    from pop_ok [OF H ok this] obtain e h where
      e: "h_pop H (ready (exec s)) = Some (e, h)"
      "queued \<alpha> s = add_mset e (\<alpha> h)" "\<And>x. x \<in># queued \<alpha> s \<Longrightarrow> e \<le> x"
      "sched_ok I \<alpha> (s\<lparr>exec := (exec s)\<lparr>ready := h\<rparr>\<rparr>)" (is "sched_ok I \<alpha> ?s1")
      "etcb e \<notin># image_mset etcb (\<alpha> h)" "size (\<alpha> h) < MAX_TCB_PER_CORE"
      "in_state s (etcb e) Inactive" by metis
    have "queued \<alpha> ?s1 = \<alpha> h" by (simp add: queued_def)
    then obtain s' where "context_switch H ?s1 e = Ret (s', Resume (etcb e))" "sched_ok I \<alpha> s'"
      "current (exec s') = Some e" "in_state s' (etcb e) Running" "queued \<alpha> s' = \<alpha> h"
      "scs s' = scs s" "idle (exec s') = idle (exec s)" "tcb_frame (tcbs s') = tcb_frame (tcbs s)"
      using context_switch_ok [OF H e(4), of e] e(5,6,7) none by (auto simp: in_state_def)
    with e(1,2,3) show "\<exists>e s'. (\<forall>x \<in># queued \<alpha> s. e \<le> x) \<and> schedule H s = Ret (s', Resume (etcb e)) \<and>
        sched_ok I \<alpha> s' \<and> current (exec s') = Some e \<and> in_state s' (etcb e) Running \<and>
        add_mset e (queued \<alpha> s') = queued \<alpha> s \<and> scs s' = scs s \<and> idle (exec s') = idle (exec s) \<and>
        tcb_frame (tcbs s') = tcb_frame (tcbs s)"
      by (intro exI [of _ e] exI [of _ s']) (simp add: schedule_def)
  }
  assume empty: "queued \<alpha> s = {#}"
  then have pop: "h_pop H (ready (exec s)) = None"
    using heap_pop_empty [OF H d(1)] by (simp add: queued_def)
  then show "idle (exec s) = None \<Longrightarrow> schedule H s = Ret (s, Halted)" by (simp add: schedule_def)
  assume p: "idle (exec s) = Some p"
  have "etcb (Entry (- 1) p) \<in> dom (tcbs s)" using d(7) [OF p] by simp
  from context_switch_ok [OF H ok _ this] empty none pop p
  show "\<exists>s'. schedule H s = Ret (s', Resume p) \<and> sched_ok I \<alpha> s' \<and>
        current (exec s') = Some (Entry (- 1) p) \<and> in_state s' p Running \<and> queued \<alpha> s' = {#} \<and>
        scs s' = scs s \<and> idle (exec s') = idle (exec s) \<and> tcb_frame (tcbs s') = tcb_frame (tcbs s)"
    by (simp add: schedule_def MAX_TCB_PER_CORE_def)
qed

text \<open>Counting a tick changes nothing the scheduler looks at.\<close>

lemma inc_tick_release:
  assumes "\<And>cur t sc. current (exec s) = Some cur \<Longrightarrow> tcbs s (etcb cur) = Some t \<Longrightarrow>
      sched_context t = Some sc \<Longrightarrow> sc \<in> dom (scs s)"
    and "\<And>cur. current (exec s) = Some cur \<Longrightarrow> etcb cur \<in> dom (tcbs s)"
  obtains c where "inc_tick False s = Ret (s\<lparr>scs := c\<rparr>)" "dom c = dom (scs s)"
proof (cases "current (exec s)")
  case None
  then have "inc_tick False s = Ret (s\<lparr>scs := scs s\<rparr>)" by (simp add: inc_tick_def)
  then show thesis using that by blast
next
  case (Some cur)
  then obtain t where t: "tcbs s (etcb cur) = Some t" using assms(2) by blast
  show thesis
  proof (cases "sched_context t")
    case None
    then have "inc_tick False s = Ret (s\<lparr>scs := scs s\<rparr>)" using Some t by (simp add: inc_tick_def)
    then show thesis using that by blast
  next
    case (Some sc)
    then obtain c where c: "scs s sc = Some c" using assms(1) t \<open>current (exec s) = Some cur\<close> by blast
    then have "inc_tick False s = Ret (s\<lparr>scs := (scs s)(sc \<mapsto> c\<lparr>ticks_consumed := ticks_consumed c + 1\<rparr>)\<rparr>)"
      using Some t \<open>current (exec s) = Some cur\<close> by (simp add: inc_tick_def)
    then show thesis by (rule that) (use c in auto)
  qed
qed

lemma sched_ok_scs [simp]: "sched_ok I \<alpha> (s\<lparr>scs := c\<rparr>) = sched_ok I \<alpha> s"
  by (simp add: sched_ok_def queued_def in_state_def)

lemma queued_scs [simp]: "queued \<alpha> (s\<lparr>scs := c\<rparr>) = queued \<alpha> s"
  by (simp add: queued_def)

lemma in_state_scs [simp]: "in_state (s\<lparr>scs := c\<rparr>) = in_state s"
  by (intro ext) (simp add: in_state_def)

lemma should_preempt_iff:
  assumes H: "heap_spec H I \<alpha>" and ok: "sched_ok I \<alpha> s"
  shows "should_preempt H (exec s) \<longleftrightarrow>
    (case current (exec s) of
       None \<Rightarrow> queued \<alpha> s \<noteq> {#}
     | Some cur \<Rightarrow> \<exists>e \<in># queued \<alpha> s. edeadline e < edeadline cur)"
proof (cases "queued \<alpha> s = {#}")
  case True
  then have "h_peek H (ready (exec s)) = None"
    using heap_peek [OF H sched_okD(1) [OF ok]] heap_pop_empty [OF H sched_okD(1) [OF ok]]
    by (simp add: queued_def)
  with True show ?thesis by (simp add: should_preempt_def split: option.splits)
next
  case False
  from pop_ok [OF H ok False] obtain e h where
    e: "h_pop H (ready (exec s)) = Some (e, h)" "queued \<alpha> s = add_mset e (\<alpha> h)"
    "\<And>x. x \<in># queued \<alpha> s \<Longrightarrow> e \<le> x" by metis
  then have "h_peek H (ready (exec s)) = Some e"
    using heap_peek [OF H sched_okD(1) [OF ok]] by simp
  moreover have "edeadline e < edeadline cur \<longleftrightarrow> (\<exists>x \<in># queued \<alpha> s. edeadline x < edeadline cur)" for cur
    using e(2,3) Entry_le_deadline [of e] by (metis le_less_trans union_single_eq_member)
  ultimately show ?thesis using False by (simp add: should_preempt_def split: option.splits)
qed

text \<open>The ready queue after a switch to \<open>e\<close>: a running current thread is put back.\<close>

definition queued_after :: "('h \<Rightarrow> Entry multiset) \<Rightarrow> 'h cpu \<Rightarrow> Entry \<Rightarrow> Entry multiset" where
  "queued_after \<alpha> s e =
     (case current (exec s) of
        None \<Rightarrow> queued \<alpha> s - {#e#}
      | Some cur \<Rightarrow> if in_state s (etcb cur) Running
                   then add_mset cur (queued \<alpha> s - {#e#}) else queued \<alpha> s - {#e#})"

lemma queued_after_scs [simp]: "queued_after \<alpha> (s\<lparr>scs := c\<rparr>) e = queued_after \<alpha> s e"
  by (simp add: queued_after_def split: option.splits)

text \<open>What follows the tick in \<open>preempt\<close>.\<close>

lemma preempt_switch_ok:
  assumes H: "heap_spec H I \<alpha>" and ok: "sched_ok I \<alpha> s"
  shows "\<not> should_preempt H (exec s) \<or>
    (\<exists>e s'. e \<in># queued \<alpha> s \<and> (\<forall>x \<in># queued \<alpha> s. e \<le> x) \<and>
      obind (expect (h_pop H (ready (exec s)))) (\<lambda>(next, h).
        context_switch H (s\<lparr>exec := (exec s)\<lparr>ready := h\<rparr>\<rparr>) next) = Ret (s', Resume (etcb e)) \<and>
      sched_ok I \<alpha> s' \<and> current (exec s') = Some e \<and> in_state s' (etcb e) Running \<and>
      queued \<alpha> s' = queued_after \<alpha> s e \<and>
      scs s' = scs s \<and> idle (exec s') = idle (exec s) \<and> tcb_frame (tcbs s') = tcb_frame (tcbs s))"
proof (cases "should_preempt H (exec s)")
  case True
  then have ne: "queued \<alpha> s \<noteq> {#}"
    using should_preempt_iff [OF H ok] by (auto split: option.splits)
  note d = sched_okD [OF ok]
  from pop_ok [OF H ok ne] obtain e h where
    e: "h_pop H (ready (exec s)) = Some (e, h)"
    "queued \<alpha> s = add_mset e (\<alpha> h)" "\<And>x. x \<in># queued \<alpha> s \<Longrightarrow> e \<le> x"
    "sched_ok I \<alpha> (s\<lparr>exec := (exec s)\<lparr>ready := h\<rparr>\<rparr>)" (is "sched_ok I \<alpha> ?s1")
    "etcb e \<notin># image_mset etcb (\<alpha> h)" "size (\<alpha> h) < MAX_TCB_PER_CORE"
    "in_state s (etcb e) Inactive" by metis
  have q1: "queued \<alpha> ?s1 = \<alpha> h" by (simp add: queued_def)
  have "etcb cur \<noteq> etcb e" if "current (exec s) = Some cur" for cur
    using d(6) [OF that] e(2) by auto
  moreover have "etcb e \<in> dom (tcbs ?s1)" using e(7) by (auto simp: in_state_def)
  ultimately obtain s' where "context_switch H ?s1 e = Ret (s', Resume (etcb e))" "sched_ok I \<alpha> s'"
    "current (exec s') = Some e" "in_state s' (etcb e) Running"
    "queued \<alpha> s' = (case current (exec s) of
         None \<Rightarrow> \<alpha> h
       | Some cur \<Rightarrow> if in_state s (etcb cur) Running then add_mset cur (\<alpha> h) else \<alpha> h)"
    "scs s' = scs s" "idle (exec s') = idle (exec s)" "tcb_frame (tcbs s') = tcb_frame (tcbs s)"
    using context_switch_ok [OF H e(4), of e] e(5,6) q1 by (auto cong: option.case_cong if_cong)
  moreover have "queued \<alpha> s - {#e#} = \<alpha> h" using e(2) by simp
  ultimately show ?thesis
    using e(1,2,3)
    by (intro disjI2 exI [of _ e] exI [of _ s']) (auto simp: queued_after_def split: option.splits)
qed simp

lemma inc_tick_scs: "inc_tick dbg s = Ret s1 \<Longrightarrow> \<exists>c. s1 = s\<lparr>scs := c\<rparr>"
proof -
  assume tick: "inc_tick dbg s = Ret s1"
  have same: "\<exists>c. s = s\<lparr>scs := c\<rparr>" by (intro exI [of _ "scs s"]) simp
  from tick consider "s1 = s" | c where "s1 = s\<lparr>scs := c\<rparr>"
    by (auto simp: inc_tick_def obind_Ret_iff split: option.splits)
  then show ?thesis using same by cases auto
qed

lemma preempt_ok:
  assumes H: "heap_spec H I \<alpha>" and ok: "sched_ok I \<alpha> s" and pre: "preempt dbg H s = Ret (s', c)"
  shows "sched_ok I \<alpha> s'"
proof -
  from pre obtain s1 where s1: "inc_tick dbg s = Ret s1"
    "(if \<not> should_preempt H (exec s1) then Ret (s1, Return)
      else obind (expect (h_pop H (ready (exec s1)))) (\<lambda>(next, h).
         context_switch H (s1\<lparr>exec := (exec s1)\<lparr>ready := h\<rparr>\<rparr>) next)) = Ret (s', c)"
    by (auto simp: preempt_def obind_Ret_iff)
  from inc_tick_scs [OF s1(1)] ok have ok1: "sched_ok I \<alpha> s1" by auto
  show ?thesis
  proof (cases "should_preempt H (exec s1)")
    case True
    with preempt_switch_ok [OF H ok1] s1(2) show ?thesis by auto
  next
    case False
    with ok1 s1(2) show ?thesis by simp
  qed
qed

text \<open>Parking the current thread, which both \<open>yield_current\<close> and \<open>block_current\<close> do first.\<close>

lemma park_ok:
  assumes H: "heap_spec H I \<alpha>" and ok: "sched_ok I \<alpha> s" and cur: "current (exec s) = Some cur"
    and t: "tcbs s (etcb cur) = Some t"
  shows "sched_ok I \<alpha> (s\<lparr>exec := (exec s)\<lparr>current := None\<rparr>, tcbs := (tcbs s)(etcb cur \<mapsto> t\<lparr>tstate := st\<rparr>)\<rparr>)"
    and "I h \<Longrightarrow> \<alpha> h = add_mset cur (queued \<alpha> s) \<Longrightarrow> size (queued \<alpha> s) < MAX_TCB_PER_CORE \<Longrightarrow>
      sched_ok I \<alpha> (s\<lparr>tcbs := (tcbs s)(etcb cur \<mapsto> t\<lparr>tstate := Inactive\<rparr>),
        exec := (exec s)\<lparr>current := None, ready := h\<rparr>\<rparr>)"
proof -
  note d = sched_okD [OF ok]
  have nq: "e \<in># queued \<alpha> s \<Longrightarrow> etcb e \<noteq> etcb cur" for e
    using d(6) [OF cur] by (metis image_eqI set_image_mset)
  show "sched_ok I \<alpha> (s\<lparr>exec := (exec s)\<lparr>current := None\<rparr>, tcbs := (tcbs s)(etcb cur \<mapsto> t\<lparr>tstate := st\<rparr>)\<rparr>)"
    unfolding sched_ok_def using d nq by (auto simp: queued_def in_state_def)
  assume h: "I h" "\<alpha> h = add_mset cur (queued \<alpha> s)" "size (queued \<alpha> s) < MAX_TCB_PER_CORE"
  have "count (image_mset etcb (\<alpha> h)) p \<le> 1" for p
    using d(3) [of p] iffD2 [OF count_eq_zero_iff d(6) [OF cur]] h(2) by auto
  then show "sched_ok I \<alpha> (s\<lparr>tcbs := (tcbs s)(etcb cur \<mapsto> t\<lparr>tstate := Inactive\<rparr>),
        exec := (exec s)\<lparr>current := None, ready := h\<rparr>\<rparr>)"
    unfolding sched_ok_def using d(4,7) nq h by (auto simp: queued_def in_state_def)
qed

lemma schedule_sched_ok:
  assumes "heap_spec H I \<alpha>" "sched_ok I \<alpha> s" "current (exec s) = None"
  shows "\<exists>s' c. schedule H s = Ret (s', c) \<and> sched_ok I \<alpha> s'"
proof (cases "queued \<alpha> s = {#}")
  case True
  then show ?thesis
    using schedule_ok(2) [OF assms True] schedule_ok(3) [OF assms True] assms(2)
    by (cases "idle (exec s)") blast+
next
  case False
  from schedule_ok(1) [OF assms this] show ?thesis by blast
qed

lemma yield_current_ok:
  assumes H: "heap_spec H I \<alpha>" and ok: "sched_ok I \<alpha> s"
    and room: "current (exec s) = None \<or> size (queued \<alpha> s) < MAX_TCB_PER_CORE"
  shows "\<exists>s' c. yield_current H s = Ret (s', c) \<and> sched_ok I \<alpha> s'"
proof (cases "current (exec s)")
  case None
  with schedule_sched_ok [OF H ok] show ?thesis by (simp add: yield_current_def)
next
  case (Some cur)
  then obtain t where t: "tcbs s (etcb cur) = Some t" using sched_okD(5) [OF ok] by blast
  from room Some have lt: "size (queued \<alpha> s) < MAX_TCB_PER_CORE" by simp
  with heap_push [OF H sched_okD(1) [OF ok]] obtain h where
    h: "h_push H MAX_TCB_PER_CORE cur (ready (exec s)) = Some h" "I h"
    "\<alpha> h = add_mset cur (queued \<alpha> s)" by (metis queued_def)
  let ?s2 = "s\<lparr>tcbs := (tcbs s)(etcb cur \<mapsto> t\<lparr>tstate := Inactive\<rparr>),
      exec := (exec s)\<lparr>current := None, ready := h\<rparr>\<rparr>"
  have "sched_ok I \<alpha> ?s2" by (rule park_ok(2) [OF H ok Some t h(2,3) lt])
  moreover have "yield_current H s = schedule H ?s2"
    using Some t h(1) by (simp add: yield_current_def)
  ultimately show ?thesis using schedule_sched_ok [OF H, of ?s2] by simp
qed

lemma yield_current_full:
  assumes H: "heap_spec H I \<alpha>" and ok: "sched_ok I \<alpha> s"
    and "current (exec s) = Some cur" "\<not> size (queued \<alpha> s) < MAX_TCB_PER_CORE"
  shows "yield_current H s = Panic"
proof -
  obtain t where "tcbs s (etcb cur) = Some t" using sched_okD(5) [OF ok] assms(3) by blast
  moreover have "h_push H MAX_TCB_PER_CORE cur (ready (exec s)) = None"
    using heap_push_full [OF H sched_okD(1) [OF ok]] assms(4) by (simp add: queued_def)
  ultimately show ?thesis using assms(3) by (simp add: yield_current_def)
qed

lemma block_current_ok:
  assumes H: "heap_spec H I \<alpha>" and ok: "sched_ok I \<alpha> s" and st: "is_blocked st"
  shows "\<exists>s' c. block_current H s st = Ret (s', c) \<and> sched_ok I \<alpha> s'"
proof (cases "current (exec s)")
  case None
  with schedule_sched_ok [OF H ok] st show ?thesis by (simp add: block_current_def)
next
  case (Some cur)
  then obtain t where t: "tcbs s (etcb cur) = Some t" using sched_okD(5) [OF ok] by blast
  let ?s2 = "s\<lparr>exec := (exec s)\<lparr>current := None\<rparr>, tcbs := (tcbs s)(etcb cur \<mapsto> t\<lparr>tstate := st\<rparr>)\<rparr>"
  have "sched_ok I \<alpha> ?s2" by (rule park_ok(1) [OF H ok Some t])
  moreover have "block_current H s st = schedule H ?s2"
    using Some t st by (simp add: block_current_def)
  ultimately show ?thesis using schedule_sched_ok [OF H, of ?s2] by simp
qed

lemma enqueue_ok:
  assumes H: "heap_spec H I \<alpha>" and ok: "sched_ok I \<alpha> s" and enq: "enqueue H s p = Ret (r, s')"
    and fresh: "p \<notin># image_mset etcb (queued \<alpha> s)"
    and cur: "\<And>cur. current (exec s) = Some cur \<Longrightarrow> etcb cur \<noteq> p"
  shows "sched_ok I \<alpha> s' \<and> tcbs s' = tcbs s \<and> scs s' = scs s \<and> current (exec s') = current (exec s) \<and>
    (r = Inr () \<longrightarrow> (\<exists>d. deadline_of s p = Ret d \<and> queued \<alpha> s' = add_mset (Entry d p) (queued \<alpha> s))) \<and>
    (r \<noteq> Inr () \<longrightarrow> s' = s)"
proof -
  note d = sched_okD [OF ok]
  consider (err) e where "r = Inl e" "s' = s"
    | (ins) t dl h where "r = Inr ()" "tcbs s p = Some t" "tstate t = Inactive" "deadline_of s p = Ret dl"
      "h_push H MAX_TCB_PER_CORE (Entry dl p) (ready (exec s)) = Some h"
      "s' = s\<lparr>exec := (exec s)\<lparr>ready := h\<rparr>\<rparr>"
    using enq by (auto simp: enqueue_def obind_Ret_iff deref_Ret_iff split: if_splits option.splits)
  then show ?thesis
  proof cases
    case err
    with ok show ?thesis by simp
  next
    case ins
    have lt: "size (queued \<alpha> s) < MAX_TCB_PER_CORE"
      using ins(5) heap_push_full [OF H d(1)] by (metis option.distinct(1) queued_def)
    with heap_push [OF H d(1)] ins(5) have h: "I h" "\<alpha> h = add_mset (Entry dl p) (queued \<alpha> s)"
      by (metis option.inject queued_def)+
    have "count (image_mset etcb (\<alpha> h)) x \<le> 1" for x
      using d(3) [of x] iffD2 [OF count_eq_zero_iff fresh] h(2) by auto
    then have "sched_ok I \<alpha> s'"
      unfolding sched_ok_def using d(4,5,6,7) ins h lt cur
      by (auto simp: queued_def in_state_def)
    with ins h show ?thesis by (simp add: queued_def)
  qed
qed

lemma other_thread_ok:
  assumes "sched_ok I \<alpha> s" "p \<notin># image_mset etcb (queued \<alpha> s)" "p \<in> dom (tcbs s)"
  shows "sched_ok I \<alpha> (s\<lparr>tcbs := (tcbs s)(p \<mapsto> t)\<rparr>)"
proof -
  have "e \<in># queued \<alpha> s \<Longrightarrow> etcb e \<noteq> p" for e
    using assms(2) by (metis image_eqI set_image_mset)
  then show ?thesis
    unfolding sched_ok_def using sched_okD [OF assms(1)] assms(3)
    by (auto simp: queued_def in_state_def)
qed

lemma set_idle_ok:
  assumes ok: "sched_ok I \<alpha> s" and idle: "set_idle s p = Ret s'"
  shows "sched_ok I \<alpha> s'"
proof -
  from idle obtain t where t: "tcbs s p = Some t"
    "s' = s\<lparr>tcbs := (tcbs s)(p \<mapsto> t\<lparr>tstate := Inactive\<rparr>), exec := (exec s)\<lparr>idle := Some p\<rparr>\<rparr>"
    by (auto simp: set_idle_def obind_Ret_iff modify_Ret_iff)
  then show ?thesis
    unfolding sched_ok_def using sched_okD [OF ok] by (auto simp: queued_def in_state_def)
qed

lemma blocked_not_queued:
  assumes "sched_ok I \<alpha> s" "tcbs s p = Some t" "tstate t \<noteq> Inactive"
  shows "p \<notin># image_mset etcb (queued \<alpha> s)"
proof
  assume "p \<in># image_mset etcb (queued \<alpha> s)"
  then obtain e where "e \<in># queued \<alpha> s" "p = etcb e" by auto
  with sched_okD(4) [OF assms(1)] have "in_state s p Inactive" by blast
  with assms(2,3) show False by (simp add: in_state_def)
qed

lemma wake_ok:
  assumes H: "heap_spec H I \<alpha>" and ok: "sched_ok I \<alpha> s" and wake: "wake H s p = Ret (r, s')"
    and cur: "\<And>cur. current (exec s) = Some cur \<Longrightarrow> etcb cur \<noteq> p"
  shows "sched_ok I \<alpha> s'"
proof -
  from wake obtain t where t: "tcbs s p = Some t"
    "\<not> is_blocked (tstate t) \<and> s' = s \<or> is_blocked (tstate t) \<and>
       enqueue H (s\<lparr>tcbs := (tcbs s)(p \<mapsto> t\<lparr>tstate := Inactive\<rparr>)\<rparr>) p = Ret (r, s')"
    by (auto simp: wake_def obind_Ret_iff deref_Ret_iff split: if_splits)
  show ?thesis
  proof (cases "is_blocked (tstate t)")
    case False
    with t ok show ?thesis by auto
  next
    case True
    let ?s1 = "s\<lparr>tcbs := (tcbs s)(p \<mapsto> t\<lparr>tstate := Inactive\<rparr>)\<rparr>"
    from True have "tstate t \<noteq> Inactive" by (auto simp: is_blocked_def)
    from blocked_not_queued [OF ok t(1) this] have nq: "p \<notin># image_mset etcb (queued \<alpha> s)" .
    have ok1: "sched_ok I \<alpha> ?s1" using other_thread_ok [OF ok nq] t(1) by blast
    have enq: "enqueue H ?s1 p = Ret (r, s')" using t(2) True by blast
    have "p \<notin># image_mset etcb (queued \<alpha> ?s1)" using nq by (simp add: queued_def)
    with enqueue_ok [OF H ok1 enq] cur show ?thesis by simp
  qed
qed

section \<open>Calls of the executor\<close>

text \<open>The operations that the executor offers, as one function of the call.\<close>

datatype core_op = SetIdle ptr | Enqueue ptr | Wake ptr | Preempt | Yield | Block ThreadState | Run

fun core_call :: "bool \<Rightarrow> 'h heap_ops \<Rightarrow> 'h cpu \<Rightarrow> core_op \<Rightarrow> 'h cpu outcome" where
  "core_call dbg H s (SetIdle p) = set_idle s p"
| "core_call dbg H s (Enqueue p) = obind (enqueue H s p) (\<lambda>(r, s'). Ret s')"
| "core_call dbg H s (Wake p) = obind (wake H s p) (\<lambda>(r, s'). Ret s')"
| "core_call dbg H s Preempt = obind (preempt dbg H s) (\<lambda>(s', c). Ret s')"
| "core_call dbg H s Yield = obind (yield_current H s) (\<lambda>(s', c). Ret s')"
| "core_call dbg H s (Block st) = obind (block_current H s st) (\<lambda>(s', c). Ret s')"
| "core_call dbg H s Run = obind (run H s) (\<lambda>(s', c). Ret s')"

text \<open>
  A thread that is handed to the executor exists. A run is any sequence of such calls, with
  writes to threads by other components in between.
\<close>

fun arg_live :: "'h cpu \<Rightarrow> core_op \<Rightarrow> bool" where
  "arg_live s (SetIdle p) = (p \<in> dom (tcbs s))"
| "arg_live s (Enqueue p) = (p \<in> dom (tcbs s))"
| "arg_live s (Wake p) = (p \<in> dom (tcbs s))"
| "arg_live s _ = True"

text \<open>The scheduling contexts that threads point to exist.\<close>

definition sc_ok :: "'h cpu \<Rightarrow> bool" where
  "sc_ok s \<longleftrightarrow> (\<forall>p t sc. tcbs s p = Some t \<and> sched_context t = Some sc \<longrightarrow> sc \<in> dom (scs s))"

inductive core_step :: "bool \<Rightarrow> 'h heap_ops \<Rightarrow> 'h cpu \<Rightarrow> 'h cpu \<Rightarrow> bool"
  for dbg H where
  call: "arg_live s op \<Longrightarrow> core_call dbg H s op = Ret s' \<Longrightarrow> core_step dbg H s s'"
| other: "p \<in> dom (tcbs s) \<Longrightarrow> (\<forall>sc. sched_context t = Some sc \<longrightarrow> sc \<in> dom (scs s)) \<Longrightarrow>
    core_step dbg H s (s\<lparr>tcbs := (tcbs s)(p \<mapsto> t)\<rparr>)"

text \<open>
  What needs nothing of the callers but live threads: the ready queue is a heap of at most 64
  entries, and every pointer that the executor holds is live.
\<close>

definition live_ok :: "('h \<Rightarrow> bool) \<Rightarrow> ('h \<Rightarrow> Entry multiset) \<Rightarrow> 'h cpu \<Rightarrow> bool" where
  "live_ok I \<alpha> s \<longleftrightarrow>
     I (ready (exec s)) \<and> size (queued \<alpha> s) \<le> MAX_TCB_PER_CORE \<and>
     (\<forall>e \<in># queued \<alpha> s. etcb e \<in> dom (tcbs s)) \<and>
     (\<forall>cur. current (exec s) = Some cur \<longrightarrow> etcb cur \<in> dom (tcbs s)) \<and>
     (\<forall>p. idle (exec s) = Some p \<longrightarrow> p \<in> dom (tcbs s)) \<and> sc_ok s"

lemma live_okD:
  assumes "live_ok I \<alpha> s"
  shows "I (ready (exec s))" "size (queued \<alpha> s) \<le> MAX_TCB_PER_CORE"
    "\<And>e. e \<in># queued \<alpha> s \<Longrightarrow> etcb e \<in> dom (tcbs s)"
    "\<And>cur. current (exec s) = Some cur \<Longrightarrow> etcb cur \<in> dom (tcbs s)"
    "\<And>p. idle (exec s) = Some p \<Longrightarrow> p \<in> dom (tcbs s)" "sc_ok s"
  using assms unfolding live_ok_def by blast+

lemma sc_okD: "sc_ok s \<Longrightarrow> tcbs s p = Some t \<Longrightarrow> sched_context t = Some sc \<Longrightarrow> sc \<in> dom (scs s)"
  unfolding sc_ok_def by blast

text \<open>Every update that the operations make keeps the pointers live.\<close>

lemma live_ok_heap:
  assumes "live_ok I \<alpha> s" "I h" "size (\<alpha> h) \<le> MAX_TCB_PER_CORE" "\<And>e. e \<in># \<alpha> h \<Longrightarrow> etcb e \<in> dom (tcbs s)"
  shows "live_ok I \<alpha> (s\<lparr>exec := (exec s)\<lparr>ready := h\<rparr>\<rparr>)"
  using assms by (simp add: live_ok_def queued_def sc_ok_def)

lemma live_ok_current:
  assumes "live_ok I \<alpha> s" "\<And>cur. c = Some cur \<Longrightarrow> etcb cur \<in> dom (tcbs s)"
  shows "live_ok I \<alpha> (s\<lparr>exec := (exec s)\<lparr>current := c\<rparr>\<rparr>)"
  using assms by (simp add: live_ok_def queued_def sc_ok_def)

lemma live_ok_thread:
  assumes "live_ok I \<alpha> s" "p \<in> dom (tcbs s)" "\<And>sc. sched_context t = Some sc \<Longrightarrow> sc \<in> dom (scs s)"
  shows "live_ok I \<alpha> (s\<lparr>tcbs := (tcbs s)(p \<mapsto> t)\<rparr>)"
proof -
  have "sc_ok (s\<lparr>tcbs := (tcbs s)(p \<mapsto> t)\<rparr>)"
    using live_okD(6) [OF assms(1)] assms(3) by (simp add: sc_ok_def)
  moreover have "dom ((tcbs s)(p \<mapsto> t)) = dom (tcbs s)" using assms(2) by auto
  ultimately show ?thesis using assms(1) by (simp add: live_ok_def queued_def del: fun_upd_apply)
qed

lemma live_ok_state:
  assumes "live_ok I \<alpha> s" "tcbs s p = Some t"
  shows "live_ok I \<alpha> (s\<lparr>tcbs := (tcbs s)(p \<mapsto> t\<lparr>tstate := st\<rparr>)\<rparr>)"
  by (rule live_ok_thread) (use assms sc_okD [OF live_okD(6) [OF assms(1)]] in auto)

text \<open>Queueing a live thread while there is room.\<close>

lemma push_live:
  assumes H: "heap_spec H I \<alpha>" and ok: "live_ok I \<alpha> s" and room: "size (queued \<alpha> s) < MAX_TCB_PER_CORE"
    and e: "etcb e \<in> dom (tcbs s)"
  obtains h where "h_push H MAX_TCB_PER_CORE e (ready (exec s)) = Some h"
    "live_ok I \<alpha> (s\<lparr>exec := (exec s)\<lparr>ready := h\<rparr>\<rparr>)" "\<alpha> h = add_mset e (queued \<alpha> s)"
proof -
  from heap_push [OF H live_okD(1) [OF ok]] room obtain h where
    h: "h_push H MAX_TCB_PER_CORE e (ready (exec s)) = Some h" "I h" "\<alpha> h = add_mset e (queued \<alpha> s)"
    by (metis queued_def)
  have "live_ok I \<alpha> (s\<lparr>exec := (exec s)\<lparr>ready := h\<rparr>\<rparr>)"
    by (rule live_ok_heap) (use ok h room e live_okD(3) [OF ok] in auto)
  with h that show thesis by blast
qed

lemma pop_live:
  assumes H: "heap_spec H I \<alpha>" and ok: "live_ok I \<alpha> s" and ne: "queued \<alpha> s \<noteq> {#}"
  obtains e h where "h_pop H (ready (exec s)) = Some (e, h)" "etcb e \<in> dom (tcbs s)"
    "live_ok I \<alpha> (s\<lparr>exec := (exec s)\<lparr>ready := h\<rparr>\<rparr>)" "size (\<alpha> h) < MAX_TCB_PER_CORE"
proof -
  note d = live_okD [OF ok]
  from heap_pop [OF H d(1)] ne obtain e h where
    e: "h_pop H (ready (exec s)) = Some (e, h)" "I h" "queued \<alpha> s = add_mset e (\<alpha> h)"
    by (metis queued_def)
  have "live_ok I \<alpha> (s\<lparr>exec := (exec s)\<lparr>ready := h\<rparr>\<rparr>)"
    by (rule live_ok_heap) (use ok e d(2,3) in auto)
  moreover have "size (\<alpha> h) < MAX_TCB_PER_CORE" using d(2) e(3) by simp
  ultimately show thesis using that e d(3) [of e] by simp
qed

text \<open>Both \<open>context_switch\<close> and \<open>yield_current\<close> put the current thread back into the queue.\<close>

lemma put_back_live:
  assumes H: "heap_spec H I \<alpha>" and ok: "live_ok I \<alpha> s" and room: "size (queued \<alpha> s) < MAX_TCB_PER_CORE"
    and cur: "current (exec s) = Some cur" "tcbs s (etcb cur) = Some t"
  obtains h where "h_push H MAX_TCB_PER_CORE cur (ready (exec s)) = Some h"
    "live_ok I \<alpha> (s\<lparr>tcbs := (tcbs s)(etcb cur \<mapsto> t\<lparr>tstate := Inactive\<rparr>),
       exec := (exec s)\<lparr>current := None, ready := h\<rparr>\<rparr>)"
proof -
  let ?s = "s\<lparr>tcbs := (tcbs s)(etcb cur \<mapsto> t\<lparr>tstate := Inactive\<rparr>)\<rparr>"
  have "live_ok I \<alpha> ?s" by (rule live_ok_state [OF ok cur(2)])
  from live_ok_current [OF this, of None] have "live_ok I \<alpha> (?s\<lparr>exec := (exec ?s)\<lparr>current := None\<rparr>\<rparr>)" by simp
  from push_live [OF H this, of cur] room obtain h where
    "h_push H MAX_TCB_PER_CORE cur (ready (exec s)) = Some h"
    "live_ok I \<alpha> (s\<lparr>tcbs := (tcbs s)(etcb cur \<mapsto> t\<lparr>tstate := Inactive\<rparr>),
       exec := (exec s)\<lparr>current := None, ready := h\<rparr>\<rparr>)"
    by (auto simp: queued_def)
  then show thesis using that by blast
qed

lemma context_switch_live:
  assumes H: "heap_spec H I \<alpha>" and ok: "live_ok I \<alpha> s" and room: "size (queued \<alpha> s) < MAX_TCB_PER_CORE"
    and nxt: "etcb nxt \<in> dom (tcbs s)"
  shows "\<exists>s'. context_switch H s nxt = Ret (s', Resume (etcb nxt)) \<and> live_ok I \<alpha> s'"
proof -
  have switch: "\<exists>s'. obind (modify (tcbs s2) (etcb nxt) (\<lambda>t. t\<lparr>tstate := Running\<rparr>)) (\<lambda>m.
      Ret (s2\<lparr>tcbs := m, exec := (exec s2)\<lparr>current := Some nxt\<rparr>\<rparr>, Resume (etcb nxt))) =
        Ret (s', Resume (etcb nxt)) \<and> live_ok I \<alpha> s'"
    if ok2: "live_ok I \<alpha> s2" and live: "etcb nxt \<in> dom (tcbs s2)" for s2
  proof -
    from live obtain t where t: "tcbs s2 (etcb nxt) = Some t" by blast
    from live_ok_current [OF live_ok_state [OF ok2 t, of Running], of "Some nxt"] t show ?thesis by simp
  qed
  show ?thesis
  proof (cases "current (exec s)")
    case None
    with switch [OF ok nxt] show ?thesis by (simp add: context_switch_def)
  next
    case (Some cur)
    then obtain t where t: "tcbs s (etcb cur) = Some t" using live_okD(4) [OF ok] by blast
    show ?thesis
    proof (cases "tstate t = Running")
      case False
      with Some t switch [OF live_ok_current [OF ok, of None]] nxt show ?thesis
        by (simp add: context_switch_def)
    next
      case True
      from put_back_live [OF H ok room Some t] obtain h where
        "h_push H MAX_TCB_PER_CORE cur (ready (exec s)) = Some h"
        "live_ok I \<alpha> (s\<lparr>tcbs := (tcbs s)(etcb cur \<mapsto> t\<lparr>tstate := Inactive\<rparr>),
           exec := (exec s)\<lparr>current := None, ready := h\<rparr>\<rparr>)" by blast
      with True Some t switch [OF this(2)] nxt show ?thesis
        by (simp add: context_switch_def del: fun_upd_apply)
    qed
  qed
qed

lemma schedule_live:
  assumes H: "heap_spec H I \<alpha>" and ok: "live_ok I \<alpha> s"
  shows "\<exists>s' c. schedule H s = Ret (s', c) \<and> live_ok I \<alpha> s'"
proof (cases "queued \<alpha> s = {#}")
  case True
  then have pop: "h_pop H (ready (exec s)) = None"
    using heap_pop_empty [OF H live_okD(1) [OF ok]] by (simp add: queued_def)
  show ?thesis
  proof (cases "idle (exec s)")
    case None
    with pop ok show ?thesis by (simp add: schedule_def)
  next
    case (Some p)
    with context_switch_live [OF H ok, of "Entry (- 1) p"] live_okD(5) [OF ok Some] pop True show ?thesis
      by (auto simp: schedule_def MAX_TCB_PER_CORE_def)
  qed
next
  case False
  from pop_live [OF H ok this] obtain e h where
    "h_pop H (ready (exec s)) = Some (e, h)" "etcb e \<in> dom (tcbs s)"
    "live_ok I \<alpha> (s\<lparr>exec := (exec s)\<lparr>ready := h\<rparr>\<rparr>)" "size (\<alpha> h) < MAX_TCB_PER_CORE" by blast
  with context_switch_live [OF H this(3), of e] show ?thesis by (auto simp: schedule_def queued_def)
qed

text \<open>When a call panics. A debug build checks the count of consumed ticks.\<close>

definition tick_overflows :: "'h cpu \<Rightarrow> bool" where
  "tick_overflows s \<longleftrightarrow> (\<exists>cur t sc c. current (exec s) = Some cur \<and> tcbs s (etcb cur) = Some t \<and>
     sched_context t = Some sc \<and> scs s sc = Some c \<and> ticks_consumed c = - 1)"

fun core_panics :: "bool \<Rightarrow> ('h \<Rightarrow> Entry multiset) \<Rightarrow> 'h cpu \<Rightarrow> core_op \<Rightarrow> bool" where
  "core_panics dbg \<alpha> s Preempt = (dbg \<and> tick_overflows s)"
| "core_panics dbg \<alpha> s Yield = (current (exec s) \<noteq> None \<and> size (queued \<alpha> s) = 64)"
| "core_panics dbg \<alpha> s (Block st) = (\<not> is_blocked st)"
| "core_panics dbg \<alpha> s _ = False"

lemma unat_succ_overflow: "(2 :: nat) ^ 64 \<le> unat a + unat 1 \<longleftrightarrow> a = - 1" for a :: u64
proof -
  have "unat a \<le> unat (- 1 :: u64)" by (simp add: word_le_nat_alt [symmetric])
  moreover have "unat a = unat (- 1 :: u64) \<longleftrightarrow> a = - 1" by (simp add: word_unat_eq_iff)
  ultimately show ?thesis by (auto simp: unsigned_minus_1_eq_mask mask_eq_exp_minus_1)
qed

lemma inc_tick_live:
  assumes ok: "live_ok I \<alpha> s"
  shows "if dbg \<and> tick_overflows s then inc_tick dbg s = Panic
    else \<exists>c. inc_tick dbg s = Ret (s\<lparr>scs := c\<rparr>) \<and> live_ok I \<alpha> (s\<lparr>scs := c\<rparr>)"
proof (cases "current (exec s)")
  case None
  with ok show ?thesis by (auto simp: inc_tick_def tick_overflows_def intro!: exI [of _ "scs s"])
next
  case cur: (Some cur)
  then obtain t where t: "tcbs s (etcb cur) = Some t" using live_okD(4) [OF ok] by blast
  show ?thesis
  proof (cases "sched_context t")
    case None
    with cur t ok show ?thesis by (auto simp: inc_tick_def tick_overflows_def intro!: exI [of _ "scs s"])
  next
    case sc: (Some sc)
    then obtain c where c: "scs s sc = Some c" using sc_okD [OF live_okD(6) [OF ok] t] by blast
    have over: "tick_overflows s \<longleftrightarrow> ticks_consumed c = - 1" using cur t sc c by (simp add: tick_overflows_def)
    let ?k = "(scs s)(sc \<mapsto> c\<lparr>ticks_consumed := ticks_consumed c + 1\<rparr>)"
    have "dom ?k = dom (scs s)" using c by auto
    then have "live_ok I \<alpha> (s\<lparr>scs := ?k\<rparr>)" using ok by (simp add: live_ok_def queued_def sc_ok_def)
    with cur t sc c over show ?thesis
      by (auto simp: inc_tick_def u_add_def unat_succ_overflow [simplified] intro!: exI [of _ ?k])
  qed
qed

lemma preempt_live:
  assumes H: "heap_spec H I \<alpha>" and ok: "live_ok I \<alpha> s"
  shows "if dbg \<and> tick_overflows s then preempt dbg H s = Panic
    else \<exists>s' c. preempt dbg H s = Ret (s', c) \<and> live_ok I \<alpha> s'"
proof (cases "dbg \<and> tick_overflows s")
  case True
  with inc_tick_live [OF ok, of dbg] show ?thesis by (simp add: preempt_def)
next
  case False
  with inc_tick_live [OF ok, of dbg] obtain k where
    k: "inc_tick dbg s = Ret (s\<lparr>scs := k\<rparr>)" "live_ok I \<alpha> (s\<lparr>scs := k\<rparr>)" (is "live_ok I \<alpha> ?s") by auto
  show ?thesis
  proof (cases "should_preempt H (exec s)")
    case no: False
    with k False show ?thesis by (auto simp: preempt_def)
  next
    case yes: True
    then have "h_peek H (ready (exec s)) \<noteq> None" by (auto simp: should_preempt_def split: option.splits)
    then have "queued \<alpha> s \<noteq> {#}"
      using heap_peek [OF H live_okD(1) [OF ok]] heap_pop_empty [OF H live_okD(1) [OF ok]]
      by (auto simp: queued_def)
    from pop_live [OF H k(2)] this obtain e h where
      "h_pop H (ready (exec s)) = Some (e, h)" "etcb e \<in> dom (tcbs s)"
      "live_ok I \<alpha> (?s\<lparr>exec := (exec s)\<lparr>ready := h\<rparr>\<rparr>)" "size (\<alpha> h) < MAX_TCB_PER_CORE" by auto
    with context_switch_live [OF H this(3), of e] k(1) yes False show ?thesis
      by (auto simp: preempt_def queued_def)
  qed
qed

lemma yield_current_live:
  assumes H: "heap_spec H I \<alpha>" and ok: "live_ok I \<alpha> s"
  shows "if current (exec s) \<noteq> None \<and> size (queued \<alpha> s) = 64 then yield_current H s = Panic
    else \<exists>s' c. yield_current H s = Ret (s', c) \<and> live_ok I \<alpha> s'"
proof (cases "current (exec s)")
  case None
  with schedule_live [OF H ok] show ?thesis by (simp add: yield_current_def)
next
  case (Some cur)
  then obtain t where t: "tcbs s (etcb cur) = Some t" using live_okD(4) [OF ok] by blast
  show ?thesis
  proof (cases "size (queued \<alpha> s) < MAX_TCB_PER_CORE")
    case True
    from put_back_live [OF H ok True Some t] obtain h where
      "h_push H MAX_TCB_PER_CORE cur (ready (exec s)) = Some h"
      "live_ok I \<alpha> (s\<lparr>tcbs := (tcbs s)(etcb cur \<mapsto> t\<lparr>tstate := Inactive\<rparr>),
         exec := (exec s)\<lparr>current := None, ready := h\<rparr>\<rparr>)" by blast
    with Some t True schedule_live [OF H this(2)] show ?thesis
      by (simp add: yield_current_def MAX_TCB_PER_CORE_def)
  next
    case False
    then have "h_push H MAX_TCB_PER_CORE cur (ready (exec s)) = None"
      using heap_push_full [OF H live_okD(1) [OF ok]] by (simp add: queued_def)
    with False Some t live_okD(2) [OF ok] show ?thesis
      by (simp add: yield_current_def MAX_TCB_PER_CORE_def)
  qed
qed

lemma block_current_live:
  assumes H: "heap_spec H I \<alpha>" and ok: "live_ok I \<alpha> s"
  shows "if is_blocked st then \<exists>s' c. block_current H s st = Ret (s', c) \<and> live_ok I \<alpha> s'
    else block_current H s st = Panic"
proof (cases "is_blocked st")
  case True
  show ?thesis
  proof (cases "current (exec s)")
    case None
    with schedule_live [OF H ok] True show ?thesis by (simp add: block_current_def)
  next
    case (Some cur)
    then obtain t where t: "tcbs s (etcb cur) = Some t" using live_okD(4) [OF ok] by blast
    from live_ok_state [OF live_ok_current [OF ok, of None], of "etcb cur" t st] t
    have "live_ok I \<alpha> (s\<lparr>exec := (exec s)\<lparr>current := None\<rparr>, tcbs := (tcbs s)(etcb cur \<mapsto> t\<lparr>tstate := st\<rparr>)\<rparr>)"
      by simp
    from schedule_live [OF H this] Some t True show ?thesis by (simp add: block_current_def)
  qed
qed (simp add: block_current_def)

lemma enqueue_live:
  assumes H: "heap_spec H I \<alpha>" and ok: "live_ok I \<alpha> s" and p: "p \<in> dom (tcbs s)"
  shows "\<exists>r s'. enqueue H s p = Ret (r, s') \<and> live_ok I \<alpha> s'"
proof -
  from p obtain t where t: "tcbs s p = Some t" by blast
  obtain d where d: "deadline_of s p = Ret d"
    using t sc_okD [OF live_okD(6) [OF ok] t] by (cases "sched_context t") (auto simp: deadline_of_def)
  show ?thesis
  proof (cases "size (queued \<alpha> s) < MAX_TCB_PER_CORE")
    case True
    from push_live [OF H ok True, of "Entry d p"] p obtain h where
      "h_push H MAX_TCB_PER_CORE (Entry d p) (ready (exec s)) = Some h"
      "live_ok I \<alpha> (s\<lparr>exec := (exec s)\<lparr>ready := h\<rparr>\<rparr>)" by auto
    with t d ok show ?thesis by (simp add: enqueue_def)
  next
    case False
    then have "h_push H MAX_TCB_PER_CORE (Entry d p) (ready (exec s)) = None"
      using heap_push_full [OF H live_okD(1) [OF ok]] by (simp add: queued_def)
    with t d ok show ?thesis by (simp add: enqueue_def)
  qed
qed

lemma wake_live:
  assumes H: "heap_spec H I \<alpha>" and ok: "live_ok I \<alpha> s" and p: "p \<in> dom (tcbs s)"
  shows "\<exists>r s'. wake H s p = Ret (r, s') \<and> live_ok I \<alpha> s'"
proof -
  from p obtain t where t: "tcbs s p = Some t" by blast
  from enqueue_live [OF H live_ok_state [OF ok t, of Inactive], of p] t ok show ?thesis
    by (auto simp: wake_def)
qed

lemma set_idle_live:
  assumes ok: "live_ok I \<alpha> s" and p: "p \<in> dom (tcbs s)"
  shows "\<exists>s'. set_idle s p = Ret s' \<and> live_ok I \<alpha> s'"
proof -
  from p obtain t where t: "tcbs s p = Some t" by blast
  from live_ok_state [OF ok t, of Inactive] t show ?thesis
    by (simp add: set_idle_def live_ok_def queued_def sc_ok_def)
qed

lemma core_call_live:
  assumes "heap_spec H I \<alpha>" "live_ok I \<alpha> s" "arg_live s op"
  shows "if core_panics dbg \<alpha> s op then core_call dbg H s op = Panic
    else \<exists>s'. core_call dbg H s op = Ret s' \<and> live_ok I \<alpha> s'"
proof (cases op)
  case (SetIdle p)
  with set_idle_live [OF assms(2), of p] assms(3) show ?thesis by simp
next
  case (Enqueue p)
  with enqueue_live [OF assms(1,2), of p] assms(3) show ?thesis by auto
next
  case (Wake p)
  with wake_live [OF assms(1,2), of p] assms(3) show ?thesis by auto
next
  case Preempt
  with preempt_live [OF assms(1,2), of dbg] show ?thesis by (auto split: if_splits)
next
  case Yield
  with yield_current_live [OF assms(1,2)] show ?thesis by (auto split: if_splits)
next
  case (Block st)
  with block_current_live [OF assms(1,2), of st] show ?thesis by (auto split: if_splits)
next
  case Run
  with schedule_live [OF assms(1,2)] show ?thesis by (auto simp: run_def)
qed

lemma core_step_live:
  assumes "core_step dbg H s s'" "heap_spec H I \<alpha>" "live_ok I \<alpha> s"
  shows "live_ok I \<alpha> s'"
  using assms(1)
proof cases
  case (call op)
  with core_call_live [OF assms(2,3) call(1), of dbg] show ?thesis by (auto split: if_splits)
next
  case (other p t)
  with live_ok_thread [OF assms(3)] show ?thesis by blast
qed

section \<open>Which calls keep a core well-formed\<close>

text \<open>
  The executor does not check that a thread is queued once, or not while it runs. A call keeps a
  well-formed core well-formed exactly under these conditions on its caller.
\<close>

fun keeps_ok :: "('h \<Rightarrow> Entry multiset) \<Rightarrow> 'h cpu \<Rightarrow> core_op \<Rightarrow> bool" where
  "keeps_ok \<alpha> s (Enqueue p) = (in_state s p Inactive \<and> size (queued \<alpha> s) < MAX_TCB_PER_CORE \<longrightarrow>
     p \<notin># image_mset etcb (queued \<alpha> s) \<and> map_option etcb (current (exec s)) \<noteq> Some p)"
| "keeps_ok \<alpha> s (Wake p) = ((\<exists>st. is_blocked st \<and> in_state s p st) \<and> size (queued \<alpha> s) < MAX_TCB_PER_CORE \<longrightarrow>
     map_option etcb (current (exec s)) \<noteq> Some p)"
| "keeps_ok \<alpha> s Run = (\<not> (\<exists>p. queued \<alpha> s = {#} \<and> idle (exec s) = Some p \<and>
     map_option etcb (current (exec s)) = Some p \<and> in_state s p Running))"
| "keeps_ok \<alpha> s _ = True"

lemma enqueue_exclusive:
  assumes H: "heap_spec H I \<alpha>" and ok: "sched_ok I \<alpha> s" and enq: "enqueue H s p = Ret (r, s')"
  shows "sched_ok I \<alpha> s' \<longleftrightarrow> keeps_ok \<alpha> s (Enqueue p)"
proof (cases "in_state s p Inactive \<and> size (queued \<alpha> s) < MAX_TCB_PER_CORE")
  case False
  have "s' = s"
    using enq False heap_push_full [OF H sched_okD(1) [OF ok]]
    by (auto simp: enqueue_def in_state_def queued_def obind_Ret_iff deref_Ret_iff split: if_splits option.splits)
  with False ok show ?thesis by auto
next
  case True
  note d = sched_okD [OF ok]
  from enq True obtain dl where dl: "deadline_of s p = Ret dl"
    by (auto simp: enqueue_def in_state_def obind_Ret_iff deref_Ret_iff split: if_splits)
  from heap_push [OF H d(1)] True obtain h where
    h: "h_push H MAX_TCB_PER_CORE (Entry dl p) (ready (exec s)) = Some h" "\<alpha> h = add_mset (Entry dl p) (queued \<alpha> s)"
    by (metis queued_def)
  have s': "current (exec s') = current (exec s)" "queued \<alpha> s' = add_mset (Entry dl p) (queued \<alpha> s)"
    using enq True dl h by (auto simp: enqueue_def in_state_def queued_def)
  show ?thesis
  proof
    assume ok': "sched_ok I \<alpha> s'"
    have "count (image_mset etcb (queued \<alpha> s)) p = 0" using sched_okD(3) [OF ok', of p] s'(2) by simp
    then have "p \<notin># image_mset etcb (queued \<alpha> s)" by (rule iffD1 [OF count_eq_zero_iff])
    moreover have "map_option etcb (current (exec s)) \<noteq> Some p"
      using sched_okD(6) [OF ok'] s' by auto
    ultimately show "keeps_ok \<alpha> s (Enqueue p)" by simp
  next
    assume k: "keeps_ok \<alpha> s (Enqueue p)"
    have "etcb cur \<noteq> p" if "current (exec s) = Some cur" for cur using k True that by auto
    moreover have "p \<notin># image_mset etcb (queued \<alpha> s)" using k True by auto
    ultimately show "sched_ok I \<alpha> s'" using enqueue_ok [OF H ok enq] by blast
  qed
qed

lemma wake_exclusive:
  assumes H: "heap_spec H I \<alpha>" and ok: "sched_ok I \<alpha> s" and wake: "wake H s p = Ret (r, s')"
  shows "sched_ok I \<alpha> s' \<longleftrightarrow> keeps_ok \<alpha> s (Wake p)"
proof -
  from wake obtain t where t: "tcbs s p = Some t"
    "\<not> is_blocked (tstate t) \<and> s' = s \<or> is_blocked (tstate t) \<and>
       enqueue H (s\<lparr>tcbs := (tcbs s)(p \<mapsto> t\<lparr>tstate := Inactive\<rparr>)\<rparr>) p = Ret (r, s')"
    by (auto simp: wake_def obind_Ret_iff deref_Ret_iff split: if_splits)
  have blocked: "(\<exists>st. is_blocked st \<and> in_state s p st) \<longleftrightarrow> is_blocked (tstate t)"
    using t(1) by (auto simp: in_state_def)
  show ?thesis
  proof (cases "is_blocked (tstate t)")
    case False
    with t ok blocked show ?thesis by auto
  next
    case True
    let ?s1 = "s\<lparr>tcbs := (tcbs s)(p \<mapsto> t\<lparr>tstate := Inactive\<rparr>)\<rparr>"
    from True have "tstate t \<noteq> Inactive" by (auto simp: is_blocked_def)
    from blocked_not_queued [OF ok t(1) this] have nq: "p \<notin># image_mset etcb (queued \<alpha> s)" .
    have ok1: "sched_ok I \<alpha> ?s1" using other_thread_ok [OF ok nq] t(1) by blast
    have "enqueue H ?s1 p = Ret (r, s')" using t(2) True by blast
    from enqueue_exclusive [OF H ok1 this] True nq blocked show ?thesis
      by (simp add: queued_def in_state_def)
  qed
qed

lemma run_exclusive:
  assumes H: "heap_spec H I \<alpha>" and ok: "sched_ok I \<alpha> s" and run: "run H s = Ret (s', c)"
  shows "sched_ok I \<alpha> s' \<longleftrightarrow> keeps_ok \<alpha> s Run"
proof (cases "queued \<alpha> s = {#}")
  case False
  note d = sched_okD [OF ok]
  from pop_ok [OF H ok False] obtain e h where
    e: "h_pop H (ready (exec s)) = Some (e, h)" "queued \<alpha> s = add_mset e (\<alpha> h)"
    "sched_ok I \<alpha> (s\<lparr>exec := (exec s)\<lparr>ready := h\<rparr>\<rparr>)" (is "sched_ok I \<alpha> ?s1")
    "etcb e \<notin># image_mset etcb (\<alpha> h)" "size (\<alpha> h) < MAX_TCB_PER_CORE" "in_state s (etcb e) Inactive" by metis
  have "etcb cur \<noteq> etcb e" if "current (exec s) = Some cur" for cur using d(6) [OF that] e(2) by auto
  with context_switch_ok [OF H e(3), of e] e(4,5,6) have "\<exists>s'. context_switch H ?s1 e = Ret (s', Resume (etcb e)) \<and> sched_ok I \<alpha> s'"
    by (auto simp: queued_def in_state_def)
  then have "sched_ok I \<alpha> s'" using run e(1) by (auto simp: run_def schedule_def)
  with False show ?thesis by simp
next
  case True
  note d = sched_okD [OF ok]
  have pop: "h_pop H (ready (exec s)) = None"
    using heap_pop_empty [OF H d(1)] True by (simp add: queued_def)
  show ?thesis
  proof (cases "idle (exec s)")
    case None
    then have "s' = s" using run pop by (simp add: run_def schedule_def)
    with ok None show ?thesis by simp
  next
    case idle: (Some p)
    then obtain t where t: "tcbs s p = Some t" using d(7) by blast
    have cs: "context_switch H s (Entry (- 1) p) = Ret (s', c)"
      using run pop idle by (simp add: run_def schedule_def)
    show ?thesis
    proof (cases "map_option etcb (current (exec s)) = Some p")
      case False
      have "etcb cur \<noteq> etcb (Entry (- 1) p)" if "current (exec s) = Some cur" for cur using False that by simp
      with context_switch_ok [OF H ok, of "Entry (- 1) p"] cs True d(7) [OF idle] have "sched_ok I \<alpha> s'"
        by (auto simp: MAX_TCB_PER_CORE_def)
      with False idle show ?thesis by simp
    next
      case same: True
      then obtain cur where cur: "current (exec s) = Some cur" "etcb cur = p" by auto
      show ?thesis
      proof (cases "in_state s p Running")
        case False
        then have "s' = s\<lparr>tcbs := (tcbs s)(p \<mapsto> t\<lparr>tstate := Running\<rparr>), exec := (exec s)\<lparr>current := Some (Entry (- 1) p)\<rparr>\<rparr>"
          using cs cur t by (simp add: context_switch_def in_state_def)
        then have "sched_ok I \<alpha> s'"
          using d True t by (auto simp: sched_ok_def queued_def in_state_def)
        with False idle same show ?thesis by simp
      next
        case running: True
        then have "tstate t = Running" using t by (simp add: in_state_def)
        from heap_push [OF H d(1), of MAX_TCB_PER_CORE] True obtain h where
          h: "h_push H MAX_TCB_PER_CORE cur (ready (exec s)) = Some h" "\<alpha> h = {#cur#}"
          by (auto simp: queued_def MAX_TCB_PER_CORE_def)
        have "current (exec s') = Some (Entry (- 1) p) \<and> queued \<alpha> s' = {#cur#}"
          using cs cur t \<open>tstate t = Running\<close> h by (auto simp: context_switch_def queued_def)
        then have "\<not> sched_ok I \<alpha> s'" using sched_okD(6) [of I \<alpha> s' "Entry (- 1) p"] cur(2) by auto
        with running idle same True show ?thesis by simp
      qed
    qed
  qed
qed

lemma core_call_exclusive:
  assumes "heap_spec H I \<alpha>" "sched_ok I \<alpha> s" "core_call dbg H s op = Ret s'"
  shows "sched_ok I \<alpha> s' \<longleftrightarrow> keeps_ok \<alpha> s op"
proof (cases op)
  case (SetIdle p)
  with set_idle_ok [OF assms(2)] assms(3) show ?thesis by simp
next
  case (Enqueue p)
  with assms(3) obtain r where "enqueue H s p = Ret (r, s')" by (auto simp: obind_Ret_iff)
  with enqueue_exclusive [OF assms(1,2)] Enqueue show ?thesis by blast
next
  case (Wake p)
  with assms(3) obtain r where "wake H s p = Ret (r, s')" by (auto simp: obind_Ret_iff)
  with wake_exclusive [OF assms(1,2)] Wake show ?thesis by blast
next
  case Preempt
  with assms(3) obtain c where "preempt dbg H s = Ret (s', c)" by (auto simp: obind_Ret_iff)
  with preempt_ok [OF assms(1,2)] Preempt show ?thesis by simp
next
  case Yield
  with assms(3) obtain c where y: "yield_current H s = Ret (s', c)" by (auto simp: obind_Ret_iff)
  then have "current (exec s) = None \<or> size (queued \<alpha> s) < MAX_TCB_PER_CORE"
    using yield_current_full [OF assms(1,2)] by fastforce
  from yield_current_ok [OF assms(1,2) this] y Yield show ?thesis by auto
next
  case (Block st)
  with assms(3) obtain c where b: "block_current H s st = Ret (s', c)" by (auto simp: obind_Ret_iff)
  then have "is_blocked st" by (auto simp: block_current_def obind_Ret_iff assert_that_Ret_iff)
  from block_current_ok [OF assms(1,2) this] b Block show ?thesis by auto
next
  case Run
  with assms(3) obtain c where "run H s = Ret (s', c)" by (auto simp: obind_Ret_iff)
  with run_exclusive [OF assms(1,2)] Run show ?thesis by blast
qed

section \<open>Properties\<close>

text \<open>
  A core for the witnesses: the running thread has deadline 50, the only ready one 20.
\<close>

definition demo_cpu :: "Entry list cpu" where
  "demo_cpu = \<lparr>tcbs = [0x400 \<mapsto> Tcb_new\<lparr>sched_context := Some 0x10\<rparr>, 0x800 \<mapsto> Tcb_new\<lparr>tstate := Inactive\<rparr>,
       0xc00 \<mapsto> Tcb_new\<lparr>tstate := BlockedOnReply\<rparr>],
     scs = [0x10 \<mapsto> \<lparr>ticks = 5, ticks_consumed = 0, deadline = 50, sc_thread = 0\<rparr>],
     exec = \<lparr>ready = [Entry 20 0x800], current = Some (Entry 50 0x400), idle = None\<rparr>\<rparr>"

lemma demo_cpu_ok: "sched_ok sorted mset demo_cpu"
  by (auto simp: sched_ok_def queued_def in_state_def demo_cpu_def MAX_TCB_PER_CORE_def)

lemma demo_cpu_sc: "sc_ok demo_cpu"
  by (auto simp: sc_ok_def demo_cpu_def Tcb_new_def split: if_splits)

text \<open>
  Claim C18. The timer interrupt implements earliest deadline first: \<open>preempt\<close> on a
  well-formed core never panics in a release build; it switches exactly when there is a ready
  thread and either nothing runs or some ready thread has a strictly earlier deadline; it then
  resumes a least ready entry and puts the interrupted thread, if it was running, back into the
  ready queue; afterwards no ready thread has an earlier deadline than the current one, and
  the core is well-formed again.
\<close>

theorem preempt_edf:
  assumes H: "heap_spec H I \<alpha>" and ok: "sched_ok I \<alpha> s" and sc: "sc_ok s"
  shows "\<exists>s' c. preempt False H s = Ret (s', c) \<and> sched_ok I \<alpha> s' \<and>
    (c \<noteq> Return \<longleftrightarrow> (case current (exec s) of
       None \<Rightarrow> queued \<alpha> s \<noteq> {#}
     | Some cur \<Rightarrow> \<exists>e \<in># queued \<alpha> s. edeadline e < edeadline cur)) \<and>
    (c = Return \<longrightarrow> exec s' = exec s \<and> tcbs s' = tcbs s) \<and>
    (c \<noteq> Return \<longrightarrow> (\<exists>e \<in># queued \<alpha> s. (\<forall>x \<in># queued \<alpha> s. e \<le> x) \<and> c = Resume (etcb e) \<and>
       current (exec s') = Some e \<and> in_state s' (etcb e) Running \<and>
       queued \<alpha> s' = queued_after \<alpha> s e)) \<and>
    (\<forall>cur. current (exec s') = Some cur \<longrightarrow> (\<forall>x \<in># queued \<alpha> s'. edeadline cur \<le> edeadline x))"
proof -
  from inc_tick_release [of s] sc sched_okD(5) [OF ok] obtain k where
    tick: "inc_tick False s = Ret (s\<lparr>scs := k\<rparr>)" by (metis sc_ok_def)
  let ?s1 = "s\<lparr>scs := k\<rparr>"
  have ok1: "sched_ok I \<alpha> ?s1" using ok by simp
  note iff = should_preempt_iff [OF H ok]
  show ?thesis
  proof (cases "should_preempt H (exec s)")
    case False
    then have "preempt False H s = Ret (?s1, Return)" using tick by (simp add: preempt_def)
    moreover have "\<not> edeadline x < edeadline cur"
      if "current (exec s) = Some cur" "x \<in># queued \<alpha> s" for cur x
      using False iff that by auto
    ultimately show ?thesis using False ok1 iff
      by (intro exI [of _ ?s1] exI [of _ Return]) (auto simp: not_less split: option.splits)
  next
    case True
    with preempt_switch_ok [OF H ok1] obtain e s' where
      e: "e \<in># queued \<alpha> s" "\<forall>x \<in># queued \<alpha> s. e \<le> x"
      "obind (expect (h_pop H (ready (exec ?s1)))) (\<lambda>(next, h).
        context_switch H (?s1\<lparr>exec := (exec ?s1)\<lparr>ready := h\<rparr>\<rparr>) next) = Ret (s', Resume (etcb e))"
      "sched_ok I \<alpha> s'" "current (exec s') = Some e" "in_state s' (etcb e) Running"
      "queued \<alpha> s' = queued_after \<alpha> s e"
      by auto
    have "preempt False H s = Ret (s', Resume (etcb e))"
      using tick True e(3) by (simp add: preempt_def)
    moreover have "edeadline e \<le> edeadline x" if x: "x \<in># queued \<alpha> s'" for x
    proof -
      have "x \<in># queued \<alpha> s \<or> (\<exists>cur. current (exec s) = Some cur \<and> x = cur)"
        using x e(7) by (auto simp: queued_after_def split: option.splits if_splits dest: in_diffD)
      then show ?thesis
      proof
        assume "x \<in># queued \<alpha> s"
        with e(2) Entry_le_deadline show ?thesis by blast
      next
        assume "\<exists>cur. current (exec s) = Some cur \<and> x = cur"
        then obtain y where "y \<in># queued \<alpha> s" "edeadline y < edeadline x"
          using True iff by auto
        then show ?thesis using e(2) Entry_le_deadline [of e y] by fastforce
      qed
    qed
    ultimately show ?thesis using True iff e
      by (intro exI [of _ s'] exI [of _ "Resume (etcb e)"]) auto
  qed
qed

theorem preempt_edf_witness:
  "\<exists>s'. preempt False list_heap demo_cpu = Ret (s', Resume 0x800) \<and> sched_ok sorted mset s'"
proof -
  have *: "queued mset demo_cpu = {#Entry 20 0x800#}" "current (exec demo_cpu) = Some (Entry 50 0x400)"
    by (simp_all add: queued_def demo_cpu_def)
  from preempt_edf [OF list_heap_spec demo_cpu_ok demo_cpu_sc] show ?thesis
    unfolding * by auto
qed

text \<open>
  Claim C7. The executor is safe on any sequence of calls: starting from a new executor, whatever
  calls with live threads are made, in whatever order, and whatever other components write to
  threads in between (as long as scheduling contexts exist), the ready queue never holds more than
  64 entries, every thread that is queued, current or idle is live, and no call goes through a bad
  pointer: a call returns, or it panics, and it panics exactly when \<open>block_current\<close> is given a
  state that is not a blocked one, when \<open>yield_current\<close> has a current thread and 64 ready ones, or,
  in a debug build, when \<open>preempt\<close> overflows the count of consumed ticks.
\<close>

theorem executor_safe:
  assumes H: "heap_spec H I \<alpha>" and sc: "sc_ok \<lparr>tcbs = m, scs = c, exec = Executor_new H\<rparr>"
    and run: "(core_step dbg H)\<^sup>*\<^sup>* \<lparr>tcbs = m, scs = c, exec = Executor_new H\<rparr> s"
  shows "live_ok I \<alpha> s \<and> (\<forall>op. arg_live s op \<longrightarrow>
    (if core_panics dbg \<alpha> s op then core_call dbg H s op = Panic
     else \<exists>s'. core_call dbg H s op = Ret s' \<and> live_ok I \<alpha> s'))"
proof -
  have "live_ok I \<alpha> \<lparr>tcbs = m, scs = c, exec = Executor_new H\<rparr>"
    using sc by (simp add: live_ok_def queued_def Executor_new_def heap_new [OF H])
  with run have "live_ok I \<alpha> s" by induction (auto intro: core_step_live H)
  with core_call_live [OF H this] show ?thesis by blast
qed

text \<open>A thread is queued twice, which the executor accepts, and then dispatched.\<close>

theorem executor_safe_witness:
  "\<exists>s s'. s = \<lparr>tcbs = [0x800 \<mapsto> Tcb_new\<lparr>tstate := Inactive\<rparr>], scs = Map.empty,
       exec = \<lparr>ready = [Entry (- 1) 0x800, Entry (- 1) 0x800], current = None, idle = None\<rparr>\<rparr> \<and>
     core_call False list_heap s Run = Ret s' \<and> live_ok sorted mset s'"
proof -
  let ?m = "[0x800 \<mapsto> Tcb_new\<lparr>tstate := Inactive\<rparr>] :: tmem"
  let ?s = "\<lambda>es. \<lparr>tcbs = ?m, scs = Map.empty, exec = \<lparr>ready = es, current = None, idle = None\<rparr>\<rparr>"
  let ?e = "Entry (- 1) 0x800"
  have new: "?s [] = \<lparr>tcbs = ?m, scs = Map.empty, exec = Executor_new list_heap\<rparr>"
    by (simp add: Executor_new_def list_heap_def)
  have "core_call False list_heap (?s []) (Enqueue 0x800) = Ret (?s [?e])"
    "core_call False list_heap (?s [?e]) (Enqueue 0x800) = Ret (?s [?e, ?e])"
    by (simp_all add: enqueue_def deadline_of_def list_heap_def MAX_TCB_PER_CORE_def Tcb_new_def)
  then have "core_step False list_heap (?s []) (?s [?e])" "core_step False list_heap (?s [?e]) (?s [?e, ?e])"
    by (auto intro!: core_step.call [where op = "Enqueue 0x800"] simp del: core_call.simps)
  then have run: "(core_step False list_heap)\<^sup>*\<^sup>* (?s []) (?s [?e, ?e])" by simp
  have sc: "sc_ok \<lparr>tcbs = ?m, scs = Map.empty, exec = Executor_new list_heap\<rparr>"
    by (simp add: sc_ok_def Tcb_new_def)
  from executor_safe [OF list_heap_spec sc run [unfolded new]]
  have "arg_live (?s [?e, ?e]) Run \<longrightarrow> (if core_panics False mset (?s [?e, ?e]) Run
      then core_call False list_heap (?s [?e, ?e]) Run = Panic
      else \<exists>s'. core_call False list_heap (?s [?e, ?e]) Run = Ret s' \<and> live_ok sorted mset s')" by blast
  then show ?thesis by simp
qed

text \<open>
  Claim C8. A well-formed core queues no thread twice, only inactive ones, and never the current
  one. \<open>set_idle\<close>, \<open>preempt\<close>, \<open>yield_current\<close> and \<open>block_current\<close> keep it
  well-formed. The other calls do so exactly when the caller takes care: \<open>enqueue\<close>, if it inserts,
  of a thread that is neither queued already nor current; \<open>wake\<close>, if it inserts, of a thread that is
  not current; \<open>run\<close> unless the ready queue is empty and the idle thread is the one that runs,
  which it would queue and resume at once.
\<close>

theorem executor_exclusive:
  assumes "heap_spec H I \<alpha>" "sched_ok I \<alpha> s" "core_call dbg H s op = Ret s'"
  shows "sched_ok I \<alpha> s' \<longleftrightarrow> (case op of
      Enqueue p \<Rightarrow> in_state s p Inactive \<and> size (queued \<alpha> s) < 64 \<longrightarrow>
        p \<notin># image_mset etcb (queued \<alpha> s) \<and> map_option etcb (current (exec s)) \<noteq> Some p
    | Wake p \<Rightarrow> (\<exists>st. is_blocked st \<and> in_state s p st) \<and> size (queued \<alpha> s) < 64 \<longrightarrow>
        map_option etcb (current (exec s)) \<noteq> Some p
    | Run \<Rightarrow> \<not> (\<exists>p. queued \<alpha> s = {#} \<and> idle (exec s) = Some p \<and>
        map_option etcb (current (exec s)) = Some p \<and> in_state s p Running)
    | _ \<Rightarrow> True)"
  using core_call_exclusive [OF assms] by (simp add: MAX_TCB_PER_CORE_def split: core_op.splits)

text \<open>A second \<open>enqueue\<close> of a ready thread succeeds and queues it twice; \<open>wake\<close> is harmless.\<close>

theorem executor_exclusive_witness:
  "(\<exists>s'. core_call False list_heap demo_cpu (Enqueue 0x800) = Ret s' \<and> \<not> sched_ok sorted mset s') \<and>
   (\<exists>s'. core_call False list_heap demo_cpu (Wake 0xc00) = Ret s' \<and> sched_ok sorted mset s')"
proof
  obtain s' where "core_call False list_heap demo_cpu (Enqueue 0x800) = Ret s'"
    by (simp add: demo_cpu_def enqueue_def deadline_of_def list_heap_def MAX_TCB_PER_CORE_def Tcb_new_def)
  with executor_exclusive [OF list_heap_spec demo_cpu_ok this]
  show "\<exists>s'. core_call False list_heap demo_cpu (Enqueue 0x800) = Ret s' \<and> \<not> sched_ok sorted mset s'"
    by (auto simp: demo_cpu_def queued_def in_state_def)
  obtain s' where "core_call False list_heap demo_cpu (Wake 0xc00) = Ret s'"
    by (simp add: demo_cpu_def wake_def enqueue_def deadline_of_def list_heap_def MAX_TCB_PER_CORE_def
        Tcb_new_def is_blocked_def)
  with executor_exclusive [OF list_heap_spec demo_cpu_ok this]
  show "\<exists>s'. core_call False list_heap demo_cpu (Wake 0xc00) = Ret s' \<and> sched_ok sorted mset s'"
    by (auto simp: demo_cpu_def)
qed

text \<open>
  \<open>schedule\<close>, with no current thread, dispatches correctly: it resumes a least
  entry of a non-empty ready queue and removes exactly that entry, otherwise the idle thread,
  otherwise it halts; the resumed thread is running and current.
\<close>

theorem schedule_dispatch:
  assumes H: "heap_spec H I \<alpha>" and ok: "sched_ok I \<alpha> s" and none: "current (exec s) = None"
  shows "\<exists>s' c. schedule H s = Ret (s', c) \<and> sched_ok I \<alpha> s' \<and>
    (queued \<alpha> s \<noteq> {#} \<longrightarrow> (\<exists>e. c = Resume (etcb e) \<and> current (exec s') = Some e \<and>
        in_state s' (etcb e) Running \<and> (\<forall>x \<in># queued \<alpha> s. e \<le> x) \<and>
        add_mset e (queued \<alpha> s') = queued \<alpha> s)) \<and>
    (queued \<alpha> s = {#} \<longrightarrow> (case idle (exec s) of
        Some p \<Rightarrow> c = Resume p \<and> current (exec s') = Some (Entry (- 1) p) \<and> in_state s' p Running
      | None \<Rightarrow> c = Halted \<and> s' = s))"
proof (cases "queued \<alpha> s = {#}")
  case False
  from schedule_ok(1) [OF H ok none False] obtain e s' where
    "\<forall>x \<in># queued \<alpha> s. e \<le> x" "schedule H s = Ret (s', Resume (etcb e))" "sched_ok I \<alpha> s'"
    "current (exec s') = Some e" "in_state s' (etcb e) Running" "add_mset e (queued \<alpha> s') = queued \<alpha> s"
    by blast
  with False show ?thesis by (intro exI [of _ s'] exI [of _ "Resume (etcb e)"]) auto
next
  case True
  show ?thesis
  proof (cases "idle (exec s)")
    case None
    with schedule_ok(3) [OF H ok none True] ok True show ?thesis by simp
  next
    case (Some p)
    from schedule_ok(2) [OF H ok none True Some] True Some show ?thesis by auto
  qed
qed

theorem schedule_dispatch_witness:
  "\<exists>s'. schedule list_heap (demo_cpu\<lparr>exec := (exec demo_cpu)\<lparr>current := None\<rparr>\<rparr>) = Ret (s', Resume 0x800)"
proof -
  let ?s = "demo_cpu\<lparr>exec := (exec demo_cpu)\<lparr>current := None\<rparr>\<rparr>"
  have "sched_ok sorted mset ?s"
    using demo_cpu_ok by (simp add: sched_ok_def queued_def)
  moreover have q: "queued mset ?s = {#Entry 20 0x800#}" by (simp add: queued_def demo_cpu_def)
  ultimately obtain s' e where "schedule list_heap ?s = Ret (s', Resume (etcb e))"
    "add_mset e (queued mset s') = queued mset ?s"
    using schedule_dispatch [OF list_heap_spec, of ?s] by auto
  then show ?thesis unfolding q by (auto simp: add_mset_eq_single)
qed

text \<open>
  \<open>yield_current\<close> panics exactly when there is a current thread and all 64 places
  of the ready queue are taken, because it queues the current thread before it takes the next
  one out; otherwise it returns a well-formed core.
\<close>

theorem yield_current_panics:
  assumes H: "heap_spec H I \<alpha>" and ok: "sched_ok I \<alpha> s"
  shows "(yield_current H s = Panic \<longleftrightarrow> current (exec s) \<noteq> None \<and> size (queued \<alpha> s) = 64) \<and>
    (yield_current H s \<noteq> Panic \<longrightarrow> (\<exists>s' c. yield_current H s = Ret (s', c) \<and> sched_ok I \<alpha> s'))"
proof -
  have le: "size (queued \<alpha> s) \<le> 64" using sched_okD(2) [OF ok] by (simp add: MAX_TCB_PER_CORE_def)
  show ?thesis
  proof (cases "current (exec s) \<noteq> None \<and> size (queued \<alpha> s) = 64")
    case True
    with yield_current_full [OF H ok] show ?thesis by (auto simp: MAX_TCB_PER_CORE_def)
  next
    case False
    with le have "current (exec s) = None \<or> size (queued \<alpha> s) < MAX_TCB_PER_CORE"
      by (auto simp: MAX_TCB_PER_CORE_def)
    from yield_current_ok [OF H ok this] False show ?thesis by auto
  qed
qed

theorem yield_current_panics_witness:
  "\<exists>s' c. yield_current list_heap demo_cpu = Ret (s', c) \<and> sched_ok sorted mset s'"
  using yield_current_panics [OF list_heap_spec demo_cpu_ok] by (simp add: queued_def demo_cpu_def)

text \<open>
  \<open>wake\<close> rejects a thread that is not blocked and changes nothing. A blocked
  thread that is not current becomes inactive and is queued once, with its deadline, when
  there is room; when the ready queue is full the error \<open>QueueFull\<close> comes back and the thread
  is left inactive but in no queue.
\<close>

theorem wake_correct:
  assumes H: "heap_spec H I \<alpha>" and ok: "sched_ok I \<alpha> s"
    and t: "tcbs s p = Some t" and dl: "deadline_of s p = Ret d"
    and cur: "\<forall>cur. current (exec s) = Some cur \<longrightarrow> etcb cur \<noteq> p"
  shows "(\<not> is_blocked (tstate t) \<longrightarrow> wake H s p = Ret (Inl InvalidState, s)) \<and>
    (is_blocked (tstate t) \<longrightarrow> (\<exists>s' r. wake H s p = Ret (r, s') \<and> sched_ok I \<alpha> s' \<and>
       in_state s' p Inactive \<and>
       (if size (queued \<alpha> s) < 64
        then r = Inr () \<and> queued \<alpha> s' = add_mset (Entry d p) (queued \<alpha> s)
        else r = Inl QueueFull \<and> queued \<alpha> s' = queued \<alpha> s)))"
proof (intro conjI impI)
  assume "\<not> is_blocked (tstate t)"
  with t show "wake H s p = Ret (Inl InvalidState, s)" by (simp add: wake_def)
next
  assume blocked: "is_blocked (tstate t)"
  let ?s1 = "s\<lparr>tcbs := (tcbs s)(p \<mapsto> t\<lparr>tstate := Inactive\<rparr>)\<rparr>"
  have I: "I (ready (exec ?s1))" using sched_okD(1) [OF ok] by simp
  have dl1: "deadline_of ?s1 p = Ret d"
    using dl t by (simp add: deadline_of_def split: option.splits)
  have w: "wake H s p = enqueue H ?s1 p" using t blocked by (simp add: wake_def)
  have "\<exists>s' r. wake H s p = Ret (r, s') \<and> in_state s' p Inactive \<and>
      (if size (queued \<alpha> s) < 64
       then r = Inr () \<and> queued \<alpha> s' = add_mset (Entry d p) (queued \<alpha> s)
       else r = Inl QueueFull \<and> queued \<alpha> s' = queued \<alpha> s)"
  proof (cases "size (queued \<alpha> s) < MAX_TCB_PER_CORE")
    case True
    then have lt: "size (\<alpha> (ready (exec ?s1))) < MAX_TCB_PER_CORE" by (simp add: queued_def)
    from heap_push [OF H I lt] obtain h where
      "h_push H MAX_TCB_PER_CORE (Entry d p) (ready (exec ?s1)) = Some h"
      "\<alpha> h = add_mset (Entry d p) (\<alpha> (ready (exec ?s1)))" by metis
    with True w dl1 show ?thesis
      by (auto simp: enqueue_def queued_def in_state_def MAX_TCB_PER_CORE_def)
  next
    case False
    with heap_push_full [OF H I] have "h_push H MAX_TCB_PER_CORE (Entry d p) (ready (exec s)) = None"
      by (simp add: queued_def)
    with False w dl1 show ?thesis
      by (auto simp: enqueue_def queued_def in_state_def MAX_TCB_PER_CORE_def)
  qed
  with wake_ok [OF H ok] cur show "\<exists>s' r. wake H s p = Ret (r, s') \<and> sched_ok I \<alpha> s' \<and>
       in_state s' p Inactive \<and>
       (if size (queued \<alpha> s) < 64
        then r = Inr () \<and> queued \<alpha> s' = add_mset (Entry d p) (queued \<alpha> s)
        else r = Inl QueueFull \<and> queued \<alpha> s' = queued \<alpha> s)"
    by meson
qed

theorem wake_correct_witness:
  "\<exists>s'. wake list_heap demo_cpu 0xc00 = Ret (Inr (), s') \<and>
     queued mset s' = {#Entry (- 1) 0xc00, Entry 20 0x800#}"
  using wake_correct [OF list_heap_spec demo_cpu_ok, of "0xc00" "Tcb_new\<lparr>tstate := BlockedOnReply\<rparr>" "- 1"]
  by (auto simp: demo_cpu_def deadline_of_def is_blocked_def queued_def Tcb_new_def)

end
