(* ===== verification/Traces.thy ===== *)
theory Traces
  imports Prelude
begin

text \<open>
  The observable effects of the kernel on its surroundings, as a trace in the order in which they
  happen: accesses to input/output ports and to device registers, and log records handed to the
  logger (the \<open>log::\<close> macros throughout the sources).

  A log record carries its level and what the code formats into it; its text is made by the
  formatting machinery of the language when the record reaches the console. The macros compare
  the level of a record with the maximum that \<open>console::init\<close> sets once, before any other
  record is written: debug records exist only in debug builds.
\<close>

datatype Level = Error | Warn | Info | Debug

datatype msg =
    MsgPit nat u16
  | MsgApic u64 u64
  | MsgSelectors u16 u16
  | MsgCalibration
  | MsgTimer u32
  | MsgInterrupts
  | MsgCoreBounds nat
  | MsgSchedulers u32
  | MsgBreakpoint "u64 list"
  | MsgPageFault u64 u64 "u64 list"

datatype io =
    Out8 u16 u8
  | In8 u16 u8
  | Write32 u64 u32
  | Read32 u64 u32
  | Log Level msg

type_synonym io_trace = "io list"

definition log_record :: "bool \<Rightarrow> Level \<Rightarrow> msg \<Rightarrow> io_trace \<Rightarrow> io_trace" where
  "log_record dbg lv m t = (if lv = Debug \<and> \<not> dbg then t else t @ [Log lv m])"

text \<open>The records of a trace.\<close>

fun logs :: "io_trace \<Rightarrow> (Level \<times> msg) list" where
  "logs [] = []"
| "logs (Log lv m # t) = (lv, m) # logs t"
| "logs (_ # t) = logs t"

lemma logs_append [simp]: "logs (t @ t') = logs t @ logs t'"
  by (induction t rule: logs.induct) simp_all

lemma logs_log_record [simp]:
  "logs (log_record dbg lv m t) = logs t @ (if lv = Debug \<and> \<not> dbg then [] else [(lv, m)])"
  by (simp add: log_record_def)

end
