(* ===== verification/Sync.thy ===== *)
theory Sync
  imports Scheduler Traces
begin

text \<open>
  How the schedulers are shared between cores: the one-time initialised cell
  (\<open>scheduler/sync.rs\<close>), the array of per-core values (\<open>scheduler/percore.rs\<close>), and the
  global scheduler made of both (\<open>scheduler/mod.rs\<close>).

  The cell is used concurrently. Each of its methods is split at its accesses to shared
  memory, and threads interleave at these points; every atomic access is sequentially
  consistent in the model, which the acquire/release pairs of the code provide for the single
  atomic that guards the value.
\<close>

section \<open>The one-time initialised cell\<close>

definition UNINITIALIZED :: u8 where "UNINITIALIZED = 0"
definition INITIALIZING :: u8 where "INITIALIZING = 1"
definition INITIALIZED :: u8 where "INITIALIZED = 2"

lemmas once_consts = UNINITIALIZED_def INITIALIZING_def INITIALIZED_def

text \<open>The guard of an initialisation refers to the state of its cell; dropping it while it is active
  takes the initialisation back.\<close>

record Guard =
  guard_active :: bool

record 'a OnceLock =
  once :: u8
  cell :: "'a option"

definition OnceLock_new :: "'a OnceLock" where
  "OnceLock_new = \<lparr>once = UNINITIALIZED, cell = None\<rparr>"

definition Guard_drop :: "Guard \<Rightarrow> 'a OnceLock \<Rightarrow> 'a OnceLock" where
  "Guard_drop g l = (if guard_active g then l\<lparr>once := UNINITIALIZED\<rparr> else l)"

lemma Guard_drop_simps [simp]:
  "Guard_drop \<lparr>guard_active = True\<rparr> l = l\<lparr>once := UNINITIALIZED\<rparr>" "Guard_drop \<lparr>guard_active = False\<rparr> l = l"
  by (simp_all add: Guard_drop_def)

text \<open>
  Where a thread is: in \<open>get_or_init\<close> (\<open>Init..\<close>, \<open>Spin\<close>, \<open>Recheck\<close>), in \<open>set\<close>
  (\<open>Set..\<close>), in \<open>get\<close> (\<open>Get..\<close>), or finished. \<open>Unwound\<close> is a panic of the
  initialising function, \<open>UnwrapPanic\<close> a panic of \<open>unwrap\<close> on an empty cell.
\<close>

datatype 'a pc = InitFast | InitCas | InitRun | InitWrite 'a | InitPublish | InitRead
  | Spin | Recheck | SetCas 'a | SetWrite 'a | SetPublish | GetLoad | GetRead
  | Got 'a | GotNone | SetOk | SetErr | Unwound | UnwrapPanic

inductive once_step :: "'a OnceLock \<Rightarrow> 'a pc \<Rightarrow> 'a OnceLock \<Rightarrow> 'a pc \<Rightarrow> bool" where
  fast: "once l = INITIALIZED \<Longrightarrow> once_step l InitFast l InitRead"
| slow: "once l \<noteq> INITIALIZED \<Longrightarrow> once_step l InitFast l InitCas"
| cas: "once l = UNINITIALIZED \<Longrightarrow> once_step l InitCas (l\<lparr>once := INITIALIZING\<rparr>) InitRun"
| cas_fail: "once l \<noteq> UNINITIALIZED \<Longrightarrow> once_step l InitCas l Spin"
| run: "once_step l InitRun l (InitWrite v)"
| panic: "once_step l InitRun (Guard_drop \<lparr>guard_active = True\<rparr> l) Unwound"
| store: "once_step l (InitWrite v) (l\<lparr>cell := Some v\<rparr>) InitPublish"
| publish: "once_step l InitPublish (Guard_drop \<lparr>guard_active = False\<rparr> (l\<lparr>once := INITIALIZED\<rparr>)) InitRead"
| read: "once_step l InitRead l (case cell l of Some v \<Rightarrow> Got v | None \<Rightarrow> UnwrapPanic)"
| spin: "once l = INITIALIZING \<Longrightarrow> once_step l Spin l Spin"
| spin_end: "once l \<noteq> INITIALIZING \<Longrightarrow> once_step l Spin l Recheck"
| recheck: "once l = INITIALIZED \<Longrightarrow> once_step l Recheck l InitRead"
| retry: "once l \<noteq> INITIALIZED \<Longrightarrow> once_step l Recheck l InitFast"
| set_fail: "once l \<noteq> UNINITIALIZED \<Longrightarrow> once_step l (SetCas v) l SetErr"
| set_cas: "once l = UNINITIALIZED \<Longrightarrow> once_step l (SetCas v) (l\<lparr>once := INITIALIZING\<rparr>) (SetWrite v)"
| set_write: "once_step l (SetWrite v) (l\<lparr>cell := Some v\<rparr>) SetPublish"
| set_publish: "once_step l SetPublish (l\<lparr>once := INITIALIZED\<rparr>) SetOk"
| get: "once l = INITIALIZED \<Longrightarrow> once_step l GetLoad l GetRead"
| get_none: "once l \<noteq> INITIALIZED \<Longrightarrow> once_step l GetLoad l GotNone"
| get_read: "once_step l GetRead l (case cell l of Some v \<Rightarrow> Got v | None \<Rightarrow> GotNone)"

text \<open>Any number of threads, indexed by numbers, each at its own place.\<close>

inductive threads_step :: "'a OnceLock \<times> (nat \<Rightarrow> 'a pc) \<Rightarrow> 'a OnceLock \<times> (nat \<Rightarrow> 'a pc) \<Rightarrow> bool" where
  step: "once_step l (T i) l' pc' \<Longrightarrow> threads_step (l, T) (l', T(i := pc'))"

definition entering :: "'a pc \<Rightarrow> bool" where
  "entering p \<longleftrightarrow> (case p of InitFast \<Rightarrow> True | SetCas v \<Rightarrow> True | GetLoad \<Rightarrow> True | _ \<Rightarrow> False)"

text \<open>The uncontended \<open>get\<close> and \<open>set\<close>, as the kernel calls them.\<close>

definition OnceLock_get :: "'a OnceLock \<Rightarrow> 'a option" where
  "OnceLock_get l = (if once l = INITIALIZED then cell l else None)"

definition OnceLock_set :: "'a OnceLock \<Rightarrow> 'a \<Rightarrow> (unit + unit) \<times> 'a OnceLock" where
  "OnceLock_set l v =
     (if once l \<noteq> UNINITIALIZED then (Inl (), l)
      else (Inr (), l\<lparr>cell := Some v, once := INITIALIZED\<rparr>))"

section \<open>Invariant of the cell\<close>

definition owns :: "'a pc \<Rightarrow> bool" where
  "owns p \<longleftrightarrow> (case p of InitRun \<Rightarrow> True | InitWrite v \<Rightarrow> True | InitPublish \<Rightarrow> True
     | SetWrite v \<Rightarrow> True | SetPublish \<Rightarrow> True | _ \<Rightarrow> False)"

text \<open>What holds of the cell, of each thread, and of pairs of threads.\<close>

definition cell_inv :: "'a OnceLock \<Rightarrow> bool" where
  "cell_inv l \<longleftrightarrow> once l \<in> {UNINITIALIZED, INITIALIZING, INITIALIZED} \<and>
     (once l = INITIALIZED \<longrightarrow> cell l \<noteq> None)"

definition pc_inv :: "'a OnceLock \<Rightarrow> 'a pc \<Rightarrow> bool" where
  "pc_inv l p \<longleftrightarrow>
     (owns p \<longrightarrow> once l = INITIALIZING) \<and>
     (p = InitPublish \<or> p = SetPublish \<longrightarrow> cell l \<noteq> None) \<and>
     (p = InitRead \<or> p = GetRead \<or> p = SetOk \<longrightarrow> once l = INITIALIZED) \<and>
     (\<forall>v. p = Got v \<longrightarrow> once l = INITIALIZED \<and> cell l = Some v) \<and>
     p \<noteq> UnwrapPanic"

definition once_inv :: "'a OnceLock \<times> (nat \<Rightarrow> 'a pc) \<Rightarrow> bool" where
  "once_inv = (\<lambda>(l, T). cell_inv l \<and> (\<forall>i. pc_inv l (T i)) \<and>
     (\<forall>i j. owns (T i) \<longrightarrow> owns (T j) \<longrightarrow> i = j) \<and>
     (\<forall>i j. T i = SetOk \<longrightarrow> T j = SetOk \<longrightarrow> i = j))"

lemma once_inv_init:
  assumes "\<forall>i. entering (T i)"
  shows "once_inv (OnceLock_new, T)"
proof -
  have "pc_inv OnceLock_new (T i) \<and> \<not> owns (T i) \<and> T i \<noteq> SetOk" for i
    using spec [OF assms, of i] by (cases "T i") (auto simp: entering_def owns_def pc_inv_def)
  then show ?thesis by (simp add: once_inv_def cell_inv_def OnceLock_new_def once_consts)
qed

text \<open>One step of one thread: only the owner and a thread that becomes one change the cell.\<close>

lemma once_step_local:
  assumes "once_step l p l' p'" "cell_inv l" "pc_inv l p"
  shows "cell_inv l' \<and> pc_inv l' p'"
    and "l' = l \<or> once l = UNINITIALIZED \<or> owns p"
    and "owns p' \<Longrightarrow> owns p \<or> once l = UNINITIALIZED"
    and "p' = SetOk \<Longrightarrow> owns p"
proof -
  from assms show "cell_inv l' \<and> pc_inv l' p'"
    by cases (auto simp: cell_inv_def pc_inv_def owns_def once_consts split: option.splits)
  from assms(1) show "l' = l \<or> once l = UNINITIALIZED \<or> owns p"
    by cases (auto simp: owns_def)
  from assms(1) show "owns p \<or> once l = UNINITIALIZED" if "owns p'"
    using that by cases (auto simp: owns_def split: option.splits)
  from assms(1) show "owns p" if "p' = SetOk"
    using that by cases (auto simp: owns_def split: option.splits)
qed

text \<open>A thread that does not own the cell has nothing to lose before initialisation.\<close>

lemma pc_inv_other: "pc_inv l q \<Longrightarrow> \<not> owns q \<Longrightarrow> once l \<noteq> INITIALIZED \<Longrightarrow> pc_inv l' q"
  by (cases q) (auto simp: pc_inv_def owns_def)

lemma once_inv_step:
  assumes "threads_step s s'" "once_inv s"
  shows "once_inv s'"
  using assms(1)
proof cases
  case (step l T i l' pc')
  from assms(2) step(1) have inv: "cell_inv l" "\<And>j. pc_inv l (T j)"
    and uniq: "\<And>j k. owns (T j) \<Longrightarrow> owns (T k) \<Longrightarrow> j = k"
    and ok: "\<And>j k. T j = SetOk \<Longrightarrow> T k = SetOk \<Longrightarrow> j = k"
    by (auto simp: once_inv_def)
  note loc = once_step_local [OF step(3) inv(1) inv(2)]
  have owner: "once l = INITIALIZING" if "owns (T j)" for j
    using inv(2) [of j] that by (simp add: pc_inv_def)
  have fin: "once l = INITIALIZED" if "T j = SetOk" for j
    using inv(2) [of j] that by (simp add: pc_inv_def)
  have keep: "pc_inv l' (T j)" if "j \<noteq> i" for j
  proof (cases "l' = l")
    case True
    with inv(2) show ?thesis by simp
  next
    case False
    with loc(2) have "once l = UNINITIALIZED \<or> owns (T i)" by simp
    then have "\<not> owns (T j)" "once l \<noteq> INITIALIZED"
      using owner [of i] owner [of j] uniq [of i j] that by (auto simp: once_consts)
    then show ?thesis by (rule pc_inv_other [OF inv(2)])
  qed
  have "\<not> owns (T j)" if "owns pc'" "j \<noteq> i" for j
  proof
    assume j: "owns (T j)"
    then have "once l \<noteq> UNINITIALIZED" using owner [of j] by (simp add: once_consts)
    with loc(3) [OF that(1)] have "owns (T i)" by simp
    with uniq [OF j] that(2) show False by blast
  qed
  then have own': "j = k" if "owns ((T(i := pc')) j)" "owns ((T(i := pc')) k)" for j k
    using that uniq [of j k] by (cases "j = i"; cases "k = i") simp_all
  have "T j \<noteq> SetOk" if "pc' = SetOk" for j
    using owner [OF loc(4) [OF that]] fin [of j] by (auto simp: once_consts)
  then have ok': "j = k" if "(T(i := pc')) j = SetOk" "(T(i := pc')) k = SetOk" for j k
    using that ok [of j k] by (cases "j = i"; cases "k = i") simp_all
  have "cell_inv l'" and pc: "pc_inv l' pc'" using loc(1) by blast+
  moreover have "\<forall>j. pc_inv l' ((T(i := pc')) j)"
  proof
    show "pc_inv l' ((T(i := pc')) j)" for j using keep pc by (cases "j = i") simp_all
  qed
  moreover have "\<forall>j k. owns ((T(i := pc')) j) \<longrightarrow> owns ((T(i := pc')) k) \<longrightarrow> j = k"
    by (intro allI impI) (rule own')
  moreover have "\<forall>j k. (T(i := pc')) j = SetOk \<longrightarrow> (T(i := pc')) k = SetOk \<longrightarrow> j = k"
    by (intro allI impI) (rule ok')
  ultimately show ?thesis
    unfolding step(2) once_inv_def prod.case by (intro conjI)
qed

section \<open>Per-core values\<close>

definition MAX_CPUS :: nat where "MAX_CPUS = 16"

text \<open>A core whose value was never written is \<open>None\<close>; using it is undefined behaviour.\<close>

record 'a PerCore =
  cores :: "'a option list"
  initialized_count :: usize

definition init_core :: "'a PerCore \<Rightarrow> nat \<Rightarrow> 'a \<Rightarrow> io_trace \<Rightarrow> 'a PerCore \<times> io_trace" where
  "init_core pc cpu_id v t =
     (if cpu_id \<ge> MAX_CPUS then (pc, t @ [Log Warn (MsgCoreBounds cpu_id)])
      else (pc\<lparr>cores := (cores pc)[cpu_id := Some v], initialized_count := initialized_count pc + 1\<rparr>, t))"

definition PerCore_new :: "usize \<Rightarrow> 'a \<Rightarrow> io_trace \<Rightarrow> 'a PerCore \<times> io_trace" where
  "PerCore_new n d t = fold (\<lambda>i (pc, t). init_core pc i d t) [0..<unat n]
     (\<lparr>cores = replicate MAX_CPUS None, initialized_count = 0\<rparr>, t)"

definition get_unsafe :: "'a PerCore \<Rightarrow> nat \<Rightarrow> 'a outcome" where
  "get_unsafe pc i =
     (if i < length (cores pc) then (case cores pc ! i of Some v \<Rightarrow> Ret v | None \<Rightarrow> Fault) else Panic)"

text \<open>
  The number of the current core is what the processor reports: bits 24 to 31 of \<open>ebx\<close> of
  \<open>cpuid\<close> leaf 1. The number of cores comes from bits 26 to 31 of \<open>eax\<close> of leaf 4.
\<close>

definition cpuid :: "u32 \<Rightarrow> u32" where
  "cpuid ebx = drop_bit 24 ebx AND 0xff"

definition sysinfo :: "u32 \<Rightarrow> u32" where
  "sysinfo eax = (drop_bit 26 eax AND 0x3f) + 1"

definition PerCore_get :: "u32 \<Rightarrow> 'a PerCore \<Rightarrow> 'a outcome" where
  "PerCore_get ebx pc = get_unsafe pc (unat (cpuid ebx))"

text \<open>\<open>get_mut\<close> gives out a reference; the model reads and writes back through it.\<close>

definition PerCore_get_mut :: "u32 \<Rightarrow> 'a PerCore \<Rightarrow> 'a outcome" where
  "PerCore_get_mut ebx pc = get_unsafe pc (unat (cpuid ebx))"

definition PerCore_put :: "u32 \<Rightarrow> 'a PerCore \<Rightarrow> 'a \<Rightarrow> 'a PerCore" where
  "PerCore_put ebx pc v = pc\<lparr>cores := (cores pc)[unat (cpuid ebx) := Some v]\<rparr>"

section \<open>The global scheduler\<close>

type_synonym 'h scheduler = "'h Executor PerCore OnceLock"

definition init_scheduler ::
    "'h heap_ops \<Rightarrow> u32 \<Rightarrow> 'h scheduler \<Rightarrow> io_trace \<Rightarrow> 'h scheduler \<times> io_trace" where
  "init_scheduler H eax SCHEDULER t =
     (let cores = sysinfo eax; (pc, t1) = PerCore_new (ucast cores) (Executor_new H) t
      in (snd (OnceLock_set SCHEDULER pc), t1 @ [Log Info (MsgSchedulers cores)]))"

section \<open>Lemmas on cores\<close>

lemma init_cores:
  "fold (\<lambda>i (pc, t). init_core pc i d t) [0..<n] (pc, t) =
     (pc\<lparr>cores := map (\<lambda>i. if i < n \<and> i < MAX_CPUS then Some d else cores pc ! i) [0..<length (cores pc)],
        initialized_count := initialized_count pc + of_nat (min n MAX_CPUS)\<rparr>,
      t @ map (\<lambda>i. Log Warn (MsgCoreBounds i)) [MAX_CPUS..<n])"
proof (induction n)
  case 0
  show ?case by (simp add: map_nth)
next
  case (Suc n)
  let ?f = "\<lambda>n. map (\<lambda>i. if i < n \<and> i < MAX_CPUS then Some d else cores pc ! i) [0..<length (cores pc)]"
  have "(?f n)[n := Some d] = ?f (Suc n)" if "n < MAX_CPUS"
    using that by (intro nth_equalityI) (auto simp: nth_list_update less_Suc_eq)
  moreover have "?f n = ?f (Suc n)" if "\<not> n < MAX_CPUS"
    using that by (auto simp: less_Suc_eq)
  ultimately show ?case using Suc.IH by (simp add: init_core_def min_def not_less)
qed

text \<open>The cores of a fresh \<open>PerCore\<close>, and the warnings about those it has no room for.\<close>

definition fresh_cores :: "usize \<Rightarrow> 'a \<Rightarrow> 'a PerCore" where
  "fresh_cores n d = \<lparr>cores = map (\<lambda>i. if i < unat n then Some d else None) [0..<16],
     initialized_count = of_nat (min (unat n) 16)\<rparr>"

lemma PerCore_new_eq:
  "PerCore_new n d t = (fresh_cores n d, t @ map (\<lambda>i. Log Warn (MsgCoreBounds i)) [16..<unat n])"
proof -
  have "map (\<lambda>i. if i < unat n \<and> i < 16 then Some d else replicate 16 None ! i) [0..<16] =
      map (\<lambda>i. if i < unat n then Some d else None) [0..<16]"
    by (rule map_cong) auto
  then show ?thesis by (simp only: PerCore_new_def init_cores MAX_CPUS_def fresh_cores_def) simp
qed

lemma unat_field32: "unat (drop_bit k x AND mask w) < 2 ^ w" for x :: u32
  using unat_field_get [of k w x] by (simp only: field_get_def)

lemma sysinfo_bound: "1 \<le> unat (sysinfo eax) \<and> unat (sysinfo eax) \<le> 64"
proof -
  have m: "(0x3f :: u32) = mask 6" by (simp add: mask_eq_exp_minus_1)
  have lt: "unat (drop_bit 26 eax AND mask 6) < 64"
    using unat_field32 [of 26 eax 6] by (simp only: power_numeral Num.pow.simps Num.sqr.simps) simp
  have "unat (drop_bit 26 eax AND mask 6) + unat (1 :: u32) < 2 ^ LENGTH(32)"
    using lt by (simp only: unsigned_1 len_num1 len_bit0) simp
  then have "unat (sysinfo eax) = unat (drop_bit 26 eax AND mask 6) + unat (1 :: u32)"
    unfolding sysinfo_def m by (rule unat_add_exact)
  with lt show ?thesis by (simp only: unsigned_1) linarith
qed

lemma ucast_sysinfo: "unat (ucast (sysinfo eax) :: usize) = unat (sysinfo eax)"
proof -
  have "unat (sysinfo eax) < 2 ^ 64" using sysinfo_bound [of eax] by simp
  then show ?thesis by (simp add: unsigned_ucast_eq take_bit_nat_eq_self)
qed

lemma once_stable:
  assumes "threads_step\<^sup>*\<^sup>* (l, T) (l', T')" "once_inv (l, T)" "once l = INITIALIZED"
  shows "l' = l"
  using assms
proof (induction rule: rtranclp_induct2)
  case (step l1 T1 l2 T2)
  have "once_inv (l1, T1)" using step.hyps(1) step.prems(1)
    by (induction rule: rtranclp_induct2) (auto intro: once_inv_step)
  moreover from step have "l1 = l" by simp
  ultimately have inv: "cell_inv l" "\<And>i. pc_inv l (T1 i)" by (auto simp: once_inv_def)
  from step.hyps(2) obtain i p' where "once_step l1 (T1 i) l2 p'" by (auto elim: threads_step.cases)
  then have "l2 = l \<or> once l = UNINITIALIZED \<or> owns (T1 i)"
    using once_step_local(2) inv \<open>l1 = l\<close> by blast
  moreover have "\<not> owns (T1 i)" using inv(2) [of i] step.prems(2) by (auto simp: pc_inv_def once_consts)
  ultimately show ?case using step.prems(2) by (auto simp: once_consts)
qed simp

lemma PerCore_put_same: "PerCore_get_mut ebx pc = Ret ex \<Longrightarrow> PerCore_put ebx pc ex = pc"
  by (auto simp: PerCore_get_mut_def get_unsafe_def PerCore_put_def split: if_splits option.splits)
     (metis PerCore.surjective PerCore.update_convs(1) list_update_id)

lemma put_get: "PerCore_get_mut ebx pc = Ret ex \<Longrightarrow> PerCore_get_mut ebx (PerCore_put ebx pc ex') = Ret ex'"
  by (auto simp: PerCore_get_mut_def get_unsafe_def PerCore_put_def split: if_splits)

text \<open>The fresh scheduler and what a core finds in it.\<close>

lemma logs_warnings:
  "logs (map (\<lambda>i. Log Warn (MsgCoreBounds i)) xs) = map (\<lambda>i. (Warn, MsgCoreBounds i)) xs"
  by (induction xs) simp_all

lemma init_scheduler_new:
  "init_scheduler H eax OnceLock_new t =
     (\<lparr>once = INITIALIZED, cell = Some (fresh_cores (ucast (sysinfo eax)) (Executor_new H))\<rparr>,
      t @ map (\<lambda>i. Log Warn (MsgCoreBounds i)) [16..<unat (sysinfo eax)] @ [Log Info (MsgSchedulers (sysinfo eax))])"
  by (simp add: init_scheduler_def OnceLock_set_def OnceLock_new_def PerCore_new_eq ucast_sysinfo Let_def)

lemma new_core:
  "PerCore_get_mut ebx (fresh_cores (ucast (sysinfo eax)) d) =
     (if unat (cpuid ebx) < min (unat (sysinfo eax)) 16 then Ret d
      else if 16 \<le> unat (cpuid ebx) then Panic else Fault)"
  by (simp add: PerCore_get_mut_def get_unsafe_def fresh_cores_def ucast_sysinfo)

section \<open>Properties\<close>

text \<open>
  Claim C24. The one-time cell under any interleaving of any number of threads that call
  \<open>get_or_init\<close>, \<open>set\<close> and \<open>get\<close>: \<open>unwrap\<close> never panics, at most one thread is
  initialising, at most one \<open>set\<close> succeeds, all threads that obtain a value obtain the same
  one, and once the cell is initialised it never changes again.
\<close>

theorem once_lock_safe:
  assumes "\<forall>i. entering (T0 i)" and "threads_step\<^sup>*\<^sup>* (OnceLock_new, T0) (l, T)"
  shows "(\<forall>i. T i \<noteq> UnwrapPanic) \<and> (\<forall>i j. owns (T i) \<and> owns (T j) \<longrightarrow> i = j) \<and>
    (\<forall>i j. T i = SetOk \<and> T j = SetOk \<longrightarrow> i = j) \<and>
    (\<forall>i v. T i = Got v \<longrightarrow> OnceLock_get l = Some v) \<and>
    (\<forall>l' T'. once l = INITIALIZED \<and> threads_step\<^sup>*\<^sup>* (l, T) (l', T') \<longrightarrow> l' = l)"
proof -
  have inv: "once_inv (l, T)" using assms(2)
  proof (induction rule: rtranclp_induct2)
    case refl
    show ?case by (rule once_inv_init [OF assms(1)])
  next
    case (step l1 T1 l2 T2)
    then show ?case by (blast intro: once_inv_step)
  qed
  have pcs: "pc_inv l (T i)" for i using inv by (auto simp: once_inv_def)
  have "T i \<noteq> UnwrapPanic" for i using pcs [of i] by (simp add: pc_inv_def)
  moreover have "OnceLock_get l = Some v" if "T i = Got v" for i v
    using pcs [of i] that by (simp add: pc_inv_def OnceLock_get_def)
  moreover have "\<forall>i j. owns (T i) \<and> owns (T j) \<longrightarrow> i = j" "\<forall>i j. T i = SetOk \<and> T j = SetOk \<longrightarrow> i = j"
    using inv unfolding once_inv_def prod.case by blast+
  moreover have "l' = l" if "once l = INITIALIZED" "threads_step\<^sup>*\<^sup>* (l, T) (l', T')" for l' T'
    by (rule once_stable [OF that(2) inv that(1)])
  ultimately show ?thesis by blast
qed

theorem once_lock_safe_witness:
  "threads_step\<^sup>*\<^sup>* (OnceLock_new, \<lambda>i. SetCas i)
     (\<lparr>once = INITIALIZED, cell = Some (0 :: nat)\<rparr>, (\<lambda>i. SetCas i)(0 := SetOk)) \<and>
   \<not> (\<exists>i. ((\<lambda>i. SetCas i)(0 := SetOk)) i = (UnwrapPanic :: nat pc)) \<and>
   \<not> (\<exists>l' T'. threads_step\<^sup>*\<^sup>* (\<lparr>once = INITIALIZED, cell = Some (0 :: nat)\<rparr>, (\<lambda>i. SetCas i)(0 := SetOk)) (l', T') \<and>
        l' \<noteq> \<lparr>once = INITIALIZED, cell = Some 0\<rparr>)"
proof -
  let ?T = "\<lambda>i. SetCas i :: nat pc"
  let ?l1 = "\<lparr>once = INITIALIZING, cell = None\<rparr> :: nat OnceLock"
  let ?l2 = "\<lparr>once = INITIALIZING, cell = Some 0\<rparr> :: nat OnceLock"
  let ?l3 = "\<lparr>once = INITIALIZED, cell = Some 0\<rparr> :: nat OnceLock"
  have "once_step OnceLock_new (?T 0) ?l1 (SetWrite 0)"
    using once_step.set_cas [of "OnceLock_new :: nat OnceLock" 0] by (simp add: OnceLock_new_def)
  then have 1: "threads_step (OnceLock_new, ?T) (?l1, ?T(0 := SetWrite 0))"
    by (rule threads_step.step [where i = 0])
  have "once_step ?l1 ((?T(0 := SetWrite 0)) 0) ?l2 SetPublish"
    using once_step.set_write [of ?l1 0] by simp
  from threads_step.step [where T = "?T(0 := SetWrite 0)" and i = 0, OF this] have 2: "threads_step (?l1, ?T(0 := SetWrite 0)) (?l2, ?T(0 := SetPublish))"
    by simp
  have "once_step ?l2 ((?T(0 := SetPublish)) 0) ?l3 SetOk"
    using once_step.set_publish [of ?l2] by simp
  from threads_step.step [where T = "?T(0 := SetPublish)" and i = 0, OF this] have 3: "threads_step (?l2, ?T(0 := SetPublish)) (?l3, ?T(0 := SetOk))"
    by simp
  have run: "threads_step\<^sup>*\<^sup>* (OnceLock_new, ?T) (?l3, ?T(0 := SetOk))"
    using 1 2 3 by (meson converse_rtranclp_into_rtranclp r_into_rtranclp)
  have "\<forall>i. entering (?T i)" by (simp add: entering_def)
  from once_lock_safe [OF this run] have "\<forall>i. (?T(0 := SetOk)) i \<noteq> UnwrapPanic"
    "\<forall>l' T'. once ?l3 = INITIALIZED \<and> threads_step\<^sup>*\<^sup>* (?l3, ?T(0 := SetOk)) (l', T') \<longrightarrow> l' = ?l3" by blast+
  moreover have "once ?l3 = INITIALIZED" by simp
  ultimately show ?thesis using run by blast
qed

text \<open>
  After \<open>init_scheduler\<close> the scheduler is available and a second initialisation
  changes nothing. A core gets its own fresh executor exactly when its number is below both the
  reported number of cores and 16; a number from 16 on is an out-of-bounds panic, and a number
  between the reported count and 16 reads uninitialised memory. Cores from 16 on are reported as out
  of bounds.
\<close>

theorem scheduler_core_access:
  "\<exists>S pc t'. init_scheduler H eax OnceLock_new t = (S, t') \<and> OnceLock_get S = Some pc \<and>
     fst (init_scheduler H eax' S t') = S \<and>
     logs t' = logs t @ map (\<lambda>i. (Warn, MsgCoreBounds i)) [16..<unat (sysinfo eax)] @ [(Info, MsgSchedulers (sysinfo eax))] \<and>
     PerCore_get_mut ebx pc =
       (if unat (cpuid ebx) < min (unat (sysinfo eax)) 16 then Ret (Executor_new H)
        else if 16 \<le> unat (cpuid ebx) then Panic else Fault)"
proof -
  have "fst (init_scheduler H eax' \<lparr>once = INITIALIZED, cell = c\<rparr> t') = \<lparr>once = INITIALIZED, cell = c\<rparr>" for c t'
    by (simp add: init_scheduler_def OnceLock_set_def once_consts Let_def case_prod_unfold)
  then show ?thesis unfolding init_scheduler_new by (simp add: OnceLock_get_def new_core logs_warnings)
qed

end
