(* ===== verification/Ipc.thy ===== *)
theory Ipc
  imports Sync
begin

text \<open>
  Synchronous message passing (\<open>objects/endpoint.rs\<close>): endpoints with a queue of blocked
  senders or receivers, sending, receiving and the three ways of cancelling. Operations act on
  the state \<open>kernel\<close>: the memories of thread control blocks, scheduling contexts and
  endpoints, and the global scheduler.
\<close>

section \<open>Endpoints\<close>

datatype EndpointState = EpIdle | EpSend | EpRecv

record EndpointObj =
  ep_state :: EndpointState
  ep_queue :: TcbQueue

definition EndpointObj_new :: EndpointObj where
  "EndpointObj_new = \<lparr>ep_state = EpIdle, ep_queue = TcbQueue_new\<rparr>"

definition BADGE_OFFSET :: nat where "BADGE_OFFSET = 0"
definition BADGE_WIDTH :: nat where "BADGE_WIDTH = 28"

definition EndpointCap_mint :: "usize \<Rightarrow> usize \<Rightarrow> CapRights \<Rightarrow> CapRaw" where
  "EndpointCap_mint addr bdg rts =
     (let a1 = bdg AND (push_bit BADGE_WIDTH 1 - 1) in
      (default_with_type Endpoint)\<lparr>paddr := addr, arg1 := a1, rights := rts\<rparr>)"

definition EndpointCap_badge :: "CapRaw \<Rightarrow> usize" where
  "EndpointCap_badge raw = drop_bit BADGE_OFFSET (arg1 raw) AND (push_bit BADGE_WIDTH 1 - 1)"

definition can_send :: "ext \<Rightarrow> CapRaw \<Rightarrow> bool" where
  "can_send E raw = flags_contains E (CapRef_rights raw) R_SEND"

definition can_receive :: "ext \<Rightarrow> CapRaw \<Rightarrow> bool" where
  "can_receive E raw = flags_contains E (CapRef_rights raw) R_RECEIVE"

definition cap_can_grant :: "ext \<Rightarrow> CapRaw \<Rightarrow> bool" where
  "cap_can_grant E raw = flags_contains E (CapRef_rights raw) R_GRANT"

definition EndpointCap_identify :: "bool \<Rightarrow> ext \<Rightarrow> CapRaw \<Rightarrow> Tcb \<Rightarrow> (Tcb \<times> usize) outcome" where
  "EndpointCap_identify dbg E raw tcb =
     obind (set_mr dbg tcb MR1 (ObjType_code (CapRef_cap_type KEndpointObj))) (\<lambda>t1.
     obind (CapRef_paddr E raw) (\<lambda>pa.
     obind (set_mr dbg t1 MR2 pa) (\<lambda>t2.
     obind (set_mr dbg t2 MR3 (EndpointCap_badge raw)) (\<lambda>t3.
     obind (set_mr dbg t3 MR4 (ucast (CapRef_rights raw))) (\<lambda>t4. Ret (t4, 4))))))"

section \<open>Kernel state\<close>

type_synonym epmem = "ptr \<rightharpoonup> EndpointObj"

record 'h kernel =
  k_tcbs :: tmem
  k_scs :: "ptr \<rightharpoonup> SchedContext"
  k_eps :: epmem
  k_sched :: "'h scheduler"

text \<open>The endpoint a capability designates.\<close>

definition ep_object :: "ext \<Rightarrow> 'h kernel \<Rightarrow> CapRaw \<Rightarrow> (ptr \<times> EndpointObj) outcome" where
  "ep_object E k raw =
     obind (CapRef_paddr E raw) (\<lambda>p. obind (deref (k_eps k) p) (\<lambda>ep. Ret (p, ep)))"

text \<open>
  \<open>if let Some(sched) = SCHEDULER.get()\<close> around a call of the current core's executor whose
  result is discarded; \<open>pre\<close> is the write that precedes the call inside the branch.
\<close>

definition with_scheduler ::
    "u32 \<Rightarrow> 'h kernel \<Rightarrow> (tmem \<Rightarrow> tmem outcome) \<Rightarrow>
     ('h cpu \<Rightarrow> ((SchedError + unit) \<times> 'h cpu) outcome) \<Rightarrow> 'h kernel outcome" where
  "with_scheduler ebx k pre call =
     (case OnceLock_get (k_sched k) of
        None \<Rightarrow> Ret k
      | Some pc \<Rightarrow>
          obind (pre (k_tcbs k)) (\<lambda>m.
          obind (PerCore_get_mut ebx pc) (\<lambda>ex.
          obind (call \<lparr>tcbs = m, scs = k_scs k, exec = ex\<rparr>) (\<lambda>(_, s).
            Ret (k\<lparr>k_tcbs := tcbs s, k_scs := scs s,
                   k_sched := (k_sched k)\<lparr>cell := Some (PerCore_put ebx pc (exec s))\<rparr>\<rparr>)))))"

section \<open>Message transfer\<close>

definition set_mr_at :: "bool \<Rightarrow> tmem \<Rightarrow> ptr \<Rightarrow> usize \<Rightarrow> usize \<Rightarrow> tmem outcome" where
  "set_mr_at dbg m p idx v =
     obind (deref m p) (\<lambda>t. obind (set_mr dbg t idx v) (\<lambda>t'. Ret (m(p \<mapsto> t'))))"

definition get_mr_at :: "bool \<Rightarrow> tmem \<Rightarrow> ptr \<Rightarrow> usize \<Rightarrow> usize outcome" where
  "get_mr_at dbg m p idx = obind (deref m p) (\<lambda>t. get_mr dbg t idx)"

fun transfer_regs :: "bool \<Rightarrow> tmem \<Rightarrow> ptr \<Rightarrow> ptr \<Rightarrow> usize list \<Rightarrow> tmem outcome" where
  "transfer_regs dbg m sender receiver [] = Ret m"
| "transfer_regs dbg m sender receiver (i # is) =
     obind (get_mr_at dbg m sender (MR1 + i)) (\<lambda>val.
     obind (set_mr_at dbg m receiver (MR1 + i) val) (\<lambda>m'.
       transfer_regs dbg m' sender receiver is))"

definition do_ipc_transfer :: "bool \<Rightarrow> tmem \<Rightarrow> ptr \<Rightarrow> ptr \<Rightarrow> usize \<Rightarrow> bool \<Rightarrow> tmem outcome" where
  "do_ipc_transfer dbg m sender receiver bdg cg =
     obind (set_mr_at dbg m receiver MR1 bdg) (\<lambda>m1.
       transfer_regs dbg m1 sender receiver [0, 1, 2, 3])"

definition do_nb_recv_failed_transfer :: "bool \<Rightarrow> tmem \<Rightarrow> ptr \<Rightarrow> tmem outcome" where
  "do_nb_recv_failed_transfer dbg m thread = set_mr_at dbg m thread MR1 0"

text \<open>\<open>setup_caller_cap\<close> always returns \<open>Ok\<close>.\<close>

definition setup_caller_cap :: "tmem \<Rightarrow> ptr \<Rightarrow> ptr \<Rightarrow> tmem outcome" where
  "setup_caller_cap m caller_p callee =
     obind (modify m caller_p (\<lambda>t. t\<lparr>tstate := BlockedOnReply\<rparr>)) (\<lambda>m1.
     obind (modify m1 caller_p (\<lambda>t. t\<lparr>reply_to := Some callee\<rparr>)) (\<lambda>m2.
       modify m2 callee (\<lambda>t. t\<lparr>caller := Some caller_p\<rparr>)))"

definition set_state :: "tmem \<Rightarrow> ptr \<Rightarrow> ThreadState \<Rightarrow> tmem outcome" where
  "set_state m p st = modify m p (\<lambda>t. t\<lparr>tstate := st\<rparr>)"

section \<open>Sending and receiving\<close>

definition send_ipc ::
    "bool \<Rightarrow> ext \<Rightarrow> 'h heap_ops \<Rightarrow> u32 \<Rightarrow> 'h kernel \<Rightarrow> bool \<Rightarrow> bool \<Rightarrow> usize \<Rightarrow> bool \<Rightarrow> bool \<Rightarrow> ptr \<Rightarrow>
     CapRaw \<Rightarrow> ((SysError + unit) \<times> 'h kernel) outcome" where
  "send_ipc dbg E H ebx k blocking do_call bdg cg cgr sender endpoint =
     obind (ep_object E k endpoint) (\<lambda>(p, ep).
       case ep_state ep of
         EpRecv \<Rightarrow>
           obind (dequeue_head (k_tcbs k) (ep_queue ep)) (\<lambda>(r, m1, q1).
           obind (expect r) (\<lambda>receiver.
             let ep1 = ep\<lparr>ep_queue := q1\<rparr>;
                 ep2 = (if queue_is_empty q1 then ep1\<lparr>ep_state := EpIdle\<rparr> else ep1) in
           obind (do_ipc_transfer dbg m1 sender receiver bdg cg) (\<lambda>m2.
           obind (if do_call
                  then if cg \<or> cgr then setup_caller_cap m2 sender receiver
                       else set_state m2 sender Inactive
                  else Ret m2) (\<lambda>m3.
           obind (set_state m3 receiver Running) (\<lambda>m4.
           obind (with_scheduler ebx (k\<lparr>k_tcbs := m4, k_eps := (k_eps k)(p \<mapsto> ep2)\<rparr>)
                    (\<lambda>m. set_state m receiver Inactive) (\<lambda>s. wake H s receiver)) (\<lambda>k'.
             Ret (Inr (), k')))))))
       | _ \<Rightarrow>
           if blocking then
             obind (modify (k_tcbs k) sender (\<lambda>t. t\<lparr>ipc_state :=
                \<lparr>badge = bdg, can_grant = cg, can_grant_reply = cgr, is_call = do_call\<rparr>\<rparr>)) (\<lambda>m1.
             obind (set_state m1 sender BlockedOnSend) (\<lambda>m2.
             obind (modify m2 sender (\<lambda>t. t\<lparr>blocking_object := Some p\<rparr>)) (\<lambda>m3.
             obind (queue_append m3 (ep_queue ep) sender) (\<lambda>(m4, q).
               Ret (Inr (), k\<lparr>k_tcbs := m4,
                 k_eps := (k_eps k)(p \<mapsto> ep\<lparr>ep_queue := q, ep_state := EpSend\<rparr>)\<rparr>)))))
           else Ret (Inr (), k))"

definition receive_ipc ::
    "bool \<Rightarrow> ext \<Rightarrow> 'h heap_ops \<Rightarrow> u32 \<Rightarrow> 'h kernel \<Rightarrow> ptr \<Rightarrow> CapRaw \<Rightarrow> bool \<Rightarrow>
     ((SysError + unit) \<times> 'h kernel) outcome" where
  "receive_ipc dbg E H ebx k receiver endpoint is_blocking =
     obind (ep_object E k endpoint) (\<lambda>(p, ep).
       case ep_state ep of
         EpSend \<Rightarrow>
           obind (dequeue_head (k_tcbs k) (ep_queue ep)) (\<lambda>(s, m1, q1).
           obind (expect s) (\<lambda>sender.
             let ep1 = ep\<lparr>ep_queue := q1\<rparr>;
                 ep2 = (if queue_is_empty q1 then ep1\<lparr>ep_state := EpIdle\<rparr> else ep1) in
           obind (deref m1 sender) (\<lambda>sender_tcb.
             let st = ipc_state sender_tcb in
           obind (do_ipc_transfer dbg m1 sender receiver (badge st) (can_grant st)) (\<lambda>m2.
             let k2 = k\<lparr>k_tcbs := m2, k_eps := (k_eps k)(p \<mapsto> ep2)\<rparr> in
           if is_call st then
             obind (if can_grant st \<or> can_grant_reply st then setup_caller_cap m2 sender receiver
                    else set_state m2 sender Inactive) (\<lambda>m3.
               Ret (Inr (), k2\<lparr>k_tcbs := m3\<rparr>))
           else
             obind (set_state m2 sender Inactive) (\<lambda>m3.
             obind (with_scheduler ebx (k2\<lparr>k_tcbs := m3\<rparr>) Ret (\<lambda>s. wake H s sender)) (\<lambda>k'.
               Ret (Inr (), k')))))))
       | _ \<Rightarrow>
           if is_blocking then
             obind (set_state (k_tcbs k) receiver BlockedOnReceive) (\<lambda>m1.
             obind (modify m1 receiver (\<lambda>t. t\<lparr>blocking_object := Some p\<rparr>)) (\<lambda>m2.
             obind (queue_append m2 (ep_queue ep) receiver) (\<lambda>(m3, q).
               Ret (Inr (), k\<lparr>k_tcbs := m3,
                 k_eps := (k_eps k)(p \<mapsto> ep\<lparr>ep_queue := q, ep_state := EpRecv\<rparr>)\<rparr>))))
           else
             obind (do_nb_recv_failed_transfer dbg (k_tcbs k) receiver) (\<lambda>m1.
               Ret (Inr (), k\<lparr>k_tcbs := m1\<rparr>)))"

definition reply_from_kernel_error :: "bool \<Rightarrow> Tcb \<Rightarrow> usize \<Rightarrow> Tcb outcome" where
  "reply_from_kernel_error dbg thread error_type =
     obind (set_mr dbg thread MR1 0) (\<lambda>t. set_mr dbg t MR2 error_type)"

definition reply_from_kernel_success_empty :: "bool \<Rightarrow> Tcb \<Rightarrow> Tcb outcome" where
  "reply_from_kernel_success_empty dbg thread = set_mr dbg thread MR1 0"

section \<open>Cancelling\<close>

definition cancel_ipc :: "'h kernel \<Rightarrow> ptr \<Rightarrow> 'h kernel outcome" where
  "cancel_ipc k tcb =
     obind (deref (k_tcbs k) tcb) (\<lambda>t.
       if tstate t = BlockedOnSend \<or> tstate t = BlockedOnReceive then
         obind (case blocking_object t of
                  None \<Rightarrow> Ret k
                | Some p \<Rightarrow>
                    obind (deref (k_eps k) p) (\<lambda>ep.
                    obind (queue_remove (k_tcbs k) (ep_queue ep) tcb) (\<lambda>(m, q).
                      let ep1 = ep\<lparr>ep_queue := q\<rparr>;
                          ep2 = (if queue_is_empty q then ep1\<lparr>ep_state := EpIdle\<rparr> else ep1) in
                      Ret (k\<lparr>k_tcbs := m, k_eps := (k_eps k)(p \<mapsto> ep2)\<rparr>)))) (\<lambda>k1.
         obind (set_state (k_tcbs k1) tcb Inactive) (\<lambda>m1.
         obind (modify m1 tcb (\<lambda>t. t\<lparr>blocking_object := None\<rparr>)) (\<lambda>m2.
           Ret (k1\<lparr>k_tcbs := m2\<rparr>))))
       else if tstate t = BlockedOnNotification then
         obind (set_state (k_tcbs k) tcb Inactive) (\<lambda>m. Ret (k\<lparr>k_tcbs := m\<rparr>))
       else if tstate t = BlockedOnReply then
         obind (modify_opt (k_tcbs k) (reply_to t) (\<lambda>c. c\<lparr>caller := None\<rparr>)) (\<lambda>m1.
         obind (modify m1 tcb (\<lambda>t. t\<lparr>reply_to := None\<rparr>)) (\<lambda>m2.
         obind (set_state m2 tcb Inactive) (\<lambda>m3. Ret (k\<lparr>k_tcbs := m3\<rparr>))))
       else Ret k)"

text \<open>
  Restarting a thread: the state \<open>Restart\<close>, then, when there is a scheduler, the state
  \<open>Inactive\<close> and a place in the ready queue.
\<close>

definition restart_thread :: "'h heap_ops \<Rightarrow> u32 \<Rightarrow> 'h kernel \<Rightarrow> ptr \<Rightarrow> 'h kernel outcome" where
  "restart_thread H ebx k tcb =
     obind (set_state (k_tcbs k) tcb Restart) (\<lambda>m1.
     obind (modify m1 tcb (\<lambda>t. t\<lparr>blocking_object := None\<rparr>)) (\<lambda>m2.
       with_scheduler ebx (k\<lparr>k_tcbs := m2\<rparr>) (\<lambda>m. set_state m tcb Inactive) (\<lambda>s. enqueue H s tcb)))"

definition cancel_all_step :: "'h heap_ops \<Rightarrow> u32 \<Rightarrow> 'h kernel \<Rightarrow> ptr \<Rightarrow> (bool \<times> 'h kernel) outcome" where
  "cancel_all_step H ebx k p =
     obind (deref (k_eps k) p) (\<lambda>ep.
     obind (dequeue_head (k_tcbs k) (ep_queue ep)) (\<lambda>(r, m, q).
       let k1 = k\<lparr>k_tcbs := m, k_eps := (k_eps k)(p \<mapsto> ep\<lparr>ep_queue := q\<rparr>)\<rparr> in
       case r of
         None \<Rightarrow> Ret (False, k1)
       | Some tcb \<Rightarrow> obind (restart_thread H ebx k1 tcb) (\<lambda>k2. Ret (True, k2))))"

partial_function (option) cancel_all_loop ::
    "'h heap_ops \<Rightarrow> u32 \<Rightarrow> 'h kernel \<Rightarrow> ptr \<Rightarrow> 'h kernel outcome option" where
  "cancel_all_loop H ebx k p =
     (case cancel_all_step H ebx k p of
        Ret r \<Rightarrow> if fst r then cancel_all_loop H ebx (snd r) p else Some (Ret (snd r))
      | Panic \<Rightarrow> Some Panic
      | Fault \<Rightarrow> Some Fault)"

declare cancel_all_loop.simps [code]

definition cancel_all_ipc :: "ext \<Rightarrow> 'h heap_ops \<Rightarrow> u32 \<Rightarrow> 'h kernel \<Rightarrow> CapRaw \<Rightarrow> 'h kernel outcome option" where
  "cancel_all_ipc E H ebx k endpoint =
     (case ep_object E k endpoint of
        Ret (p, ep) \<Rightarrow>
          if ep_state ep = EpIdle then Some (Ret k)
          else (case cancel_all_loop H ebx k p of
                  None \<Rightarrow> None
                | Some out \<Rightarrow> Some (obind out (\<lambda>k1.
                    obind (modify (k_eps k1) p (\<lambda>ep. ep\<lparr>ep_state := EpIdle\<rparr>)) (\<lambda>eps.
                      Ret (k1\<lparr>k_eps := eps\<rparr>)))))
      | Panic \<Rightarrow> Some Panic
      | Fault \<Rightarrow> Some Fault)"

text \<open>One turn of the loop of \<open>cancel_badged_sends\<close>, with the local queue being built.\<close>

definition cancel_badged_step ::
    "'h heap_ops \<Rightarrow> u32 \<Rightarrow> 'h kernel \<Rightarrow> TcbQueue \<Rightarrow> ptr \<Rightarrow> usize \<Rightarrow>
     ('h kernel \<times> TcbQueue \<times> ptr option) outcome" where
  "cancel_badged_step H ebx k new_queue tcb bdg =
     obind (deref (k_tcbs k) tcb) (\<lambda>t.
       let nxt = ep_next t in
       if badge (ipc_state t) = bdg then
         obind (modify (k_tcbs k) tcb (\<lambda>t. t\<lparr>ep_next := None\<rparr>)) (\<lambda>m1.
         obind (modify m1 tcb (\<lambda>t. t\<lparr>ep_prev := None\<rparr>)) (\<lambda>m2.
         obind (restart_thread H ebx (k\<lparr>k_tcbs := m2\<rparr>) tcb) (\<lambda>k'.
           Ret (k', new_queue, nxt))))
       else
         obind (queue_append (k_tcbs k) new_queue tcb) (\<lambda>(m, q).
           Ret (k\<lparr>k_tcbs := m\<rparr>, q, nxt)))"

partial_function (option) cancel_badged_loop ::
    "'h heap_ops \<Rightarrow> u32 \<Rightarrow> 'h kernel \<Rightarrow> TcbQueue \<Rightarrow> ptr option \<Rightarrow> usize \<Rightarrow>
     ('h kernel \<times> TcbQueue) outcome option" where
  "cancel_badged_loop H ebx k new_queue cur bdg =
     (case cur of
        None \<Rightarrow> Some (Ret (k, new_queue))
      | Some tcb \<Rightarrow>
          (case cancel_badged_step H ebx k new_queue tcb bdg of
             Ret r \<Rightarrow> cancel_badged_loop H ebx (fst r) (fst (snd r)) (snd (snd r)) bdg
           | Panic \<Rightarrow> Some Panic
           | Fault \<Rightarrow> Some Fault))"

declare cancel_badged_loop.simps [code]

definition cancel_badged_sends ::
    "ext \<Rightarrow> 'h heap_ops \<Rightarrow> u32 \<Rightarrow> 'h kernel \<Rightarrow> CapRaw \<Rightarrow> usize \<Rightarrow> 'h kernel outcome option" where
  "cancel_badged_sends E H ebx k endpoint bdg =
     (case ep_object E k endpoint of
        Ret (p, ep) \<Rightarrow>
          if ep_state ep \<noteq> EpSend then Some (Ret k)
          else (case cancel_badged_loop H ebx k TcbQueue_new (head (ep_queue ep)) bdg of
                  None \<Rightarrow> None
                | Some out \<Rightarrow> Some (obind out (\<lambda>(k1, q).
                    obind (modify (k_eps k1) p (\<lambda>ep. ep\<lparr>ep_queue := q\<rparr>)) (\<lambda>eps.
                      if queue_is_empty q
                      then obind (modify eps p (\<lambda>ep. ep\<lparr>ep_state := EpIdle\<rparr>)) (\<lambda>eps'.
                             Ret (k1\<lparr>k_eps := eps'\<rparr>))
                      else Ret (k1\<lparr>k_eps := eps\<rparr>)))))
      | Panic \<Rightarrow> Some Panic
      | Fault \<Rightarrow> Some Fault)"

section \<open>Invariant\<close>

text \<open>
  \<open>Q p\<close> lists the threads waiting on the endpoint at \<open>p\<close>, in order. The queue in memory
  represents the list; the endpoint is idle exactly when nobody waits; the waiting threads are
  all blocked on this endpoint and in the state its direction asks for; conversely a thread
  blocked on sending or receiving is in the list of the endpoint it names.
\<close>

definition waits :: "Tcb \<Rightarrow> bool" where
  "waits t \<longleftrightarrow> tstate t = BlockedOnSend \<or> tstate t = BlockedOnReceive"

fun wait_state :: "EndpointState \<Rightarrow> ThreadState" where
  "wait_state EpSend = BlockedOnSend"
| "wait_state EpRecv = BlockedOnReceive"
| "wait_state EpIdle = Inactive"

definition waits_at :: "tmem \<Rightarrow> ptr \<Rightarrow> ThreadState \<Rightarrow> ptr \<Rightarrow> bool" where
  "waits_at m p st x \<longleftrightarrow> (\<exists>t. m x = Some t \<and> blocking_object t = Some p \<and> tstate t = st)"

definition ipc_rep :: "tmem \<Rightarrow> epmem \<Rightarrow> (ptr \<Rightarrow> ptr list) \<Rightarrow> bool" where
  "ipc_rep m eps Q \<longleftrightarrow>
     (\<forall>p ep. eps p = Some ep \<longrightarrow>
        queue_rep m (ep_queue ep) (Q p) \<and> (ep_state ep = EpIdle \<longleftrightarrow> Q p = []) \<and>
        (\<forall>x \<in> set (Q p). waits_at m p (wait_state (ep_state ep)) x)) \<and>
     (\<forall>x t. m x = Some t \<longrightarrow> waits t \<longrightarrow>
        (\<exists>p \<in> dom eps. blocking_object t = Some p \<and> x \<in> set (Q p))) \<and>
     (\<forall>x t. m x = Some t \<longrightarrow> regs_ok t)"

lemma ipc_repD:
  assumes "ipc_rep m eps Q"
  shows "eps p = Some ep \<Longrightarrow> queue_rep m (ep_queue ep) (Q p)"
    and "eps p = Some ep \<Longrightarrow> ep_state ep = EpIdle \<longleftrightarrow> Q p = []"
    and "eps p = Some ep \<Longrightarrow> x \<in> set (Q p) \<Longrightarrow> waits_at m p (wait_state (ep_state ep)) x"
    and "m x = Some t \<Longrightarrow> waits t \<Longrightarrow> \<exists>p \<in> dom eps. blocking_object t = Some p \<and> x \<in> set (Q p)"
    and "m x = Some t \<Longrightarrow> regs_ok t"
  using assms unfolding ipc_rep_def by blast+

lemma wait_state_waits:
  "ep_state ep \<noteq> EpIdle \<Longrightarrow> tstate t = wait_state (ep_state ep) \<Longrightarrow> waits t"
  by (cases "ep_state ep") (auto simp: waits_def)

lemma members_wait:
  assumes "ipc_rep m eps Q" "eps p = Some ep" "x \<in> set (Q p)"
  shows "\<exists>t. m x = Some t \<and> waits t \<and> blocking_object t = Some p"
proof -
  from assms(3) have "ep_state ep \<noteq> EpIdle" using ipc_repD(2) [OF assms(1,2)] by auto
  with ipc_repD(3) [OF assms] wait_state_waits show ?thesis by (auto simp: waits_at_def)
qed

lemma queues_disjoint:
  assumes "ipc_rep m eps Q" "p \<in> dom eps" "p2 \<in> dom eps" "p2 \<noteq> p" "x \<in> set (Q p)"
  shows "x \<notin> set (Q p2)"
proof
  assume "x \<in> set (Q p2)"
  with assms members_wait [OF assms(1), of p] members_wait [OF assms(1), of p2] show False by fastforce
qed

lemma free_not_queued:
  assumes "ipc_rep m eps Q" "m x = Some t" "\<not> waits t" "p \<in> dom eps"
  shows "x \<notin> set (Q p)"
  using assms members_wait [OF assms(1), of p _ x] by fastforce

text \<open>Bodies without links determine what the invariant reads of a thread.\<close>

lemma tcb_body_fields:
  assumes "tcb_body t' = tcb_body t"
  shows "tstate t' = tstate t" "blocking_object t' = blocking_object t" "regs_ok t' = regs_ok t"
    "ctx t' = ctx t" "ipc_state t' = ipc_state t" "waits t' = waits t" "sched_context t' = sched_context t"
proof -
  have "tstate (tcb_body t') = tstate (tcb_body t)" "blocking_object (tcb_body t') = blocking_object (tcb_body t)"
    "ctx (tcb_body t') = ctx (tcb_body t)" "ipc_state (tcb_body t') = ipc_state (tcb_body t)"
    "sched_context (tcb_body t') = sched_context (tcb_body t)"
    using assms by simp_all
  then show "tstate t' = tstate t" "blocking_object t' = blocking_object t" "regs_ok t' = regs_ok t"
    "ctx t' = ctx t" "ipc_state t' = ipc_state t" "waits t' = waits t" "sched_context t' = sched_context t"
    by (simp_all add: tcb_body_def regs_ok_def waits_def)
qed

lemma tmem_body_eqD:
  assumes "tmem_body m' x = tmem_body m x" "m' x = Some t'"
  obtains t where "m x = Some t" "tcb_body t' = tcb_body t"
  using assms by (cases "m x") (auto simp: tmem_body_def)

lemma waits_at_cong:
  assumes "tmem_body m' x = tmem_body m x"
  shows "waits_at m' p st x \<longleftrightarrow> waits_at m p st x"
proof (cases "m x")
  case None
  with assms show ?thesis by (simp add: waits_at_def tmem_body_def)
next
  case (Some t)
  with assms obtain t' where t': "m' x = Some t'" "tcb_body t' = tcb_body t"
    by (cases "m' x") (auto simp: tmem_body_def)
  with Some tcb_body_fields(1,2) [OF t'(2)] show ?thesis by (simp add: waits_at_def)
qed

text \<open>
  The one preservation lemma: a component replaces the endpoint at \<open>p\<close> and its list, and
  rewrites the threads \<open>C\<close>, none of which waits at another endpoint.
\<close>

lemma ipc_rep_change:
  assumes rep: "ipc_rep m eps Q" and p: "eps p = Some ep"
    and queue: "queue_rep m' (ep_queue ep') ys" "ep_state ep' = EpIdle \<longleftrightarrow> ys = []"
    and members: "\<And>x. x \<in> set ys \<Longrightarrow> waits_at m' p (wait_state (ep_state ep')) x"
    and others: "\<And>p2 ep2. p2 \<noteq> p \<Longrightarrow> eps p2 = Some ep2 \<Longrightarrow> queue_rep m' (ep_queue ep2) (Q p2)"
    and frame: "\<And>x. x \<notin> C \<Longrightarrow> tmem_body m' x = tmem_body m x"
    and C: "\<And>x p2. x \<in> C \<Longrightarrow> p2 \<noteq> p \<Longrightarrow> p2 \<in> dom eps \<Longrightarrow> x \<notin> set (Q p2)"
    and left: "\<And>x t. m' x = Some t \<Longrightarrow> waits t \<Longrightarrow> x \<in> C \<union> set (Q p) \<Longrightarrow> x \<in> set ys"
    and regs: "\<And>x t. x \<in> C \<Longrightarrow> m' x = Some t \<Longrightarrow> regs_ok t"
  shows "ipc_rep m' (eps(p \<mapsto> ep')) (Q(p := ys))"
  unfolding ipc_rep_def
proof (intro conjI allI impI ballI)
  fix p2 ep2 assume e2: "(eps(p \<mapsto> ep')) p2 = Some ep2"
  show "queue_rep m' (ep_queue ep2) ((Q(p := ys)) p2)"
    using e2 queue others by (cases "p2 = p") simp_all
  show "ep_state ep2 = EpIdle \<longleftrightarrow> (Q(p := ys)) p2 = []"
    using e2 queue ipc_repD(2) [OF rep] by (cases "p2 = p") simp_all
  fix x assume x: "x \<in> set ((Q(p := ys)) p2)"
  show "waits_at m' p2 (wait_state (ep_state ep2)) x"
  proof (cases "p2 = p")
    case True
    with x e2 members show ?thesis by simp
  next
    case False
    with x e2 have "x \<in> set (Q p2)" "eps p2 = Some ep2" by simp_all
    moreover from this have "x \<notin> C" using C [of x p2] False by blast
    ultimately show ?thesis using ipc_repD(3) [OF rep, of p2 ep2 x] waits_at_cong [OF frame, of x] by simp
  qed
next
  fix x t assume x: "m' x = Some t" "waits t"
  show "\<exists>p2 \<in> dom (eps(p \<mapsto> ep')). blocking_object t = Some p2 \<and> x \<in> set ((Q(p := ys)) p2)"
  proof (cases "x \<in> C \<union> set (Q p)")
    case True
    with left x have "x \<in> set ys" by blast
    with members [of x] x(1) show ?thesis by (intro bexI [of _ p]) (auto simp: waits_at_def)
  next
    case False
    then have "tmem_body m' x = tmem_body m x" using frame by blast
    from tmem_body_eqD [OF this x(1)] obtain t0 where t0: "m x = Some t0" "tcb_body t = tcb_body t0" .
    note f = tcb_body_fields [OF t0(2)]
    from ipc_repD(4) [OF rep t0(1)] x(2) f obtain p2 where
      "p2 \<in> dom eps" "blocking_object t = Some p2" "x \<in> set (Q p2)" by auto
    with False show ?thesis by (intro bexI [of _ p2]) auto
  qed
next
  fix x t assume x: "m' x = Some t"
  show "regs_ok t"
  proof (cases "x \<in> C")
    case True
    with regs x show ?thesis by blast
  next
    case False
    from tmem_body_eqD [OF frame [OF False] x] obtain t0 where
      t0: "m x = Some t0" "tcb_body t = tcb_body t0" .
    from ipc_repD(5) [OF rep t0(1)] tcb_body_fields(3) [OF t0(2)] show ?thesis by simp
  qed
qed

text \<open>Rewriting a thread that does not wait and will not wait.\<close>

lemma ipc_rep_free:
  assumes rep: "ipc_rep m eps Q" and x: "m x = Some t" "\<not> waits t" and t': "\<not> waits t'" "regs_ok t'"
  shows "ipc_rep (m(x \<mapsto> t')) eps Q"
  unfolding ipc_rep_def
proof (intro conjI allI impI ballI)
  fix p ep assume e: "eps p = Some ep"
  then have nx: "x \<notin> set (Q p)" using free_not_queued [OF rep x] by blast
  show "queue_rep (m(x \<mapsto> t')) (ep_queue ep) (Q p)"
    using nx by (intro queue_rep_frame [OF ipc_repD(1) [OF rep e]]) auto
  show "ep_state ep = EpIdle \<longleftrightarrow> Q p = []" by (rule ipc_repD(2) [OF rep e])
  fix y assume "y \<in> set (Q p)"
  with nx ipc_repD(3) [OF rep e] show "waits_at (m(x \<mapsto> t')) p (wait_state (ep_state ep)) y"
    by (auto simp: waits_at_def)
next
  fix y u assume "(m(x \<mapsto> t')) y = Some u" "waits u"
  with t' have "m y = Some u" by (auto split: if_splits)
  with \<open>waits u\<close> ipc_repD(4) [OF rep]
  show "\<exists>p \<in> dom eps. blocking_object u = Some p \<and> y \<in> set (Q p)" by blast
next
  fix y u assume "(m(x \<mapsto> t')) y = Some u"
  with t' ipc_repD(5) [OF rep] show "regs_ok u" by (auto split: if_splits)
qed

section \<open>Transfer\<close>

text \<open>The receiver after a transfer: its first four registers are the sender's.\<close>

definition received :: "Tcb \<Rightarrow> Tcb \<Rightarrow> Tcb" where
  "received from to =
     to\<lparr>ctx := (ctx to)\<lparr>registers := take 4 (registers (ctx from)) @ drop 4 (registers (ctx to))\<rparr>\<rparr>"

definition with_reg :: "Tcb \<Rightarrow> nat \<Rightarrow> usize \<Rightarrow> Tcb" where
  "with_reg t i v = t\<lparr>ctx := (ctx t)\<lparr>registers := (registers (ctx t))[i := v]\<rparr>\<rparr>"

lemma with_reg_ok [simp]: "regs_ok (with_reg t i v) = regs_ok t"
  by (simp add: with_reg_def regs_ok_def)

lemma set_mr_at_Ret:
  assumes "m p = Some t" "regs_ok t" "unat idx < 15"
  shows "set_mr_at False m p idx v = Ret (m(p \<mapsto> with_reg t (unat idx) v))"
  using assms set_mr_Ret [of t idx False v] by (simp add: set_mr_at_def with_reg_def)

lemma get_mr_at_Ret:
  assumes "m p = Some t" "regs_ok t" "unat idx < 15"
  shows "get_mr_at False m p idx = Ret (registers (ctx t) ! unat idx)"
  using assms get_mr_Ret [of t idx False] by (simp add: get_mr_at_def)

lemma transfer_step:
  assumes "m s = Some ts" "regs_ok ts" "m r = Some tr" "regs_ok tr" "unat i < 15"
  shows "transfer_regs False m s r (i # is) =
    transfer_regs False (m(r \<mapsto> with_reg tr (unat i) (registers (ctx ts) ! unat i))) s r is"
  using assms by (simp add: get_mr_at_Ret set_mr_at_Ret mr_consts)

lemma do_ipc_transfer_Ret:
  assumes s: "m s = Some ts" "regs_ok ts" and r: "m r = Some tr" "regs_ok tr" and ne: "s \<noteq> r"
  shows "do_ipc_transfer False m s r bdg cg = Ret (m(r \<mapsto> received ts tr))"
proof -
  let ?R = "registers (ctx ts)"
  let ?t1 = "with_reg tr 0 bdg"
  let ?t5 = "with_reg (with_reg (with_reg (with_reg ?t1 0 (?R ! 0)) 1 (?R ! 1)) 2 (?R ! 2)) 3 (?R ! 3)"
  have one: "unat (1::usize) = 1" "unat (2::usize) = 2" "unat (3::usize) = 3" by simp_all
  have step: "transfer_regs False (m(r \<mapsto> t)) s r (i # is) =
      transfer_regs False (m(r \<mapsto> with_reg t (unat i) (?R ! unat i))) s r is"
    if "regs_ok t" "unat i < 15" for t i "is"
    using transfer_step [of "m(r \<mapsto> t)" s ts r t i "is"] that s ne by simp
  have "do_ipc_transfer False m s r bdg cg = Ret (m(r \<mapsto> ?t5))"
    using r unfolding do_ipc_transfer_def
    by (simp add: set_mr_at_Ret step one mr_consts del: transfer_regs.simps(2))
  moreover have "?t5 = received ts tr"
  proof -
    have len: "length ?R = 15" "length (registers (ctx tr)) = 15"
      using s(2) r(2) by (simp_all add: regs_ok_def mr_consts)
    have "(registers (ctx tr))[0 := bdg, 0 := ?R ! 0, 1 := ?R ! 1, 2 := ?R ! 2, 3 := ?R ! 3] =
        take 4 ?R @ drop 4 (registers (ctx tr))"
    proof (rule nth_equalityI)
      fix i assume i: "i < length ((registers (ctx tr))[0 := bdg, 0 := ?R ! 0, 1 := ?R ! 1, 2 := ?R ! 2, 3 := ?R ! 3])"
      show "(registers (ctx tr))[0 := bdg, 0 := ?R ! 0, 1 := ?R ! 1, 2 := ?R ! 2, 3 := ?R ! 3] ! i =
          (take 4 ?R @ drop 4 (registers (ctx tr))) ! i"
      proof -
        consider "i = 0" | "i = 1" | "i = 2" | "i = 3" | "4 \<le> i" by linarith
        then show ?thesis using i len by cases (simp_all add: nth_append)
      qed
    qed (use len in simp)
    then show ?thesis by (simp add: with_reg_def received_def)
  qed
  ultimately show ?thesis by simp
qed

lemma received_ok: "regs_ok from \<Longrightarrow> regs_ok to \<Longrightarrow> regs_ok (received from to)"
  by (simp add: received_def regs_ok_def mr_consts)

lemma received_fields [simp]:
  "tstate (received a b) = tstate b" "blocking_object (received a b) = blocking_object b"
  "ipc_state (received a b) = ipc_state b" "sched_context (received a b) = sched_context b"
  by (simp_all add: received_def)

lemma do_ipc_transfer_debug:
  "m r = Some tr \<Longrightarrow> do_ipc_transfer True m s r bdg cg = Panic"
  by (simp add: do_ipc_transfer_def set_mr_at_def set_mr_def TrapFrame_set_mr_def mr_consts)

section \<open>Meeting a waiting thread\<close>

lemma regs_ok_upd [simp]:
  "regs_ok (t\<lparr>tstate := st\<rparr>) = regs_ok t" "regs_ok (t\<lparr>reply_to := a\<rparr>) = regs_ok t"
  "regs_ok (t\<lparr>caller := b\<rparr>) = regs_ok t" "regs_ok (tcb_body t) = regs_ok t"
  "regs_ok (t\<lparr>blocking_object := c\<rparr>) = regs_ok t" "regs_ok (t\<lparr>ipc_state := d\<rparr>) = regs_ok t"
  by (simp_all add: regs_ok_def tcb_body_def)

lemma waits_upd [simp]:
  "waits (t\<lparr>tstate := st\<rparr>) \<longleftrightarrow> st = BlockedOnSend \<or> st = BlockedOnReceive"
  "waits (t\<lparr>reply_to := a\<rparr>) = waits t" "waits (t\<lparr>caller := b\<rparr>) = waits t"
  by (simp_all add: waits_def)

text \<open>A thread \<open>x\<close> has been unlinked from the queue of \<open>p\<close> and is rewritten to \<open>tx\<close>.\<close>

lemma take_out:
  assumes rep: "ipc_rep m eps Q" and p: "eps p = Some ep" and x: "x \<in> set (Q p)"
    and m1: "queue_rep m1 q1 zs" "set zs = set (Q p) - {x}" "tmem_body m1 = tmem_body m"
      "\<And>z. z \<notin> set (Q p) \<Longrightarrow> m1 z = m z"
    and tx: "\<not> waits tx" "regs_ok tx"
    and ep2: "ep_queue ep2 = q1" "ep_state ep2 = (if zs = [] then EpIdle else ep_state ep)"
  shows "ipc_rep (m1(x \<mapsto> tx)) (eps(p \<mapsto> ep2)) (Q(p := zs))"
proof (rule ipc_rep_change [OF rep p, where C = "{x}"])
  note d = ipc_repD [OF rep]
  have st: "ep_state ep \<noteq> EpIdle" using d(2) [OF p] x by auto
  show "queue_rep (m1(x \<mapsto> tx)) (ep_queue ep2) zs"
    using m1(2) ep2 by (intro queue_rep_frame [OF m1(1) [folded ep2(1)]]) auto
  show "ep_state ep2 = EpIdle \<longleftrightarrow> zs = []" using ep2 st by simp
  show "waits_at (m1(x \<mapsto> tx)) p (wait_state (ep_state ep2)) z" if z: "z \<in> set zs" for z
  proof -
    have zq: "z \<in> set (Q p)" "z \<noteq> x" using m1(2) z by blast+
    have "zs \<noteq> []" using z by auto
    then have st2: "ep_state ep2 = ep_state ep" using ep2(2) by simp
    have "tmem_body m1 z = tmem_body m z" using m1(3) by simp
    from waits_at_cong [OF this] d(3) [OF p zq(1)]
    have "waits_at m1 p (wait_state (ep_state ep)) z" by simp
    then show ?thesis unfolding st2 using zq(2) by (simp add: waits_at_def)
  qed
  show "queue_rep (m1(x \<mapsto> tx)) (ep_queue ep') (Q p2)" if "p2 \<noteq> p" "eps p2 = Some ep'" for p2 ep'
  proof (rule queue_rep_frame [OF d(1) [OF that(2)]])
    fix z assume z: "z \<in> set (Q p2)"
    have "z \<notin> set (Q p)" using queues_disjoint [OF rep _ _ _ z, of p] that p by blast
    with m1(4) x show "(m1(x \<mapsto> tx)) z = m z" by auto
  qed
  show "tmem_body (m1(x \<mapsto> tx)) z = tmem_body m z" if "z \<notin> {x}" for z
    using that m1(3) by (simp add: tmem_body_def fun_eq_iff)
  show "z \<notin> set (Q p2)" if "z \<in> {x}" "p2 \<noteq> p" "p2 \<in> dom eps" for z p2
    using queues_disjoint [OF rep _ that(3,2), of z] that(1) p x by auto
  show "z \<in> set zs" if z: "(m1(x \<mapsto> tx)) z = Some u" "waits u" "z \<in> {x} \<union> set (Q p)" for z u
    using z tx m1(2) by (auto split: if_splits)
qed (use tx in auto)

text \<open>
  The head \<open>x\<close> of a queue is taken out and rewritten to \<open>tx\<close>; then a thread \<open>y\<close>
  that waits nowhere is rewritten to \<open>ty'\<close>.
\<close>

lemma rendezvous:
  assumes rep: "ipc_rep m eps Q" and p: "eps p = Some ep" and q: "Q p = x # xs"
    and y: "m y = Some ty" "\<not> waits ty"
  obtains m1 q1 t where
    "dequeue_head m (ep_queue ep) = Ret (Some x, m1, q1)" "queue_is_empty q1 \<longleftrightarrow> xs = []"
    "m x = Some t" "m1 x = Some (tcb_body t)" "m1 y = Some ty" "x \<noteq> y" "regs_ok t"
    "\<And>z. z \<noteq> x \<Longrightarrow> tmem_body m1 z = tmem_body m z"
    "\<And>tx ty' ep2. \<not> waits tx \<Longrightarrow> regs_ok tx \<Longrightarrow> \<not> waits ty' \<Longrightarrow> regs_ok ty' \<Longrightarrow> ep_queue ep2 = q1 \<Longrightarrow>
       ep_state ep2 = (if xs = [] then EpIdle else ep_state ep) \<Longrightarrow>
       ipc_rep (m1(x \<mapsto> tx, y \<mapsto> ty')) (eps(p \<mapsto> ep2)) (Q(p := xs))"
proof -
  note d = ipc_repD [OF rep]
  have qr: "queue_rep m (ep_queue ep) (x # xs)" using d(1) [OF p] q by simp
  from dequeue_head_rep [OF qr] obtain m1 q1 t where
    m1: "dequeue_head m (ep_queue ep) = Ret (Some x, m1, q1)" "queue_rep m1 q1 xs"
    "tmem_body m1 = tmem_body m" "\<And>z. z \<notin> insert x (set xs) \<Longrightarrow> m1 z = m z"
    "m x = Some t" "m1 x = Some (tcb_body t)" by blast
  have dist: "x \<notin> set xs" using tq.rep_distinct [OF qr] by simp
  have yq: "y \<notin> set (Q p)" using free_not_queued [OF rep y] p by blast
  then have my: "m1 y = Some ty" "x \<noteq> y" using m1(4) [of y] y q by auto
  have rep1: "ipc_rep (m1(x \<mapsto> tx)) (eps(p \<mapsto> ep2)) (Q(p := xs))"
    if "\<not> waits tx" "regs_ok tx" "ep_queue ep2 = q1"
      "ep_state ep2 = (if xs = [] then EpIdle else ep_state ep)" for tx ep2
  proof (rule take_out [OF rep p _ m1(2) _ m1(3) _ that])
    show "x \<in> set (Q p)" "set xs = set (Q p) - {x}" using q dist by auto
    show "m1 z = m z" if "z \<notin> set (Q p)" for z using m1(4) [of z] that q by simp
  qed
  show thesis
  proof (rule that [OF m1(1) _ m1(5,6) my(1,2)])
    show "queue_is_empty q1 \<longleftrightarrow> xs = []" by (rule tq.nil_iff [OF m1(2)])
    show "regs_ok t" by (rule d(5) [OF m1(5)])
    show "tmem_body m1 z = tmem_body m z" for z using m1(3) by simp
    show "ipc_rep (m1(x \<mapsto> tx, y \<mapsto> ty')) (eps(p \<mapsto> ep2)) (Q(p := xs))"
      if "\<not> waits tx" "regs_ok tx" "\<not> waits ty'" "regs_ok ty'" "ep_queue ep2 = q1"
        "ep_state ep2 = (if xs = [] then EpIdle else ep_state ep)" for tx ty' ep2
      using ipc_rep_free [OF rep1 [OF that(1,2,5,6)], of y ty ty'] my y(2) that(3,4) by simp
  qed
qed

section \<open>Waiting\<close>

lemma block_on:
  assumes rep: "ipc_rep m eps Q" and p: "eps p = Some ep" and x: "m x = Some t" "\<not> waits t"
    and t1: "blocking_object t1 = Some p" "tstate t1 = wait_state st" "regs_ok t1"
    and st: "st \<noteq> EpIdle" "ep_state ep = EpIdle \<or> ep_state ep = st"
  obtains m2 q2 where "queue_append (m(x \<mapsto> t1)) (ep_queue ep) x = Ret (m2, q2)"
    "ipc_rep m2 (eps(p \<mapsto> ep\<lparr>ep_queue := q2, ep_state := st\<rparr>)) (Q(p := Q p @ [x]))"
    "tmem_body m2 = tmem_body (m(x \<mapsto> t1))"
proof -
  note d = ipc_repD [OF rep]
  have nq: "x \<notin> set (Q p2)" if "p2 \<in> dom eps" for p2 using free_not_queued [OF rep x that] .
  then have nqp: "x \<notin> set (Q p)" using p by blast
  have "queue_rep (m(x \<mapsto> t1)) (ep_queue ep) (Q p)"
    using nqp by (intro queue_rep_frame [OF d(1) [OF p]]) auto
  from queue_append_rep [OF this, of x t1] nqp obtain m2 q2 where
    m2: "queue_append (m(x \<mapsto> t1)) (ep_queue ep) x = Ret (m2, q2)" "queue_rep m2 q2 (Q p @ [x])"
    "tmem_body m2 = tmem_body (m(x \<mapsto> t1))" "\<And>z. z \<notin> insert x (set (Q p)) \<Longrightarrow> m2 z = (m(x \<mapsto> t1)) z"
    by auto
  have body: "tmem_body m2 z = tmem_body m z" if "z \<noteq> x" for z
    using m2(3) that by (simp add: tmem_body_def fun_eq_iff)
  have "tmem_body m2 x = Some (tcb_body t1)" using m2(3) by (simp add: tmem_body_def fun_eq_iff)
  then obtain t2 where t2: "m2 x = Some t2" "tcb_body t2 = tcb_body t1" by (auto simp: tmem_body_def)
  note f = tcb_body_fields [OF t2(2)]
  let ?ep = "ep\<lparr>ep_queue := q2, ep_state := st\<rparr>"
  have "ipc_rep m2 (eps(p \<mapsto> ?ep)) (Q(p := Q p @ [x]))"
  proof (rule ipc_rep_change [OF rep p, where C = "{x}"])
    show "queue_rep m2 (ep_queue ?ep) (Q p @ [x])" using m2(2) by simp
    show "ep_state ?ep = EpIdle \<longleftrightarrow> Q p @ [x] = []" using st by simp
    show "waits_at m2 p (wait_state (ep_state ?ep)) z" if z: "z \<in> set (Q p @ [x])" for z
    proof (cases "z = x")
      case True
      with t2 f t1 show ?thesis by (simp add: waits_at_def)
    next
      case False
      with z have "z \<in> set (Q p)" by simp
      moreover from this have "ep_state ep = st" using st(2) d(2) [OF p] by auto
      ultimately have "waits_at m p (wait_state st) z" using d(3) [OF p] by simp
      then show ?thesis using waits_at_cong [OF body [OF False]] by simp
    qed
    show "queue_rep m2 (ep_queue ep2) (Q p2)" if "p2 \<noteq> p" "eps p2 = Some ep2" for p2 ep2
    proof (rule queue_rep_frame [OF d(1) [OF that(2)]])
      fix z assume z: "z \<in> set (Q p2)"
      moreover have "z \<notin> set (Q p)"
        using queues_disjoint [OF rep _ _ _ z, of p] that p by blast
      ultimately show "m2 z = m z" using m2(4) [of z] nq [of p2] that(2) by auto
    qed
    show "tmem_body m2 z = tmem_body m z" if "z \<notin> {x}" for z using body that by simp
    show "z \<notin> set (Q p2)" if "z \<in> {x}" "p2 \<noteq> p" "p2 \<in> dom eps" for z p2 using nq that by simp
    show "z \<in> set (Q p @ [x])" if "m2 z = Some u" "waits u" "z \<in> {x} \<union> set (Q p)" for z u
      using that by auto
    show "regs_ok u" if "z \<in> {x}" "m2 z = Some u" for z u using that t2 f t1(3) by simp
  qed
  from m2(1) this m2(3) show thesis by (rule that)
qed

section \<open>The scheduler side\<close>

text \<open>The current core has an executor whenever there is a scheduler at all.\<close>

definition core_ok :: "u32 \<Rightarrow> 'h kernel \<Rightarrow> bool" where
  "core_ok ebx k \<longleftrightarrow> (\<forall>pc. OnceLock_get (k_sched k) = Some pc \<longrightarrow> (\<exists>ex. PerCore_get_mut ebx pc = Ret ex))"

text \<open>
  Waking a thread whose state was just set to \<open>Inactive\<close>: \<open>wake\<close> refuses it, and nothing
  but the state of the thread changes.
\<close>

definition wake_state :: "'h kernel \<Rightarrow> ThreadState" where
  "wake_state k = (if OnceLock_get (k_sched k) = None then Running else Inactive)"

lemma wake_inactive:
  assumes core: "core_ok ebx k" and r: "k_tcbs k r = Some t"
  shows "with_scheduler ebx k (\<lambda>m. set_state m r Inactive) (\<lambda>s. wake H s r) =
    Ret (case OnceLock_get (k_sched k) of
           None \<Rightarrow> k | Some _ \<Rightarrow> k\<lparr>k_tcbs := (k_tcbs k)(r \<mapsto> t\<lparr>tstate := Inactive\<rparr>)\<rparr>)"
proof (cases "OnceLock_get (k_sched k)")
  case None
  then show ?thesis by (simp add: with_scheduler_def)
next
  case (Some pc)
  with core obtain ex where ex: "PerCore_get_mut ebx pc = Ret ex" by (auto simp: core_ok_def)
  have "cell (k_sched k) = Some pc" using Some by (auto simp: OnceLock_get_def split: if_splits)
  then have "(k_sched k)\<lparr>cell := Some pc\<rparr> = k_sched k" by simp
  with Some ex r show ?thesis
    by (cases k) (simp add: with_scheduler_def set_state_def wake_def is_blocked_def PerCore_put_same)
qed

lemma wake_inactive_plain:
  assumes core: "core_ok ebx k" and r: "k_tcbs k r = Some t" "tstate t = Inactive"
  shows "with_scheduler ebx k Ret (\<lambda>s. wake H s r) = Ret k"
proof (cases "OnceLock_get (k_sched k)")
  case None
  then show ?thesis by (simp add: with_scheduler_def)
next
  case (Some pc)
  with core obtain ex where ex: "PerCore_get_mut ebx pc = Ret ex" by (auto simp: core_ok_def)
  have "cell (k_sched k) = Some pc" using Some by (auto simp: OnceLock_get_def split: if_splits)
  then have "(k_sched k)\<lparr>cell := Some pc\<rparr> = k_sched k" by simp
  with Some ex r show ?thesis
    by (cases k) (simp add: with_scheduler_def wake_def is_blocked_def PerCore_put_same)
qed

lemma ep_object_Ret:
  assumes "ext_ok E" "paddr raw < 0x10000000000000" "k_eps k (paddr raw) = Some ep"
  shows "ep_object E k raw = Ret (paddr raw, ep)"
proof -
  have "CapRef_paddr E raw = Ret (paddr raw)" using assms(1,2) CapRef_paddr_Ret by blast
  then show ?thesis using assms(3) by (simp add: ep_object_def)
qed

section \<open>Sending and receiving keep the invariant\<close>

text \<open>What a sender becomes when its message was delivered at once.\<close>

definition sent :: "bool \<Rightarrow> bool \<Rightarrow> ptr \<Rightarrow> Tcb \<Rightarrow> Tcb" where
  "sent do_call reply r t =
     (if do_call then if reply then t\<lparr>tstate := BlockedOnReply, reply_to := Some r\<rparr>
                      else t\<lparr>tstate := Inactive\<rparr>
      else t)"

lemma sent_simps [simp]:
  "regs_ok (sent do_call reply r t) = regs_ok t" "\<not> waits t \<Longrightarrow> \<not> waits (sent do_call reply r t)"
  "ctx (sent do_call reply r t) = ctx t"
  by (auto simp: sent_def)

text \<open>The part of \<open>send_ipc\<close> that follows the transfer, on the memory it acts on.\<close>

lemma send_tail:
  assumes "m s = Some ts" "m r = Some tr" "s \<noteq> r"
  shows "obind (if do_call then if cg \<or> cgr then setup_caller_cap m s r else set_state m s Inactive
                else Ret m) (\<lambda>m3. set_state m3 r Running) =
    Ret (m(r \<mapsto> (if do_call \<and> (cg \<or> cgr) then tr\<lparr>caller := Some s\<rparr> else tr)\<lparr>tstate := Running\<rparr>,
           s \<mapsto> sent do_call (cg \<or> cgr) r ts))"
  using assms
  by (auto simp: setup_caller_cap_def set_state_def sent_def fun_upd_twist fun_eq_iff)

lemma send_ipc_recv:
  assumes E: "ext_ok E" "paddr cap < 0x10000000000000"
    and rep: "ipc_rep (k_tcbs k) (k_eps k) Q"
    and ep: "k_eps k (paddr cap) = Some ep" "ep_state ep = EpRecv"
    and s: "k_tcbs k s = Some ts" "\<not> waits ts" and core: "core_ok ebx k"
  obtains r rs k' tr tr' where "Q (paddr cap) = r # rs" "r \<noteq> s" "k_tcbs k r = Some tr"
    "send_ipc False E H ebx k blocking do_call bdg cg cgr s cap = Ret (Inr (), k')"
    "ipc_rep (k_tcbs k') (k_eps k') (Q(paddr cap := rs))"
    "tr' = (if do_call \<and> (cg \<or> cgr) then (received ts (tcb_body tr))\<lparr>caller := Some s\<rparr>
            else received ts (tcb_body tr))\<lparr>tstate := wake_state k\<rparr>"
    "k_tcbs k' r = Some tr'" "k_tcbs k' s = Some (sent do_call (cg \<or> cgr) r ts)"
    "k_sched k' = k_sched k" "k_scs k' = k_scs k"
    "\<And>z. z \<noteq> r \<Longrightarrow> z \<noteq> s \<Longrightarrow> tmem_body (k_tcbs k') z = tmem_body (k_tcbs k) z"
proof -
  let ?p = "paddr cap"
  from ipc_repD(2) [OF rep ep(1)] ep(2) obtain r rs where q: "Q ?p = r # rs"
    by (cases "Q ?p") auto
  from rendezvous [OF rep ep(1) q s] obtain m1 q1 tr where
    m1: "dequeue_head (k_tcbs k) (ep_queue ep) = Ret (Some r, m1, q1)" "queue_is_empty q1 \<longleftrightarrow> rs = []"
    "k_tcbs k r = Some tr" "m1 r = Some (tcb_body tr)" "m1 s = Some ts" "r \<noteq> s" "regs_ok tr"
    "\<And>z. z \<noteq> r \<Longrightarrow> tmem_body m1 z = tmem_body (k_tcbs k) z"
    and rep1: "\<And>tx ty' ep2. \<not> waits tx \<Longrightarrow> regs_ok tx \<Longrightarrow> \<not> waits ty' \<Longrightarrow> regs_ok ty' \<Longrightarrow>
       ep_queue ep2 = q1 \<Longrightarrow> ep_state ep2 = (if rs = [] then EpIdle else ep_state ep) \<Longrightarrow>
       ipc_rep (m1(r \<mapsto> tx, s \<mapsto> ty')) ((k_eps k)(?p \<mapsto> ep2)) (Q(?p := rs))"
    by blast
  have rs: "regs_ok ts" by (rule ipc_repD(5) [OF rep s(1)])
  define tr1 where "tr1 = received ts (tcb_body tr)"
  define tr4 where "tr4 = (if do_call \<and> (cg \<or> cgr) then tr1\<lparr>caller := Some s\<rparr> else tr1)\<lparr>tstate := Running\<rparr>"
  define ts' where "ts' = sent do_call (cg \<or> cgr) r ts"
  define m2 where "m2 = m1(r \<mapsto> tr1)"
  define m4 where "m4 = m2(r \<mapsto> tr4, s \<mapsto> ts')"
  define ep2 where "ep2 = (if queue_is_empty q1 then ep\<lparr>ep_queue := q1, ep_state := EpIdle\<rparr>
      else ep\<lparr>ep_queue := q1\<rparr>)"
  define k4 where "k4 = k\<lparr>k_tcbs := m4, k_eps := (k_eps k)(?p \<mapsto> ep2)\<rparr>"
  define tr' where "tr' = (if do_call \<and> (cg \<or> cgr) then tr1\<lparr>caller := Some s\<rparr> else tr1)\<lparr>tstate := wake_state k\<rparr>"
  define k' where "k' = (case OnceLock_get (k_sched k4) of
      None \<Rightarrow> k4 | Some _ \<Rightarrow> k4\<lparr>k_tcbs := (k_tcbs k4)(r \<mapsto> tr4\<lparr>tstate := Inactive\<rparr>)\<rparr>)"
  have transfer: "do_ipc_transfer False m1 s r bdg cg = Ret m2"
    unfolding m2_def tr1_def using m1(4,5,6,7) rs by (intro do_ipc_transfer_Ret) auto
  have tail: "obind (if do_call then if cg \<or> cgr then setup_caller_cap m2 s r else set_state m2 s Inactive
                else Ret m2) (\<lambda>m3. set_state m3 r Running) = Ret m4"
    unfolding m4_def tr4_def ts'_def using m1(5,6) by (intro send_tail) (auto simp: m2_def)
  have core4: "core_ok ebx k4" using core by (simp add: core_ok_def k4_def)
  have r4: "k_tcbs k4 r = Some tr4" using m1(6) by (simp add: k4_def m4_def)
  have wake: "with_scheduler ebx k4 (\<lambda>m. set_state m r Inactive) (\<lambda>s. wake H s r) = Ret k'"
    unfolding k'_def by (rule wake_inactive [OF core4 r4])
  have ep2': "(if queue_is_empty q1 then (ep\<lparr>ep_queue := q1\<rparr>)\<lparr>ep_state := EpIdle\<rparr> else ep\<lparr>ep_queue := q1\<rparr>) = ep2"
    by (simp add: ep2_def)
  have send: "send_ipc False E H ebx k blocking do_call bdg cg cgr s cap = Ret (Inr (), k')"
    unfolding send_ipc_def ep_object_Ret [OF E ep(1)] obind.simps prod.case ep(2) EndpointState.case
      m1(1) expect_simps Let_def ep2' transfer obind_assoc [symmetric] tail
    using wake by (simp add: k4_def)
  have tcbs': "k_tcbs k' = m1(r \<mapsto> tr', s \<mapsto> ts')"
  proof -
    have "tr' = (if OnceLock_get (k_sched k) = None then tr4 else tr4\<lparr>tstate := Inactive\<rparr>)"
      by (simp add: tr4_def tr'_def wake_state_def)
    moreover have "k_tcbs k' z = (m1(r \<mapsto> (if OnceLock_get (k_sched k) = None then tr4
        else tr4\<lparr>tstate := Inactive\<rparr>), s \<mapsto> ts')) z" for z
      using m1(6) by (cases "OnceLock_get (k_sched k)") (simp_all add: k'_def k4_def m4_def m2_def)
    ultimately show ?thesis by (intro ext) simp
  qed
  have keeps: "k_sched k' = k_sched k" "k_scs k' = k_scs k" "k_eps k' = (k_eps k)(?p \<mapsto> ep2)"
    by (simp_all add: k'_def k4_def split: option.splits)
  have "regs_ok tr1" unfolding tr1_def using rs m1(7) by (intro received_ok) auto
  then have rep': "ipc_rep (k_tcbs k') (k_eps k') (Q(?p := rs))"
    unfolding tcbs' keeps using rs s(2) m1(2)
    by (intro rep1) (auto simp: wake_state_def tr'_def ts'_def ep2_def)
  have frame: "tmem_body (k_tcbs k') z = tmem_body (k_tcbs k) z" if "z \<noteq> r" "z \<noteq> s" for z
    unfolding tcbs' using m1(8) [of z] that by (simp add: tmem_body_def)
  have rs': "k_tcbs k' r = Some tr'" "k_tcbs k' s = Some (sent do_call (cg \<or> cgr) r ts)"
    using m1(6) by (simp_all add: tcbs' ts'_def)
  show thesis
    by (rule that [OF q m1(6) m1(3) send rep' tr'_def [unfolded tr1_def] rs' keeps(1,2) frame])
qed

lemma send_ipc_block:
  assumes E: "ext_ok E" "paddr cap < 0x10000000000000"
    and rep: "ipc_rep (k_tcbs k) (k_eps k) Q"
    and ep: "k_eps k (paddr cap) = Some ep" "ep_state ep \<noteq> EpRecv"
    and s: "k_tcbs k s = Some ts" "\<not> waits ts"
  obtains k' where "send_ipc dbg E H ebx k True do_call bdg cg cgr s cap = Ret (Inr (), k')"
    "ipc_rep (k_tcbs k') (k_eps k') (Q(paddr cap := Q (paddr cap) @ [s]))"
    "tmem_body (k_tcbs k') = tmem_body ((k_tcbs k)(s \<mapsto>
       ts\<lparr>ipc_state := \<lparr>badge = bdg, can_grant = cg, can_grant_reply = cgr, is_call = do_call\<rparr>,
          tstate := BlockedOnSend, blocking_object := Some (paddr cap)\<rparr>))"
    "k_sched k' = k_sched k" "k_scs k' = k_scs k" "dom (k_eps k') = dom (k_eps k)"
proof -
  define t1 where "t1 = ts\<lparr>ipc_state := \<lparr>badge = bdg, can_grant = cg, can_grant_reply = cgr, is_call = do_call\<rparr>,
     tstate := BlockedOnSend, blocking_object := Some (paddr cap)\<rparr>"
  have t1: "blocking_object t1 = Some (paddr cap)" "tstate t1 = wait_state EpSend" "regs_ok t1"
    using ipc_repD(5) [OF rep s(1)] by (simp_all add: t1_def)
  have st: "EpSend \<noteq> EpIdle" "ep_state ep = EpIdle \<or> ep_state ep = EpSend"
    using ep(2) by (cases "ep_state ep"; simp)+
  from block_on [OF rep ep(1) s t1 st] obtain m2 q2 where
    m2: "queue_append ((k_tcbs k)(s \<mapsto> t1)) (ep_queue ep) s = Ret (m2, q2)"
    "ipc_rep m2 ((k_eps k)(paddr cap \<mapsto> ep\<lparr>ep_queue := q2, ep_state := EpSend\<rparr>))
       (Q(paddr cap := Q (paddr cap) @ [s]))"
    "tmem_body m2 = tmem_body ((k_tcbs k)(s \<mapsto> t1))" .
  let ?k' = "k\<lparr>k_tcbs := m2, k_eps := (k_eps k)(paddr cap \<mapsto> ep\<lparr>ep_queue := q2, ep_state := EpSend\<rparr>)\<rparr>"
  have "send_ipc dbg E H ebx k True do_call bdg cg cgr s cap = Ret (Inr (), ?k')"
    using ep_object_Ret [OF E ep(1)] s m2(1) st(2)
    by (auto simp: send_ipc_def set_state_def t1_def)
  then show thesis by (rule that) (use m2 ep(1) in \<open>auto simp: t1_def\<close>)
qed

lemma receive_ipc_block:
  assumes E: "ext_ok E" "paddr cap < 0x10000000000000"
    and rep: "ipc_rep (k_tcbs k) (k_eps k) Q"
    and ep: "k_eps k (paddr cap) = Some ep" "ep_state ep \<noteq> EpSend"
    and r: "k_tcbs k r = Some tr" "\<not> waits tr"
  obtains k' where "receive_ipc dbg E H ebx k r cap True = Ret (Inr (), k')"
    "ipc_rep (k_tcbs k') (k_eps k') (Q(paddr cap := Q (paddr cap) @ [r]))"
    "tmem_body (k_tcbs k') = tmem_body ((k_tcbs k)(r \<mapsto>
       tr\<lparr>tstate := BlockedOnReceive, blocking_object := Some (paddr cap)\<rparr>))"
    "k_sched k' = k_sched k" "k_scs k' = k_scs k"
proof -
  define t1 where "t1 = tr\<lparr>tstate := BlockedOnReceive, blocking_object := Some (paddr cap)\<rparr>"
  have t1: "blocking_object t1 = Some (paddr cap)" "tstate t1 = wait_state EpRecv" "regs_ok t1"
    using ipc_repD(5) [OF rep r(1)] by (simp_all add: t1_def)
  have st: "EpRecv \<noteq> EpIdle" "ep_state ep = EpIdle \<or> ep_state ep = EpRecv"
    using ep(2) by (cases "ep_state ep"; simp)+
  from block_on [OF rep ep(1) r t1 st] obtain m2 q2 where
    m2: "queue_append ((k_tcbs k)(r \<mapsto> t1)) (ep_queue ep) r = Ret (m2, q2)"
    "ipc_rep m2 ((k_eps k)(paddr cap \<mapsto> ep\<lparr>ep_queue := q2, ep_state := EpRecv\<rparr>))
       (Q(paddr cap := Q (paddr cap) @ [r]))"
    "tmem_body m2 = tmem_body ((k_tcbs k)(r \<mapsto> t1))" .
  let ?k' = "k\<lparr>k_tcbs := m2, k_eps := (k_eps k)(paddr cap \<mapsto> ep\<lparr>ep_queue := q2, ep_state := EpRecv\<rparr>)\<rparr>"
  have "receive_ipc dbg E H ebx k r cap True = Ret (Inr (), ?k')"
    using ep_object_Ret [OF E ep(1)] r m2(1) st(2)
    by (auto simp: receive_ipc_def set_state_def t1_def)
  then show thesis by (rule that) (use m2 in \<open>simp_all add: t1_def\<close>)
qed

text \<open>What the sender becomes when a receiver takes its message.\<close>

definition taken :: "ptr \<Rightarrow> Tcb \<Rightarrow> Tcb" where
  "taken r t =
     (if is_call (ipc_state t) \<and> (can_grant (ipc_state t) \<or> can_grant_reply (ipc_state t))
      then t\<lparr>tstate := BlockedOnReply, reply_to := Some r\<rparr> else t\<lparr>tstate := Inactive\<rparr>)"

lemma taken_simps [simp]: "regs_ok (taken r t) = regs_ok t" "\<not> waits (taken r t)"
  by (auto simp: taken_def)

lemma receive_ipc_send:
  assumes E: "ext_ok E" "paddr cap < 0x10000000000000"
    and rep: "ipc_rep (k_tcbs k) (k_eps k) Q"
    and ep: "k_eps k (paddr cap) = Some ep" "ep_state ep = EpSend"
    and r: "k_tcbs k r = Some tr" "\<not> waits tr" and core: "core_ok ebx k"
  obtains s ss k' ts tr' where "Q (paddr cap) = s # ss" "s \<noteq> r" "k_tcbs k s = Some ts"
    "receive_ipc False E H ebx k r cap is_blocking = Ret (Inr (), k')"
    "ipc_rep (k_tcbs k') (k_eps k') (Q(paddr cap := ss))"
    "tr' = (if tstate (taken r ts) = BlockedOnReply then (received ts tr)\<lparr>caller := Some s\<rparr>
            else received ts tr)"
    "k_tcbs k' r = Some tr'" "k_tcbs k' s = Some (taken r (tcb_body ts))"
    "k_sched k' = k_sched k" "k_scs k' = k_scs k"
    "\<And>z. z \<noteq> r \<Longrightarrow> z \<noteq> s \<Longrightarrow> tmem_body (k_tcbs k') z = tmem_body (k_tcbs k) z"
proof -
  let ?p = "paddr cap"
  from ipc_repD(2) [OF rep ep(1)] ep(2) obtain s ss where q: "Q ?p = s # ss"
    by (cases "Q ?p") auto
  from rendezvous [OF rep ep(1) q r] obtain m1 q1 ts where
    m1: "dequeue_head (k_tcbs k) (ep_queue ep) = Ret (Some s, m1, q1)" "queue_is_empty q1 \<longleftrightarrow> ss = []"
    "k_tcbs k s = Some ts" "m1 s = Some (tcb_body ts)" "m1 r = Some tr" "s \<noteq> r" "regs_ok ts"
    "\<And>z. z \<noteq> s \<Longrightarrow> tmem_body m1 z = tmem_body (k_tcbs k) z"
    and rep1: "\<And>tx ty' ep2. \<not> waits tx \<Longrightarrow> regs_ok tx \<Longrightarrow> \<not> waits ty' \<Longrightarrow> regs_ok ty' \<Longrightarrow>
       ep_queue ep2 = q1 \<Longrightarrow> ep_state ep2 = (if ss = [] then EpIdle else ep_state ep) \<Longrightarrow>
       ipc_rep (m1(s \<mapsto> tx, r \<mapsto> ty')) ((k_eps k)(?p \<mapsto> ep2)) (Q(?p := ss))"
    by blast
  have rr: "regs_ok tr" by (rule ipc_repD(5) [OF rep r(1)])
  define st where "st = ipc_state ts"
  define tr1 where "tr1 = received ts tr"
  define m2 where "m2 = m1(r \<mapsto> tr1)"
  define reply where "reply \<longleftrightarrow> is_call st \<and> (can_grant st \<or> can_grant_reply st)"
  define tr' where "tr' = (if reply then tr1\<lparr>caller := Some s\<rparr> else tr1)"
  define ts' where "ts' = taken r (tcb_body ts)"
  define ep2 where "ep2 = (if queue_is_empty q1 then ep\<lparr>ep_queue := q1, ep_state := EpIdle\<rparr>
      else ep\<lparr>ep_queue := q1\<rparr>)"
  define m3 where "m3 = m2(s \<mapsto> ts', r \<mapsto> tr')"
  define k' where "k' = k\<lparr>k_eps := (k_eps k)(?p \<mapsto> ep2), k_tcbs := m3\<rparr>"
  have body: "ipc_state (tcb_body ts) = st" "registers (ctx (tcb_body ts)) = registers (ctx ts)"
    by (simp_all add: st_def tcb_body_def)
  have ts'_eq: "ts' = (if reply then (tcb_body ts)\<lparr>tstate := BlockedOnReply, reply_to := Some r\<rparr>
      else (tcb_body ts)\<lparr>tstate := Inactive\<rparr>)"
    by (simp add: ts'_def taken_def body reply_def)
  have "do_ipc_transfer False m1 s r (badge st) (can_grant st) = Ret (m1(r \<mapsto> received (tcb_body ts) tr))"
    using m1(4,5,6,7) rr by (intro do_ipc_transfer_Ret) auto
  then have transfer: "do_ipc_transfer False m1 s r (badge st) (can_grant st) = Ret m2"
    by (simp add: m2_def tr1_def received_def body)
  have granted: "setup_caller_cap m2 s r = Ret m3" if "reply"
    using that m1(4,5,6) by (auto simp: setup_caller_cap_def m3_def m2_def ts'_eq tr'_def fun_eq_iff)
  have inact: "set_state m2 s Inactive = Ret m3" if "\<not> reply"
    using that m1(4,5,6) by (auto simp: set_state_def m3_def m2_def ts'_eq tr'_def fun_eq_iff)
  have wake: "with_scheduler ebx k' Ret (\<lambda>sc. wake H sc s) = Ret k'" if "\<not> reply"
  proof (rule wake_inactive_plain)
    show "core_ok ebx k'" using core by (simp add: core_ok_def k'_def)
    show "k_tcbs k' s = Some ts'" using m1(6) by (simp add: k'_def m3_def)
    show "tstate ts' = Inactive" using that by (simp add: ts'_eq)
  qed
  have ep2': "(if queue_is_empty q1 then (ep\<lparr>ep_queue := q1\<rparr>)\<lparr>ep_state := EpIdle\<rparr> else ep\<lparr>ep_queue := q1\<rparr>) = ep2"
    by (simp add: ep2_def)
  have recv: "receive_ipc False E H ebx k r cap is_blocking = Ret (Inr (), k')"
    unfolding receive_ipc_def ep_object_Ret [OF E ep(1)] obind.simps prod.case ep(2) EndpointState.case
      m1(1) expect_simps Let_def ep2' deref_Some [of m1, OF m1(4)] body transfer
    using granted inact wake by (auto simp: reply_def k'_def)
  have tcbs': "k_tcbs k' = m1(s \<mapsto> ts', r \<mapsto> tr')"
    using m1(6) by (simp add: k'_def m3_def m2_def fun_eq_iff)
  have keeps: "k_sched k' = k_sched k" "k_scs k' = k_scs k" "k_eps k' = (k_eps k)(?p \<mapsto> ep2)"
    by (simp_all add: k'_def)
  have "regs_ok tr1" unfolding tr1_def by (intro received_ok rr m1(7))
  moreover have "\<not> waits tr1" using r(2) by (simp add: tr1_def waits_def)
  ultimately have rep': "ipc_rep (k_tcbs k') (k_eps k') (Q(?p := ss))"
    unfolding tcbs' keeps using m1(2,7)
    by (intro rep1) (auto simp: tr'_def ts'_def ep2_def)
  have tr'_eq: "tr' = (if tstate (taken r ts) = BlockedOnReply then (received ts tr)\<lparr>caller := Some s\<rparr>
            else received ts tr)"
  proof -
    have "tstate (taken r ts) = BlockedOnReply \<longleftrightarrow> reply"
      by (simp add: taken_def reply_def st_def)
    then show ?thesis by (simp only: tr'_def tr1_def)
  qed
  have frame: "tmem_body (k_tcbs k') z = tmem_body (k_tcbs k) z" if "z \<noteq> r" "z \<noteq> s" for z
    unfolding tcbs' using m1(8) [of z] that by (simp add: tmem_body_def)
  have rs': "k_tcbs k' r = Some tr'" "k_tcbs k' s = Some (taken r (tcb_body ts))"
    using m1(6) by (simp_all add: tcbs' ts'_def)
  show thesis
    by (rule that [OF q m1(6) m1(3) recv rep' tr'_eq rs' keeps(1,2) frame])
qed

section \<open>Cancelling one thread\<close>

text \<open>Rewriting fields that the invariant does not read, also of a waiting thread.\<close>

lemma ipc_rep_same:
  assumes rep: "ipc_rep m eps Q" and x: "m x = Some t"
    and t': "ep_next t' = ep_next t" "ep_prev t' = ep_prev t" "tstate t' = tstate t"
      "blocking_object t' = blocking_object t" "regs_ok t'"
  shows "ipc_rep (m(x \<mapsto> t')) eps Q"
  unfolding ipc_rep_def
proof (intro conjI allI impI ballI)
  note d = ipc_repD [OF rep]
  fix p ep assume e: "eps p = Some ep"
  have "dseg ep_prev ep_next (m(x \<mapsto> t')) None (Q p) None \<longleftrightarrow> dseg ep_prev ep_next m None (Q p) None"
    using x t' by (intro dseg_cong) auto
  then show "queue_rep (m(x \<mapsto> t')) (ep_queue ep) (Q p)"
    using d(1) [OF e] by (simp add: queue_rep_def)
  show "ep_state ep = EpIdle \<longleftrightarrow> Q p = []" by (rule d(2) [OF e])
  fix y assume "y \<in> set (Q p)"
  from d(3) [OF e this] show "waits_at (m(x \<mapsto> t')) p (wait_state (ep_state ep)) y"
    using x t' by (auto simp: waits_at_def)
next
  fix y u assume y: "(m(x \<mapsto> t')) y = Some u" "waits u"
  show "\<exists>p \<in> dom eps. blocking_object u = Some p \<and> y \<in> set (Q p)"
  proof (cases "y = x")
    case True
    with y t' have "waits t" "blocking_object u = blocking_object t" by (auto simp: waits_def)
    with ipc_repD(4) [OF rep x] True show ?thesis by simp
  next
    case False
    with y ipc_repD(4) [OF rep] show ?thesis by simp
  qed
next
  fix y u assume "(m(x \<mapsto> t')) y = Some u"
  with t' ipc_repD(5) [OF rep] show "regs_ok u" by (auto split: if_splits)
qed

lemma waits_bo [simp]: "waits (t\<lparr>blocking_object := a\<rparr>) = waits t" "waits (t\<lparr>ipc_state := b\<rparr>) = waits t"
  by (simp_all add: waits_def)

lemma cancel_ipc_waiting:
  assumes rep: "ipc_rep (k_tcbs k) (k_eps k) Q" and x: "k_tcbs k x = Some t" "waits t"
  obtains p k' where "blocking_object t = Some p" "p \<in> dom (k_eps k)" "x \<in> set (Q p)"
    "cancel_ipc k x = Ret k'" "ipc_rep (k_tcbs k') (k_eps k') (Q(p := remove1 x (Q p)))"
    "k_tcbs k' x = Some ((tcb_body t)\<lparr>tstate := Inactive, blocking_object := None\<rparr>)"
    "\<And>z. z \<noteq> x \<Longrightarrow> tmem_body (k_tcbs k') z = tmem_body (k_tcbs k) z"
    "k_sched k' = k_sched k" "k_scs k' = k_scs k"
proof -
  note d = ipc_repD [OF rep]
  from d(4) [OF x] obtain p where p: "p \<in> dom (k_eps k)" "blocking_object t = Some p" "x \<in> set (Q p)" by blast
  from p(1) obtain ep where ep: "k_eps k p = Some ep" by blast
  from p(3) obtain xs ys where q: "Q p = xs @ x # ys" "x \<notin> set xs" by (meson split_list_first)
  have qr: "queue_rep (k_tcbs k) (ep_queue ep) (xs @ x # ys)" using d(1) [OF ep] q by simp
  from queue_remove_rep [OF qr] x(1) obtain m1 q1 where
    m1: "queue_remove (k_tcbs k) (ep_queue ep) x = Ret (m1, q1)" "queue_rep m1 q1 (xs @ ys)"
    "tmem_body m1 = tmem_body (k_tcbs k)" "\<And>z. z \<notin> set (xs @ x # ys) \<Longrightarrow> m1 z = k_tcbs k z"
    "m1 x = Some (tcb_body t)" by force
  have dist: "distinct (xs @ x # ys)" by (rule tq.rep_distinct [OF qr])
  have zs: "remove1 x (Q p) = xs @ ys" using q by (simp add: remove1_append)
  define tx where "tx = (tcb_body t)\<lparr>tstate := Inactive, blocking_object := None\<rparr>"
  define ep2 where "ep2 = (if queue_is_empty q1 then (ep\<lparr>ep_queue := q1\<rparr>)\<lparr>ep_state := EpIdle\<rparr>
      else ep\<lparr>ep_queue := q1\<rparr>)"
  define k' where "k' = k\<lparr>k_tcbs := m1, k_eps := (k_eps k)(p \<mapsto> ep2), k_tcbs := m1(x \<mapsto> tx)\<rparr>"
  have cancel: "cancel_ipc k x = Ret k'"
    using x p(2) ep m1(1,5)
    by (auto simp: cancel_ipc_def waits_def set_state_def k'_def tx_def ep2_def Let_def)
  have nil: "queue_is_empty q1 \<longleftrightarrow> xs @ ys = []" by (rule tq.nil_iff [OF m1(2)])
  have "ipc_rep (m1(x \<mapsto> tx)) ((k_eps k)(p \<mapsto> ep2)) (Q(p := xs @ ys))"
  proof (rule take_out [OF rep ep p(3) m1(2) _ m1(3)])
    show "set (xs @ ys) = set (Q p) - {x}" using q dist by auto
    show "m1 z = k_tcbs k z" if "z \<notin> set (Q p)" for z using m1(4) [of z] that q(1) by simp
    show "\<not> waits tx" "regs_ok tx" using d(5) [OF x(1)] by (simp_all add: tx_def)
    show "ep_queue ep2 = q1" by (simp add: ep2_def)
    show "ep_state ep2 = (if xs @ ys = [] then EpIdle else ep_state ep)"
      using nil by (simp add: ep2_def)
  qed
  then have rep': "ipc_rep (k_tcbs k') (k_eps k') (Q(p := remove1 x (Q p)))"
    by (simp add: k'_def zs)
  have tx': "k_tcbs k' x = Some ((tcb_body t)\<lparr>tstate := Inactive, blocking_object := None\<rparr>)"
    by (simp add: k'_def tx_def)
  have frame: "tmem_body (k_tcbs k') z = tmem_body (k_tcbs k) z" if "z \<noteq> x" for z
    using m1(3) that by (simp add: k'_def tmem_body_def fun_eq_iff)
  have keeps: "k_sched k' = k_sched k" "k_scs k' = k_scs k" by (simp_all add: k'_def)
  show thesis by (rule that [OF p(2,1,3) cancel rep' tx' frame keeps])
qed

lemma cancel_ipc_other:
  assumes rep: "ipc_rep (k_tcbs k) (k_eps k) Q" and x: "k_tcbs k x = Some t" "\<not> waits t"
    and callee: "\<And>c. tstate t = BlockedOnReply \<Longrightarrow> reply_to t = Some c \<Longrightarrow> c \<in> dom (k_tcbs k) \<and> c \<noteq> x"
  obtains k' t' where "cancel_ipc k x = Ret k'" "ipc_rep (k_tcbs k') (k_eps k') Q"
    "k_tcbs k' x = Some t'" "k_sched k' = k_sched k" "k_scs k' = k_scs k"
    "tstate t' = (if tstate t = BlockedOnReply \<or> tstate t = BlockedOnNotification then Inactive else tstate t)"
    "dom (k_tcbs k') = dom (k_tcbs k)"
    "\<forall>z u u'. k_tcbs k z = Some u \<longrightarrow> k_tcbs k' z = Some u' \<longrightarrow>
       sched_context u' = sched_context u \<and> (reply_to u' = reply_to u \<or> reply_to u' = None) \<and>
       (tstate u' = tstate u \<or> tstate u' = Inactive)"
proof -
  consider (notif) "tstate t = BlockedOnNotification" | (reply) "tstate t = BlockedOnReply"
    | (none) "tstate t \<noteq> BlockedOnNotification" "tstate t \<noteq> BlockedOnReply" by blast
  then show thesis
  proof cases
    case notif
    let ?k' = "k\<lparr>k_tcbs := (k_tcbs k)(x \<mapsto> t\<lparr>tstate := Inactive\<rparr>)\<rparr>"
    have "cancel_ipc k x = Ret ?k'" using x notif by (simp add: cancel_ipc_def set_state_def)
    moreover have "ipc_rep (k_tcbs ?k') (k_eps ?k') Q"
      using ipc_rep_free [OF rep x] ipc_repD(5) [OF rep x(1)] by simp
    ultimately show thesis
      by (rule that [of ?k' "t\<lparr>tstate := Inactive\<rparr>"]) (use notif x in \<open>auto split: if_splits\<close>)
  next
    case none
    then have "cancel_ipc k x = Ret k" using x by (simp add: cancel_ipc_def waits_def)
    with rep x none show thesis by (intro that [of k t]) auto
  next
    case reply
    define t' where "t' = t\<lparr>reply_to := None, tstate := Inactive\<rparr>"
    have t': "\<not> waits t'" "regs_ok t'" using ipc_repD(5) [OF rep x(1)] by (simp_all add: t'_def)
    show thesis
    proof (cases "reply_to t")
      case None
      let ?k' = "k\<lparr>k_tcbs := (k_tcbs k)(x \<mapsto> t')\<rparr>"
      have "cancel_ipc k x = Ret ?k'"
        using x reply None by (simp add: cancel_ipc_def set_state_def t'_def)
      moreover have "ipc_rep (k_tcbs ?k') (k_eps ?k') Q" using ipc_rep_free [OF rep x t'] by simp
      ultimately show thesis
        by (rule that [of ?k' t']) (use reply x in \<open>auto simp: t'_def split: if_splits\<close>)
    next
      case (Some c)
      with callee reply obtain tc where c: "k_tcbs k c = Some tc" "c \<noteq> x" by blast
      let ?m1 = "(k_tcbs k)(c \<mapsto> tc\<lparr>caller := None\<rparr>)"
      let ?k' = "k\<lparr>k_tcbs := ?m1(x \<mapsto> t')\<rparr>"
      have "cancel_ipc k x = Ret ?k'"
        using x reply Some c by (simp add: cancel_ipc_def set_state_def t'_def)
      moreover have rep1: "ipc_rep ?m1 (k_eps k) Q"
        using ipc_repD(5) [OF rep c(1)] by (intro ipc_rep_same [OF rep c(1)]) simp_all
      then have "ipc_rep (k_tcbs ?k') (k_eps ?k') Q"
        using ipc_rep_free [OF rep1, of x t t'] x c(2) t' by simp
      ultimately show thesis
        by (rule that [of ?k' t']) (use reply x c in \<open>auto simp: t'_def split: if_splits\<close>)
    qed
  qed
qed

section \<open>Properties\<close>

text \<open>
  A kernel for the witnesses: thread 0x400 runs, thread 0x800 waits to receive on the endpoint
  at 0x9000, and the scheduler of one core is initialised.
\<close>

definition demo_ep :: CapRaw where
  "demo_ep = EndpointCap_mint 0x9000 7 R_SEND"

definition demo_kernel :: "Entry list kernel" where
  "demo_kernel = \<lparr>
     k_tcbs = [0x400 \<mapsto> Tcb_new, 0x800 \<mapsto> Tcb_new\<lparr>tstate := BlockedOnReceive, blocking_object := Some 0x9000\<rparr>],
     k_scs = Map.empty,
     k_eps = [0x9000 \<mapsto> \<lparr>ep_state = EpRecv, ep_queue = \<lparr>head = Some 0x800, tail = Some 0x800\<rparr>\<rparr>],
     k_sched = fst (init_scheduler list_heap 0 OnceLock_new [])\<rparr>"

definition demo_Q :: "ptr \<Rightarrow> ptr list" where
  "demo_Q = (\<lambda>_. [])(0x9000 := [0x800])"

lemma demo_ep_addr [simp]: "paddr demo_ep = 0x9000"
  by (simp add: demo_ep_def EndpointCap_mint_def Let_def)

lemma demo_kernel_rep: "ipc_rep (k_tcbs demo_kernel) (k_eps demo_kernel) demo_Q"
  by (auto simp: ipc_rep_def demo_kernel_def demo_Q_def queue_rep_def waits_at_def waits_def Tcb_new_def
      TrapFrame_new_def regs_ok_def split: if_splits)

lemma demo_kernel_core: "core_ok 0 demo_kernel"
  by (simp add: core_ok_def demo_kernel_def init_scheduler_new OnceLock_get_def PerCore_get_mut_def
      get_unsafe_def fresh_cores_def cpuid_def sysinfo_def)

text \<open>
  Claim C5. \<open>send_ipc\<close> (release build) keeps the endpoint invariant and does the right thing
  in each state of the endpoint. With a receiver waiting, the longest waiting one gets the
  sender's first four registers and leaves the queue, and a caller is blocked on the reply or
  made inactive; the scheduler is not changed, so the receiver, now inactive, is in no ready
  queue. Otherwise a blocking send appends the sender to the queue with its badge and flags,
  and a non-blocking send changes nothing.
\<close>

theorem send_ipc_correct:
  assumes E: "ext_ok E" "paddr cap < 0x10000000000000"
    and rep: "ipc_rep (k_tcbs k) (k_eps k) Q"
    and ep: "k_eps k (paddr cap) = Some ep"
    and s: "k_tcbs k s = Some ts" "\<not> waits ts" and core: "core_ok ebx k"
  shows "\<exists>k' Q'. send_ipc False E H ebx k blocking do_call bdg cg cgr s cap = Ret (Inr (), k') \<and>
    ipc_rep (k_tcbs k') (k_eps k') Q' \<and> k_sched k' = k_sched k \<and>
    (ep_state ep = EpRecv \<longrightarrow> (\<exists>r tr'. Q (paddr cap) = r # Q' (paddr cap) \<and> k_tcbs k' r = Some tr' \<and>
       take 4 (registers (ctx tr')) = take 4 (registers (ctx ts)) \<and> tstate tr' = wake_state k \<and>
       (do_call \<and> (cg \<or> cgr) \<longrightarrow> caller tr' = Some s) \<and>
       k_tcbs k' s = Some (sent do_call (cg \<or> cgr) r ts))) \<and>
    (ep_state ep \<noteq> EpRecv \<and> blocking \<longrightarrow> Q' = Q(paddr cap := Q (paddr cap) @ [s]) \<and>
       (\<exists>ts'. k_tcbs k' s = Some ts' \<and> tstate ts' = BlockedOnSend \<and> badge (ipc_state ts') = bdg)) \<and>
    (ep_state ep \<noteq> EpRecv \<and> \<not> blocking \<longrightarrow> k' = k)"
proof -
  consider (recv) "ep_state ep = EpRecv" | (block) "ep_state ep \<noteq> EpRecv" blocking
    | (skip) "ep_state ep \<noteq> EpRecv" "\<not> blocking" by blast
  then show ?thesis
  proof cases
    case recv
    from send_ipc_recv [OF E rep ep recv s core] obtain r rs k' tr tr' where
      k': "Q (paddr cap) = r # rs" "k_tcbs k r = Some tr"
      "send_ipc False E H ebx k blocking do_call bdg cg cgr s cap = Ret (Inr (), k')"
      "ipc_rep (k_tcbs k') (k_eps k') (Q(paddr cap := rs))"
      "tr' = (if do_call \<and> (cg \<or> cgr) then (received ts (tcb_body tr))\<lparr>caller := Some s\<rparr>
            else received ts (tcb_body tr))\<lparr>tstate := wake_state k\<rparr>"
      "k_tcbs k' r = Some tr'" "k_tcbs k' s = Some (sent do_call (cg \<or> cgr) r ts)"
      "k_sched k' = k_sched k" by metis
    have "length (registers (ctx ts)) = 15" using ipc_repD(5) [OF rep s(1)]
      by (simp add: regs_ok_def mr_consts)
    then have "take 4 (registers (ctx tr')) = take 4 (registers (ctx ts))"
      by (simp add: k'(5) received_def)
    moreover have "tstate tr' = wake_state k" "do_call \<and> (cg \<or> cgr) \<longrightarrow> caller tr' = Some s"
      by (simp_all add: k'(5))
    ultimately show ?thesis
      using k'(1,3,4,6,7,8) recv
      by (intro exI [of _ k'] exI [of _ "Q(paddr cap := rs)"]) auto
  next
    case block
    from send_ipc_block [OF E rep ep block(1) s] obtain k' where
      k': "send_ipc False E H ebx k True do_call bdg cg cgr s cap = Ret (Inr (), k')"
      "ipc_rep (k_tcbs k') (k_eps k') (Q(paddr cap := Q (paddr cap) @ [s]))"
      "tmem_body (k_tcbs k') = tmem_body ((k_tcbs k)(s \<mapsto>
         ts\<lparr>ipc_state := \<lparr>badge = bdg, can_grant = cg, can_grant_reply = cgr, is_call = do_call\<rparr>,
            tstate := BlockedOnSend, blocking_object := Some (paddr cap)\<rparr>))"
      "k_sched k' = k_sched k" by metis
    from fun_cong [OF k'(3), of s] obtain t' where t': "k_tcbs k' s = Some t'"
      "tcb_body t' = tcb_body (ts\<lparr>ipc_state := \<lparr>badge = bdg, can_grant = cg, can_grant_reply = cgr,
         is_call = do_call\<rparr>, tstate := BlockedOnSend, blocking_object := Some (paddr cap)\<rparr>)"
      by (auto simp: tmem_body_def)
    note f = tcb_body_fields [OF t'(2)]
    have "tstate t' = BlockedOnSend" "badge (ipc_state t') = bdg" using f by simp_all
    with k' t'(1) block show ?thesis
      by (intro exI [of _ k'] exI [of _ "Q(paddr cap := Q (paddr cap) @ [s])"]) simp
  next
    case skip
    then have "send_ipc False E H ebx k blocking do_call bdg cg cgr s cap = Ret (Inr (), k)"
      using ep_object_Ret [OF E ep] by (cases "ep_state ep") (simp_all add: send_ipc_def)
    with rep skip show ?thesis by (intro exI [of _ k] exI [of _ Q]) simp
  qed
qed

theorem send_ipc_correct_witness:
  "\<exists>k' t. send_ipc False ext_doc list_heap 0 demo_kernel True False 7 False False 0x400 demo_ep = Ret (Inr (), k')
     \<and> k_tcbs k' 0x800 = Some t \<and> tstate t = Inactive \<and> k_sched k' = k_sched demo_kernel"
proof -
  have "wake_state demo_kernel = Inactive"
    by (simp add: wake_state_def demo_kernel_def init_scheduler_new OnceLock_get_def)
  moreover have "demo_Q 0x9000 = [0x800]" by (simp add: demo_Q_def)
  ultimately show ?thesis
    using send_ipc_correct [of ext_doc demo_ep demo_kernel demo_Q
        "\<lparr>ep_state = EpRecv, ep_queue = \<lparr>head = Some 0x800, tail = Some 0x800\<rparr>\<rparr>" "0x400" Tcb_new 0
        list_heap True False 7 False False]
      demo_kernel_rep demo_kernel_core
    by (auto simp: demo_kernel_def waits_def Tcb_new_def)
qed

text \<open>
  Claim C17. \<open>receive_ipc\<close> (release build) keeps the endpoint invariant. With a sender
  waiting, the longest waiting one leaves the queue, its first four registers arrive, and it is
  blocked on the reply when it made a call that may be answered, otherwise made inactive; the
  scheduler is not changed. Otherwise a blocking receive appends the receiver to the queue, and
  a non-blocking one only sets the first register of the receiver to 0.
\<close>

theorem receive_ipc_correct:
  assumes E: "ext_ok E" "paddr cap < 0x10000000000000"
    and rep: "ipc_rep (k_tcbs k) (k_eps k) Q"
    and ep: "k_eps k (paddr cap) = Some ep"
    and r: "k_tcbs k r = Some tr" "\<not> waits tr" and core: "core_ok ebx k"
  shows "\<exists>k' Q'. receive_ipc False E H ebx k r cap is_blocking = Ret (Inr (), k') \<and>
    ipc_rep (k_tcbs k') (k_eps k') Q' \<and> k_sched k' = k_sched k \<and>
    (ep_state ep = EpSend \<longrightarrow> (\<exists>s ts tr'. Q (paddr cap) = s # Q' (paddr cap) \<and> k_tcbs k s = Some ts \<and>
       k_tcbs k' r = Some tr' \<and> take 4 (registers (ctx tr')) = take 4 (registers (ctx ts)) \<and>
       k_tcbs k' s = Some (taken r (tcb_body ts)))) \<and>
    (ep_state ep \<noteq> EpSend \<and> is_blocking \<longrightarrow> Q' = Q(paddr cap := Q (paddr cap) @ [r])) \<and>
    (ep_state ep \<noteq> EpSend \<and> \<not> is_blocking \<longrightarrow>
       k' = k\<lparr>k_tcbs := (k_tcbs k)(r \<mapsto> with_reg tr 0 0)\<rparr>)"
proof -
  have regs: "regs_ok tr" by (rule ipc_repD(5) [OF rep r(1)])
  consider (send) "ep_state ep = EpSend" | (block) "ep_state ep \<noteq> EpSend" is_blocking
    | (poll) "ep_state ep \<noteq> EpSend" "\<not> is_blocking" by blast
  then show ?thesis
  proof cases
    case send
    from receive_ipc_send [OF E rep ep send r core] obtain s ss k' ts tr' where
      k': "Q (paddr cap) = s # ss" "k_tcbs k s = Some ts"
      "receive_ipc False E H ebx k r cap is_blocking = Ret (Inr (), k')"
      "ipc_rep (k_tcbs k') (k_eps k') (Q(paddr cap := ss))"
      "tr' = (if tstate (taken r ts) = BlockedOnReply then (received ts tr)\<lparr>caller := Some s\<rparr>
            else received ts tr)"
      "k_tcbs k' r = Some tr'" "k_tcbs k' s = Some (taken r (tcb_body ts))"
      "k_sched k' = k_sched k" by metis
    have "length (registers (ctx ts)) = 15" using ipc_repD(5) [OF rep k'(2)]
      by (simp add: regs_ok_def mr_consts)
    then have "take 4 (registers (ctx tr')) = take 4 (registers (ctx ts))"
      by (simp add: k'(5) received_def)
    with k'(1,2,3,4,6,7,8) send show ?thesis
      by (intro exI [of _ k'] exI [of _ "Q(paddr cap := ss)"]) auto
  next
    case block
    from receive_ipc_block [OF E rep ep block(1) r] obtain k' where
      "receive_ipc False E H ebx k r cap True = Ret (Inr (), k')"
      "ipc_rep (k_tcbs k') (k_eps k') (Q(paddr cap := Q (paddr cap) @ [r]))"
      "k_sched k' = k_sched k" by metis
    with block show ?thesis
      by (intro exI [of _ k'] exI [of _ "Q(paddr cap := Q (paddr cap) @ [r])"]) simp
  next
    case poll
    let ?k' = "k\<lparr>k_tcbs := (k_tcbs k)(r \<mapsto> with_reg tr 0 0)\<rparr>"
    have "do_nb_recv_failed_transfer False (k_tcbs k) r = Ret ((k_tcbs k)(r \<mapsto> with_reg tr 0 0))"
      using set_mr_at_Ret [where m = "k_tcbs k", OF r(1) regs, of MR1 0] by (simp add: do_nb_recv_failed_transfer_def mr_consts)
    then have "receive_ipc False E H ebx k r cap is_blocking = Ret (Inr (), ?k')"
      using poll ep_object_Ret [OF E ep] by (cases "ep_state ep") (simp_all add: receive_ipc_def)
    moreover have "ipc_rep (k_tcbs ?k') (k_eps ?k') Q"
    proof -
      have "\<not> waits (with_reg tr 0 0)" using r(2) by (simp add: with_reg_def waits_def)
      then show ?thesis using ipc_rep_free [OF rep r, of "with_reg tr 0 0"] regs by simp
    qed
    ultimately show ?thesis using poll by (intro exI [of _ ?k'] exI [of _ Q]) simp
  qed
qed

theorem receive_ipc_correct_witness:
  "\<exists>k'. receive_ipc False ext_doc list_heap 0 demo_kernel 0x400 demo_ep True = Ret (Inr (), k') \<and>
     ipc_rep (k_tcbs k') (k_eps k') (demo_Q(0x9000 := [0x800, 0x400]))"
  using receive_ipc_correct [of ext_doc demo_ep demo_kernel demo_Q
      "\<lparr>ep_state = EpRecv, ep_queue = \<lparr>head = Some 0x800, tail = Some 0x800\<rparr>\<rparr>" "0x400" Tcb_new 0
      list_heap True]
    demo_kernel_rep demo_kernel_core
  by (auto simp: demo_kernel_def waits_def Tcb_new_def demo_Q_def)

text \<open>
  In a debug build every operation that would deliver a message panics, because the
  badge goes to message register 0, whose index the debug assertion rejects: a send that meets
  a waiting receiver, a receive that meets a waiting sender, and a non-blocking receive that
  finds nobody.
\<close>

theorem ipc_debug_panics:
  assumes E: "ext_ok E" "paddr cap < 0x10000000000000"
    and rep: "ipc_rep (k_tcbs k) (k_eps k) Q" and ep: "k_eps k (paddr cap) = Some ep"
    and t: "k_tcbs k x = Some t" "\<not> waits t"
  shows "(ep_state ep = EpRecv \<longrightarrow> send_ipc True E H ebx k blocking do_call bdg cg cgr x cap = Panic) \<and>
    (ep_state ep = EpSend \<longrightarrow> receive_ipc True E H ebx k x cap blocking = Panic) \<and>
    (ep_state ep = EpIdle \<longrightarrow> receive_ipc True E H ebx k x cap False = Panic)"
proof (intro conjI impI)
  assume st: "ep_state ep = EpRecv"
  then obtain r rs where q: "Q (paddr cap) = r # rs"
    using ipc_repD(2) [OF rep ep] by (cases "Q (paddr cap)") auto
  from rendezvous [OF rep ep q t] obtain m1 q1 tr where
    "dequeue_head (k_tcbs k) (ep_queue ep) = Ret (Some r, m1, q1)" "m1 r = Some (tcb_body tr)" by metis
  with st ep_object_Ret [OF E ep] show "send_ipc True E H ebx k blocking do_call bdg cg cgr x cap = Panic"
    by (simp add: send_ipc_def do_ipc_transfer_debug)
next
  assume st: "ep_state ep = EpSend"
  then obtain s ss where q: "Q (paddr cap) = s # ss"
    using ipc_repD(2) [OF rep ep] by (cases "Q (paddr cap)") auto
  from rendezvous [OF rep ep q t] obtain m1 q1 ts where
    "dequeue_head (k_tcbs k) (ep_queue ep) = Ret (Some s, m1, q1)" "m1 s = Some (tcb_body ts)"
    "m1 x = Some t" by metis
  with st ep_object_Ret [OF E ep] show "receive_ipc True E H ebx k x cap blocking = Panic"
    by (simp add: receive_ipc_def do_ipc_transfer_debug)
next
  assume "ep_state ep = EpIdle"
  with t(1) ep_object_Ret [OF E ep] show "receive_ipc True E H ebx k x cap False = Panic"
    by (simp add: receive_ipc_def do_nb_recv_failed_transfer_def set_mr_at_def set_mr_def
        TrapFrame_set_mr_def mr_consts)
qed

theorem ipc_debug_panics_witness:
  "send_ipc True ext_doc list_heap 0 demo_kernel True False 7 False False 0x400 demo_ep = Panic"
  using ipc_debug_panics [of ext_doc demo_ep demo_kernel demo_Q
      "\<lparr>ep_state = EpRecv, ep_queue = \<lparr>head = Some 0x800, tail = Some 0x800\<rparr>\<rparr>" "0x400" Tcb_new
      list_heap 0 True False 7 False False]
    demo_kernel_rep
  by (auto simp: demo_kernel_def waits_def Tcb_new_def)

text \<open>
  Claim C31. \<open>cancel_ipc\<close> on a thread that waits on an endpoint takes exactly this thread out
  of the queue, leaves it inactive, unlinked and blocked on nothing, and keeps the endpoint
  invariant: the order of the others stays, and the endpoint becomes idle when nobody is left.
\<close>

theorem cancel_ipc_correct:
  assumes "ipc_rep (k_tcbs k) (k_eps k) Q" "k_tcbs k x = Some t" "waits t"
  shows "\<exists>p k'. blocking_object t = Some p \<and> x \<in> set (Q p) \<and> cancel_ipc k x = Ret k' \<and>
    ipc_rep (k_tcbs k') (k_eps k') (Q(p := remove1 x (Q p))) \<and>
    k_tcbs k' x = Some ((tcb_body t)\<lparr>tstate := Inactive, blocking_object := None\<rparr>) \<and>
    (\<forall>z. z \<noteq> x \<longrightarrow> tmem_body (k_tcbs k') z = tmem_body (k_tcbs k) z)"
proof -
  from cancel_ipc_waiting [OF assms] obtain p k' where
    "blocking_object t = Some p" "x \<in> set (Q p)" "cancel_ipc k x = Ret k'"
    "ipc_rep (k_tcbs k') (k_eps k') (Q(p := remove1 x (Q p)))"
    "k_tcbs k' x = Some ((tcb_body t)\<lparr>tstate := Inactive, blocking_object := None\<rparr>)"
    "\<And>z. z \<noteq> x \<Longrightarrow> tmem_body (k_tcbs k') z = tmem_body (k_tcbs k) z" by metis
  then show ?thesis by blast
qed

theorem cancel_ipc_correct_witness:
  "\<exists>k'. cancel_ipc demo_kernel 0x800 = Ret k' \<and>
     ipc_rep (k_tcbs k') (k_eps k') (demo_Q(0x9000 := []))"
  using cancel_ipc_correct [OF demo_kernel_rep, of "0x800"
      "Tcb_new\<lparr>tstate := BlockedOnReceive, blocking_object := Some 0x9000\<rparr>"]
  by (auto simp: demo_kernel_def waits_def demo_Q_def)

end
