(* ===== verification/Frames.thy ===== *)
theory Frames
  imports Threads
begin

text \<open>
  Mapping attributes (the first part of \<open>vspace.rs\<close>) and frame capabilities
  (\<open>objects/frame.rs\<close>): page sizes, cache policies, and the packing of size, device flag,
  cache policy and mapping record into the two argument words of a capability.
\<close>

section \<open>Mapping attributes\<close>

definition PAGE_SIZE_4K :: usize where "PAGE_SIZE_4K = 4096"
definition PAGE_SIZE_2M :: usize where "PAGE_SIZE_2M = 2 * 1024 * 1024"
definition PAGE_SIZE_1G :: usize where "PAGE_SIZE_1G = 1024 * 1024 * 1024"
definition PAGE_BITS_4K :: nat where "PAGE_BITS_4K = 12"
definition PAGE_BITS_2M :: nat where "PAGE_BITS_2M = 21"
definition PAGE_BITS_1G :: nat where "PAGE_BITS_1G = 30"
definition ENTRIES_PER_TABLE :: nat where "ENTRIES_PER_TABLE = 512"
definition ENTRIES_BITS :: nat where "ENTRIES_BITS = 9"

type_synonym VMRights = u8

definition VM_NONE :: VMRights where "VM_NONE = 0x0"
definition VM_READ :: VMRights where "VM_READ = 0x1"
definition VM_WRITE :: VMRights where "VM_WRITE = 0x2"
definition VM_EXECUTE :: VMRights where "VM_EXECUTE = 0x4"
definition VM_KERNEL :: VMRights where "VM_KERNEL = 0x8"
definition VM_RW :: VMRights where "VM_RW = VM_READ OR VM_WRITE"
definition VM_RX :: VMRights where "VM_RX = VM_READ OR VM_EXECUTE"
definition VM_RWX :: VMRights where "VM_RWX = VM_READ OR VM_WRITE OR VM_EXECUTE"

datatype CachePolicy = WriteBack | WriteThrough | Uncacheable | WriteCombining

fun CachePolicy_code :: "CachePolicy \<Rightarrow> usize" where
  "CachePolicy_code WriteBack = 0"
| "CachePolicy_code WriteThrough = 1"
| "CachePolicy_code Uncacheable = 2"
| "CachePolicy_code WriteCombining = 3"

record VMAttributes =
  vm_rights :: VMRights
  vm_cache :: CachePolicy
  vm_global :: bool
  vm_user :: bool

definition VMAttributes_default :: VMAttributes where
  "VMAttributes_default = \<lparr>vm_rights = VM_RW, vm_cache = WriteBack, vm_global = False, vm_user = True\<rparr>"

definition VMAttributes_kernel :: "VMRights \<Rightarrow> VMAttributes" where
  "VMAttributes_kernel r = \<lparr>vm_rights = r, vm_cache = WriteBack, vm_global = True, vm_user = False\<rparr>"

definition VMAttributes_user :: "VMRights \<Rightarrow> VMAttributes" where
  "VMAttributes_user r = \<lparr>vm_rights = r, vm_cache = WriteBack, vm_global = False, vm_user = True\<rparr>"

definition VMAttributes_device :: VMAttributes where
  "VMAttributes_device = \<lparr>vm_rights = VM_RW, vm_cache = Uncacheable, vm_global = False, vm_user = False\<rparr>"

section \<open>Frame sizes\<close>

datatype FrameSize = Small | Large | Huge

fun FrameSize_bits :: "FrameSize \<Rightarrow> usize" where
  "FrameSize_bits Small = 12"
| "FrameSize_bits Large = 21"
| "FrameSize_bits Huge = 30"

definition FrameSize_bytes :: "FrameSize \<Rightarrow> usize" where
  "FrameSize_bytes s = push_bit (unat (FrameSize_bits s)) 1"

definition FrameSize_from_bits :: "usize \<Rightarrow> FrameSize option" where
  "FrameSize_from_bits bits =
     (if bits = 12 then Some Small else if bits = 21 then Some Large
      else if bits = 30 then Some Huge else None)"

definition align_mask :: "FrameSize \<Rightarrow> usize" where
  "align_mask s = FrameSize_bytes s - 1"

definition is_aligned :: "FrameSize \<Rightarrow> usize \<Rightarrow> bool" where
  "is_aligned s addr \<longleftrightarrow> addr AND align_mask s = 0"

section \<open>Frame capabilities\<close>

definition CACHE_POLICY_OFFSET :: nat where "CACHE_POLICY_OFFSET = 7"
definition CACHE_POLICY_WIDTH :: nat where "CACHE_POLICY_WIDTH = 3"
definition IS_DEVICE_OFFSET :: nat where "IS_DEVICE_OFFSET = 6"
definition MAPPED_ASID_OFFSET :: nat where "MAPPED_ASID_OFFSET = 10"
definition MAPPED_ASID_WIDTH :: nat where "MAPPED_ASID_WIDTH = 16"
definition SIZE_BITS_OFFSET :: nat where "SIZE_BITS_OFFSET = 0"
definition SIZE_BITS_WIDTH :: nat where "SIZE_BITS_WIDTH = 6"

definition mint_with_cache :: "usize \<Rightarrow> FrameSize \<Rightarrow> bool \<Rightarrow> CachePolicy \<Rightarrow> CapRights \<Rightarrow> CapRaw" where
  "mint_with_cache addr sz dev cache rts =
     (let a1 = push_bit SIZE_BITS_OFFSET (FrameSize_bits sz)
             OR push_bit IS_DEVICE_OFFSET (bool_usize dev)
             OR push_bit CACHE_POLICY_OFFSET (CachePolicy_code cache) in
      (default_with_type Frame)\<lparr>paddr := addr, arg1 := a1, arg2 := 0, rights := rts\<rparr>)"

definition FrameCap_mint :: "bool \<Rightarrow> usize \<Rightarrow> FrameSize \<Rightarrow> bool \<Rightarrow> CapRights \<Rightarrow> CapRaw outcome" where
  "FrameCap_mint dbg addr sz dev rts =
     obind (debug_assert dbg (addr AND (push_bit (unat (FrameSize_bits sz)) 1 - 1) = 0)) (\<lambda>_.
       let cache = (if dev then CachePolicy_code Uncacheable else CachePolicy_code WriteBack);
           a1 = push_bit SIZE_BITS_OFFSET (FrameSize_bits sz)
             OR push_bit IS_DEVICE_OFFSET (bool_usize dev)
             OR push_bit CACHE_POLICY_OFFSET cache in
       Ret ((default_with_type Frame)\<lparr>paddr := addr, arg1 := a1, arg2 := 0, rights := rts\<rparr>))"

definition FrameCap_size :: "CapRaw \<Rightarrow> FrameSize" where
  "FrameCap_size raw =
     (let bits = drop_bit SIZE_BITS_OFFSET (arg1 raw) AND kmask SIZE_BITS_WIDTH in
      case FrameSize_from_bits bits of Some s \<Rightarrow> s | None \<Rightarrow> Small)"

definition size_bytes :: "CapRaw \<Rightarrow> usize" where
  "size_bytes raw = FrameSize_bytes (FrameCap_size raw)"

definition size_bits :: "CapRaw \<Rightarrow> usize" where
  "size_bits raw = FrameSize_bits (FrameCap_size raw)"

definition FrameCap_is_device :: "CapRaw \<Rightarrow> bool" where
  "FrameCap_is_device raw \<longleftrightarrow> drop_bit IS_DEVICE_OFFSET (arg1 raw) AND 1 \<noteq> 0"

definition cache_policy :: "CapRaw \<Rightarrow> CachePolicy" where
  "cache_policy raw =
     (let policy = drop_bit CACHE_POLICY_OFFSET (arg1 raw) AND kmask CACHE_POLICY_WIDTH in
      if policy = 0 then WriteBack else if policy = 1 then WriteThrough
      else if policy = 2 then Uncacheable else if policy = 3 then WriteCombining
      else WriteBack)"

definition set_cache_policy :: "cstore \<Rightarrow> ptr \<Rightarrow> CachePolicy \<Rightarrow> cstore outcome" where
  "set_cache_policy st self policy =
     obind (entry_get st self) (\<lambda>raw.
       entry_set st self (raw\<lparr>arg1 :=
         (arg1 raw AND NOT (push_bit CACHE_POLICY_OFFSET (kmask CACHE_POLICY_WIDTH)))
         OR push_bit CACHE_POLICY_OFFSET (CachePolicy_code policy)\<rparr>))"

definition mapped_asid :: "CapRaw \<Rightarrow> u16" where
  "mapped_asid raw = ucast (drop_bit MAPPED_ASID_OFFSET (arg1 raw) AND kmask MAPPED_ASID_WIDTH)"

definition mapped_vaddr :: "CapRaw \<Rightarrow> usize" where
  "mapped_vaddr raw = arg2 raw"

definition is_mapped :: "CapRaw \<Rightarrow> bool" where
  "is_mapped raw \<longleftrightarrow> mapped_asid raw \<noteq> 0"

definition set_mapped :: "cstore \<Rightarrow> ptr \<Rightarrow> u16 \<Rightarrow> usize \<Rightarrow> ((SysError + unit) \<times> cstore) outcome" where
  "set_mapped st self asid vaddr =
     obind (entry_get st self) (\<lambda>raw.
       if is_mapped raw then Ret (Inl FrameAlreadyMapped, st)
       else obind (entry_set st self (raw\<lparr>
              arg1 := (arg1 raw AND NOT (push_bit MAPPED_ASID_OFFSET (kmask MAPPED_ASID_WIDTH)))
                OR push_bit MAPPED_ASID_OFFSET (ucast asid),
              arg2 := vaddr\<rparr>)) (\<lambda>st'. Ret (Inr (), st')))"

definition clear_mapped :: "cstore \<Rightarrow> ptr \<Rightarrow> cstore outcome" where
  "clear_mapped st self =
     obind (entry_get st self) (\<lambda>raw.
       entry_set st self (raw\<lparr>
         arg1 := arg1 raw AND NOT (push_bit MAPPED_ASID_OFFSET (kmask MAPPED_ASID_WIDTH)),
         arg2 := 0\<rparr>))"

definition vm_rights_from_cap :: "ext \<Rightarrow> CapRaw \<Rightarrow> VMRights" where
  "vm_rights_from_cap E raw =
     (let cap_rights = CapRef_rights raw;
          r0 = VM_NONE;
          r1 = (if flags_contains E cap_rights R_READ then flags_union E r0 VM_READ else r0);
          r2 = (if flags_contains E cap_rights R_WRITE then flags_union E r1 VM_WRITE else r1);
          r3 = (if flags_contains E cap_rights R_EXECUTE then flags_union E r2 VM_EXECUTE else r2) in
      r3)"

definition vm_attributes :: "ext \<Rightarrow> CapRaw \<Rightarrow> bool \<Rightarrow> VMAttributes" where
  "vm_attributes E raw usr =
     \<lparr>vm_rights = vm_rights_from_cap E raw, vm_cache = cache_policy raw, vm_global = False, vm_user = usr\<rparr>"

definition FrameCap_identify :: "bool \<Rightarrow> ext \<Rightarrow> CapRaw \<Rightarrow> Tcb \<Rightarrow> (Tcb \<times> usize) outcome" where
  "FrameCap_identify dbg E raw tcb =
     obind (set_mr dbg tcb MR1 (ObjType_code (CapRef_cap_type KFrameObj))) (\<lambda>t1.
     obind (CapRef_paddr E raw) (\<lambda>a.
     obind (set_mr dbg t1 MR2 a) (\<lambda>t2.
     obind (set_mr dbg t2 MR3 (size_bits raw)) (\<lambda>t3.
     obind (set_mr dbg t3 MR4 (bool_usize (FrameCap_is_device raw))) (\<lambda>t4.
     obind (set_mr dbg t4 MR5 (mapped_vaddr raw)) (\<lambda>t5.
     obind (set_mr dbg t5 MR6 (ucast (mapped_asid raw))) (\<lambda>t6. Ret (t6, 6))))))))"

section \<open>Lemmas\<close>

lemmas frame_consts = CACHE_POLICY_OFFSET_def CACHE_POLICY_WIDTH_def IS_DEVICE_OFFSET_def
  MAPPED_ASID_OFFSET_def MAPPED_ASID_WIDTH_def SIZE_BITS_OFFSET_def SIZE_BITS_WIDTH_def

lemmas vm_rights_consts = VM_NONE_def VM_READ_def VM_WRITE_def VM_EXECUTE_def VM_KERNEL_def
  VM_RW_def VM_RX_def VM_RWX_def

lemma and_mask_dvd: "x AND mask n = 0 \<longleftrightarrow> 2 ^ n dvd unat x" for x :: "'a::len word"
proof -
  have "unat (x AND mask n) = take_bit n (unat x)"
    by (simp only: take_bit_eq_mask [symmetric] unsigned_take_bit_eq)
  then have "unat (x AND mask n) = unat x mod 2 ^ n" by (simp only: take_bit_eq_mod)
  then show ?thesis by (simp only: unat_eq_zero [symmetric] mod_eq_0_iff_dvd)
qed

lemma exp_minus_one_mask: "push_bit n 1 - 1 = (mask n :: 'a::len word)"
  by (simp add: mask_eq_exp_minus_1 push_bit_eq_mult)

lemma is_aligned_dvd: "is_aligned s addr \<longleftrightarrow> 2 ^ unat (FrameSize_bits s) dvd unat addr"
  by (simp only: is_aligned_def align_mask_def FrameSize_bytes_def exp_minus_one_mask and_mask_dvd)

text \<open>The fields of the first argument word.\<close>

lemma frame_fields:
  "drop_bit SIZE_BITS_OFFSET x AND kmask SIZE_BITS_WIDTH = field_get 0 6 x"
  "drop_bit IS_DEVICE_OFFSET x AND 1 = field_get 6 1 x"
  "drop_bit CACHE_POLICY_OFFSET x AND kmask CACHE_POLICY_WIDTH = field_get 7 3 x"
  "drop_bit MAPPED_ASID_OFFSET x AND kmask MAPPED_ASID_WIDTH = field_get 10 16 x"
  for x :: usize
  by (simp_all add: frame_consts field_get_def kmask_eq)

lemma frame_reads:
  "FrameCap_size raw = (case FrameSize_from_bits (field_get 0 6 (arg1 raw)) of Some s \<Rightarrow> s | None \<Rightarrow> Small)"
  "FrameCap_is_device raw \<longleftrightarrow> field_get 6 1 (arg1 raw) \<noteq> 0"
  "mapped_asid raw = ucast (field_get 10 16 (arg1 raw))"
  by (simp_all only: FrameCap_size_def FrameCap_is_device_def mapped_asid_def frame_fields Let_def)

lemma cache_policy_read:
  "cache_policy raw = (let p = field_get 7 3 (arg1 raw) in
     if p = 0 then WriteBack else if p = 1 then WriteThrough else if p = 2 then Uncacheable
     else if p = 3 then WriteCombining else WriteBack)"
  by (simp only: cache_policy_def frame_fields)

lemma frame_reads_cong:
  assumes "field_get 0 6 (arg1 r) = field_get 0 6 (arg1 r')"
  shows "FrameCap_size r = FrameCap_size r'"
  using assms by (simp only: frame_reads)

lemma mint_reads:
  "FrameCap_size (mint_with_cache addr sz dev c rts) = sz"
  "FrameCap_is_device (mint_with_cache addr sz dev c rts) = dev"
  "cache_policy (mint_with_cache addr sz dev c rts) = c"
  "mapped_asid (mint_with_cache addr sz dev c rts) = 0"
proof -
  have "arg1 (mint_with_cache addr sz dev c rts) =
      FrameSize_bits sz OR push_bit 6 (bool_usize dev) OR push_bit 7 (CachePolicy_code c)"
    by (simp add: mint_with_cache_def frame_consts Let_def)
  note a = this
  show "FrameCap_size (mint_with_cache addr sz dev c rts) = sz"
    unfolding FrameCap_size_def a frame_consts kmask_eq
    by (cases sz; cases dev; cases c) (simp_all add: FrameSize_from_bits_def mask_numeral)
  show "FrameCap_is_device (mint_with_cache addr sz dev c rts) = dev"
    unfolding FrameCap_is_device_def a frame_consts
    by (cases sz; cases dev; cases c) simp_all
  show "cache_policy (mint_with_cache addr sz dev c rts) = c"
    unfolding cache_policy_def a frame_consts kmask_eq
    by (cases sz; cases dev; cases c) (simp_all add: mask_numeral)
  show "mapped_asid (mint_with_cache addr sz dev c rts) = 0"
    unfolding mapped_asid_def a frame_consts kmask_eq
    by (cases sz; cases dev; cases c) (simp_all add: mask_numeral)
qed

lemma ucast16_small: "(ucast (a :: u16) :: usize) AND mask 16 = ucast a"
  by (rule bit_word_eqI) (auto simp: bit_simps dest: bit_imp_le_length)

lemma ucast16_back: "ucast (ucast (a :: u16) :: usize) = a"
  by (rule bit_word_eqI) (auto simp: bit_simps)

lemma ucast16_zero:
  fixes x :: usize
  assumes "x AND mask 16 = x" "ucast x = (0 :: u16)"
  shows "x = 0"
proof (rule bit_word_eqI)
  fix n
  have "bit (ucast x :: u16) n \<longleftrightarrow> n < 16 \<and> bit x n" by (simp add: bit_simps)
  with assms(2) small_bit_bound [OF assms(1), of n] show "bit x n \<longleftrightarrow> bit 0 n" by auto
qed

lemma policy_small: "CachePolicy_code c AND mask 3 = CachePolicy_code c"
  by (cases c) (simp_all add: mask_numeral)

lemma cache_policy_code: "field_get 7 3 (arg1 raw) = CachePolicy_code c \<Longrightarrow> cache_policy raw = c"
  by (cases c) (simp_all add: cache_policy_read)

text \<open>Writing the mapping record or the cache policy is writing a field.\<close>

lemma set_mapped_eq:
  assumes "st p = Some raw"
  shows "set_mapped st p asid v = (if is_mapped raw then Ret (Inl FrameAlreadyMapped, st)
    else Ret (Inr (), st(p \<mapsto> raw\<lparr>arg1 := field_set 10 16 (ucast asid) (arg1 raw), arg2 := v\<rparr>)))"
  using assms by (simp add: set_mapped_def entry_get_def entry_set_def field_set_def frame_consts kmask_eq)

lemma clear_mapped_eq:
  assumes "st p = Some raw"
  shows "clear_mapped st p = Ret (st(p \<mapsto> raw\<lparr>arg1 := field_set 10 16 0 (arg1 raw), arg2 := 0\<rparr>))"
  using assms by (simp add: clear_mapped_def entry_get_def entry_set_def field_set_def frame_consts kmask_eq)

lemma set_cache_policy_eq:
  assumes "st p = Some raw"
  shows "set_cache_policy st p c = Ret (st(p \<mapsto> raw\<lparr>arg1 := field_set 7 3 (CachePolicy_code c) (arg1 raw)\<rparr>))"
  using assms by (simp add: set_cache_policy_def entry_get_def entry_set_def field_set_def frame_consts kmask_eq)

lemma field_set_twice:
  fixes x v w :: "'a::len word"
  assumes "v AND mask n = v" "field_get off n x = w" "w AND mask n = w" "off + n \<le> LENGTH('a)"
  shows "field_set off n w (field_set off n v x) = x"
proof (rule bit_word_eqI)
  fix i assume i: "i < LENGTH('a)"
  have "bit w (i - off) \<longleftrightarrow> bit x i" if "off \<le> i" "i - off < n"
    using that assms(2) bit_field_get [of off n x "i - off"] by auto
  then show "bit (field_set off n w (field_set off n v x)) i = bit x i"
    using i assms(4) small_bit_bound [OF assms(1), of "i - off"] small_bit_bound [OF assms(3), of "i - off"]
    by (auto simp: field_set_def bit_simps)
qed

section \<open>Properties\<close>

text \<open>
  \<open>FrameCap::mint\<close> panics exactly in a debug build with an address that is not a
  multiple of the frame size; otherwise size, device flag and address read back as given, the
  cache policy is uncacheable for device memory and write-back otherwise, and the frame is
  unmapped. \<open>mint_with_cache\<close> reads back likewise, with the given policy.
\<close>

theorem frame_mint_roundtrip:
  "(let frame = mint_with_cache addr sz dev (if dev then Uncacheable else WriteBack) rts in
    FrameCap_mint dbg addr sz dev rts =
      (if dbg \<and> \<not> 2 ^ unat (FrameSize_bits sz) dvd unat addr then Panic else Ret frame)) \<and>
   (let frame = mint_with_cache addr sz dev c rts in
    FrameCap_size frame = sz \<and> FrameCap_is_device frame = dev \<and> cache_policy frame = c \<and>
    \<not> is_mapped frame \<and> mapped_vaddr frame = 0 \<and> paddr frame = addr \<and> CapRef_rights frame = rts \<and>
    try_from KFrameObj frame = Inr ())"
proof -
  have "(addr AND (push_bit (unat (FrameSize_bits sz)) 1 - 1) = 0) =
      (2 ^ unat (FrameSize_bits sz) dvd unat addr)"
    by (simp only: exp_minus_one_mask and_mask_dvd)
  then have "FrameCap_mint dbg addr sz dev rts =
      (if dbg \<and> \<not> 2 ^ unat (FrameSize_bits sz) dvd unat addr then Panic
       else Ret (mint_with_cache addr sz dev (if dev then Uncacheable else WriteBack) rts))"
    by (simp only: FrameCap_mint_def mint_with_cache_def debug_assert_def Let_def split: if_splits) auto
  then show ?thesis
    by (simp add: Let_def mint_reads is_mapped_def)
       (simp add: mint_with_cache_def mapped_vaddr_def CapRef_rights_def try_from_def Let_def)
qed

text \<open>
  The mapping record of a frame: on an unmapped frame, \<open>set_mapped\<close> with a
  non-zero address-space number records number and address and changes nothing else; a second
  \<open>set_mapped\<close> is rejected and changes nothing; changing the cache policy keeps the record
  and is read back; and \<open>clear_mapped\<close> restores the capability as it was, but for a stale
  address.
\<close>

theorem frame_mapping_record:
  assumes p: "st p = Some raw" and free: "\<not> is_mapped raw" and asid: "asid \<noteq> 0"
  shows "\<exists>raw1. set_mapped st p asid v = Ret (Inr (), st(p \<mapsto> raw1)) \<and>
    mapped_asid raw1 = asid \<and> mapped_vaddr raw1 = v \<and> FrameCap_size raw1 = FrameCap_size raw \<and>
    FrameCap_is_device raw1 = FrameCap_is_device raw \<and> cache_policy raw1 = cache_policy raw \<and>
    paddr raw1 = paddr raw \<and> rights raw1 = rights raw \<and>
    set_mapped (st(p \<mapsto> raw1)) p asid' v' = Ret (Inl FrameAlreadyMapped, st(p \<mapsto> raw1)) \<and>
    (\<exists>raw2. set_cache_policy (st(p \<mapsto> raw1)) p c = Ret (st(p \<mapsto> raw2)) \<and> cache_policy raw2 = c \<and>
       mapped_asid raw2 = asid \<and> mapped_vaddr raw2 = v \<and> FrameCap_size raw2 = FrameCap_size raw) \<and>
    clear_mapped (st(p \<mapsto> raw1)) p = Ret (st(p \<mapsto> raw\<lparr>arg2 := 0\<rparr>))"
proof -
  let ?raw1 = "raw\<lparr>arg1 := field_set 10 16 (ucast asid) (arg1 raw), arg2 := v\<rparr>"
  let ?raw2 = "?raw1\<lparr>arg1 := field_set 7 3 (CachePolicy_code c) (arg1 ?raw1)\<rparr>"
  have same: "field_get 10 16 (arg1 ?raw1) = ucast asid"
    by (simp add: field_get_set_same ucast16_small)
  have other: "field_get 0 6 (arg1 ?raw1) = field_get 0 6 (arg1 raw)"
    "field_get 6 1 (arg1 ?raw1) = field_get 6 1 (arg1 raw)" "field_get 7 3 (arg1 ?raw1) = field_get 7 3 (arg1 raw)"
    by (simp_all add: field_get_set_other ucast16_small)
  have pol: "field_get 7 3 (arg1 ?raw2) = CachePolicy_code c" "field_get 10 16 (arg1 ?raw2) = ucast asid"
    "field_get 0 6 (arg1 ?raw2) = field_get 0 6 (arg1 raw)"
    using same other by (simp_all add: field_get_set_same field_get_set_other policy_small)
  have asid1: "mapped_asid ?raw1 = asid" "mapped_asid ?raw2 = asid"
    using same pol(2) by (simp_all only: frame_reads ucast16_back)
  have "ucast (field_get 10 16 (arg1 raw)) = (0 :: u16)"
    using free by (simp only: is_mapped_def frame_reads not_not)
  then have zero: "field_get 10 16 (arg1 raw) = 0"
    by (rule ucast16_zero [OF field_get_small])
  have "field_set 10 16 0 (field_set 10 16 (ucast asid) (arg1 raw)) = arg1 raw"
    by (rule field_set_twice [OF ucast16_small zero]) simp_all
  then have clear: "clear_mapped (st(p \<mapsto> ?raw1)) p = Ret (st(p \<mapsto> raw\<lparr>arg2 := 0\<rparr>))"
    by (simp add: clear_mapped_eq)
  have size2: "FrameCap_size ?raw2 = FrameCap_size raw" using pol(3) by (simp only: frame_reads)
  have "set_cache_policy (st(p \<mapsto> ?raw1)) p c = Ret (st(p \<mapsto> ?raw2))" by (simp add: set_cache_policy_eq)
  moreover have "mapped_vaddr ?raw2 = v" by (simp add: mapped_vaddr_def)
  ultimately have pol2: "\<exists>raw2. set_cache_policy (st(p \<mapsto> ?raw1)) p c = Ret (st(p \<mapsto> raw2)) \<and>
      cache_policy raw2 = c \<and> mapped_asid raw2 = asid \<and> mapped_vaddr raw2 = v \<and>
      FrameCap_size raw2 = FrameCap_size raw"
    using cache_policy_code [OF pol(1)] asid1(2) size2 by blast
  show ?thesis
  proof (rule exI [of _ ?raw1], intro conjI)
    show "set_mapped st p asid v = Ret (Inr (), st(p \<mapsto> ?raw1))"
      using free p by (simp add: set_mapped_eq)
    show "set_mapped (st(p \<mapsto> ?raw1)) p asid' v' = Ret (Inl FrameAlreadyMapped, st(p \<mapsto> ?raw1))"
      using asid asid1(1) set_mapped_eq [of "st(p \<mapsto> ?raw1)" p ?raw1] by (simp add: is_mapped_def)
    show "FrameCap_size ?raw1 = FrameCap_size raw"
      "FrameCap_is_device ?raw1 = FrameCap_is_device raw"
      using other by (simp_all only: frame_reads)
    show "cache_policy ?raw1 = cache_policy raw" using other(3) by (simp only: cache_policy_read)
  qed (use asid1(1) clear pol2 in \<open>simp_all add: mapped_vaddr_def\<close>)
qed

theorem frame_mapping_record_witness:
  "\<exists>raw. set_mapped [0x100 \<mapsto> mint_with_cache 0x4000 Small False WriteBack R_READ] 0x100 3 0x7000
       = Ret (Inr (), [0x100 \<mapsto> raw]) \<and> mapped_asid raw = 3 \<and> mapped_vaddr raw = 0x7000 \<and>
     set_mapped [0x100 \<mapsto> raw] 0x100 4 0x8000 = Ret (Inl FrameAlreadyMapped, [0x100 \<mapsto> raw])"
  using frame_mapping_record [of "[0x100 \<mapsto> mint_with_cache 0x4000 Small False WriteBack R_READ]"
      "0x100" "mint_with_cache 0x4000 Small False WriteBack R_READ" 3 "0x7000" 4 "0x8000"]
  by (auto simp: is_mapped_def mint_reads)

end
