(* ===== verification/VSpaceCaps.thy ===== *)
theory VSpaceCaps
  imports Frames
begin

text \<open>
  Address-space capabilities and virtual addresses (the first part of
  \<open>objects/vspace.rs\<close>): the packing of the address-space number and the active flag, the
  split of a virtual address into four table indices, and canonical addresses.
\<close>

section \<open>Capabilities\<close>

type_synonym Asid = u16

definition ASID_MAX :: Asid where "ASID_MAX = 0xFFFF"

definition ASID_OFFSET :: nat where "ASID_OFFSET = 0"
definition ASID_WIDTH :: nat where "ASID_WIDTH = 16"
definition IS_ACTIVE_OFFSET :: nat where "IS_ACTIVE_OFFSET = 16"

definition VSpaceCap_mint :: "bool \<Rightarrow> usize \<Rightarrow> Asid \<Rightarrow> CapRights \<Rightarrow> CapRaw outcome" where
  "VSpaceCap_mint dbg pml4_paddr asid rts =
     obind (debug_assert dbg (pml4_paddr AND 0xFFF = 0)) (\<lambda>_.
       let a1 = push_bit ASID_OFFSET (ucast asid) in
       Ret ((default_with_type VSpace)\<lparr>paddr := pml4_paddr, arg1 := a1, arg2 := 0, rights := rts\<rparr>))"

definition VSpaceCap_asid :: "CapRaw \<Rightarrow> Asid" where
  "VSpaceCap_asid raw = ucast (drop_bit ASID_OFFSET (arg1 raw) AND kmask ASID_WIDTH)"

definition is_active :: "CapRaw \<Rightarrow> bool" where
  "is_active raw \<longleftrightarrow> drop_bit IS_ACTIVE_OFFSET (arg1 raw) AND 1 \<noteq> 0"

definition set_active :: "cstore \<Rightarrow> ptr \<Rightarrow> bool \<Rightarrow> cstore outcome" where
  "set_active st self active =
     obind (entry_get st self) (\<lambda>raw.
       let raw1 = (if active then raw\<lparr>arg1 := arg1 raw OR push_bit IS_ACTIVE_OFFSET 1\<rparr>
                   else raw\<lparr>arg1 := arg1 raw AND NOT (push_bit IS_ACTIVE_OFFSET 1)\<rparr>) in
       entry_set st self raw1)"

definition root_paddr :: "ext \<Rightarrow> CapRaw \<Rightarrow> u64 outcome" where
  "root_paddr E raw = CapRef_paddr E raw"

definition VSpaceCap_identify :: "bool \<Rightarrow> ext \<Rightarrow> CapRaw \<Rightarrow> Tcb \<Rightarrow> (Tcb \<times> usize) outcome" where
  "VSpaceCap_identify dbg E raw tcb =
     obind (set_mr dbg tcb MR1 (ObjType_code (CapRef_cap_type KVSpaceObj))) (\<lambda>t1.
     obind (CapRef_paddr E raw) (\<lambda>a.
     obind (set_mr dbg t1 MR2 a) (\<lambda>t2.
     obind (set_mr dbg t2 MR3 (ucast (VSpaceCap_asid raw))) (\<lambda>t3.
     obind (set_mr dbg t3 MR4 (bool_usize (is_active raw))) (\<lambda>t4. Ret (t4, 4))))))"

section \<open>Virtual addresses\<close>

definition vaddr_indices :: "usize \<Rightarrow> usize \<times> usize \<times> usize \<times> usize" where
  "vaddr_indices vaddr =
     (let pml4_idx = drop_bit 39 vaddr AND 0x1FF;
          pdpt_idx = drop_bit 30 vaddr AND 0x1FF;
          pd_idx = drop_bit 21 vaddr AND 0x1FF;
          pt_idx = drop_bit 12 vaddr AND 0x1FF in
      (pml4_idx, pdpt_idx, pd_idx, pt_idx))"

definition is_canonical :: "usize \<Rightarrow> bool" where
  "is_canonical vaddr \<longleftrightarrow> (let top_bits = drop_bit 47 vaddr in top_bits = 0 \<or> top_bits = 0x1FFFF)"

section \<open>Lemmas\<close>

lemmas vspace_consts = ASID_OFFSET_def ASID_WIDTH_def IS_ACTIVE_OFFSET_def

text \<open>The index into the table of level \<open>l\<close> (4 is the root), as a field of the address.\<close>

definition vindex :: "nat \<Rightarrow> usize \<Rightarrow> nat" where
  "vindex l v = unat (field_get (12 + 9 * (l - 1)) 9 v)"

lemma mask_1FF: "(0x1FF :: usize) = mask 9"
  by (simp add: mask_numeral)

lemma vaddr_indices_eq:
  "vaddr_indices v = (field_get 39 9 v, field_get 30 9 v, field_get 21 9 v, field_get 12 9 v)"
  by (simp only: vaddr_indices_def field_get_def mask_1FF Let_def)

lemma vindex_bound: "vindex l v < 512"
  using unat_field_get [of "12 + 9 * (l - 1)" 9 v] by (simp add: vindex_def)

lemma canonical_bit:
  assumes "is_canonical v" "47 \<le> n" "n < 64"
  shows "bit v n \<longleftrightarrow> bit v 47"
proof -
  have "bit (drop_bit 47 v) (n - 47) \<longleftrightarrow> bit (drop_bit 47 v) 0"
  proof -
    consider "drop_bit 47 v = 0" | "drop_bit 47 v = (0x1FFFF :: usize)"
      using assms(1) by (auto simp: is_canonical_def Let_def)
    then show ?thesis
    proof cases
      case 2
      have "(0x1FFFF :: usize) = mask 17" by (simp add: mask_numeral)
      then have "drop_bit 47 v = mask 17" by (simp only: 2)
      with assms(2,3) show ?thesis by (simp only: bit_mask_iff) auto
    qed simp
  qed
  then show ?thesis using assms(2) by (simp add: bit_drop_bit_eq)
qed

text \<open>The indices above level \<open>l\<close> determine a canonical address down to the page of the level.\<close>

lemma same_page_iff:
  assumes c: "is_canonical v" "is_canonical w" and l: "1 \<le> l" "l \<le> 4"
  shows "(\<forall>j. l \<le> j \<and> j \<le> 4 \<longrightarrow> vindex j v = vindex j w) \<longleftrightarrow>
    drop_bit (12 + 9 * (l - 1)) v = drop_bit (12 + 9 * (l - 1)) w"
proof
  assume eq: "\<forall>j. l \<le> j \<and> j \<le> 4 \<longrightarrow> vindex j v = vindex j w"
  have bits: "bit v n = bit w n" if n: "12 + 9 * (l - 1) \<le> n" "n < 48" for n
  proof -
    define q where "q = (n - 12) div 9"
    define r where "r = (n - 12) mod 9"
    have "9 * q + r = n - 12" unfolding q_def r_def by (rule mult_div_mod_eq)
    then have qr: "n = 12 + 9 * q + r" using n(1) by simp
    have r: "r < 9" by (simp add: r_def)
    define j where "j = q + 1"
    have j: "l \<le> j" "j \<le> 4" "12 + 9 * (j - 1) \<le> n" "n - (12 + 9 * (j - 1)) < 9"
      using n l(1) r by (simp_all add: qr j_def)
    from eq j have "field_get (12 + 9 * (j - 1)) 9 v = field_get (12 + 9 * (j - 1)) 9 w"
      by (simp add: vindex_def word_unat_eq_iff)
    then have "bit (field_get (12 + 9 * (j - 1)) 9 v) (n - (12 + 9 * (j - 1))) =
        bit (field_get (12 + 9 * (j - 1)) 9 w) (n - (12 + 9 * (j - 1)))" by simp
    with j(3,4) show ?thesis by (simp add: bit_field_get)
  qed
  have all: "bit v n = bit w n" if n: "12 + 9 * (l - 1) \<le> n" "n < 64" for n
  proof (cases "n < 48")
    case True
    with bits n show ?thesis by blast
  next
    case False
    have "bit v n = bit v 47" "bit w n = bit w 47"
      using canonical_bit [OF c(1), of n] canonical_bit [OF c(2), of n] False n by auto
    moreover have "bit v 47 = bit w 47" using bits [of 47] l by simp
    ultimately show ?thesis by simp
  qed
  show "drop_bit (12 + 9 * (l - 1)) v = drop_bit (12 + 9 * (l - 1)) w"
  proof (rule bit_word_eqI)
    fix n
    let ?o = "12 + 9 * (l - 1)"
    have "bit v (?o + n) = bit w (?o + n)"
    proof (cases "?o + n < 64")
      case True
      then show ?thesis by (intro all) simp_all
    next
      case False
      then have "\<not> bit x (?o + n)" for x :: usize using bit_imp_le_length [of x "?o + n"] by auto
      then show ?thesis by blast
    qed
    then show "bit (drop_bit ?o v) n = bit (drop_bit ?o w) n" by (simp only: bit_drop_bit_eq comp_def)
  qed
next
  assume eq: "drop_bit (12 + 9 * (l - 1)) v = drop_bit (12 + 9 * (l - 1)) w"
  show "\<forall>j. l \<le> j \<and> j \<le> 4 \<longrightarrow> vindex j v = vindex j w"
  proof (intro allI impI)
    fix j assume j: "l \<le> j \<and> j \<le> 4"
    have "drop_bit (12 + 9 * (j - 1)) x = drop_bit (9 * (j - l)) (drop_bit (12 + 9 * (l - 1)) x)" for x :: usize
    proof -
      have "12 + 9 * (j - 1) = 9 * (j - l) + (12 + 9 * (l - 1))" using j l by linarith
      then show ?thesis by (simp only: drop_bit_drop_bit)
    qed
    then have "drop_bit (12 + 9 * (j - 1)) v = drop_bit (12 + 9 * (j - 1)) w" by (simp only: eq)
    then show "vindex j v = vindex j w" by (simp only: vindex_def field_get_def)
  qed
qed

lemma canonical_iff:
  "is_canonical v \<longleftrightarrow> signed_take_bit 47 v = v"
proof
  assume c: "is_canonical v"
  show "signed_take_bit 47 v = v"
  proof (rule bit_word_eqI)
    fix n assume n: "n < LENGTH(64)"
    show "bit (signed_take_bit 47 v) n = bit v n"
      using n canonical_bit [OF c, of n] by (cases "n < 47") (auto simp: bit_signed_take_bit_iff min_def)
  qed
next
  assume s: "signed_take_bit 47 v = v"
  have top: "bit v (47 + n) = bit v 47" if "n < 17" for n
    using that arg_cong [OF s, of "\<lambda>x. bit x (47 + n)"] by (auto simp: bit_signed_take_bit_iff min_def)
  have "drop_bit 47 v = (if bit v 47 then mask 17 else 0)"
  proof (rule bit_word_eqI)
    fix n
    have "\<not> bit v (47 + n)" if "\<not> n < 17" using that bit_imp_le_length [of v "47 + n"] by auto
    then show "bit (drop_bit 47 v) n = bit (if bit v 47 then mask 17 else 0 :: usize) n"
      using top [of n] by (cases "n < 17") (auto simp: bit_drop_bit_eq bit_mask_iff)
  qed
  then show "is_canonical v" by (simp add: is_canonical_def mask_numeral split: if_splits)
qed

section \<open>Properties\<close>

text \<open>
  Virtual addresses: every index is below the size of a table; an address is
  canonical exactly when it is the sign extension of its low 48 bits; and two canonical
  addresses have the same four indices exactly when they lie in the same 4 KiB page.
\<close>

theorem vaddr_indices_page:
  "(case vaddr_indices v of (i4, i3, i2, i1) \<Rightarrow>
      unat i4 < ENTRIES_PER_TABLE \<and> unat i3 < ENTRIES_PER_TABLE \<and> unat i2 < ENTRIES_PER_TABLE \<and>
      unat i1 < ENTRIES_PER_TABLE) \<and>
   (is_canonical v \<longleftrightarrow> signed_take_bit 47 v = v) \<and>
   (is_canonical v \<longrightarrow> is_canonical w \<longrightarrow>
      (vaddr_indices v = vaddr_indices w \<longleftrightarrow> drop_bit PAGE_BITS_4K v = drop_bit PAGE_BITS_4K w))"
proof (intro conjI impI)
  show "case vaddr_indices v of (i4, i3, i2, i1) \<Rightarrow>
      unat i4 < ENTRIES_PER_TABLE \<and> unat i3 < ENTRIES_PER_TABLE \<and> unat i2 < ENTRIES_PER_TABLE \<and>
      unat i1 < ENTRIES_PER_TABLE"
    using unat_field_get [of _ 9 v] by (simp add: vaddr_indices_eq ENTRIES_PER_TABLE_def)
  show "is_canonical v \<longleftrightarrow> signed_take_bit 47 v = v" by (rule canonical_iff)
  assume c: "is_canonical v" "is_canonical w"
  have "vaddr_indices v = vaddr_indices w \<longleftrightarrow> (\<forall>j. 1 \<le> j \<and> j \<le> 4 \<longrightarrow> vindex j v = vindex j w)"
  proof -
    have "(\<forall>j. 1 \<le> j \<and> j \<le> 4 \<longrightarrow> P j) \<longleftrightarrow> P 4 \<and> P 3 \<and> P 2 \<and> P (1 :: nat)" for P
      by (auto simp: le_Suc_eq numeral_eq_Suc)
    then show ?thesis by (simp add: vaddr_indices_eq vindex_def word_unat_eq_iff)
  qed
  then show "vaddr_indices v = vaddr_indices w \<longleftrightarrow> drop_bit PAGE_BITS_4K v = drop_bit PAGE_BITS_4K w"
    using same_page_iff [OF c, of 1] by (simp add: PAGE_BITS_4K_def)
qed

theorem vaddr_indices_page_witness:
  "is_canonical 0x7FFF12345678 \<and> vaddr_indices 0x7FFF12345678 = vaddr_indices 0x7FFF12345000"
  using vaddr_indices_page [of "0x7FFF12345678" "0x7FFF12345000"]
  by (simp add: is_canonical_def PAGE_BITS_4K_def)

end
