(* ===== verification/Retype.thy ===== *)
theory Retype
  imports VSpaceCaps
begin

text \<open>
  Untyped memory (\<open>objects/untyped.rs\<close>): the capability of a region of memory with its
  watermark, and \<open>retype\<close>, which carves objects out of the region and writes their
  capabilities into empty slots. The state is the store of slots and the bytes of physical
  memory, which \<open>retype\<close> clears for the objects that need it.
\<close>

section \<open>Untyped capabilities\<close>

definition MIN_BIT_SIZE :: usize where "MIN_BIT_SIZE = 4"

definition UntypedCap_mint :: "usize \<Rightarrow> usize \<Rightarrow> bool \<Rightarrow> CapRaw" where
  "UntypedCap_mint addr bit_sz dev =
     (default_with_type Untyped)\<lparr>paddr := addr, arg1 := bool_usize dev, arg2 := bit_sz AND kmask 6,
       rights := R_CONTROL\<rparr>"

definition bit_size :: "CapRaw \<Rightarrow> usize" where
  "bit_size raw = arg2 raw AND kmask 6"

definition untyped_size :: "CapRaw \<Rightarrow> usize" where
  "untyped_size raw = push_bit (unat (bit_size raw)) 1"

definition free_offset :: "CapRaw \<Rightarrow> usize" where
  "free_offset raw = drop_bit 6 (arg2 raw)"

definition set_free_offset :: "cstore \<Rightarrow> ptr \<Rightarrow> usize \<Rightarrow> cstore outcome" where
  "set_free_offset st self off =
     obind (entry_get st self) (\<lambda>cap.
       entry_set st self (cap\<lparr>arg2 := (arg2 cap AND kmask 6) OR push_bit 6 off\<rparr>))"

definition untyped_is_device :: "CapRaw \<Rightarrow> bool" where
  "untyped_is_device raw \<longleftrightarrow> arg1 raw \<noteq> 0"

definition object_alignment :: "ObjType \<Rightarrow> usize \<Rightarrow> usize" where
  "object_alignment obj_type bits =
     (case obj_type of
        Frame \<Rightarrow> bits
      | VSpace \<Rightarrow> of_nat PAGE_BITS_4K
      | CNode \<Rightarrow>
          let entry_sz = CNODE_ENTRY_BIT_SZ; radix = saturating_sub bits entry_sz in entry_sz + radix
      | Tcb \<Rightarrow> 10
      | _ \<Rightarrow> bits)"

definition object_size :: "ObjType \<Rightarrow> usize \<Rightarrow> usize option" where
  "object_size obj_type user_bits =
     (case obj_type of
        Frame \<Rightarrow>
          if user_bits = 12 \<or> user_bits = 21 \<or> user_bits = 30 then Some (push_bit (unat user_bits) 1) else None
      | VSpace \<Rightarrow> Some (push_bit PAGE_BITS_4K 1)
      | CNode \<Rightarrow>
          if user_bits \<ge> CNODE_ENTRY_BIT_SZ \<and> user_bits \<le> 48 then Some (push_bit (unat user_bits) 1) else None
      | Tcb \<Rightarrow> Some (push_bit 10 1)
      | Untyped \<Rightarrow>
          if user_bits \<ge> MIN_BIT_SIZE \<and> user_bits \<le> 48 then Some (push_bit (unat user_bits) 1) else None
      | _ \<Rightarrow> None)"

section \<open>Retyping\<close>

record retype_st =
  r_slots :: cstore
  r_mem :: "ptr \<Rightarrow> u8"

text \<open>\<open>core::ptr::write_bytes\<close>.\<close>

definition write_bytes :: "(ptr \<Rightarrow> u8) \<Rightarrow> ptr \<Rightarrow> u8 \<Rightarrow> usize \<Rightarrow> ptr \<Rightarrow> u8" where
  "write_bytes m p v n = (\<lambda>x. if x - p < n then v else m x)"

text \<open>\<open>slots.iter().any(|cap| NullCap::try_from(cap).is_err())\<close>\<close>

fun any_occupied :: "cstore \<Rightarrow> ptr list \<Rightarrow> bool outcome" where
  "any_occupied st [] = Ret False"
| "any_occupied st (p # ps) =
     obind (entry_get st p) (\<lambda>raw.
       case try_from KNullObj raw of Inl _ \<Rightarrow> Ret True | Inr _ \<Rightarrow> any_occupied st ps)"

text \<open>The capability for one object at \<open>addr\<close>, with the memory after a possible clearing.\<close>

definition new_cap ::
    "bool \<Rightarrow> ext \<Rightarrow> bool \<Rightarrow> (ptr \<Rightarrow> u8) \<Rightarrow> ObjType \<Rightarrow> usize \<Rightarrow> usize \<Rightarrow> usize \<Rightarrow>
     ((SysError + CapRaw) \<times> (ptr \<Rightarrow> u8)) outcome" where
  "new_cap dbg E dev m obj_type bits obj_size addr =
     (case obj_type of
        Untyped \<Rightarrow> Ret (Inr (UntypedCap_mint addr bits dev), m)
      | CNode \<Rightarrow>
          let radix_sz = saturating_sub bits CNODE_ENTRY_BIT_SZ;
              gbits = saturating_sub 64 radix_sz;
              m' = write_bytes m addr 0 obj_size in
          obind (CNodeCap_mint addr radix_sz gbits 0 R_CONTROL) (\<lambda>cap. Ret (Inr cap, m'))
      | Frame \<Rightarrow>
          (case FrameSize_from_bits bits of
             None \<Rightarrow> Ret (Inl InvalidValue, m)
           | Some fsize \<Rightarrow>
               obind (FrameCap_mint dbg addr fsize dev (flags_union E R_READ R_WRITE)) (\<lambda>cap. Ret (Inr cap, m)))
      | VSpace \<Rightarrow>
          let m' = write_bytes m addr 0 obj_size;
              asid = (ucast (drop_bit PAGE_BITS_4K addr AND 0xFFFF) :: Asid);
              asid' = (if asid = 0 then 1 else asid) in
          obind (VSpaceCap_mint dbg addr asid' R_CONTROL) (\<lambda>cap. Ret (Inr cap, m'))
      | _ \<Rightarrow> Ret (Inl InvalidValue, m))"

fun retype_loop ::
    "bool \<Rightarrow> ext \<Rightarrow> ptr \<Rightarrow> ObjType \<Rightarrow> usize \<Rightarrow> usize \<Rightarrow> usize \<Rightarrow> usize \<Rightarrow> retype_st \<Rightarrow> nat \<Rightarrow> ptr list \<Rightarrow>
     ((SysError + unit) \<times> retype_st) outcome" where
  "retype_loop dbg E self obj_type bits obj_size base off s i [] = Ret (Inr (), s)"
| "retype_loop dbg E self obj_type bits obj_size base off s i (sl # slots) =
     obind (u_add dbg base off) (\<lambda>start.
     obind (u_mul dbg (of_nat i) obj_size) (\<lambda>delta.
     obind (u_add dbg start delta) (\<lambda>addr.
     obind (entry_get (r_slots s) self) (\<lambda>raw.
     obind (new_cap dbg E (untyped_is_device raw) (r_mem s) obj_type bits obj_size addr) (\<lambda>(r, m).
       case r of
         Inl e \<Rightarrow> Ret (Inl e, s\<lparr>r_mem := m\<rparr>)
       | Inr cap \<Rightarrow>
           obind (entry_set (r_slots s) sl cap) (\<lambda>st.
             retype_loop dbg E self obj_type bits obj_size base off
               (s\<lparr>r_slots := st, r_mem := m\<rparr>) (Suc i) slots))))))"

definition retype ::
    "bool \<Rightarrow> ext \<Rightarrow> retype_st \<Rightarrow> ptr \<Rightarrow> ObjType \<Rightarrow> usize \<Rightarrow> ptr list \<Rightarrow>
     ((SysError + unit) \<times> retype_st) outcome" where
  "retype dbg E s self obj_type bits slots =
     obind (any_occupied (r_slots s) slots) (\<lambda>occupied.
       if occupied then Ret (Inl SlotNotEmpty, s) else
     obind (entry_get (r_slots s) self) (\<lambda>raw.
       if untyped_is_device raw \<and> obj_type \<noteq> Frame \<and> obj_type \<noteq> Untyped
       then Ret (Inl InvalidValue, s) else
       let align_bits = object_alignment obj_type bits in
       case object_size obj_type bits of
         None \<Rightarrow> Ret (Inl InvalidValue, s)
       | Some obj_size \<Rightarrow>
       (case checked_mul (of_nat (length slots)) obj_size of
         None \<Rightarrow> Ret (Inl InvalidValue, s)
       | Some tot_size \<Rightarrow>
     obind (alignup dbg (free_offset raw) (unat align_bits)) (\<lambda>off.
       case checked_add off tot_size of
         None \<Rightarrow> Ret (Inl InvalidValue, s)
       | Some required \<Rightarrow>
           if untyped_size raw < required then Ret (Inl OutOfMemory, s) else
     obind (CapRef_paddr E raw) (\<lambda>base.
     obind (retype_loop dbg E self obj_type bits obj_size base off s 0 slots) (\<lambda>(r, s1).
       case r of
         Inl e \<Rightarrow> Ret (Inl e, s1)
       | Inr _ \<Rightarrow>
           obind (u_add dbg off tot_size) (\<lambda>new_off.
           obind (set_free_offset (r_slots s1) self new_off) (\<lambda>st.
             Ret (Inr (), s1\<lparr>r_slots := st\<rparr>)))))))))"

definition UntypedCap_identify :: "bool \<Rightarrow> ext \<Rightarrow> CapRaw \<Rightarrow> Tcb \<Rightarrow> (Tcb \<times> usize) outcome" where
  "UntypedCap_identify dbg E raw tcb =
     obind (set_mr dbg tcb MR1 (ObjType_code (CapRef_cap_type KUntypedObj))) (\<lambda>t1.
     obind (CapRef_paddr E raw) (\<lambda>a.
     obind (set_mr dbg t1 MR2 a) (\<lambda>t2.
     obind (set_mr dbg t2 MR3 (bit_size raw)) (\<lambda>t3.
     obind (set_mr dbg t3 MR4 (bool_usize (untyped_is_device raw))) (\<lambda>t4.
     obind (set_mr dbg t4 MR5 (free_offset raw)) (\<lambda>t5. Ret (t5, 5)))))))"

section \<open>Lemmas on the capability words\<close>

lemma bit_size_field: "bit_size raw = field_get 0 6 (arg2 raw)"
  by (simp add: bit_size_def field_get_def kmask_eq)

lemma bit_size_bound: "unat (bit_size raw) < 64"
  using unat_field_get [of 0 6 "arg2 raw"] by (simp add: bit_size_field)

lemma unat_untyped_size: "unat (untyped_size raw) = 2 ^ unat (bit_size raw)"
  by (simp only: untyped_size_def unat_push_one [OF bit_size_bound])

lemma free_offset_word:
  fixes x off :: usize
  assumes "unat off < 2 ^ 58"
  shows "field_get 0 6 ((x AND kmask 6) OR push_bit 6 off) = field_get 0 6 x"
    and "drop_bit 6 ((x AND kmask 6) OR push_bit 6 off) = off"
proof -
  have small: "off AND mask 58 = off" using assms by (rule small_if_less)
  show "field_get 0 6 ((x AND kmask 6) OR push_bit 6 off) = field_get 0 6 x"
    by (rule bit_word_eqI) (auto simp: bit_field_get kmask_eq bit_simps)
  show "drop_bit 6 ((x AND kmask 6) OR push_bit 6 off) = off"
  proof (rule bit_word_eqI)
    fix n assume n: "n < LENGTH(64)"
    show "bit (drop_bit 6 ((x AND kmask 6) OR push_bit 6 off)) n = bit off n"
      using n small_bit_bound [OF small, of n] by (auto simp: bit_drop_bit_eq kmask_eq bit_simps)
  qed
qed

lemma set_free_offset_Ret:
  assumes "st p = Some raw" "unat off < 2 ^ 58"
  obtains raw' where "set_free_offset st p off = Ret (st(p \<mapsto> raw'))" "free_offset raw' = off"
    "bit_size raw' = bit_size raw" "raw' = raw\<lparr>arg2 := arg2 raw'\<rparr>"
proof -
  let ?raw' = "raw\<lparr>arg2 := (arg2 raw AND kmask 6) OR push_bit 6 off\<rparr>"
  have "set_free_offset st p off = Ret (st(p \<mapsto> ?raw'))"
    using assms(1) by (simp add: set_free_offset_def entry_get_def entry_set_def)
  moreover have "free_offset ?raw' = off" "bit_size ?raw' = bit_size raw"
    using free_offset_word [OF assms(2), of "arg2 raw"] by (simp_all add: free_offset_def bit_size_field)
  ultimately show thesis using that [of ?raw'] by simp
qed

lemma mint_untyped_reads:
  assumes "unat bits < 64"
  shows "bit_size (UntypedCap_mint addr bits dev) = bits" "free_offset (UntypedCap_mint addr bits dev) = 0"
    "untyped_is_device (UntypedCap_mint addr bits dev) = dev"
proof -
  have small: "bits AND mask 6 = bits" using assms by (rule small64)
  show "bit_size (UntypedCap_mint addr bits dev) = bits"
    by (simp add: bit_size_def UntypedCap_mint_def kmask_eq small)
  show "free_offset (UntypedCap_mint addr bits dev) = 0"
    by (rule bit_word_eqI)
       (auto simp: free_offset_def UntypedCap_mint_def kmask_eq bit_drop_bit_eq small dest: small_bit_bound [OF small])
  show "untyped_is_device (UntypedCap_mint addr bits dev) = dev"
    by (simp add: untyped_is_device_def UntypedCap_mint_def)
qed

lemma any_occupied_False:
  "any_occupied st ps = Ret False \<longleftrightarrow> (\<forall>p \<in> set ps. \<exists>raw. st p = Some raw \<and> cap_type raw = NullObj)"
proof (induction ps)
  case (Cons p ps)
  then show ?case by (cases "st p") (auto simp: entry_get_def try_from_def)
qed simp

text \<open>Objects have \<open>2 ^ a\<close> bytes.\<close>

definition object_bits :: "ObjType \<Rightarrow> usize \<Rightarrow> nat" where
  "object_bits t bits = (if t = VSpace then 12 else if t = Tcb then 10 else unat bits)"

lemma sized_bits:
  assumes "object_size t bits \<noteq> None"
  shows "object_size t bits = Some (push_bit (object_bits t bits) 1)"
    and "unat (object_alignment t bits) = object_bits t bits"
    and "4 \<le> object_bits t bits" "object_bits t bits \<le> 48"
proof -
  consider (unt) "t = Untyped" "bits \<ge> 4" "bits \<le> 48" | (frame) "t = Frame" "bits = 12 \<or> bits = 21 \<or> bits = 30"
    | (vspace) "t = VSpace" | (tcb) "t = Tcb" | (cnode) "t = CNode" "bits \<ge> 6" "bits \<le> 48"
    using assms by (auto simp: object_size_def MIN_BIT_SIZE_def cnode_consts split: ObjType.splits if_splits)
  then have "object_size t bits = Some (push_bit (object_bits t bits) 1) \<and>
    unat (object_alignment t bits) = object_bits t bits \<and> 4 \<le> object_bits t bits \<and> object_bits t bits \<le> 48"
  proof cases
    case unt
    then have "4 \<le> unat bits" "unat bits \<le> 48" by (simp_all add: word_le_nat_alt)
    with unt show ?thesis by (simp add: object_size_def object_bits_def object_alignment_def MIN_BIT_SIZE_def)
  next
    case frame
    then show ?thesis by (auto simp: object_size_def object_bits_def object_alignment_def)
  next
    case vspace
    then show ?thesis by (simp add: object_size_def object_bits_def object_alignment_def PAGE_BITS_4K_def)
  next
    case tcb
    then show ?thesis by (simp add: object_size_def object_bits_def object_alignment_def)
  next
    case cnode
    then have "6 \<le> unat bits" "unat bits \<le> 48" by (simp_all add: word_le_nat_alt)
    with cnode show ?thesis
      by (simp add: object_size_def object_bits_def object_alignment_def cnode_consts saturating_sub_def word_less_nat_alt)
  qed
  then show "object_size t bits = Some (push_bit (object_bits t bits) 1)"
    "unat (object_alignment t bits) = object_bits t bits"
    "4 \<le> object_bits t bits" "object_bits t bits \<le> 48" by blast+
qed

text \<open>
  The requests that \<open>retype\<close> can satisfy: untyped memory, frames and address spaces of the
  supported sizes, and capability nodes of 64 bytes, for which the guard of 64 bits that it asks for is
  masked to none. It clears the memory of nodes and address spaces.
\<close>

definition creatable :: "ObjType \<Rightarrow> usize \<Rightarrow> bool" where
  "creatable t bits \<longleftrightarrow> (t = Untyped \<or> t = Frame \<or> t = VSpace) \<and> object_size t bits \<noteq> None \<or> t = CNode \<and> bits = 6"

definition clears :: "ObjType \<Rightarrow> bool" where
  "clears t \<longleftrightarrow> t = VSpace \<or> t = CNode"

lemma creatable_sized: "creatable t bits \<Longrightarrow> object_size t bits \<noteq> None"
  by (auto simp: creatable_def object_size_def cnode_consts)

lemmas creatable_bits = sized_bits [OF creatable_sized]

section \<open>Creating one object\<close>

lemma word_range:
  fixes x p n :: usize
  assumes "unat p + unat n < 2 ^ 64"
  shows "x - p < n \<longleftrightarrow> unat p \<le> unat x \<and> unat x < unat p + unat n"
proof (cases "p \<le> x")
  case True
  then have "unat (x - p) = unat x - unat p" "unat p \<le> unat x"
    by (simp_all add: unat_sub word_le_nat_alt)
  then show ?thesis by (auto simp: word_less_nat_alt)
next
  case False
  then have "unat x < unat p" by (simp add: word_less_nat_alt not_le)
  moreover have "unat (x - p) = unat x + 2 ^ 64 - unat p"
    using False by (simp add: unat_sub_if' word_le_nat_alt)
  ultimately show ?thesis using assms by (auto simp: word_less_nat_alt)
qed

definition cap_bits :: "CapRaw \<Rightarrow> nat" where
  "cap_bits cap = (case cap_type cap of
     Untyped \<Rightarrow> unat (bit_size cap) | Frame \<Rightarrow> unat (size_bits cap) | VSpace \<Rightarrow> 12
   | CNode \<Rightarrow> 6 + unat (radix_bits cap) | _ \<Rightarrow> 0)"

text \<open>
  A freshly created object of type \<open>t\<close> at \<open>addr\<close>: its own region, no derivation links,
  an untouched watermark, the device flag of the region it comes from.
\<close>

definition fresh_object :: "ObjType \<Rightarrow> nat \<Rightarrow> bool \<Rightarrow> nat \<Rightarrow> CapRaw \<Rightarrow> bool" where
  "fresh_object t a dev addr cap \<longleftrightarrow> cap_type cap = t \<and> unat (paddr cap) = addr \<and> cap_bits cap = a \<and>
     mdb_isolated cap \<and>
     (t = Untyped \<longrightarrow> free_offset cap = 0 \<and> untyped_is_device cap = dev) \<and>
     (t = Frame \<longrightarrow> FrameCap_is_device cap = dev \<and> \<not> is_mapped cap) \<and>
     (t = VSpace \<longrightarrow> VSpaceCap_asid cap \<noteq> 0) \<and>
     (t = CNode \<longrightarrow> guard_bits cap = 0)"

lemma new_cap_creatable:
  assumes c: "creatable t bits" and dvd: "2 ^ object_bits t bits dvd unat addr"
  obtains cap where
    "new_cap dbg E dev m t bits (push_bit (object_bits t bits) 1) addr =
       Ret (Inr cap, if clears t then write_bytes m addr 0 (push_bit (object_bits t bits) 1) else m)"
    "fresh_object t (object_bits t bits) dev (unat addr) cap"
proof -
  consider (unt) "t = Untyped" | (frame) "t = Frame" | (vspace) "t = VSpace" | (cnode) "t = CNode" "bits = 6"
    using c by (auto simp: creatable_def)
  then show thesis
  proof cases
    case unt
    have "unat bits < 64" using creatable_bits(4) [OF c] unt by (simp add: object_bits_def)
    from mint_untyped_reads [OF this] have
      "fresh_object t (object_bits t bits) dev (unat addr) (UntypedCap_mint addr bits dev)"
      by (simp add: fresh_object_def unt cap_bits_def object_bits_def mdb_isolated_def)
         (simp add: UntypedCap_mint_def)
    then show thesis using that [of "UntypedCap_mint addr bits dev"] unt by (simp add: new_cap_def clears_def)
  next
    case frame
    from c frame obtain sz where sz: "FrameSize_from_bits bits = Some sz" "FrameSize_bits sz = bits"
      by (auto simp: creatable_def object_size_def FrameSize_from_bits_def split: if_splits)
    let ?cap = "mint_with_cache addr sz dev (if dev then Uncacheable else WriteBack) (flags_union E R_READ R_WRITE)"
    have "2 ^ unat (FrameSize_bits sz) dvd unat addr" using dvd frame sz by (simp add: object_bits_def)
    then have "addr AND (push_bit (unat (FrameSize_bits sz)) 1 - 1) = 0"
      by (simp only: exp_minus_one_mask and_mask_dvd)
    then have "FrameCap_mint dbg addr sz dev (flags_union E R_READ R_WRITE) = Ret ?cap"
      by (simp only: FrameCap_mint_def mint_with_cache_def debug_assert_simps obind.simps Let_def) simp
    moreover have "cap_type ?cap = Frame" "paddr ?cap = addr" "mdb_isolated ?cap"
      by (simp_all add: mint_with_cache_def mdb_isolated_def Let_def)
    then have "fresh_object t (object_bits t bits) dev (unat addr) ?cap"
      by (simp add: fresh_object_def frame cap_bits_def size_bits_def mint_reads sz object_bits_def is_mapped_def)
    ultimately show thesis using that [of ?cap] frame sz by (simp add: new_cap_def clears_def)
  next
    case vspace
    define asid where "asid = (let a = (ucast (drop_bit PAGE_BITS_4K addr AND 0xFFFF) :: Asid) in if a = 0 then 1 else a)"
    let ?cap = "(default_with_type VSpace)\<lparr>paddr := addr, arg1 := ucast asid, arg2 := 0, rights := R_CONTROL\<rparr>"
    have "addr AND mask 12 = 0" using dvd vspace by (simp only: and_mask_dvd) (simp add: object_bits_def)
    then have al: "addr AND 0xFFF = 0" by (simp add: mask_numeral)
    have asid0: "asid \<noteq> 0" by (simp add: asid_def Let_def)
    have "VSpaceCap_asid ?cap = asid"
      by (simp add: VSpaceCap_asid_def vspace_consts kmask_eq ucast16_small ucast16_back)
    then have fresh: "fresh_object t (object_bits t bits) dev (unat addr) ?cap"
      using asid0 by (simp add: fresh_object_def vspace cap_bits_def object_bits_def mdb_isolated_def)
    have "VSpaceCap_mint dbg addr asid R_CONTROL = Ret ?cap"
      using al by (simp add: VSpaceCap_mint_def vspace_consts)
    then have "new_cap dbg E dev m t bits (push_bit (object_bits t bits) 1) addr =
        Ret (Inr ?cap, write_bytes m addr 0 (push_bit 12 1))"
      by (simp add: new_cap_def vspace object_bits_def asid_def Let_def)
    with fresh vspace show thesis using that [of ?cap] by (simp add: clears_def object_bits_def)
  next
    case cnode
    let ?cap = "(default_with_type CNode)\<lparr>paddr := addr, rights := R_CONTROL\<rparr>"
    have "new_cap dbg E dev m t bits (push_bit (object_bits t bits) 1) addr =
        Ret (Inr ?cap, write_bytes m addr 0 (push_bit (object_bits t bits) 1))"
      using cnode by (simp add: new_cap_def cnode_consts saturating_sub_def CNodeCap_mint_def cnode_mask_def Let_def)
    moreover have "fresh_object t (object_bits t bits) dev (unat addr) ?cap"
      using cnode by (simp add: fresh_object_def cap_bits_def object_bits_def mdb_isolated_def radix_bits_def guard_bits_def)
    ultimately show thesis using that [of ?cap] cnode by (simp add: clears_def)
  qed
qed

section \<open>Creating all objects\<close>

lemma retype_loop_Ret:
  assumes c: "creatable t bits" and a: "a = object_bits t bits"
    and osz: "osz = push_bit (object_bits t bits) 1"
    and self: "r_slots s self = Some raw" "self \<notin> set slots"
    and slots: "distinct slots" "set slots \<subseteq> dom (r_slots s)"
    and dvd: "2 ^ a dvd unat base + unat off"
    and room: "unat base + unat off + (i + length slots) * 2 ^ a \<le> 2 ^ 62"
  shows "\<exists>s'. retype_loop dbg E self t bits osz base off s i slots = Ret (Inr (), s') \<and>
    (\<forall>j < length slots. \<exists>cap. r_slots s' (slots ! j) = Some cap \<and>
       fresh_object t a (untyped_is_device raw) (unat base + unat off + (i + j) * 2 ^ a) cap) \<and>
    (\<forall>p. p \<notin> set slots \<longrightarrow> r_slots s' p = r_slots s p) \<and>
    (\<forall>x. r_mem s' x = (if clears t \<and> unat base + unat off + i * 2 ^ a \<le> unat x \<and>
       unat x < unat base + unat off + (i + length slots) * 2 ^ a then 0 else r_mem s x))"
  using self slots room
proof (induction slots arbitrary: s i)
  case Nil
  then show ?case by auto
next
  case (Cons p slots)
  have a64: "a < 62" using creatable_bits(4) [OF c] a by simp
  then have size: "unat osz = 2 ^ a" unfolding osz a [symmetric] by (intro unat_push_one) simp
  have pos: "(1 :: nat) \<le> 2 ^ a" by simp
  have mono: "i * 2 ^ a + 2 ^ a + length slots * 2 ^ a = (i + length (p # slots)) * 2 ^ a"
    by (simp add: algebra_simps)
  have room: "unat base + unat off + i * 2 ^ a + 2 ^ a + length slots * 2 ^ a \<le> 2 ^ 62"
    using Cons.prems(5) mono by simp
  have "i * 1 \<le> i * 2 ^ a" using pos by (intro mult_le_mono2)
  then have "i \<le> 2 ^ 62" using room unfolding mult_1_right by linarith
  then have i: "i < 2 ^ 64" by simp
  have ui: "unat (of_nat i :: usize) = i" using i by (simp add: unsigned_of_nat take_bit_nat_eq_self)
  define addr where "addr = base + off + of_nat i * osz"
  have um: "unat (of_nat i * osz) = i * 2 ^ a"
    using room by (simp add: unat_mult_exact ui size)
  have ub: "unat (base + off) = unat base + unat off" using room by (intro unat_add_exact) simp
  have ua: "unat addr = unat base + unat off + i * 2 ^ a"
    unfolding addr_def using room by (subst unat_add_exact) (simp_all add: ub um)
  have arith: "u_add dbg base off = Ret (base + off)"
    "u_mul dbg (of_nat i) osz = Ret (of_nat i * osz)"
    "u_add dbg (base + off) (of_nat i * osz) = Ret addr"
    using room by (simp_all add: u_add_exact u_mul_def ub um ui size addr_def)
  have "2 ^ object_bits t bits dvd unat addr" using dvd ua a by simp
  from new_cap_creatable [OF c this] obtain cap where
    cap: "new_cap dbg E (untyped_is_device raw) (r_mem s) t bits osz addr =
       Ret (Inr cap, if clears t then write_bytes (r_mem s) addr 0 osz else r_mem s)"
    "fresh_object t a (untyped_is_device raw) (unat addr) cap" unfolding a osz by metis
  define m1 where "m1 = (if clears t then write_bytes (r_mem s) addr 0 osz else r_mem s)"
  define s1 where "s1 = s\<lparr>r_slots := (r_slots s)(p \<mapsto> cap), r_mem := m1\<rparr>"
  have dom: "p \<in> dom (r_slots s)" using Cons.prems(4) by simp
  have step: "retype_loop dbg E self t bits osz base off s i (p # slots) =
      retype_loop dbg E self t bits osz base off s1 (Suc i) slots"
    using Cons.prems(1) dom cap(1)
    by (auto simp: arith entry_get_def entry_set_def s1_def m1_def)
  have mem1: "m1 x = (if clears t \<and> unat addr \<le> unat x \<and> unat x < unat addr + 2 ^ a then 0 else r_mem s x)" for x
  proof -
    have "x - addr < osz \<longleftrightarrow> unat addr \<le> unat x \<and> unat x < unat addr + 2 ^ a"
      using word_range [of addr "osz" x] room by (simp add: size ua)
    then show ?thesis by (simp add: m1_def write_bytes_def)
  qed
  have "\<exists>s'. retype_loop dbg E self t bits osz base off s1 (Suc i) slots = Ret (Inr (), s') \<and>
    (\<forall>j < length slots. \<exists>cap. r_slots s' (slots ! j) = Some cap \<and>
       fresh_object t a (untyped_is_device raw) (unat base + unat off + (Suc i + j) * 2 ^ a) cap) \<and>
    (\<forall>p. p \<notin> set slots \<longrightarrow> r_slots s' p = r_slots s1 p) \<and>
    (\<forall>x. r_mem s' x = (if clears t \<and> unat base + unat off + Suc i * 2 ^ a \<le> unat x \<and>
       unat x < unat base + unat off + (Suc i + length slots) * 2 ^ a then 0 else r_mem s1 x))"
    by (rule Cons.IH) (use Cons.prems in \<open>auto simp: s1_def\<close>)
  then obtain s' where s': "retype_loop dbg E self t bits osz base off s1 (Suc i) slots = Ret (Inr (), s')"
    "\<And>j. j < length slots \<Longrightarrow> \<exists>cap. r_slots s' (slots ! j) = Some cap \<and>
       fresh_object t a (untyped_is_device raw) (unat base + unat off + (Suc i + j) * 2 ^ a) cap"
    "\<And>q. q \<notin> set slots \<Longrightarrow> r_slots s' q = r_slots s1 q"
    "\<And>x. r_mem s' x = (if clears t \<and> unat base + unat off + Suc i * 2 ^ a \<le> unat x \<and>
       unat x < unat base + unat off + (Suc i + length slots) * 2 ^ a then 0 else r_mem s1 x)" by blast
  have caps: "\<exists>cap. r_slots s' ((p # slots) ! j) = Some cap \<and>
      fresh_object t a (untyped_is_device raw) (unat base + unat off + (i + j) * 2 ^ a) cap"
    if j: "j < length (p # slots)" for j
  proof (cases j)
    case 0
    have "r_slots s' p = Some cap" using s'(3) [of p] Cons.prems(3) by (simp add: s1_def)
    with 0 cap(2) ua show ?thesis by simp
  next
    case (Suc j')
    with j s'(2) [of j'] show ?thesis by simp
  qed
  have mem: "r_mem s' x = (if clears t \<and> unat base + unat off + i * 2 ^ a \<le> unat x \<and>
       unat x < unat base + unat off + (i + length (p # slots)) * 2 ^ a then 0 else r_mem s x)" for x
    using s'(4) [of x] mem1 [of x] ua by (auto simp: s1_def algebra_simps)
  have "\<forall>q. q \<notin> set (p # slots) \<longrightarrow> r_slots s' q = r_slots s q" using s'(3) by (simp add: s1_def)
  with step s'(1) caps mem show ?case by auto
qed

section \<open>The whole operation\<close>

text \<open>
  A well-formed region of untyped memory: aligned to its size, inside the physical address
  space, with the watermark inside the region.
\<close>

definition untyped_ok :: "CapRaw \<Rightarrow> bool" where
  "untyped_ok raw \<longleftrightarrow> cap_type raw = Untyped \<and> 4 \<le> unat (bit_size raw) \<and>
     2 ^ unat (bit_size raw) dvd unat (paddr raw) \<and>
     unat (paddr raw) + 2 ^ unat (bit_size raw) \<le> 2 ^ 52 \<and>
     unat (free_offset raw) \<le> 2 ^ unat (bit_size raw)"

definition round_up :: "nat \<Rightarrow> nat \<Rightarrow> nat" where
  "round_up n a = (n + 2 ^ a - 1) div 2 ^ a * 2 ^ a"

lemma round_up_ge: "n \<le> round_up n a"
proof -
  define m where "m = n + 2 ^ a - 1"
  have "m mod 2 ^ a < 2 ^ a" by simp
  moreover have "m div 2 ^ a * 2 ^ a + m mod 2 ^ a = m" by (rule div_mult_mod_eq)
  moreover have "n + 2 ^ a = m + 1" by (simp add: m_def)
  ultimately show ?thesis unfolding round_up_def m_def [symmetric] by linarith
qed

lemma round_up_dvd: "2 ^ a dvd round_up n a"
  by (simp add: round_up_def)

lemma distinct_ptrs: "distinct (p # ps) \<Longrightarrow> length ps < 2 ^ 64" for p :: ptr
proof -
  assume "distinct (p # ps)"
  then have "length (p # ps) = card (set (p # ps))" by (simp add: distinct_card)
  also have "\<dots> \<le> card (UNIV :: ptr set)" by (intro card_mono) simp_all
  also have "\<dots> = 2 ^ 64" by (simp add: card_word)
  finally show ?thesis by simp
qed

lemma retype_start:
  assumes E: "ext_ok E" and raw: "r_slots s self = Some raw" "untyped_ok raw"
    and c: "object_size t bits \<noteq> None" and dev': "\<not> (untyped_is_device raw \<and> t \<noteq> Frame \<and> t \<noteq> Untyped)"
    and slots: "distinct slots" "\<forall>p \<in> set slots. \<exists>raw. r_slots s p = Some raw \<and> cap_type raw = NullObj"
    and a: "a = object_bits t bits" and off: "off = round_up (unat (free_offset raw)) a"
  shows "retype dbg E s self t bits slots =
    (if 2 ^ 64 \<le> off + length slots * 2 ^ a then Ret (Inl InvalidValue, s)
     else if 2 ^ unat (bit_size raw) < off + length slots * 2 ^ a then Ret (Inl OutOfMemory, s)
     else obind (retype_loop dbg E self t bits (push_bit (object_bits t bits) 1) (paddr raw) (of_nat off) s 0 slots)
       (\<lambda>(r, s1). case r of Inl e \<Rightarrow> Ret (Inl e, s1) | Inr _ \<Rightarrow>
          obind (set_free_offset (r_slots s1) self (of_nat (off + length slots * 2 ^ a))) (\<lambda>st.
            Ret (Inr (), s1\<lparr>r_slots := st\<rparr>))))"
proof -
  have occ: "any_occupied (r_slots s) slots = Ret False" using slots(2) by (simp add: any_occupied_False)
  have "self \<notin> set slots" using slots(2) raw by (auto simp: untyped_ok_def)
  then have n: "length slots < 2 ^ 64" using slots(1) distinct_ptrs [of self slots] by simp
  define osz where "osz = push_bit (object_bits t bits) (1 :: usize)"
  have a48: "a \<le> 48" using sized_bits(4) [OF c] a by simp
  have osz: "unat osz = 2 ^ a" unfolding osz_def a [symmetric] by (rule unat_push_one) (use a48 in simp)
  have un: "unat (of_nat (length slots) :: usize) = length slots"
    using n by (simp add: unsigned_of_nat take_bit_nat_eq_self)
  have "unat (free_offset raw) < 2 ^ 58"
  proof -
    have "unat (free_offset raw) = unat (arg2 raw) div 2 ^ 6"
      by (simp only: free_offset_def unat_drop_bit_eq) (simp only: drop_bit_eq_div)
    then show ?thesis using unat_bound64 [of "arg2 raw"] by simp
  qed
  moreover have "(2 :: nat) ^ a \<le> 2 ^ 48" using a48 by (intro power_increasing) simp_all
  ultimately have small: "unat (free_offset raw) + 2 ^ a < 2 ^ 59" by simp
  have "unat (object_alignment t bits) < 64" using sized_bits(2) [OF c] a a48 by simp
  from alignup_unat [OF this, of "free_offset raw" dbg] obtain w where
    w: "alignup dbg (free_offset raw) (unat (object_alignment t bits)) = Ret w" "unat w = off"
    using small sized_bits(2) [OF c] by (auto simp: a off round_up_def)
  have wo: "of_nat off = w" unfolding w(2) [symmetric] by simp
  have size: "object_size t bits = Some osz" using sized_bits(1) [OF c] by (simp add: osz_def)
  have base: "CapRef_paddr E raw = Ret (paddr raw)"
  proof -
    have "(0 :: nat) < 2 ^ unat (bit_size raw)" by simp
    moreover have "unat (paddr raw) + 2 ^ unat (bit_size raw) \<le> 2 ^ 52"
      using raw(2) by (simp add: untyped_ok_def)
    ultimately have "unat (paddr raw) < 2 ^ 52" by linarith
    then show ?thesis using E by (simp add: CapRef_paddr_Ret word_less_nat_alt)
  qed
  show ?thesis
  proof (cases "checked_mul (of_nat (length slots)) osz")
    case None
    then have "2 ^ 64 \<le> length slots * 2 ^ a" by (simp add: checked_mul_def un osz split: if_splits)
    with None show ?thesis
      using occ raw(1) dev' size by (simp add: retype_def entry_get_def Let_def)
  next
    case (Some tot)
    have tot: "unat tot = length slots * 2 ^ a" using checked_mul_SomeD [OF Some] by (simp add: un osz)
    show ?thesis
    proof (cases "checked_add w tot")
      case None
      then have "2 ^ 64 \<le> off + length slots * 2 ^ a" by (simp add: checked_add_def w(2) tot split: if_splits)
      with None Some show ?thesis
        using occ raw(1) dev' size w(1) by (simp add: retype_def entry_get_def Let_def)
    next
      case req: (Some req)
      have ureq: "unat req = off + length slots * 2 ^ a" using checked_add_SomeD [OF req] by (simp add: w(2) tot)
      have lt: "\<not> 2 ^ 64 \<le> off + length slots * 2 ^ a" using unat_bound64 [of req] ureq by simp
      have add: "u_add dbg w tot = Ret (of_nat (off + length slots * 2 ^ a))"
      proof -
        have "of_nat (off + length slots * 2 ^ a) = (of_nat (unat w + unat tot) :: usize)"
          by (simp only: w(2) tot)
        also have "\<dots> = w + tot" by simp
        finally show ?thesis using lt by (simp add: u_add_exact w(2) tot)
      qed
      have cmp: "untyped_size raw < req \<longleftrightarrow> 2 ^ unat (bit_size raw) < off + length slots * 2 ^ a"
        by (simp add: word_less_nat_alt unat_untyped_size ureq)
      have "retype dbg E s self t bits slots =
        (if untyped_size raw < req then Ret (Inl OutOfMemory, s)
         else obind (retype_loop dbg E self t bits osz (paddr raw) w s 0 slots)
           (\<lambda>(r, s1). case r of Inl e \<Rightarrow> Ret (Inl e, s1) | Inr _ \<Rightarrow>
              obind (u_add dbg w tot) (\<lambda>n. obind (set_free_offset (r_slots s1) self n) (\<lambda>st.
                Ret (Inr (), s1\<lparr>r_slots := st\<rparr>)))))"
        by (simp only: retype_def entry_get_def occ obind.simps if_False deref_Some [where m = "r_slots s", OF raw(1)] Let_def
            dev' size option.case Some w(1) req base)
      then show ?thesis unfolding add obind.simps cmp if_not_P [OF lt] wo osz_def .
    qed
  qed
qed

lemma retype_success:
  assumes E: "ext_ok E" and raw: "r_slots s self = Some raw" "untyped_ok raw"
    and c: "object_size t bits \<noteq> None" "slots \<noteq> [] \<Longrightarrow> creatable t bits"
    and dev: "\<not> (untyped_is_device raw \<and> t \<noteq> Frame \<and> t \<noteq> Untyped)"
    and slots: "distinct slots" "\<forall>p \<in> set slots. \<exists>raw. r_slots s p = Some raw \<and> cap_type raw = NullObj"
    and a: "a = object_bits t bits" and off: "off = round_up (unat (free_offset raw)) a"
    and room: "off + length slots * 2 ^ a \<le> 2 ^ unat (bit_size raw)"
  shows "\<exists>s' raw'. retype dbg E s self t bits slots = Ret (Inr (), s') \<and>
    (\<forall>j < length slots. \<exists>cap. r_slots s' (slots ! j) = Some cap \<and>
       fresh_object t a (untyped_is_device raw) (unat (paddr raw) + off + j * 2 ^ a) cap) \<and>
    (\<forall>p. p \<notin> set slots \<longrightarrow> p \<noteq> self \<longrightarrow> r_slots s' p = r_slots s p) \<and>
    r_slots s' self = Some raw' \<and> raw' = raw\<lparr>arg2 := arg2 raw'\<rparr> \<and> bit_size raw' = bit_size raw \<and>
    unat (free_offset raw') = off + length slots * 2 ^ a \<and>
    (\<forall>x. r_mem s' x = (if clears t \<and> unat (paddr raw) + off \<le> unat x \<and>
       unat x < unat (paddr raw) + off + length slots * 2 ^ a then 0 else r_mem s x))"
proof -
  define osz where "osz = push_bit (object_bits t bits) (1 :: usize)"
  have self: "self \<notin> set slots" using slots(2) raw by (auto simp: untyped_ok_def)
  have top: "unat (paddr raw) + 2 ^ unat (bit_size raw) \<le> 2 ^ 52" using raw(2) by (simp add: untyped_ok_def)
  then have sum: "unat (paddr raw) + off + length slots * 2 ^ a \<le> 2 ^ 52" using room by linarith
  then have off52: "off \<le> 2 ^ 52" "off + length slots * 2 ^ a \<le> 2 ^ 52" by linarith+
  have uoff: "unat (of_nat off :: usize) = off"
    using off52(1) by (simp add: unsigned_of_nat take_bit_nat_eq_self)
  have unew: "unat (of_nat (off + length slots * 2 ^ a) :: usize) = off + length slots * 2 ^ a"
  proof -
    have "off + length slots * 2 ^ a < 2 ^ 64" using off52(2) by simp
    then show ?thesis by (simp only: unsigned_of_nat) (simp add: take_bit_nat_eq_self)
  qed
  have "\<exists>s'. retype_loop dbg E self t bits osz (paddr raw) (of_nat off) s 0 slots = Ret (Inr (), s') \<and>
    (\<forall>j < length slots. \<exists>cap. r_slots s' (slots ! j) = Some cap \<and>
       fresh_object t a (untyped_is_device raw) (unat (paddr raw) + off + (0 + j) * 2 ^ a) cap) \<and>
    (\<forall>p. p \<notin> set slots \<longrightarrow> r_slots s' p = r_slots s p) \<and>
    (\<forall>x. r_mem s' x = (if clears t \<and> unat (paddr raw) + off + 0 * 2 ^ a \<le> unat x \<and>
       unat x < unat (paddr raw) + off + (0 + length slots) * 2 ^ a then 0 else r_mem s x))"
  proof (cases "slots = []")
    case True
    then show ?thesis by auto
  next
    case False
    have "(1 :: nat) * 2 ^ a \<le> length slots * 2 ^ a"
      using False by (intro mult_le_mono1) (simp add: Suc_le_eq)
    with room have "(2 :: nat) ^ a \<le> 2 ^ unat (bit_size raw)" by linarith
    then have "a \<le> unat (bit_size raw)" by (simp add: power_le_imp_le_exp)
    then have "2 ^ a dvd unat (paddr raw)"
      using raw(2) le_imp_power_dvd [of a "unat (bit_size raw)" "2 :: nat"] by (auto simp: untyped_ok_def)
    then have dvd: "2 ^ a dvd unat (paddr raw) + unat (of_nat off :: usize)"
      unfolding uoff using round_up_dvd [of a] by (simp add: off)
    have dom: "set slots \<subseteq> dom (r_slots s)" using slots(2) by auto
    have "unat (paddr raw) + unat (of_nat off :: usize) + (0 + length slots) * 2 ^ a \<le> 2 ^ 62"
      using sum unfolding uoff by simp
    from retype_loop_Ret [OF c(2) [OF False] a osz_def raw(1) self slots(1) dom dvd this, of dbg E] show ?thesis
      unfolding uoff .
  qed
  then obtain s1 where s1: "retype_loop dbg E self t bits osz (paddr raw) (of_nat off) s 0 slots = Ret (Inr (), s1)"
    "\<And>j. j < length slots \<Longrightarrow> \<exists>cap. r_slots s1 (slots ! j) = Some cap \<and>
       fresh_object t a (untyped_is_device raw) (unat (paddr raw) + off + j * 2 ^ a) cap"
    "\<And>p. p \<notin> set slots \<Longrightarrow> r_slots s1 p = r_slots s p"
    "\<And>x. r_mem s1 x = (if clears t \<and> unat (paddr raw) + off \<le> unat x \<and>
       unat x < unat (paddr raw) + off + length slots * 2 ^ a then 0 else r_mem s x)" by auto
  have s1self: "r_slots s1 self = Some raw" using s1(3) [OF self] raw(1) by simp
  have "unat (of_nat (off + length slots * 2 ^ a) :: usize) < 2 ^ 58"
    unfolding unew using off52(2) by simp
  from set_free_offset_Ret [where st = "r_slots s1", OF s1self this] obtain raw' where
    raw': "set_free_offset (r_slots s1) self (of_nat (off + length slots * 2 ^ a)) = Ret ((r_slots s1)(self \<mapsto> raw'))"
    "free_offset raw' = of_nat (off + length slots * 2 ^ a)" "bit_size raw' = bit_size raw"
    "raw' = raw\<lparr>arg2 := arg2 raw'\<rparr>" by blast
  let ?s' = "s1\<lparr>r_slots := (r_slots s1)(self \<mapsto> raw')\<rparr>"
  have "\<not> 2 ^ 64 \<le> off + length slots * 2 ^ a" "\<not> 2 ^ unat (bit_size raw) < off + length slots * 2 ^ a"
    using off52(2) room by simp_all
  with retype_start [OF E raw c(1) dev slots a off, of dbg] s1(1) raw'(1) have
    "retype dbg E s self t bits slots = Ret (Inr (), ?s')"
    unfolding osz_def by (simp only: if_False obind.simps prod.case sum.case)
  moreover have "\<exists>cap. r_slots ?s' (slots ! j) = Some cap \<and>
       fresh_object t a (untyped_is_device raw) (unat (paddr raw) + off + j * 2 ^ a) cap" if "j < length slots" for j
  proof -
    have "slots ! j \<noteq> self" using self that nth_mem by blast
    with s1(2) [OF that] show ?thesis by simp
  qed
  moreover have "unat (free_offset raw') = off + length slots * 2 ^ a" unfolding raw'(2) unew ..
  ultimately show ?thesis
    using raw'(3,4) s1(3,4) by (intro exI [of _ ?s'] exI [of _ raw']) auto
qed

lemma untyped_ok_after:
  assumes "untyped_ok raw" "raw' = raw\<lparr>arg2 := arg2 raw'\<rparr>" "bit_size raw' = bit_size raw"
    "unat (free_offset raw') \<le> 2 ^ unat (bit_size raw)"
  shows "untyped_ok raw'" "paddr raw' = paddr raw" "untyped_is_device raw' = untyped_is_device raw"
proof -
  have "cap_type raw' = cap_type raw" "paddr raw' = paddr raw" "arg1 raw' = arg1 raw"
    using arg_cong [OF assms(2), of cap_type] arg_cong [OF assms(2), of paddr] arg_cong [OF assms(2), of arg1]
    by simp_all
  then show "untyped_ok raw'" "paddr raw' = paddr raw" "untyped_is_device raw' = untyped_is_device raw"
    using assms by (simp_all add: untyped_ok_def untyped_is_device_def)
qed

text \<open>Regions carved out of untyped memory are again well-formed untyped memory.\<close>

lemma fresh_untyped_ok:
  assumes raw: "untyped_ok raw" and f: "fresh_object Untyped a dev (unat (paddr raw) + n) cap"
    and a: "4 \<le> a" and n: "2 ^ a dvd n" "n + 2 ^ a \<le> 2 ^ unat (bit_size raw)"
  shows "untyped_ok cap"
proof -
  from f have bits: "unat (bit_size cap) = a" "free_offset cap = 0" "unat (paddr cap) = unat (paddr raw) + n"
    "cap_type cap = Untyped" by (auto simp: fresh_object_def cap_bits_def)
  have "(2 :: nat) ^ a \<le> 2 ^ unat (bit_size raw)" using n(2) by linarith
  then have "a \<le> unat (bit_size raw)" by (simp add: power_le_imp_le_exp)
  then have "2 ^ a dvd unat (paddr raw)"
    using raw le_imp_power_dvd [of a "unat (bit_size raw)" "2 :: nat"] by (auto simp: untyped_ok_def)
  moreover have "unat (paddr raw) + n + 2 ^ a \<le> 2 ^ 52"
    using raw n(2) unfolding untyped_ok_def by linarith
  ultimately show ?thesis using bits a n(1) by (simp add: untyped_ok_def)
qed

section \<open>Errors and unsupported objects\<close>

definition unsupported :: "ObjType \<Rightarrow> usize \<Rightarrow> bool" where
  "unsupported t bits \<longleftrightarrow> (t = Frame \<and> FrameSize_from_bits bits = None) \<or>
     (t \<noteq> Untyped \<and> t \<noteq> CNode \<and> t \<noteq> Frame \<and> t \<noteq> VSpace)"

lemma new_cap_Inl:
  "new_cap dbg E dev m t bits n addr = Ret (Inl e, m') \<Longrightarrow> unsupported t bits \<and> e = InvalidValue \<and> m' = m"
  by (cases t) (auto simp: new_cap_def unsupported_def obind_Ret_iff Let_def split: option.splits)

lemma new_cap_Inr: "new_cap dbg E dev m t bits n addr = Ret (Inr cap, m') \<Longrightarrow> \<not> unsupported t bits"
  by (cases t) (auto simp: new_cap_def unsupported_def split: option.splits)

lemma retype_loop_supported:
  "\<not> unsupported t bits \<Longrightarrow> retype_loop dbg E self t bits n base off s i slots \<noteq> Ret (Inl e, s')"
  by (induction dbg E self t bits n base off s i slots rule: retype_loop.induct)
     (auto simp: obind_Ret_iff split: sum.splits dest: new_cap_Inl)

lemma retype_loop_ConsE:
  assumes "retype_loop dbg E self t bits n base off s i (q # slots) = Ret (res, s')"
  obtains raw addr r m where "new_cap dbg E (untyped_is_device raw) (r_mem s) t bits n addr = Ret (r, m)"
    "(case r of Inl e \<Rightarrow> Ret (Inl e, s\<lparr>r_mem := m\<rparr>)
      | Inr cap \<Rightarrow> obind (entry_set (r_slots s) q cap) (\<lambda>st.
          retype_loop dbg E self t bits n base off (s\<lparr>r_slots := st, r_mem := m\<rparr>) (Suc i) slots)) = Ret (res, s')"
  using assms by (auto simp: obind_Ret_iff)

lemma retype_loop_Inl:
  assumes "retype_loop dbg E self t bits n base off s i slots = Ret (Inl e, s')"
  shows "e = InvalidValue \<and> s' = s"
proof (cases slots)
  case Nil
  with assms show ?thesis by simp
next
  case (Cons p ps)
  from retype_loop_ConsE [OF assms [unfolded Cons]] obtain raw addr r m where
    r: "new_cap dbg E (untyped_is_device raw) (r_mem s) t bits n addr = Ret (r, m)"
    and rest: "(case r of Inl e \<Rightarrow> Ret (Inl e, s\<lparr>r_mem := m\<rparr>)
      | Inr cap \<Rightarrow> obind (entry_set (r_slots s) p cap) (\<lambda>st.
          retype_loop dbg E self t bits n base off (s\<lparr>r_slots := st, r_mem := m\<rparr>) (Suc i) ps)) = Ret (Inl e, s')" .
  show ?thesis
  proof (cases r)
    case (Inl e')
    with r rest new_cap_Inl [of dbg E "untyped_is_device raw" "r_mem s" t bits n addr e' m] show ?thesis by simp
  next
    case (Inr cap)
    with r new_cap_Inr [of dbg E "untyped_is_device raw" "r_mem s" t bits n addr cap m]
    have "\<not> unsupported t bits" by simp
    from retype_loop_supported [OF this] rest Inr show ?thesis by (auto simp: obind_Ret_iff)
  qed
qed

lemma retype_stages:
  assumes "retype dbg E s self t bits slots = Ret (r, s')"
  shows "(\<exists>e. r = Inl e \<and> s' = s \<and> (e = SlotNotEmpty \<longleftrightarrow> any_occupied (r_slots s) slots = Ret True)) \<or>
    (\<exists>raw n tot base off r1 s1. r_slots s self = Some raw \<and> any_occupied (r_slots s) slots = Ret False \<and>
       object_size t bits = Some n \<and> \<not> (untyped_is_device raw \<and> t \<noteq> Frame \<and> t \<noteq> Untyped) \<and>
       retype_loop dbg E self t bits n base off s 0 slots = Ret (r1, s1) \<and>
       (case r1 of Inl e \<Rightarrow> Ret (Inl e, s1)
        | Inr _ \<Rightarrow> obind (u_add dbg off tot) (\<lambda>new_off.
            obind (set_free_offset (r_slots s1) self new_off) (\<lambda>st.
              Ret (Inr (), s1\<lparr>r_slots := st\<rparr>)))) = Ret (r, s'))"
proof (cases "any_occupied (r_slots s) slots = Ret False")
  case False
  with assms show ?thesis by (auto simp: retype_def obind_Ret_iff split: if_splits)
next
  case occ: True
  with assms obtain raw where raw: "r_slots s self = Some raw"
    by (cases "r_slots s self") (auto simp: retype_def entry_get_def)
  show ?thesis
  proof (cases "untyped_is_device raw \<and> t \<noteq> Frame \<and> t \<noteq> Untyped")
    case True
    with occ raw assms show ?thesis by (auto simp: retype_def entry_get_def)
  next
    case dev: False
    show ?thesis
    proof (cases "object_size t bits")
      case None
      with occ raw dev assms show ?thesis by (auto simp: retype_def entry_get_def Let_def)
    next
      case n: (Some n)
      show ?thesis
      proof (cases "checked_mul (of_nat (length slots)) n")
        case None
        with occ raw dev n assms show ?thesis by (auto simp: retype_def entry_get_def Let_def)
      next
        case tot: (Some tot)
        have "retype dbg E s self t bits slots =
          obind (alignup dbg (free_offset raw) (unat (object_alignment t bits))) (\<lambda>off.
            case checked_add off tot of
              None \<Rightarrow> Ret (Inl InvalidValue, s)
            | Some required \<Rightarrow>
                if untyped_size raw < required then Ret (Inl OutOfMemory, s) else
          obind (CapRef_paddr E raw) (\<lambda>base.
          obind (retype_loop dbg E self t bits n base off s 0 slots) (\<lambda>(r, s1).
            case r of
              Inl e \<Rightarrow> Ret (Inl e, s1)
            | Inr _ \<Rightarrow>
                obind (u_add dbg off tot) (\<lambda>new_off.
                obind (set_free_offset (r_slots s1) self new_off) (\<lambda>st.
                  Ret (Inr (), s1\<lparr>r_slots := st\<rparr>))))))"
          by (simp only: retype_def entry_get_def occ obind.simps if_False
              deref_Some [where m = "r_slots s", OF raw] Let_def dev n option.case tot)
        with assms obtain off where rest: "(case checked_add off tot of
              None \<Rightarrow> Ret (Inl InvalidValue, s)
            | Some required \<Rightarrow>
                if untyped_size raw < required then Ret (Inl OutOfMemory, s) else
          obind (CapRef_paddr E raw) (\<lambda>base.
          obind (retype_loop dbg E self t bits n base off s 0 slots) (\<lambda>(r, s1).
            case r of
              Inl e \<Rightarrow> Ret (Inl e, s1)
            | Inr _ \<Rightarrow>
                obind (u_add dbg off tot) (\<lambda>new_off.
                obind (set_free_offset (r_slots s1) self new_off) (\<lambda>st.
                  Ret (Inr (), s1\<lparr>r_slots := st\<rparr>)))))) = Ret (r, s')"
          by (auto simp only: obind_Ret_iff)
        show ?thesis
        proof (cases "checked_add off tot")
          case None
          with rest occ show ?thesis by auto
        next
          case (Some req)
          show ?thesis
          proof (cases "untyped_size raw < req")
            case True
            with Some rest occ show ?thesis by auto
          next
            case False
            with Some rest obtain base r1 s1 where
              "retype_loop dbg E self t bits n base off s 0 slots = Ret (r1, s1)"
              "(case r1 of Inl e \<Rightarrow> Ret (Inl e, s1)
                | Inr _ \<Rightarrow> obind (u_add dbg off tot) (\<lambda>new_off.
                    obind (set_free_offset (r_slots s1) self new_off) (\<lambda>st.
                      Ret (Inr (), s1\<lparr>r_slots := st\<rparr>)))) = Ret (r, s')"
              by (auto simp only: option.case if_False obind_Ret_iff prod.case)
            with raw occ n dev show ?thesis by blast
          qed
        qed
      qed
    qed
  qed
qed

lemma retype_Inr_loop:
  assumes "retype dbg E s self t bits slots = Ret (Inr (), s')"
  obtains raw n base off s1 where "r_slots s self = Some raw" "any_occupied (r_slots s) slots = Ret False"
    "object_size t bits = Some n" "\<not> (untyped_is_device raw \<and> t \<noteq> Frame \<and> t \<noteq> Untyped)"
    "retype_loop dbg E self t bits n base off s 0 slots = Ret (Inr (), s1)"
    "\<And>p. p \<noteq> self \<Longrightarrow> r_slots s' p = r_slots s1 p"
proof -
  from retype_stages [OF assms] obtain raw n tot base off r1 s1 where
    st: "r_slots s self = Some raw" "any_occupied (r_slots s) slots = Ret False" "object_size t bits = Some n"
    "\<not> (untyped_is_device raw \<and> t \<noteq> Frame \<and> t \<noteq> Untyped)"
    "retype_loop dbg E self t bits n base off s 0 slots = Ret (r1, s1)"
    "(case r1 of Inl e \<Rightarrow> Ret (Inl e, s1)
      | Inr _ \<Rightarrow> obind (u_add dbg off tot) (\<lambda>new_off.
          obind (set_free_offset (r_slots s1) self new_off) (\<lambda>st.
            Ret (Inr (), s1\<lparr>r_slots := st\<rparr>)))) = Ret (Inr (), s')" by blast
  have "r1 = Inr ()" using st(6) by (cases r1) auto
  moreover from this st(6) have "r_slots s' p = r_slots s1 p" if "p \<noteq> self" for p
    using that by (auto simp: obind_Ret_iff set_free_offset_def entry_set_def modify_Ret_iff)
  ultimately show thesis using that [OF st(1-4)] st(5) by simp
qed

lemma retype_Inl_same:
  assumes "retype dbg E s self t bits slots = Ret (Inl e, s')"
  shows "s' = s \<and> (e = SlotNotEmpty \<longleftrightarrow> any_occupied (r_slots s) slots = Ret True)"
  using retype_stages [OF assms]
proof (elim disjE exE conjE)
  fix raw n tot base off r1 s1
  assume "any_occupied (r_slots s) slots = Ret False" and loop: "retype_loop dbg E self t bits n base off s 0 slots = Ret (r1, s1)"
    and rest: "(case r1 of Inl e \<Rightarrow> Ret (Inl e, s1)
      | Inr _ \<Rightarrow> obind (u_add dbg off tot) (\<lambda>new_off.
          obind (set_free_offset (r_slots s1) self new_off) (\<lambda>st.
            Ret (Inr (), s1\<lparr>r_slots := st\<rparr>)))) = Ret (Inl e, s')"
  then show ?thesis by (cases r1) (auto simp: obind_Ret_iff dest: retype_loop_Inl)
qed simp

text \<open>A node minted by \<open>retype\<close> always asks for all 64 bits, more than a node may have.\<close>

lemma new_cap_cnode:
  assumes "object_size CNode bits = Some n" "new_cap dbg E dev m CNode bits n' addr = Ret (Inr cap, m')"
  shows "bits = 6 \<and> radix_bits cap = 0 \<and> guard_bits cap = 0"
proof -
  from assms(1) have b: "6 \<le> unat bits" "unat bits \<le> 48" "6 \<le> bits"
    by (auto simp: object_size_def cnode_consts word_le_nat_alt split: if_splits)
  define radix where "radix = bits - 6"
  have ur: "unat radix = unat bits - 6" unfolding radix_def using b(3) by (simp add: unat_sub)
  have sat: "saturating_sub bits 6 = radix" "saturating_sub 64 radix = 64 - radix"
    using b ur by (auto simp: saturating_sub_def radix_def word_less_nat_alt)
  have mint: "CNodeCap_mint addr radix (64 - radix) 0 R_CONTROL = Ret cap"
    using assms(2) by (auto simp: new_cap_def cnode_consts sat obind_Ret_iff Let_def)
  show ?thesis
  proof (cases "radix = 0")
    case True
    then have "bits = 6" by (simp add: radix_def)
    moreover have "CNodeCap_mint addr radix (64 - radix) 0 R_CONTROL = CNodeCap_mint addr 0 0 0 R_CONTROL"
      by (simp add: True CNodeCap_mint_def cnode_consts cnode_mask_def)
    with mint have "cap = (default_with_type CNode)\<lparr>paddr := addr, arg1 := 0, arg2 := 0, rights := R_CONTROL\<rparr>"
      by (simp add: CNodeCap_mint_Ret)
    ultimately show ?thesis by (simp add: radix_bits_def guard_bits_def)
  next
    case False
    then have pos: "0 < unat radix" by (simp add: unat_gt_0)
    have le: "radix \<le> 64" using ur b(2) by (simp add: word_le_nat_alt)
    have u: "unat (64 - radix) = 64 - unat radix" using unat_sub [OF le] by simp
    have "unat radix < 64" "unat (64 - radix) < 64" "\<not> unat radix + unat (64 - radix) \<le> 32"
      using u pos ur b(2) by auto
    with mint show ?thesis by (simp add: CNodeCap_mint_Ret)
  qed
qed

definition zero_node :: "CapRaw option \<Rightarrow> bool" where
  "zero_node c \<longleftrightarrow> (\<exists>cap. c = Some cap \<and> radix_bits cap = 0 \<and> guard_bits cap = 0)"

lemma retype_loop_cnode:
  "object_size CNode bits = Some n \<Longrightarrow>
   retype_loop dbg E self CNode bits n' base off s i slots = Ret (Inr (), s') \<Longrightarrow>
   (slots = [] \<or> bits = 6) \<and>
   (\<forall>p. p \<in> set slots \<or> zero_node (r_slots s p) \<longrightarrow> zero_node (r_slots s' p))"
proof (induction slots arbitrary: s i)
  case (Cons q slots)
  from retype_loop_ConsE [OF Cons.prems(2)] obtain raw addr r m where
    r: "new_cap dbg E (untyped_is_device raw) (r_mem s) CNode bits n' addr = Ret (r, m)"
    and rest: "(case r of Inl e \<Rightarrow> Ret (Inl e, s\<lparr>r_mem := m\<rparr>)
      | Inr cap \<Rightarrow> obind (entry_set (r_slots s) q cap) (\<lambda>st.
          retype_loop dbg E self CNode bits n' base off (s\<lparr>r_slots := st, r_mem := m\<rparr>) (Suc i) slots)) =
      Ret (Inr (), s')" .
  from rest obtain cap where cap: "r = Inr cap" by (cases r) auto
  from rest cap have loop: "retype_loop dbg E self CNode bits n' base off
      (s\<lparr>r_slots := (r_slots s)(q \<mapsto> cap), r_mem := m\<rparr>) (Suc i) slots = Ret (Inr (), s')"
    by (auto simp: obind_Ret_iff entry_set_def modify_Ret_iff)
  from new_cap_cnode [OF Cons.prems(1) r [unfolded cap]] Cons.IH [OF Cons.prems(1) loop]
  show ?case by (auto simp: zero_node_def)
qed simp

text \<open>A request that creates something is one of those above.\<close>

lemma retype_creatable:
  assumes "retype dbg E s self t bits slots = Ret (Inr (), s')" "slots \<noteq> []"
  shows "creatable t bits"
proof -
  from retype_Inr_loop [OF assms(1)] obtain n base off s1 where
    n: "object_size t bits = Some n" and loop: "retype_loop dbg E self t bits n base off s 0 slots = Ret (Inr (), s1)" by metis
  show ?thesis
  proof (cases "t = CNode")
    case True
    with retype_loop_cnode [OF n [unfolded True] loop [unfolded True]] assms(2) show ?thesis by (simp add: creatable_def)
  next
    case False
    from assms(2) obtain q slots' where "slots = q # slots'" by (cases slots) auto
    from retype_loop_ConsE [OF loop [unfolded this]] obtain raw addr r m where
      r: "new_cap dbg E (untyped_is_device raw) (r_mem s) t bits n addr = Ret (r, m)"
      and "(case r of Inl e \<Rightarrow> Ret (Inl e, s\<lparr>r_mem := m\<rparr>)
        | Inr cap \<Rightarrow> obind (entry_set (r_slots s) q cap) (\<lambda>st.
            retype_loop dbg E self t bits n base off (s\<lparr>r_slots := st, r_mem := m\<rparr>) (Suc 0) slots')) =
        Ret (Inr (), s1)" .
    then obtain cap where "r = Inr cap" by (cases r) auto
    with r have "\<not> unsupported t bits" using new_cap_Inr by blast
    with False n show ?thesis by (auto simp: unsupported_def creatable_def)
  qed
qed

section \<open>Sequences of retype operations\<close>

text \<open>
  One region of untyped memory over time. The second component collects what has been handed
  out: for every capability that a successful \<open>retype\<close> wrote into a slot, the region of the
  object, as the capability itself describes it. Slots may be emptied and reused in between. The
  slots of a call are the elements of a slice, and so different objects.
\<close>

definition region_of :: "CapRaw \<Rightarrow> nat \<times> nat" where
  "region_of cap = (unat (paddr cap), 2 ^ cap_bits cap)"

inductive untyped_step ::
    "bool \<Rightarrow> ext \<Rightarrow> ptr \<Rightarrow> retype_st \<times> (nat \<times> nat) list \<Rightarrow> retype_st \<times> (nat \<times> nat) list \<Rightarrow> bool"
  for dbg E self where
  retype: "distinct slots \<Longrightarrow> retype dbg E s self t bits slots = Ret (Inr (), s') \<Longrightarrow>
    untyped_step dbg E self (s, regs) (s', regs @ map (\<lambda>p. region_of (the (r_slots s' p))) slots)"
| fail: "retype dbg E s self t bits slots = Ret (Inl e, s') \<Longrightarrow> untyped_step dbg E self (s, regs) (s', regs)"
| other: "p \<noteq> self \<Longrightarrow> untyped_step dbg E self (s, regs) (s\<lparr>r_slots := (r_slots s)(p := c), r_mem := m\<rparr>, regs)"

definition carved :: "nat \<Rightarrow> nat \<Rightarrow> (nat \<times> nat) list \<Rightarrow> bool" where
  "carved lo hi regs \<longleftrightarrow> (\<forall>(b, n) \<in> set regs. lo \<le> b \<and> b + n \<le> hi) \<and>
     sorted_wrt (\<lambda>(b, n) (b', n'). b + n \<le> b') regs"

lemma carved_append:
  assumes "carved lo mid xs" "carved mid hi ys" "lo \<le> mid" "mid \<le> hi"
  shows "carved lo hi (xs @ ys)"
  using assms unfolding carved_def by (fastforce simp: sorted_wrt_append)

lemma carved_upt:
  "carved lo (lo + n * k) (map (\<lambda>j. (lo + j * k, k)) [0..<n])"
proof -
  have "lo + j * k + k \<le> lo + n * k" if "j < n" for j
    using mult_le_mono1 [of "Suc j" n k] that by simp
  moreover have "sorted_wrt (\<lambda>i j. lo + i * k + k \<le> lo + j * k) [0..<n]"
  proof (rule sorted_wrt_mono_rel [of _ "(<)"])
    show "lo + i * k + k \<le> lo + j * k" if "i < j" for i j
      using mult_le_mono1 [of "Suc i" j k] that by simp
  qed (rule sorted_wrt_upt)
  ultimately show ?thesis by (auto simp: carved_def sorted_wrt_map)
qed

definition untyped_inv :: "ptr \<Rightarrow> nat \<Rightarrow> nat \<Rightarrow> retype_st \<times> (nat \<times> nat) list \<Rightarrow> bool" where
  "untyped_inv self base bits = (\<lambda>(s, regs). \<exists>raw. r_slots s self = Some raw \<and> untyped_ok raw \<and>
     unat (paddr raw) = base \<and> unat (bit_size raw) = bits \<and> carved base (base + unat (free_offset raw)) regs)"

lemma untyped_step_inv:
  assumes E: "ext_ok E" and step: "untyped_step dbg E self S S'" and inv: "untyped_inv self b k S"
  shows "untyped_inv self b k S'"
  using step
proof cases
  case (retype slots s t bits s' regs)
  from inv retype(1) obtain raw where raw: "r_slots s self = Some raw" "untyped_ok raw"
    "unat (paddr raw) = b" "unat (bit_size raw) = k" "carved b (b + unat (free_offset raw)) regs"
    by (auto simp: untyped_inv_def)
  from retype_Inr_loop [OF retype(4)] raw(1) obtain n where n: "object_size t bits = Some n"
    and occ: "any_occupied (r_slots s) slots = Ret False"
    and dev: "\<not> (untyped_is_device raw \<and> t \<noteq> Frame \<and> t \<noteq> Untyped)" by (metis option.inject)
  from n occ have c: "object_size t bits \<noteq> None"
    and null: "\<forall>p \<in> set slots. \<exists>raw. r_slots s p = Some raw \<and> cap_type raw = NullObj"
    by (simp_all add: any_occupied_False)
  define a where "a = object_bits t bits"
  define off where "off = round_up (unat (free_offset raw)) a"
  have fit: "off + length slots * 2 ^ a \<le> 2 ^ k"
  proof (rule ccontr)
    assume "\<not> off + length slots * 2 ^ a \<le> 2 ^ k"
    with retype_start [OF E raw(1,2) c dev retype(3) null a_def off_def, of dbg] raw(4) retype(4)
    show False by (simp split: if_splits)
  qed
  from retype_success [OF E raw(1,2) c retype_creatable [OF retype(4)] dev retype(3) null a_def off_def, of dbg] fit raw(3,4) retype(4)
  obtain raw' where s': "\<And>j. j < length slots \<Longrightarrow> \<exists>cap. r_slots s' (slots ! j) = Some cap \<and>
       fresh_object t a (untyped_is_device raw) (b + off + j * 2 ^ a) cap"
    "r_slots s' self = Some raw'" "raw' = raw\<lparr>arg2 := arg2 raw'\<rparr>" "bit_size raw' = bit_size raw"
    "unat (free_offset raw') = off + length slots * 2 ^ a" by auto
  have "map (\<lambda>p. region_of (the (r_slots s' p))) slots = map (\<lambda>j. (b + off + j * 2 ^ a, 2 ^ a)) [0..<length slots]"
  proof (rule nth_equalityI)
    fix j assume "j < length (map (\<lambda>p. region_of (the (r_slots s' p))) slots)"
    then have j: "j < length slots" by simp
    from s'(1) [OF j] j show "map (\<lambda>p. region_of (the (r_slots s' p))) slots ! j =
        map (\<lambda>j. (b + off + j * 2 ^ a, 2 ^ a)) [0..<length slots] ! j"
      by (auto simp: region_of_def fresh_object_def)
  qed simp
  moreover have "carved (b + off) (b + off + length slots * 2 ^ a)
      (map (\<lambda>j. (b + off + j * 2 ^ a, 2 ^ a)) [0..<length slots])" by (rule carved_upt)
  moreover have "carved b (b + off) regs"
    using raw(5) round_up_ge [of "unat (free_offset raw)" a] unfolding carved_def off_def by fastforce
  ultimately have "carved b (b + unat (free_offset raw')) (regs @ map (\<lambda>p. region_of (the (r_slots s' p))) slots)"
    using carved_append [of b "b + off" regs "b + off + length slots * 2 ^ a"] s'(5) by (simp add: add.assoc)
  moreover have "untyped_ok raw'" "paddr raw' = paddr raw"
    using untyped_ok_after [OF raw(2) s'(3,4)] s'(5) fit raw(4) by simp_all
  ultimately show ?thesis using retype(2) s'(2,4) raw(3,4) by (simp add: untyped_inv_def)
next
  case (fail s t bits slots e s' regs)
  with inv retype_Inl_same [OF fail(3)] show ?thesis by simp
next
  case (other p s regs c m)
  with inv show ?thesis by (auto simp: untyped_inv_def)
qed

section \<open>Properties\<close>

text \<open>
  Claim C23. \<open>retype\<close> on a well-formed region, for every request that it can satisfy and empty
  slots, in both build profiles: with enough room behind the aligned watermark it succeeds;
  slot \<open>j\<close> then holds a fresh capability for the \<open>j\<close>-th object of the requested size, the
  objects lie one behind the other, aligned, between the old and the new watermark; the memory
  of new address spaces and capability nodes is cleared and no other byte changes; no other slot changes; and the
  region, and every region of untyped memory made from it, is well-formed again. Without
  enough room nothing changes and the error says so.
\<close>

theorem retype_correct:
  assumes E: "ext_ok E" and raw: "r_slots s self = Some raw" "untyped_ok raw"
    and c: "creatable t bits" and dev: "\<not> (untyped_is_device raw \<and> clears t)"
    and slots: "distinct slots" "\<forall>p \<in> set slots. \<exists>raw. r_slots s p = Some raw \<and> cap_type raw = NullObj"
    and a: "a = object_bits t bits" and off: "off = round_up (unat (free_offset raw)) a"
  shows "if off + length slots * 2 ^ a \<le> 2 ^ unat (bit_size raw)
    then \<exists>s' raw'. retype dbg E s self t bits slots = Ret (Inr (), s') \<and>
      (\<forall>j < length slots. \<exists>cap. r_slots s' (slots ! j) = Some cap \<and>
         fresh_object t a (untyped_is_device raw) (unat (paddr raw) + off + j * 2 ^ a) cap \<and>
         2 ^ a dvd unat (paddr cap) \<and> (t = Untyped \<longrightarrow> untyped_ok cap)) \<and>
      (\<forall>p. p \<notin> set slots \<longrightarrow> p \<noteq> self \<longrightarrow> r_slots s' p = r_slots s p) \<and>
      r_slots s' self = Some raw' \<and> untyped_ok raw' \<and> paddr raw' = paddr raw \<and> bit_size raw' = bit_size raw \<and>
      unat (free_offset raw') = off + length slots * 2 ^ a \<and>
      (\<forall>x. r_mem s' x = (if clears t \<and> unat (paddr raw) + off \<le> unat x \<and>
         unat x < unat (paddr raw) + off + length slots * 2 ^ a then 0 else r_mem s x))
    else retype dbg E s self t bits slots =
      Ret (Inl (if 2 ^ 64 \<le> off + length slots * 2 ^ a then InvalidValue else OutOfMemory), s)"
proof -
  have dev': "\<not> (untyped_is_device raw \<and> t \<noteq> Frame \<and> t \<noteq> Untyped)" using dev c by (auto simp: creatable_def clears_def)
  show ?thesis
  proof (cases "off + length slots * 2 ^ a \<le> 2 ^ unat (bit_size raw)")
    case True
    from retype_success [OF E raw creatable_sized [OF c] c dev' slots a off True, of dbg] obtain s' raw' where
      s': "retype dbg E s self t bits slots = Ret (Inr (), s')"
      "\<And>j. j < length slots \<Longrightarrow> \<exists>cap. r_slots s' (slots ! j) = Some cap \<and>
         fresh_object t a (untyped_is_device raw) (unat (paddr raw) + off + j * 2 ^ a) cap"
      "\<And>p. p \<notin> set slots \<Longrightarrow> p \<noteq> self \<Longrightarrow> r_slots s' p = r_slots s p"
      "r_slots s' self = Some raw'" "raw' = raw\<lparr>arg2 := arg2 raw'\<rparr>" "bit_size raw' = bit_size raw"
      "unat (free_offset raw') = off + length slots * 2 ^ a"
      "\<And>x. r_mem s' x = (if clears t \<and> unat (paddr raw) + off \<le> unat x \<and>
         unat x < unat (paddr raw) + off + length slots * 2 ^ a then 0 else r_mem s x)" by blast
    have caps: "\<exists>cap. r_slots s' (slots ! j) = Some cap \<and>
        fresh_object t a (untyped_is_device raw) (unat (paddr raw) + off + j * 2 ^ a) cap \<and>
        2 ^ a dvd unat (paddr cap) \<and> (t = Untyped \<longrightarrow> untyped_ok cap)" if j: "j < length slots" for j
    proof -
      from s'(2) [OF j] obtain cap where cap: "r_slots s' (slots ! j) = Some cap"
        "fresh_object t a (untyped_is_device raw) (unat (paddr raw) + off + j * 2 ^ a) cap" by blast
      have "off + j * 2 ^ a + 2 ^ a \<le> off + length slots * 2 ^ a"
        using mult_le_mono1 [of "Suc j" "length slots" "2 ^ a"] j by simp
      then have fit: "off + j * 2 ^ a + 2 ^ a \<le> 2 ^ unat (bit_size raw)" using True by linarith
      then have "(2 :: nat) ^ a \<le> 2 ^ unat (bit_size raw)" by linarith
      then have "a \<le> unat (bit_size raw)" by (simp add: power_le_imp_le_exp)
      then have "2 ^ a dvd unat (paddr raw)"
        using raw(2) le_imp_power_dvd [of a "unat (bit_size raw)" "2 :: nat"] by (auto simp: untyped_ok_def)
      moreover have "2 ^ a dvd off + j * 2 ^ a" using round_up_dvd [of a] by (simp add: off)
      ultimately have "2 ^ a dvd unat (paddr raw) + (off + j * 2 ^ a)" by (rule dvd_add)
      moreover have "untyped_ok cap" if "t = Untyped"
        using fresh_untyped_ok [OF raw(2), of a "untyped_is_device raw" "off + j * 2 ^ a" cap] cap(2) that fit
          creatable_bits(3) [OF c] a \<open>2 ^ a dvd off + j * 2 ^ a\<close> by (simp add: add.assoc)
      ultimately show ?thesis using cap by (auto simp: fresh_object_def add.assoc)
    qed
    have "untyped_ok raw'" "paddr raw' = paddr raw"
      using untyped_ok_after [OF raw(2) s'(5,6)] s'(7) True by simp_all
    with True s'(1,3,4,6,7,8) caps show ?thesis by auto
  next
    case False
    with retype_start [OF E raw creatable_sized [OF c] dev' slots a off, of dbg] show ?thesis by simp
  qed
qed

text \<open>A region of 64 KiB at 0x100000 and two empty slots, for the witnesses.\<close>

definition demo_untyped :: retype_st where
  "demo_untyped = \<lparr>r_slots = [0x40 \<mapsto> UntypedCap_mint 0x100000 16 False, 0x80 \<mapsto> CapRaw_default,
     0xC0 \<mapsto> CapRaw_default], r_mem = (\<lambda>_. 0xFF)\<rparr>"

lemma demo_untyped_ok:
  "r_slots demo_untyped 0x40 = Some (UntypedCap_mint 0x100000 16 False)"
  "untyped_ok (UntypedCap_mint 0x100000 16 False)"
  "\<forall>p \<in> set [0x80, 0xC0]. \<exists>raw. r_slots demo_untyped p = Some raw \<and> cap_type raw = NullObj"
  using mint_untyped_reads [of 16 "0x100000" False]
  by (simp_all add: demo_untyped_def untyped_ok_def CapRaw_default_def) (simp_all add: UntypedCap_mint_def)

theorem retype_correct_witness:
  "\<exists>s' cap. retype True ext_doc demo_untyped 0x40 Frame 12 [0x80, 0xC0] = Ret (Inr (), s') \<and>
     r_slots s' 0xC0 = Some cap \<and> unat (paddr cap) = 0x101000 \<and> cap_type cap = Frame"
proof -
  let ?raw = "UntypedCap_mint 0x100000 16 False"
  have c: "creatable Frame 12" by (simp add: creatable_def object_size_def)
  have a: "12 = object_bits Frame 12" by (simp add: object_bits_def)
  have reads: "bit_size ?raw = 16" "free_offset ?raw = 0" "untyped_is_device ?raw = False" "paddr ?raw = 0x100000"
    using mint_untyped_reads [of 16 "0x100000" False] by simp_all (simp add: UntypedCap_mint_def)
  have off: "0 = round_up (unat (free_offset ?raw)) 12" by (simp add: reads round_up_def)
  have fit: "(0 :: nat) + length [0x80, 0xC0 :: ptr] * 2 ^ 12 \<le> 2 ^ unat (bit_size ?raw)" by (simp add: reads)
  from retype_correct [OF ext_doc_ok demo_untyped_ok(1,2) c _ _ demo_untyped_ok(3) a off, of True, unfolded if_P [OF fit]]
  obtain s' where s': "retype True ext_doc demo_untyped 0x40 Frame 12 [0x80, 0xC0] = Ret (Inr (), s')"
    "\<And>j. j < Suc (Suc 0) \<Longrightarrow> \<exists>cap. r_slots s' ([0x80, 0xC0] ! j) = Some cap \<and>
       fresh_object Frame 12 False (0x100000 + j * 2 ^ 12) cap \<and> 2 ^ 12 dvd unat (paddr cap)" by (auto simp: reads)
  from s'(2) [of 1] show ?thesis using s'(1) by (auto simp: fresh_object_def)
qed

text \<open>
  An error of \<open>retype\<close> leaves slots and memory as they were, whatever the request;
  the error is \<open>SlotNotEmpty\<close> exactly when some slot up to the first missing one is
  occupied.
\<close>

theorem retype_errors:
  assumes "retype dbg E s self t bits slots = Ret (Inl e, s')"
  shows "s' = s \<and> (e = SlotNotEmpty \<longleftrightarrow> any_occupied (r_slots s) slots = Ret True)"
  by (rule retype_Inl_same [OF assms])

theorem retype_errors_witness:
  "\<exists>s'. retype False ext_doc demo_untyped 0x40 Frame 12 [0x80, 0x40] = Ret (Inl SlotNotEmpty, s') \<and> s' = demo_untyped"
proof -
  have "retype False ext_doc demo_untyped 0x40 Frame 12 [0x80, 0x40] = Ret (Inl SlotNotEmpty, demo_untyped)"
    by (simp add: retype_def demo_untyped_def entry_get_def try_from_def CapRaw_default_def UntypedCap_mint_def)
  with retype_errors [OF this] show ?thesis by blast
qed

text \<open>
  What \<open>retype\<close> does not create. A request for at least one thread control block,
  endpoint, notification, reply, scheduling or interrupt object never succeeds, although
  \<open>object_size\<close> gives thread control blocks a size. A request for a capability node succeeds
  only with \<open>bits = 6\<close>, and what it then writes is a node with no guard and no index bits:
  every larger size asks \<open>CNodeCap::mint\<close> for 64 bits in all, which it refuses by panicking.
\<close>

theorem retype_unsupported:
  assumes "retype dbg E s self t bits slots = Ret (Inr (), s')" "slots \<noteq> []"
  shows "t \<in> {Untyped, Frame, VSpace} \<or>
    (t = CNode \<and> bits = 6 \<and>
     (\<forall>p \<in> set slots. p \<noteq> self \<longrightarrow>
        (\<exists>cap. r_slots s' p = Some cap \<and> radix_bits cap = 0 \<and> guard_bits cap = 0)))"
proof -
  from retype_Inr_loop [OF assms(1)] obtain n base off s1 where
    n: "object_size t bits = Some n" and loop: "retype_loop dbg E self t bits n base off s 0 slots = Ret (Inr (), s1)"
    and same: "\<forall>p. p \<noteq> self \<longrightarrow> r_slots s' p = r_slots s1 p" by metis
  show ?thesis
  proof (cases "t = CNode")
    case True
    from retype_loop_cnode [OF n [unfolded True] loop [unfolded True]] assms(2) True same show ?thesis
      by (auto simp: zero_node_def)
  next
    case False
    from assms(2) obtain q slots' where "slots = q # slots'" by (cases slots) auto
    from retype_loop_ConsE [OF loop [unfolded this]] obtain raw addr r m where
      r: "new_cap dbg E (untyped_is_device raw) (r_mem s) t bits n addr = Ret (r, m)"
      and "(case r of Inl e \<Rightarrow> Ret (Inl e, s\<lparr>r_mem := m\<rparr>)
        | Inr cap \<Rightarrow> obind (entry_set (r_slots s) q cap) (\<lambda>st.
            retype_loop dbg E self t bits n base off (s\<lparr>r_slots := st, r_mem := m\<rparr>) (Suc 0) slots')) =
        Ret (Inr (), s1)" .
    then obtain cap where "r = Inr cap" by (cases r) auto
    with r have "\<not> unsupported t bits" using new_cap_Inr by blast
    with False show ?thesis by (auto simp: unsupported_def)
  qed
qed

text \<open>The witness is the one node that \<open>retype\<close> can make.\<close>

theorem retype_unsupported_witness:
  "\<exists>s' cap. retype True ext_doc demo_untyped 0x40 CNode 6 [0x80] = Ret (Inr (), s') \<and>
     r_slots s' 0x80 = Some cap \<and> radix_bits cap = 0"
proof -
  let ?raw = "UntypedCap_mint 0x100000 16 False"
  have reads: "bit_size ?raw = 16" "free_offset ?raw = 0" "untyped_is_device ?raw = False" "paddr ?raw = 0x100000"
    using mint_untyped_reads [of 16 "0x100000" False] by simp_all (simp add: UntypedCap_mint_def)
  have occ: "any_occupied (r_slots demo_untyped) [0x80] = Ret False"
    using demo_untyped_ok(3) by (simp add: any_occupied_False del: any_occupied.simps)
  have slot: "r_slots demo_untyped 0x80 = Some CapRaw_default" by (simp add: demo_untyped_def)
  have sz: "object_size CNode 6 = Some 64" "object_alignment CNode 6 = 6"
    by (simp_all add: object_size_def object_alignment_def cnode_consts saturating_sub_def)
  have al: "alignup True 0 6 = Ret 0"
    by (simp add: alignup_def u_add_def u_sub_def kbit_def kmask_def)
  have base: "CapRef_paddr ext_doc ?raw = Ret 0x100000"
    by (simp add: CapRef_paddr_def reads ext_doc_def)
  have cap: "new_cap True ext_doc dev m CNode 6 64 a =
      Ret (Inr ((default_with_type CNode)\<lparr>paddr := a, rights := R_CONTROL\<rparr>), write_bytes m a 0 64)" for dev m a
    by (simp add: new_cap_def cnode_consts saturating_sub_def CNodeCap_mint_def cnode_mask_def)
  have "\<exists>s'. retype True ext_doc demo_untyped 0x40 CNode 6 [0x80] = Ret (Inr (), s')"
    by (simp add: retype_def occ sz al base cap reads entry_get_def demo_untyped_ok(1) slot checked_mul_def
        checked_add_def u_add_def u_mul_def untyped_size_def entry_set_def set_free_offset_def modify_def
        del: any_occupied.simps)
  then obtain s' where s': "retype True ext_doc demo_untyped 0x40 CNode 6 [0x80] = Ret (Inr (), s')" by blast
  from retype_unsupported [OF this] show ?thesis using s' by auto
qed

text \<open>
  Claim C9. Over any sequence of \<open>retype\<close> calls on one region of untyped memory, for objects of any type
  and successful or not, with slots other than the region's own overwritten and memory changed in between, the
  objects handed out lie inside the region and no two of them overlap.
\<close>

theorem untyped_never_overlaps:
  assumes "ext_ok E" "r_slots s0 self = Some raw" "untyped_ok raw"
    and "(untyped_step dbg E self)\<^sup>*\<^sup>* (s0, []) (s, regs)"
  shows "(\<forall>(b, n) \<in> set regs. unat (paddr raw) \<le> b \<and> b + n \<le> unat (paddr raw) + 2 ^ unat (bit_size raw)) \<and>
    (\<forall>i j. i < j \<longrightarrow> j < length regs \<longrightarrow> fst (regs ! i) + snd (regs ! i) \<le> fst (regs ! j))"
proof -
  have "untyped_inv self (unat (paddr raw)) (unat (bit_size raw)) (s, regs)"
    using assms(4)
  proof induction
    case base
    with assms(2,3) show ?case by (auto simp: untyped_inv_def carved_def)
  qed (rule untyped_step_inv [OF assms(1)])
  then obtain raw' where "untyped_ok raw'" "unat (bit_size raw') = unat (bit_size raw)"
    "carved (unat (paddr raw)) (unat (paddr raw) + unat (free_offset raw')) regs"
    by (auto simp: untyped_inv_def)
  then show ?thesis by (fastforce simp: carved_def untyped_ok_def sorted_wrt_iff_nth_less case_prod_beta)
qed

text \<open>Two capability nodes of 64 bytes.\<close>

theorem untyped_never_overlaps_witness:
  "\<exists>s regs. (untyped_step False ext_doc 0x40)\<^sup>*\<^sup>* (demo_untyped, []) (s, regs) \<and> length regs = 2 \<and>
     0x100000 \<le> fst (regs ! 0) \<and> fst (regs ! 0) + snd (regs ! 0) \<le> fst (regs ! 1)"
proof -
  let ?raw = "UntypedCap_mint 0x100000 16 False"
  have c: "creatable CNode 6" by (simp add: creatable_def)
  have reads: "bit_size ?raw = 16" "free_offset ?raw = 0" "untyped_is_device ?raw = False" "paddr ?raw = 0x100000"
    using mint_untyped_reads [of 16 "0x100000" False] by simp_all (simp add: UntypedCap_mint_def)
  have side: "\<not> (untyped_is_device ?raw \<and> CNode \<noteq> Frame \<and> CNode \<noteq> Untyped)" "distinct [0x80, 0xC0 :: ptr]"
    "round_up (unat (free_offset ?raw)) (object_bits CNode 6) +
     length [0x80, 0xC0 :: ptr] * 2 ^ object_bits CNode 6 \<le> 2 ^ unat (bit_size ?raw)"
    by (simp_all add: reads object_bits_def round_up_def)
  from retype_success [OF ext_doc_ok demo_untyped_ok(1,2) creatable_sized [OF c] c side(1,2) demo_untyped_ok(3) refl refl side(3), of False]
  obtain s' where s': "retype False ext_doc demo_untyped 0x40 CNode 6 [0x80, 0xC0] = Ret (Inr (), s')" by metis
  have step: "(untyped_step False ext_doc 0x40)\<^sup>*\<^sup>* (demo_untyped, [])
      (s', [] @ map (\<lambda>p. region_of (the (r_slots s' p))) [0x80, 0xC0])"
    by (intro r_into_rtranclp untyped_step.retype [OF _ s']) simp_all
  from conjunct2 [OF untyped_never_overlaps [OF ext_doc_ok demo_untyped_ok(1,2) step], rule_format, of 0 1]
  have "fst (region_of (the (r_slots s' 0x80))) + snd (region_of (the (r_slots s' 0x80)))
      \<le> fst (region_of (the (r_slots s' 0xC0)))"
    by simp
  moreover from conjunct1 [OF untyped_never_overlaps [OF ext_doc_ok demo_untyped_ok(1,2) step]]
  have "0x100000 \<le> fst (region_of (the (r_slots s' 0x80)))" by (simp add: case_prod_beta reads)
  ultimately show ?thesis using step
    by (intro exI [of _ s'] exI [of _ "[] @ map (\<lambda>p. region_of (the (r_slots s' p))) [0x80, 0xC0]"]) simp
qed

end
