(* ===== verification/Typing.thy ===== *)
theory Typing
  imports Ipc Retype
begin

unbundle bit_operations_syntax

text \<open>
  The type discipline of capabilities across all object files under \<open>objects/\<close>: what a slot of
  each type may contain, and that every operation that writes slots (inserting a minted
  capability, recording a mapping or a cache policy, activating an address space, moving the free
  offset, linking and unlinking derivation entries, revoking, initialising a node, retyping)
  keeps every slot well-typed, in any sequence.
\<close>

section \<open>Well-typed capabilities\<close>

text \<open>
  No operation creates a reply, monitor or interrupt capability. A frame stores one of the three sizes and
  one of the four cache policies, so that reading them back never falls into the default cases.
\<close>

definition cap_wf :: "CapRaw \<Rightarrow> bool" where
  "cap_wf raw \<longleftrightarrow>
     (case cap_type raw of
        NullObj \<Rightarrow> is_nullified raw
      | Untyped \<Rightarrow> arg1 raw \<le> 1
      | CNode \<Rightarrow> unat (radix_bits raw) + unat (guard_bits raw) \<le> 32
      | Tcb \<Rightarrow> arg1 raw = 0 \<and> arg2 raw = 0
      | Frame \<Rightarrow> FrameSize_bits (FrameCap_size raw) = field_get 0 6 (arg1 raw) \<and>
          CachePolicy_code (cache_policy raw) = field_get 7 3 (arg1 raw)
      | Endpoint \<Rightarrow> arg1 raw < 2 ^ BADGE_WIDTH
      | VSpace \<Rightarrow> arg2 raw = 0
      | _ \<Rightarrow> False)"

definition store_wf :: "cstore \<Rightarrow> bool" where
  "store_wf st \<longleftrightarrow> (\<forall>p raw. st p = Some raw \<longrightarrow> cap_wf raw)"

text \<open>The capabilities that a \<open>mint\<close> function returns.\<close>

inductive minted :: "bool \<Rightarrow> CapRaw \<Rightarrow> bool" for dbg where
  null: "minted dbg NullCap_mint"
| untyped: "minted dbg (UntypedCap_mint addr bits dev)"
| cnode: "CNodeCap_mint addr radix gbits guard rts = Ret cap \<Longrightarrow> minted dbg cap"
| tcb: "minted dbg (TcbCap_mint addr)"
| frame: "FrameCap_mint dbg addr sz dev rts = Ret cap \<Longrightarrow> minted dbg cap"
| frame_cached: "minted dbg (mint_with_cache addr sz dev c rts)"
| endpoint: "minted dbg (EndpointCap_mint addr bdg rts)"
| vspace: "VSpaceCap_mint dbg addr asid rts = Ret cap \<Longrightarrow> minted dbg cap"

text \<open>
  The operations on slots. An operation of a typed reference needs the reference, which
  \<open>try_from\<close> gives out only for a slot of that type.
\<close>

inductive cap_step :: "bool \<Rightarrow> ext \<Rightarrow> retype_st \<Rightarrow> retype_st \<Rightarrow> bool" for dbg E where
  insert: "r_slots s p = Some raw \<Longrightarrow> try_from KNullObj raw = Inr () \<Longrightarrow> minted dbg cap \<Longrightarrow>
    NullCap_insert (r_slots s) p cap = Ret (q, st) \<Longrightarrow> cap_step dbg E s (s\<lparr>r_slots := st\<rparr>)"
| insert_raw: "r_slots s p = Some raw \<Longrightarrow> try_from KNullObj raw = Inr () \<Longrightarrow> minted dbg cap \<Longrightarrow>
    NullCap_insert_raw (r_slots s) p cap = Ret st \<Longrightarrow> cap_step dbg E s (s\<lparr>r_slots := st\<rparr>)"
| set_mapped: "r_slots s p = Some raw \<Longrightarrow> try_from KFrameObj raw = Inr () \<Longrightarrow>
    set_mapped (r_slots s) p asid v = Ret (r, st) \<Longrightarrow> cap_step dbg E s (s\<lparr>r_slots := st\<rparr>)"
| clear_mapped: "r_slots s p = Some raw \<Longrightarrow> try_from KFrameObj raw = Inr () \<Longrightarrow>
    clear_mapped (r_slots s) p = Ret st \<Longrightarrow> cap_step dbg E s (s\<lparr>r_slots := st\<rparr>)"
| set_cache_policy: "r_slots s p = Some raw \<Longrightarrow> try_from KFrameObj raw = Inr () \<Longrightarrow>
    set_cache_policy (r_slots s) p c = Ret st \<Longrightarrow> cap_step dbg E s (s\<lparr>r_slots := st\<rparr>)"
| set_active: "r_slots s p = Some raw \<Longrightarrow> try_from KVSpaceObj raw = Inr () \<Longrightarrow>
    set_active (r_slots s) p b = Ret st \<Longrightarrow> cap_step dbg E s (s\<lparr>r_slots := st\<rparr>)"
| set_free_offset: "r_slots s p = Some raw \<Longrightarrow> try_from KUntypedObj raw = Inr () \<Longrightarrow>
    set_free_offset (r_slots s) p off = Ret st \<Longrightarrow> cap_step dbg E s (s\<lparr>r_slots := st\<rparr>)"
| insert_after: "mdb_insert_after (r_slots s) p q = Ret st \<Longrightarrow> cap_step dbg E s (s\<lparr>r_slots := st\<rparr>)"
| remove: "mdb_remove (r_slots s) p = Ret st \<Longrightarrow> cap_step dbg E s (s\<lparr>r_slots := st\<rparr>)"
| revoke: "revoke (r_slots s) p = Some (Ret st) \<Longrightarrow> cap_step dbg E s (s\<lparr>r_slots := st\<rparr>)"
| init: "r_slots s p = Some raw \<Longrightarrow> try_from_slot raw = Some raw \<Longrightarrow>
    cnode_init (r_slots s) raw = Ret st \<Longrightarrow> cap_step dbg E s (s\<lparr>r_slots := st\<rparr>)"
| retype: "r_slots s p = Some raw \<Longrightarrow> try_from KUntypedObj raw = Inr () \<Longrightarrow>
    retype dbg E s p t bits slots = Ret (r, s') \<Longrightarrow> cap_step dbg E s s'"

section \<open>Lemmas\<close>

lemma store_wfD: "store_wf st \<Longrightarrow> st p = Some raw \<Longrightarrow> cap_wf raw"
  by (auto simp: store_wf_def)

lemma store_wf_upd: "store_wf st \<Longrightarrow> cap_wf raw \<Longrightarrow> store_wf (st(p \<mapsto> raw))"
  by (auto simp: store_wf_def)

lemma cap_wf_links [simp]:
  "cap_wf (raw\<lparr>mdb_prev := a\<rparr>) = cap_wf raw" "cap_wf (raw\<lparr>mdb_next := a\<rparr>) = cap_wf raw"
  by (simp_all add: cap_wf_def is_nullified_def radix_bits_def guard_bits_def FrameCap_size_def cache_policy_def
      split: ObjType.splits)

lemma entry_get_wf: "store_wf st \<Longrightarrow> entry_get st p = Ret raw \<Longrightarrow> cap_wf raw"
  by (auto simp: entry_get_def deref_Ret_iff dest: store_wfD)

lemma entry_set_wf: "store_wf st \<Longrightarrow> cap_wf raw \<Longrightarrow> entry_set st p raw = Ret st' \<Longrightarrow> store_wf st'"
  by (auto simp: entry_set_def modify_Ret_iff intro: store_wf_upd)

lemma modify_opt_wf:
  assumes "store_wf st" "\<And>r. cap_wf r \<Longrightarrow> cap_wf (f r)" "modify_opt st q f = Ret st'"
  shows "store_wf st'"
  using assms by (cases q) (auto simp: modify_Ret_iff intro!: store_wf_upd dest: store_wfD)

lemma mdb_insert_after_wf:
  assumes wf: "store_wf st" and ins: "mdb_insert_after st p q = Ret st'"
  shows "store_wf st'"
proof -
  from ins obtain x y st1 st2 where get: "entry_get st p = Ret x" "entry_get st q = Ret y" and
    set1: "entry_set st q (y\<lparr>mdb_prev := Some p, mdb_next := mdb_next x\<rparr>) = Ret st1" and
    set2: "modify_opt st1 (mdb_next x) (\<lambda>r. r\<lparr>mdb_prev := Some q\<rparr>) = Ret st2" and
    set3: "entry_set st2 p (x\<lparr>mdb_next := Some q\<rparr>) = Ret st'"
    unfolding mdb_insert_after_def by (auto simp: obind_Ret_iff Let_def)
  have "store_wf st1" by (rule entry_set_wf [OF wf _ set1]) (simp add: entry_get_wf [OF wf get(2)])
  from modify_opt_wf [OF this _ set2] have "store_wf st2" by simp
  then show ?thesis by (rule entry_set_wf [OF _ _ set3]) (simp add: entry_get_wf [OF wf get(1)])
qed

lemma mdb_remove_wf:
  assumes wf: "store_wf st" and rm: "mdb_remove st p = Ret st'"
  shows "store_wf st'"
proof -
  from rm obtain x st1 st2 where get: "entry_get st p = Ret x" and
    set1: "modify_opt st (mdb_prev x) (\<lambda>r. r\<lparr>mdb_next := mdb_next x\<rparr>) = Ret st1" and
    set2: "modify_opt st1 (mdb_next x) (\<lambda>r. r\<lparr>mdb_prev := mdb_prev x\<rparr>) = Ret st2" and
    set3: "entry_set st2 p (x\<lparr>mdb_prev := None, mdb_next := None\<rparr>) = Ret st'"
    unfolding mdb_remove_def by (auto simp: obind_Ret_iff Let_def)
  from modify_opt_wf [OF wf _ set1] have "store_wf st1" by simp
  from modify_opt_wf [OF this _ set2] have "store_wf st2" by simp
  then show ?thesis by (rule entry_set_wf [OF _ _ set3]) (simp add: entry_get_wf [OF wf get])
qed

lemma cap_wf_null: "cap_wf CapRaw_default" "cap_wf (erase raw)"
  by (simp_all add: cap_wf_def CapRaw_default_def erase_def is_nullified_def)

lemma revoke_step_wf:
  assumes wf: "store_wf st" and rs: "revoke_step st p = Ret (st', cur)"
  shows "store_wf st'"
proof -
  from rs obtain x st1 where "entry_set st p (erase x) = Ret st1" "mdb_remove st1 p = Ret st'"
    unfolding revoke_step_def by (auto simp: obind_Ret_iff Let_def)
  then show ?thesis using entry_set_wf [OF wf cap_wf_null(2)] mdb_remove_wf by blast
qed

lemma revoke_loop_wf:
  assumes "revoke_loop st cur = Some r" "store_wf st" "r = Ret st'"
  shows "store_wf st'"
proof -
  have "store_wf st \<longrightarrow> (\<forall>st'. r = Ret st' \<longrightarrow> store_wf st')"
  proof (rule revoke_loop.raw_induct [where P = "\<lambda>st cur r. store_wf st \<longrightarrow> (\<forall>st'. r = Ret st' \<longrightarrow> store_wf st')",
        OF _ assms(1)])
    fix rl st cur r
    assume "\<And>st cur r. rl st cur = Some r \<Longrightarrow> store_wf st \<longrightarrow> (\<forall>st'. r = Ret st' \<longrightarrow> store_wf st')"
      and "(case cur of None \<Rightarrow> Some (Ret st) | Some p \<Rightarrow> (case revoke_step st p of
        Ret r \<Rightarrow> rl (fst r) (snd r) | Panic \<Rightarrow> Some Panic | Fault \<Rightarrow> Some Fault)) = Some r"
    then show "store_wf st \<longrightarrow> (\<forall>st'. r = Ret st' \<longrightarrow> store_wf st')"
      by (fastforce split: option.splits outcome.splits dest: revoke_step_wf)
  qed
  then show ?thesis using assms(2,3) by blast
qed

lemma revoke_wf: "store_wf st \<Longrightarrow> revoke st p = Some (Ret st') \<Longrightarrow> store_wf st'"
  by (auto simp: revoke_def split: outcome.splits dest: revoke_loop_wf)

lemma cnode_init_loop_wf: "cnode_init_loop st raw i = Ret st' \<Longrightarrow> store_wf st \<Longrightarrow> store_wf st'"
proof (induction st raw i rule: cnode_init_loop_induct)
  case (1 st raw i)
  show ?case
  proof (cases "i < unat (cnode_size raw)")
    case True
    with "1.prems"(1) obtain st1 where st1: "entry_set st (cnode_slot raw (of_nat i)) CapRaw_default = Ret st1"
      "cnode_init_loop st1 raw (Suc i) = Ret st'"
      by (subst (asm) cnode_init_loop_eq) (auto simp: obind_Ret_iff)
    from "1.IH" [OF True st1] entry_set_wf [OF "1.prems"(2) cap_wf_null(1) st1(1)] show ?thesis by blast
  next
    case False
    with "1.prems" show ?thesis by (subst (asm) cnode_init_loop_eq) simp
  qed
qed

section \<open>Minted capabilities\<close>

lemma cnode_mint_wf:
  assumes "CNodeCap_mint addr radix gbits guard rts = Ret cap"
  shows "cap_wf cap"
proof -
  let ?r = "radix AND mask 6" and ?g = "gbits AND mask 6"
  have b: "unat ?r < 64" "unat ?g < 64"
    using unat_field_get [of 0 6 radix] unat_field_get [of 0 6 gbits] by (simp_all add: field_get_def)
  have "CNodeCap_mint addr radix gbits guard rts = CNodeCap_mint addr ?r ?g guard rts"
    by (simp add: CNodeCap_mint_def cnode_consts cnode_mask_eq)
  with assms CNodeCap_mint_Ret [OF b, of addr guard rts]
  have le: "unat ?r + unat ?g \<le> 32" and
    cap: "cap = (default_with_type CNode)\<lparr>paddr := addr, arg1 := push_bit 0 ?g OR push_bit 6 ?r, arg2 := guard,
      rights := rts\<rparr>" by (auto split: if_splits)
  note words = mint_words [OF small64 [OF b(2)] small64 [OF b(1)]]
  have "radix_bits cap = ?r" "guard_bits cap = ?g"
    using words by (simp_all add: cap radix_bits_field guard_bits_field)
  then show ?thesis using le by (simp add: cap_wf_def cap)
qed

lemma frame_fields_read:
  assumes "field_get 0 6 (arg1 raw) = FrameSize_bits sz" "field_get 7 3 (arg1 raw) = CachePolicy_code c"
    and "cap_type raw = Frame"
  shows "cap_wf raw"
proof -
  have "FrameCap_size raw = sz" using assms(1) by (cases sz) (simp_all add: frame_reads FrameSize_from_bits_def)
  then show ?thesis using assms cache_policy_code [OF assms(2)] by (simp add: cap_wf_def)
qed

lemma frame_mint_wf: "cap_wf (mint_with_cache addr sz dev c rts)"
proof (rule frame_fields_read)
  have a: "arg1 (mint_with_cache addr sz dev c rts) =
      FrameSize_bits sz OR push_bit 6 (bool_usize dev) OR push_bit 7 (CachePolicy_code c)"
    by (simp add: mint_with_cache_def frame_consts Let_def)
  show "field_get 0 6 (arg1 (mint_with_cache addr sz dev c rts)) = FrameSize_bits sz"
    unfolding a by (cases sz; cases dev; cases c) (simp_all add: field_get_def mask_numeral)
  show "field_get 7 3 (arg1 (mint_with_cache addr sz dev c rts)) = CachePolicy_code c"
    unfolding a by (cases sz; cases dev; cases c) (simp_all add: field_get_def mask_numeral)
qed (simp add: mint_with_cache_def Let_def)

lemma minted_wf: "minted dbg cap \<Longrightarrow> cap_wf cap"
proof (induction rule: minted.induct)
  case null
  show ?case by (simp add: NullCap_mint_def cap_wf_null)
next
  case (untyped addr bits dev)
  show ?case by (cases dev) (simp_all add: cap_wf_def UntypedCap_mint_def)
next
  case (frame addr sz dev rts cap)
  then have "cap = mint_with_cache addr sz dev (if dev then Uncacheable else WriteBack) rts"
    by (auto simp: FrameCap_mint_def mint_with_cache_def obind_Ret_iff Let_def split: if_splits)
  then show ?case by (simp add: frame_mint_wf)
next
  case (endpoint addr bdg rts)
  have "bdg AND (push_bit BADGE_WIDTH 1 - 1) = take_bit 28 bdg"
    by (simp add: BADGE_WIDTH_def take_bit_eq_mask mask_numeral)
  moreover have "take_bit 28 bdg < 2 ^ 28"
    using take_bit_nat_less_exp [of 28 "unat bdg"] by (simp add: word_less_nat_alt unsigned_take_bit_eq)
  ultimately show ?case by (simp add: cap_wf_def EndpointCap_mint_def BADGE_WIDTH_def)
next
  case (vspace addr asid rts cap)
  then show ?case by (auto simp: VSpaceCap_mint_def obind_Ret_iff Let_def cap_wf_def)
next
  case (tcb addr)
  show ?case by (simp add: cap_wf_def TcbCap_mint_def)
qed (simp_all add: cnode_mint_wf frame_mint_wf)

section \<open>Preservation\<close>

lemma frame_update_wf:
  assumes "cap_wf raw" "cap_type raw = Frame" "field_get 0 6 a = field_get 0 6 (arg1 raw)"
    and "field_get 7 3 a = field_get 7 3 (arg1 raw) \<or> field_get 7 3 a = CachePolicy_code c"
  shows "cap_wf (raw\<lparr>arg1 := a, arg2 := b\<rparr>)" "cap_wf (raw\<lparr>arg1 := a\<rparr>)"
proof -
  have w: "FrameSize_bits (FrameCap_size raw) = field_get 0 6 (arg1 raw)"
    "CachePolicy_code (cache_policy raw) = field_get 7 3 (arg1 raw)"
    using assms(1,2) by (simp_all add: cap_wf_def)
  from assms(4) obtain c' where c': "field_get 7 3 a = CachePolicy_code c'" using w(2) by metis
  show "cap_wf (raw\<lparr>arg1 := a, arg2 := b\<rparr>)" "cap_wf (raw\<lparr>arg1 := a\<rparr>)"
    by (rule frame_fields_read [where sz = "FrameCap_size raw" and c = c']; use assms(2,3) w(1) c' in simp)+
qed

lemma field_10_other:
  fixes x :: usize
  assumes "v AND mask 16 = v"
  shows "field_get 0 6 (field_set 10 16 v x) = field_get 0 6 x" "field_get 7 3 (field_set 10 16 v x) = field_get 7 3 x"
  using assms by (simp_all add: field_get_set_other)

lemma frame_ops_wf:
  assumes wf: "store_wf st" and p: "st p = Some raw" "try_from KFrameObj raw = Inr ()"
  shows "set_mapped st p asid v = Ret (r, st') \<Longrightarrow> store_wf st'"
    "clear_mapped st p = Ret st' \<Longrightarrow> store_wf st'"
    "set_cache_policy st p c = Ret st' \<Longrightarrow> store_wf st'"
proof -
  have w: "cap_wf raw" "cap_type raw = Frame"
    using store_wfD [OF wf p(1)] p(2) by (simp_all add: try_from_Inr_iff cap_type_matches_def)
  have a: "(ucast asid :: usize) AND mask 16 = ucast asid" by (rule ucast16_small)
  have "cap_wf (raw\<lparr>arg1 := field_set 10 16 (ucast asid) (arg1 raw), arg2 := v\<rparr>)"
    by (rule frame_update_wf [OF w]) (simp_all add: field_10_other [OF a])
  then show "set_mapped st p asid v = Ret (r, st') \<Longrightarrow> store_wf st'"
    using wf by (auto simp: set_mapped_eq [of st, OF p(1)] intro: store_wf_upd split: if_splits)
  have "cap_wf (raw\<lparr>arg1 := field_set 10 16 0 (arg1 raw), arg2 := 0\<rparr>)"
    by (rule frame_update_wf [OF w]) (simp_all add: field_10_other)
  then show "clear_mapped st p = Ret st' \<Longrightarrow> store_wf st'"
    using wf by (auto simp: clear_mapped_eq [of st, OF p(1)] intro: store_wf_upd)
  have "cap_wf (raw\<lparr>arg1 := field_set 7 3 (CachePolicy_code c) (arg1 raw)\<rparr>)"
    by (rule frame_update_wf [OF w, where c = c]) (simp_all add: field_get_set_other field_get_set_same policy_small)
  then show "set_cache_policy st p c = Ret st' \<Longrightarrow> store_wf st'"
    using wf by (auto simp: set_cache_policy_eq [of st, OF p(1)] intro: store_wf_upd)
qed

lemma set_active_wf:
  assumes "store_wf st" "st p = Some raw" "try_from KVSpaceObj raw = Inr ()" "set_active st p b = Ret st'"
  shows "store_wf st'"
proof -
  have "cap_wf raw" "cap_type raw = VSpace"
    using store_wfD [OF assms(1,2)] assms(3) by (simp_all add: try_from_Inr_iff cap_type_matches_def)
  then have "cap_wf (raw\<lparr>arg1 := a\<rparr>)" for a by (simp add: cap_wf_def)
  then show ?thesis using assms(1,2,4) by (auto simp: set_active_def slot_simps Let_def intro: store_wf_upd split: if_splits)
qed

lemma set_free_offset_wf:
  assumes "store_wf st" "st p = Some raw" "cap_type raw = Untyped" "set_free_offset st p off = Ret st'"
  shows "store_wf st'"
proof -
  have "cap_wf raw" by (rule store_wfD [OF assms(1,2)])
  then have "cap_wf (raw\<lparr>arg2 := a\<rparr>)" for a using assms(3) by (simp add: cap_wf_def)
  then show ?thesis using assms(1,2,4) by (auto simp: set_free_offset_def slot_simps intro: store_wf_upd)
qed

lemma new_cap_minted: "new_cap dbg E dev m t bits n addr = Ret (Inr cap, m') \<Longrightarrow> minted dbg cap"
  by (cases t) (auto simp: new_cap_def obind_Ret_iff Let_def split: option.splits intro: minted.intros)

lemma retype_loop_wf:
  assumes "retype_loop dbg E self t bits n base off s i slots = Ret (r, s')" "store_wf (r_slots s)"
  shows "store_wf (r_slots s')"
  using assms
proof (induction slots arbitrary: s i)
  case (Cons q slots)
  from retype_loop_ConsE [OF Cons.prems(1)] obtain raw addr c m where
    c: "new_cap dbg E (untyped_is_device raw) (r_mem s) t bits n addr = Ret (c, m)"
    "(case c of Inl e \<Rightarrow> Ret (Inl e, s\<lparr>r_mem := m\<rparr>)
      | Inr cap \<Rightarrow> obind (entry_set (r_slots s) q cap) (\<lambda>st.
          retype_loop dbg E self t bits n base off (s\<lparr>r_slots := st, r_mem := m\<rparr>) (Suc i) slots)) = Ret (r, s')" .
  show ?case
  proof (cases c)
    case (Inl e)
    then show ?thesis using c(2) Cons.prems(2) by auto
  next
    case (Inr cap)
    then obtain st where st: "entry_set (r_slots s) q cap = Ret st"
      "retype_loop dbg E self t bits n base off (s\<lparr>r_slots := st, r_mem := m\<rparr>) (Suc i) slots = Ret (r, s')"
      using c(2) by (auto simp: obind_Ret_iff)
    have "store_wf st" using c(1) Inr by (intro entry_set_wf [OF Cons.prems(2) _ st(1)] minted_wf new_cap_minted) simp
    then show ?thesis using Cons.IH [OF st(2)] by simp
  qed
qed simp

lemma retype_loop_other:
  assumes "retype_loop dbg E self t bits n base off s i slots = Ret (r, s')" "p \<notin> set slots"
  shows "r_slots s' p = r_slots s p"
  using assms
proof (induction slots arbitrary: s i)
  case (Cons q slots)
  from retype_loop_ConsE [OF Cons.prems(1)] obtain raw addr c m where
    c: "(case c of Inl e \<Rightarrow> Ret (Inl e, s\<lparr>r_mem := m\<rparr>)
      | Inr cap \<Rightarrow> obind (entry_set (r_slots s) q cap) (\<lambda>st.
          retype_loop dbg E self t bits n base off (s\<lparr>r_slots := st, r_mem := m\<rparr>) (Suc i) slots)) = Ret (r, s')"
    by blast
  then show ?case using Cons.prems(2) Cons.IH
    by (cases c) (auto simp: obind_Ret_iff entry_set_def modify_Ret_iff)
qed simp

lemma retype_wf:
  assumes wf: "store_wf (r_slots s)" and self: "r_slots s self = Some raw" "cap_type raw = Untyped"
    and ret: "retype dbg E s self t bits slots = Ret (r, s')"
  shows "store_wf (r_slots s')"
  using retype_stages [OF ret]
proof (elim disjE exE conjE)
  fix raw' n tot base off r1 s1
  assume occ: "any_occupied (r_slots s) slots = Ret False"
    and loop: "retype_loop dbg E self t bits n base off s 0 slots = Ret (r1, s1)"
    and rest: "(case r1 of Inl e \<Rightarrow> Ret (Inl e, s1)
        | Inr _ \<Rightarrow> obind (u_add dbg off tot) (\<lambda>new_off.
            obind (set_free_offset (r_slots s1) self new_off) (\<lambda>st.
              Ret (Inr (), s1\<lparr>r_slots := st\<rparr>)))) = Ret (r, s')"
  have wf1: "store_wf (r_slots s1)" by (rule retype_loop_wf [OF loop wf])
  have "self \<notin> set slots" using occ self by (auto simp: any_occupied_False)
  then have s1: "r_slots s1 self = Some raw" using retype_loop_other [OF loop] self(1) by simp
  show ?thesis using rest wf1 set_free_offset_wf [OF wf1 s1 self(2)]
    by (cases r1) (auto simp: obind_Ret_iff)
qed (use wf in simp)

lemma cap_step_wf:
  assumes "cap_step dbg E s s'" "store_wf (r_slots s)"
  shows "store_wf (r_slots s')"
  using assms
proof (induction rule: cap_step.induct)
  case (insert s p raw cap q st)
  then show ?case by (auto simp: NullCap_insert_def modify_Ret_iff obind_Ret_iff intro: store_wf_upd minted_wf)
next
  case (insert_raw s p raw cap st)
  then show ?case by (auto simp: NullCap_insert_raw_def modify_Ret_iff intro: store_wf_upd minted_wf)
next
  case (set_free_offset s p raw off st)
  then show ?case
    using set_free_offset_wf [of "r_slots s" p raw off st] by (simp add: try_from_Inr_iff cap_type_matches_def)
next
  case (init s p raw st)
  then show ?case by (auto simp: cnode_init_def intro: cnode_init_loop_wf)
next
  case (retype s p raw t bits slots r s')
  then show ?case using retype_wf [of s p raw] by (simp add: try_from_Inr_iff cap_type_matches_def)
qed (auto intro: frame_ops_wf set_active_wf mdb_insert_after_wf mdb_remove_wf revoke_wf)

lemma wf_unique_type: "cap_wf raw \<Longrightarrow> \<exists>!T. try_from T raw = Inr ()"
proof -
  assume "cap_wf raw"
  then consider "cap_type raw = NullObj" | "cap_type raw = Untyped" | "cap_type raw = CNode" | "cap_type raw = Tcb"
    | "cap_type raw = Frame" | "cap_type raw = Endpoint" | "cap_type raw = VSpace"
    by (cases "cap_type raw") (auto simp: cap_wf_def)
  moreover have inj: "OBJ_TYPE T = OBJ_TYPE T' \<Longrightarrow> T = T'" for T T' by (cases T; cases T') simp_all
  ultimately obtain T where "OBJ_TYPE T = cap_type raw" by (metis OBJ_TYPE.simps)
  then show ?thesis using inj by (metis try_from_Inr_iff cap_type_matches_def)
qed

section \<open>Properties\<close>

text \<open>
  Claim C10. Type safety of capabilities: from a well-typed store, every sequence of operations on
  slots leads to a well-typed store. Every slot can then be read as exactly one type of reference, no slot
  holds a reply, monitor or interrupt capability, a null slot is empty, the widths of a
  capability node stay within 32 bits, and the size and the cache policy of a frame are the ones stored.
\<close>

theorem capability_typing:
  assumes "(cap_step dbg E)\<^sup>*\<^sup>* s s'" "store_wf (r_slots s)"
  shows "store_wf (r_slots s') \<and>
    (\<forall>p raw. r_slots s' p = Some raw \<longrightarrow> (\<exists>!T. try_from T raw = Inr ()) \<and>
       cap_type raw \<notin> {Reply, Monitor, Interrupt} \<and>
       (try_from KNullObj raw = Inr () \<longrightarrow> is_nullified raw) \<and>
       (try_from KCNodeObj raw = Inr () \<longrightarrow> mint_valid (radix_bits raw) (guard_bits raw)) \<and>
       (try_from KFrameObj raw = Inr () \<longrightarrow> size_bits raw = drop_bit SIZE_BITS_OFFSET (arg1 raw) AND kmask SIZE_BITS_WIDTH \<and>
          CachePolicy_code (cache_policy raw) = drop_bit CACHE_POLICY_OFFSET (arg1 raw) AND kmask CACHE_POLICY_WIDTH))"
proof -
  from assms have wf: "store_wf (r_slots s')" by induction (auto intro: cap_step_wf)
  have "(\<exists>!T. try_from T raw = Inr ()) \<and>
       cap_type raw \<notin> {Reply, Monitor, Interrupt} \<and>
       (try_from KNullObj raw = Inr () \<longrightarrow> is_nullified raw) \<and>
       (try_from KCNodeObj raw = Inr () \<longrightarrow> mint_valid (radix_bits raw) (guard_bits raw)) \<and>
       (try_from KFrameObj raw = Inr () \<longrightarrow> size_bits raw = drop_bit SIZE_BITS_OFFSET (arg1 raw) AND kmask SIZE_BITS_WIDTH \<and>
          CachePolicy_code (cache_policy raw) = drop_bit CACHE_POLICY_OFFSET (arg1 raw) AND kmask CACHE_POLICY_WIDTH)"
    if "r_slots s' p = Some raw" for p raw
  proof -
    have w: "cap_wf raw" by (rule store_wfD [OF wf that])
    show ?thesis unfolding frame_fields size_bits_def try_from_Inr_iff cap_type_matches_def
      using w wf_unique_type [OF w, unfolded try_from_Inr_iff cap_type_matches_def]
      by (auto simp: cap_wf_def mint_valid_def CNODE_DEPTH_def)
  qed
  with wf show ?thesis by blast
qed

text \<open>A frame is minted into a null slot and mapped.\<close>

theorem capability_typing_witness:
  "store_wf ([0x1000 \<mapsto> (mint_with_cache 0x200000 Large False WriteThrough R_READ)
     \<lparr>arg1 := field_set 10 16 (ucast (7 :: u16)) (arg1 (mint_with_cache 0x200000 Large False WriteThrough R_READ)), arg2 := 0x400000\<rparr>])"
proof -
  let ?cap = "mint_with_cache 0x200000 Large False WriteThrough R_READ"
  let ?s = "\<lparr>r_slots = [0x1000 \<mapsto> CapRaw_default], r_mem = (\<lambda>_. 0)\<rparr>"
  let ?s1 = "?s\<lparr>r_slots := [0x1000 \<mapsto> ?cap]\<rparr>"
  let ?s2 = "?s1\<lparr>r_slots := [0x1000 \<mapsto> ?cap\<lparr>arg1 := field_set 10 16 (ucast (7 :: u16)) (arg1 ?cap), arg2 := 0x400000\<rparr>]\<rparr>"
  have "cap_step True ext_doc ?s ?s1"
    by (rule cap_step.insert_raw [where p = "0x1000" and cap = ?cap and raw = CapRaw_default])
       (simp_all add: NullCap_insert_raw_def try_from_def CapRaw_default_def minted.intros)
  moreover have "cap_step True ext_doc ?s1 ?s2"
  proof (rule cap_step.set_mapped [where p = "0x1000" and raw = ?cap and asid = 7 and v = "0x400000" and r = "Inr ()"])
    show "r_slots ?s1 0x1000 = Some ?cap" by simp
    show "try_from KFrameObj ?cap = Inr ()" by (simp add: try_from_def mint_with_cache_def Let_def)
    have "\<not> is_mapped ?cap" by (simp add: is_mapped_def mint_reads)
    then show "set_mapped (r_slots ?s1) 0x1000 7 0x400000 =
        Ret (Inr (), [0x1000 \<mapsto> ?cap\<lparr>arg1 := field_set 10 16 (ucast (7 :: u16)) (arg1 ?cap), arg2 := 0x400000\<rparr>])"
      by (subst set_mapped_eq [where raw = ?cap]) simp_all
  qed
  ultimately have "(cap_step True ext_doc)\<^sup>*\<^sup>* ?s ?s2" by auto
  moreover have "store_wf (r_slots ?s)" by (simp add: store_wf_def cap_wf_null)
  ultimately show ?thesis using capability_typing [of True ext_doc ?s ?s2] by simp
qed

end
