(* ===== verification/Paging.thy ===== *)
theory Paging
  imports VSpaceCaps
begin

text \<open>
  Page tables of the x86-64 architecture: the four kinds of entries
  (\<open>arch/x86_64/vspace/entry.rs\<close>), the levels (\<open>arch/x86_64/vspace/level.rs\<close>), the generic
  table (the second part of \<open>vspace.rs\<close>) and the result of a walk (\<open>error.rs\<close>). An entry type
  of the source is a transparent wrapper of one machine word and is that word here; the trait
  \<open>PageTableEntry\<close> is a record of operations with one instance per entry type, and its
  contract is a locale.
\<close>

section \<open>Entry bits\<close>

definition PRESENT :: u64 where "PRESENT = kbit 0"
definition WRITABLE :: u64 where "WRITABLE = kbit 1"
definition USER :: u64 where "USER = kbit 2"
definition WRITE_THROUGH :: u64 where "WRITE_THROUGH = kbit 3"
definition CACHE_DISABLE :: u64 where "CACHE_DISABLE = kbit 4"
definition ACCESSED :: u64 where "ACCESSED = kbit 5"
definition DIRTY :: u64 where "DIRTY = kbit 6"
definition HUGE_PAGE :: u64 where "HUGE_PAGE = kbit 7"
definition GLOBAL :: u64 where "GLOBAL = kbit 8"
definition NO_EXECUTE :: u64 where "NO_EXECUTE = kbit 63"
definition ADDR_MASK :: u64 where "ADDR_MASK = 0x000FFFFFFFFFF000"

type_synonym Pml4e = u64
type_synonym Pdpte = u64
type_synonym Pde = u64
type_synonym Pte = u64

definition build_flags :: "ext \<Rightarrow> VMAttributes \<Rightarrow> u64" where
  "build_flags E attr =
     (let f0 = PRESENT;
          f1 = (if flags_contains E (vm_rights attr) VM_WRITE then f0 OR WRITABLE else f0);
          f2 = (if vm_user attr then f1 OR USER else f1);
          f3 = (if vm_global attr then f2 OR GLOBAL else f2);
          f4 = (if \<not> flags_contains E (vm_rights attr) VM_EXECUTE then f3 OR NO_EXECUTE else f3) in
      case vm_cache attr of
        WriteBack \<Rightarrow> f4
      | WriteThrough \<Rightarrow> f4 OR WRITE_THROUGH
      | Uncacheable \<Rightarrow> f4 OR CACHE_DISABLE
      | WriteCombining \<Rightarrow> f4 OR (WRITE_THROUGH OR CACHE_DISABLE))"

section \<open>Entries\<close>

text \<open>Entries of the root table.\<close>

definition Pml4e_table :: "ext \<Rightarrow> u64 \<Rightarrow> VMAttributes \<Rightarrow> Pml4e" where
  "Pml4e_table E pa attr =
     (let flags = PRESENT OR (if flags_contains E (vm_rights attr) VM_WRITE then WRITABLE else 0)
            OR (if vm_user attr then USER else 0) in
      (pa AND ADDR_MASK) OR flags)"

definition Pml4e_new_table :: "u64 \<Rightarrow> Pml4e" where
  "Pml4e_new_table pa = (pa AND ADDR_MASK) OR PRESENT OR WRITABLE OR USER"

definition Pml4e_invalid :: Pml4e where "Pml4e_invalid = 0"

definition Pml4e_is_present :: "Pml4e \<Rightarrow> bool" where
  "Pml4e_is_present e \<longleftrightarrow> e AND PRESENT \<noteq> 0"

definition Pml4e_is_table :: "Pml4e \<Rightarrow> bool" where
  "Pml4e_is_table e \<longleftrightarrow> Pml4e_is_present e"

definition Pml4e_is_page :: "Pml4e \<Rightarrow> bool" where
  "Pml4e_is_page e \<longleftrightarrow> False"

definition Pml4e_paddr :: "ext \<Rightarrow> Pml4e \<Rightarrow> u64 outcome" where
  "Pml4e_paddr E e = expect (phys_new E (e AND ADDR_MASK))"

definition Pml4e_raw :: "Pml4e \<Rightarrow> u64" where "Pml4e_raw e = e"
definition Pml4e_from_raw :: "u64 \<Rightarrow> Pml4e" where "Pml4e_from_raw raw = raw"

text \<open>Entries of a page-directory-pointer table.\<close>

definition Pdpte_new_table :: "u64 \<Rightarrow> Pdpte" where
  "Pdpte_new_table pa = (pa AND ADDR_MASK) OR PRESENT OR WRITABLE OR USER"

definition Pdpte_new_huge_page :: "ext \<Rightarrow> u64 \<Rightarrow> VMAttributes \<Rightarrow> Pdpte" where
  "Pdpte_new_huge_page E pa attr =
     (let flags = build_flags E attr OR HUGE_PAGE in (pa AND ADDR_MASK) OR flags)"

definition Pdpte_invalid :: Pdpte where "Pdpte_invalid = 0"

definition Pdpte_is_present :: "Pdpte \<Rightarrow> bool" where
  "Pdpte_is_present e \<longleftrightarrow> e AND PRESENT \<noteq> 0"

definition Pdpte_is_table :: "Pdpte \<Rightarrow> bool" where
  "Pdpte_is_table e \<longleftrightarrow> Pdpte_is_present e \<and> e AND HUGE_PAGE = 0"

definition Pdpte_is_page :: "Pdpte \<Rightarrow> bool" where
  "Pdpte_is_page e \<longleftrightarrow> Pdpte_is_present e \<and> e AND HUGE_PAGE \<noteq> 0"

definition Pdpte_paddr :: "ext \<Rightarrow> Pdpte \<Rightarrow> u64 outcome" where
  "Pdpte_paddr E e = expect (phys_new E (e AND ADDR_MASK))"

definition Pdpte_raw :: "Pdpte \<Rightarrow> u64" where "Pdpte_raw e = e"
definition Pdpte_from_raw :: "u64 \<Rightarrow> Pdpte" where "Pdpte_from_raw raw = raw"

text \<open>Entries of a page directory.\<close>

definition Pde_new_table :: "u64 \<Rightarrow> Pde" where
  "Pde_new_table pa = (pa AND ADDR_MASK) OR PRESENT OR WRITABLE OR USER"

definition Pde_new_large_page :: "ext \<Rightarrow> u64 \<Rightarrow> VMAttributes \<Rightarrow> Pde" where
  "Pde_new_large_page E pa attr =
     (let flags = build_flags E attr OR HUGE_PAGE in (pa AND ADDR_MASK) OR flags)"

definition Pde_invalid :: Pde where "Pde_invalid = 0"

definition Pde_is_present :: "Pde \<Rightarrow> bool" where
  "Pde_is_present e \<longleftrightarrow> e AND PRESENT \<noteq> 0"

definition Pde_is_table :: "Pde \<Rightarrow> bool" where
  "Pde_is_table e \<longleftrightarrow> Pde_is_present e \<and> e AND HUGE_PAGE = 0"

definition Pde_is_page :: "Pde \<Rightarrow> bool" where
  "Pde_is_page e \<longleftrightarrow> Pde_is_present e \<and> e AND HUGE_PAGE \<noteq> 0"

definition Pde_paddr :: "ext \<Rightarrow> Pde \<Rightarrow> u64 outcome" where
  "Pde_paddr E e = expect (phys_new E (e AND ADDR_MASK))"

definition Pde_raw :: "Pde \<Rightarrow> u64" where "Pde_raw e = e"
definition Pde_from_raw :: "u64 \<Rightarrow> Pde" where "Pde_from_raw raw = raw"

text \<open>Entries of a page table.\<close>

definition Pte_new_page :: "ext \<Rightarrow> u64 \<Rightarrow> VMAttributes \<Rightarrow> Pte" where
  "Pte_new_page E pa attr = (let flags = build_flags E attr in (pa AND ADDR_MASK) OR flags)"

definition Pte_invalid :: Pte where "Pte_invalid = 0"

definition Pte_is_present :: "Pte \<Rightarrow> bool" where
  "Pte_is_present e \<longleftrightarrow> e AND PRESENT \<noteq> 0"

definition Pte_is_table :: "Pte \<Rightarrow> bool" where
  "Pte_is_table e \<longleftrightarrow> False"

definition Pte_is_page :: "Pte \<Rightarrow> bool" where
  "Pte_is_page e \<longleftrightarrow> Pte_is_present e"

definition Pte_paddr :: "ext \<Rightarrow> Pte \<Rightarrow> u64 outcome" where
  "Pte_paddr E e = expect (phys_new E (e AND ADDR_MASK))"

definition Pte_raw :: "Pte \<Rightarrow> u64" where "Pte_raw e = e"
definition Pte_from_raw :: "u64 \<Rightarrow> Pte" where "Pte_from_raw raw = raw"

section \<open>Levels\<close>

record PageTableEntry =
  e_invalid :: u64
  e_is_present :: "u64 \<Rightarrow> bool"
  e_is_table :: "u64 \<Rightarrow> bool"
  e_is_page :: "u64 \<Rightarrow> bool"
  e_paddr :: "ext \<Rightarrow> u64 \<Rightarrow> u64 outcome"
  e_raw :: "u64 \<Rightarrow> u64"
  e_from_raw :: "u64 \<Rightarrow> u64"

definition Pml4e_ops :: PageTableEntry where
  "Pml4e_ops = \<lparr>e_invalid = Pml4e_invalid, e_is_present = Pml4e_is_present, e_is_table = Pml4e_is_table,
     e_is_page = Pml4e_is_page, e_paddr = Pml4e_paddr, e_raw = Pml4e_raw, e_from_raw = Pml4e_from_raw\<rparr>"

definition Pdpte_ops :: PageTableEntry where
  "Pdpte_ops = \<lparr>e_invalid = Pdpte_invalid, e_is_present = Pdpte_is_present, e_is_table = Pdpte_is_table,
     e_is_page = Pdpte_is_page, e_paddr = Pdpte_paddr, e_raw = Pdpte_raw, e_from_raw = Pdpte_from_raw\<rparr>"

definition Pde_ops :: PageTableEntry where
  "Pde_ops = \<lparr>e_invalid = Pde_invalid, e_is_present = Pde_is_present, e_is_table = Pde_is_table,
     e_is_page = Pde_is_page, e_paddr = Pde_paddr, e_raw = Pde_raw, e_from_raw = Pde_from_raw\<rparr>"

definition Pte_ops :: PageTableEntry where
  "Pte_ops = \<lparr>e_invalid = Pte_invalid, e_is_present = Pte_is_present, e_is_table = Pte_is_table,
     e_is_page = Pte_is_page, e_paddr = Pte_paddr, e_raw = Pte_raw, e_from_raw = Pte_from_raw\<rparr>"

datatype Level = Pml4 | Pdpt | PageDirectory | Pt | FrameLevel

fun LEVEL :: "Level \<Rightarrow> nat" where
  "LEVEL Pml4 = 4"
| "LEVEL Pdpt = 3"
| "LEVEL PageDirectory = 2"
| "LEVEL Pt = 1"
| "LEVEL FrameLevel = 0"

text \<open>
  \<open>TableLevel\<close>: the entries of a level and the level below, for the levels that are tables.
\<close>

fun TableLevel :: "Level \<Rightarrow> (PageTableEntry \<times> Level) option" where
  "TableLevel Pml4 = Some (Pml4e_ops, Pdpt)"
| "TableLevel Pdpt = Some (Pdpte_ops, PageDirectory)"
| "TableLevel PageDirectory = Some (Pde_ops, Pt)"
| "TableLevel Pt = Some (Pte_ops, FrameLevel)"
| "TableLevel FrameLevel = None"

text \<open>\<open>PageLevel::PAGE_BITS\<close> and \<open>PageLevel::PAGE_SIZE\<close>, for the levels that map pages.\<close>

fun PAGE_BITS :: "Level \<Rightarrow> nat option" where
  "PAGE_BITS Pdpt = Some PAGE_BITS_1G"
| "PAGE_BITS PageDirectory = Some PAGE_BITS_2M"
| "PAGE_BITS Pt = Some PAGE_BITS_4K"
| "PAGE_BITS Pml4 = None"
| "PAGE_BITS FrameLevel = None"

definition PAGE_SIZE :: "Level \<Rightarrow> usize option" where
  "PAGE_SIZE l = map_option (\<lambda>b. push_bit b 1) (PAGE_BITS l)"

datatype WalkResult =
    MappedPage (walk_paddr: usize) (walk_size: FrameSize) (walk_level: usize)
  | NotMapped (walk_level: usize)
  | TableAt (walk_paddr: usize) (walk_level: usize)

section \<open>Tables\<close>

text \<open>
  A table is the list of its 512 entries. Tables live in memory at virtual addresses; a table
  is reached from its physical address by adding the constant \<open>OFFSET\<close> of the mapping of
  physical memory.
\<close>

type_synonym table = "u64 list"
type_synonym tmem = "ptr \<rightharpoonup> table"

definition Table_new :: table where
  "Table_new = replicate ENTRIES_PER_TABLE 0"

definition from_paddr :: "bool \<Rightarrow> u64 \<Rightarrow> tmem \<Rightarrow> u64 \<Rightarrow> (ptr \<times> table) outcome" where
  "from_paddr dbg OFFSET m pa =
     obind (u_add dbg pa OFFSET) (\<lambda>va. obind (deref m va) (\<lambda>t. Ret (va, t)))"

definition from_vaddr :: "tmem \<Rightarrow> u64 \<Rightarrow> (ptr \<times> table) outcome" where
  "from_vaddr m va = obind (deref m va) (\<lambda>t. Ret (va, t))"

definition Table_paddr :: "bool \<Rightarrow> ext \<Rightarrow> u64 \<Rightarrow> ptr \<Rightarrow> u64 outcome" where
  "Table_paddr dbg E OFFSET self =
     obind (u_sub dbg self OFFSET) (\<lambda>a. expect (phys_new E a))"

definition Table_get :: "table \<Rightarrow> usize \<Rightarrow> u64 option" where
  "Table_get t i = (if unat i < length t then Some (t ! unat i) else None)"

definition Table_get_mut :: "tmem \<Rightarrow> ptr \<Rightarrow> usize \<Rightarrow> (u64 \<Rightarrow> u64) \<Rightarrow> (bool \<times> tmem) outcome" where
  "Table_get_mut m self i f =
     obind (deref m self) (\<lambda>t.
       if unat i < length t then Ret (True, m(self \<mapsto> t[unat i := f (t ! unat i)])) else Ret (False, m))"

definition Table_iter :: "table \<Rightarrow> u64 list" where
  "Table_iter t = t"

definition Table_iter_mut :: "tmem \<Rightarrow> ptr \<Rightarrow> (u64 \<Rightarrow> u64) \<Rightarrow> tmem outcome" where
  "Table_iter_mut m self f = modify m self (map f)"

definition Table_clear :: "PageTableEntry \<Rightarrow> tmem \<Rightarrow> ptr \<Rightarrow> tmem outcome" where
  "Table_clear L m self = modify m self (map (\<lambda>_. e_invalid L))"

definition Table_index :: "table \<Rightarrow> usize \<Rightarrow> u64 outcome" where
  "Table_index t i = (if unat i < length t then Ret (t ! unat i) else Panic)"

definition Table_index_mut :: "tmem \<Rightarrow> ptr \<Rightarrow> usize \<Rightarrow> u64 \<Rightarrow> tmem outcome" where
  "Table_index_mut m self i e =
     obind (deref m self) (\<lambda>t. if unat i < length t then Ret (m(self \<mapsto> t[unat i := e])) else Panic)"

definition next_table ::
    "bool \<Rightarrow> ext \<Rightarrow> PageTableEntry \<Rightarrow> u64 \<Rightarrow> tmem \<Rightarrow> table \<Rightarrow> usize \<Rightarrow> (ptr \<times> table) option outcome" where
  "next_table dbg E L OFFSET m self i =
     (case Table_get self i of
        None \<Rightarrow> Ret None
      | Some entry \<Rightarrow>
          if \<not> e_is_table L entry then Ret None
          else obind (e_paddr L E entry) (\<lambda>pa. obind (from_paddr dbg OFFSET m pa) (\<lambda>t. Ret (Some t))))"

section \<open>Lemmas on entries\<close>

lemma bit_kbit: "bit (kbit n :: u64) m \<longleftrightarrow> m = n \<and> n < 64"
proof -
  have "bit (push_bit n 1 :: u64) m \<longleftrightarrow> m = n \<and> n < 64"
    by (subst bit_push_bit_iff) (auto simp: bit_1_iff)
  then show ?thesis by (simp add: kbit_def)
qed

lemma and_kbit: "x AND kbit n = 0 \<longleftrightarrow> \<not> bit x n" for x :: u64
proof -
  have "x AND kbit n = (if bit x n then kbit n else 0)"
    by (rule bit_word_eqI) (auto simp: bit_and_iff bit_kbit)
  moreover have "(kbit n :: u64) \<noteq> 0" if "bit x n"
    using bit_imp_le_length [OF that] bit_kbit [of n n] by auto
  ultimately show ?thesis by auto
qed

lemma ADDR_MASK_eq: "ADDR_MASK = mask 52 AND NOT (mask 12)"
  by (simp add: ADDR_MASK_def mask_numeral)

lemma bit_ADDR_MASK: "bit ADDR_MASK n \<longleftrightarrow> 12 \<le> n \<and> n < 52"
  unfolding ADDR_MASK_eq by (auto simp: bit_simps)

lemma addr_and_bound: "x AND ADDR_MASK < 0x10000000000000"
proof -
  have "x AND ADDR_MASK = take_bit 52 (x AND ADDR_MASK)"
    by (rule bit_word_eqI) (auto simp: bit_simps bit_ADDR_MASK)
  then have "unat (x AND ADDR_MASK) = take_bit 52 (unat (x AND ADDR_MASK))"
    by (metis unsigned_take_bit_eq)
  then have "unat (x AND ADDR_MASK) < 2 ^ 52" by (metis take_bit_nat_less_exp)
  then show ?thesis by (simp add: word_less_nat_alt)
qed

lemma addr_and_aligned:
  assumes "pa < 0x10000000000000" "pa AND mask 12 = 0"
  shows "pa AND ADDR_MASK = pa"
proof (rule bit_word_eqI)
  fix n assume "n < LENGTH(64)"
  have "pa = take_bit 52 pa"
  proof -
    have "unat pa < 2 ^ 52" using assms(1) by (simp add: word_less_nat_alt)
    then have "unat (take_bit 52 pa) = unat pa"
      by (simp only: unsigned_take_bit_eq take_bit_nat_eq_self)
    then show ?thesis by (simp add: word_unat_eq_iff)
  qed
  then have "bit pa n \<longrightarrow> n < 52" by (metis bit_take_bit_iff)
  moreover have "\<not> bit (pa AND mask 12) n" by (simp add: assms(2))
  ultimately show "bit (pa AND ADDR_MASK) n = bit pa n" by (auto simp: bit_simps bit_ADDR_MASK)
qed

lemmas entry_bits = PRESENT_def WRITABLE_def USER_def WRITE_THROUGH_def CACHE_DISABLE_def HUGE_PAGE_def
  GLOBAL_def NO_EXECUTE_def

lemma build_flags_bits:
  assumes "ext_ok E"
  shows "bit (build_flags E attr) n \<longleftrightarrow>
    n = 0 \<or> n = 1 \<and> vm_rights attr AND VM_WRITE = VM_WRITE \<or> n = 2 \<and> vm_user attr \<or>
    n = 3 \<and> vm_cache attr \<in> {WriteThrough, WriteCombining} \<or>
    n = 4 \<and> vm_cache attr \<in> {Uncacheable, WriteCombining} \<or> n = 8 \<and> vm_global attr \<or>
    n = 63 \<and> vm_rights attr AND VM_EXECUTE \<noteq> VM_EXECUTE"
  by (cases "vm_cache attr")
     (auto simp: build_flags_def Let_def ext_okD [OF assms] entry_bits bit_kbit bit_or_iff)

lemma flags_disjoint:
  assumes "\<And>n. bit f n \<Longrightarrow> n < 12 \<or> 52 \<le> n"
  shows "((pa AND ADDR_MASK) OR f) AND ADDR_MASK = pa AND ADDR_MASK"
  by (rule bit_word_eqI) (auto simp: bit_simps bit_ADDR_MASK dest: assms)

lemma flags_bit:
  assumes "n < 12 \<or> 52 \<le> n"
  shows "bit ((pa AND ADDR_MASK) OR f) n \<longleftrightarrow> bit f n"
  using assms by (auto simp: bit_simps bit_ADDR_MASK)

section \<open>The contract of entries\<close>

text \<open>
  The trait \<open>PageTableEntry\<close>: the invalid entry is not present, a present entry is either a
  table or a page, the address of an entry can always be read and is that of a page frame, and
  an entry is its raw value.
\<close>

locale page_table_entry =
  fixes L :: PageTableEntry
  assumes invalid_absent: "\<not> e_is_present L (e_invalid L)"
    and present_iff: "e_is_present L e \<longleftrightarrow> e_is_table L e \<or> e_is_page L e"
    and exclusive: "\<not> (e_is_table L e \<and> e_is_page L e)"
    and paddr_frame: "ext_ok E \<Longrightarrow> \<exists>pa. e_paddr L E e = Ret pa \<and> pa < 0x10000000000000 \<and> pa AND mask 12 = 0"
    and raw_inverse: "e_raw L (e_from_raw L w) = w" "e_from_raw L (e_raw L e) = e"
begin

lemma clear_absent:
  assumes "Table_clear L m p = Ret m'"
  shows "\<exists>t. m' p = Some t \<and> (\<forall>e \<in> set t. \<not> e_is_present L e) \<and> (\<forall>q. q \<noteq> p \<longrightarrow> m' q = m q)"
  using assms invalid_absent by (auto simp: Table_clear_def modify_Ret_iff)

lemma next_table_None:
  assumes "ext_ok E" "\<not> e_is_table L e" "Table_get t i = Some e"
  shows "next_table dbg E L off m t i = Ret None"
  using assms by (simp add: next_table_def)

lemma next_table_after_clear:
  assumes "Table_clear L m p = Ret m'" "m' p = Some t"
  shows "next_table dbg E L off m' t i = Ret None"
proof -
  from clear_absent [OF assms(1)] assms(2) have "\<forall>e \<in> set t. \<not> e_is_table L e"
    by (auto simp: present_iff)
  then show ?thesis by (auto simp: next_table_def Table_get_def split: option.splits)
qed

lemma next_table_Some:
  assumes E: "ext_ok E" and t: "Table_get t i = Some e" "e_is_table L e"
    and room: "unat off + 2 ^ 52 \<le> 2 ^ 64" and mem: "\<And>pa. e_paddr L E e = Ret pa \<Longrightarrow> m (pa + off) = Some t'"
  shows "\<exists>pa. e_paddr L E e = Ret pa \<and> next_table dbg E L off m t i = Ret (Some (pa + off, t'))"
proof -
  from paddr_frame [OF E] obtain pa where pa: "e_paddr L E e = Ret pa" "pa < 0x10000000000000" by blast
  have "unat pa < 2 ^ 52" using pa(2) by (simp add: word_less_nat_alt)
  then have "unat pa + unat off < 2 ^ 64" using room by linarith
  then have "u_add dbg pa off = Ret (pa + off)" by (simp add: u_add_def)
  with t pa mem [OF pa(1)] show ?thesis by (simp add: next_table_def from_paddr_def)
qed

end

lemma expect_addr:
  assumes "ext_ok E"
  shows "expect (phys_new E (e AND ADDR_MASK)) = Ret (e AND ADDR_MASK)"
  using addr_and_bound [of e] by (simp add: ext_okD [OF assms])

lemma addr_and_low: "(e AND ADDR_MASK) AND mask 12 = 0"
  by (rule bit_word_eqI) (auto simp: bit_simps bit_ADDR_MASK)

lemmas entry_paddr_defs = Pml4e_paddr_def Pdpte_paddr_def Pde_paddr_def Pte_paddr_def
lemmas entry_present_defs = Pml4e_is_present_def Pdpte_is_present_def Pde_is_present_def Pte_is_present_def
lemmas entry_kind_defs = Pml4e_is_table_def Pdpte_is_table_def Pde_is_table_def Pte_is_table_def
  Pml4e_is_page_def Pdpte_is_page_def Pde_is_page_def Pte_is_page_def
lemmas entry_raw_defs = Pml4e_raw_def Pdpte_raw_def Pde_raw_def Pte_raw_def
  Pml4e_from_raw_def Pdpte_from_raw_def Pde_from_raw_def Pte_from_raw_def
lemmas entry_invalid_defs = Pml4e_invalid_def Pdpte_invalid_def Pde_invalid_def Pte_invalid_def

interpretation pml4e: page_table_entry Pml4e_ops
  by unfold_locales (auto simp: Pml4e_ops_def entry_present_defs entry_kind_defs entry_invalid_defs
      entry_raw_defs entry_paddr_defs expect_addr addr_and_bound addr_and_low)

interpretation pdpte: page_table_entry Pdpte_ops
  by unfold_locales (auto simp: Pdpte_ops_def entry_present_defs entry_kind_defs entry_invalid_defs
      entry_raw_defs entry_paddr_defs expect_addr addr_and_bound addr_and_low)

interpretation pde: page_table_entry Pde_ops
  by unfold_locales (auto simp: Pde_ops_def entry_present_defs entry_kind_defs entry_invalid_defs
      entry_raw_defs entry_paddr_defs expect_addr addr_and_bound addr_and_low)

interpretation pte: page_table_entry Pte_ops
  by unfold_locales (auto simp: Pte_ops_def entry_present_defs entry_kind_defs entry_invalid_defs
      entry_raw_defs entry_paddr_defs expect_addr addr_and_bound addr_and_low)

section \<open>Properties\<close>

lemma page_entry:
  assumes E: "ext_ok E" and pa: "pa < 0x10000000000000" "pa AND mask 12 = 0"
    and f: "\<And>n. bit f n \<longleftrightarrow> bit (build_flags E attr) n \<or> huge \<and> n = 7"
  shows "((pa AND ADDR_MASK) OR f) AND ADDR_MASK = pa" "bit ((pa AND ADDR_MASK) OR f) 0"
    "bit ((pa AND ADDR_MASK) OR f) 7 = huge"
proof -
  have "n < 12 \<or> 52 \<le> n" if "bit f n" for n
    using that [unfolded f build_flags_bits [OF E, of attr]] by (elim disjE conjE) simp_all
  then have "((pa AND ADDR_MASK) OR f) AND ADDR_MASK = pa AND ADDR_MASK" by (rule flags_disjoint)
  then show "((pa AND ADDR_MASK) OR f) AND ADDR_MASK = pa" by (simp only: addr_and_aligned [OF pa])
  show "bit ((pa AND ADDR_MASK) OR f) 0"
    using f [of 0] build_flags_bits [OF E, of attr 0] flags_bit [of 0 pa f] by simp
  show "bit ((pa AND ADDR_MASK) OR f) 7 = huge"
    using f [of 7] build_flags_bits [OF E, of attr 7] flags_bit [of 7 pa f] by simp
qed

lemma table_entry:
  assumes pa: "pa < 0x10000000000000" "pa AND mask 12 = 0"
  shows "((pa AND ADDR_MASK) OR PRESENT OR WRITABLE OR USER) AND ADDR_MASK = pa"
    "bit ((pa AND ADDR_MASK) OR PRESENT OR WRITABLE OR USER) 0"
    "\<not> bit ((pa AND ADDR_MASK) OR PRESENT OR WRITABLE OR USER) 7"
proof -
  define f where "f = PRESENT OR WRITABLE OR USER"
  have f: "bit f n \<longleftrightarrow> n = 0 \<or> n = 1 \<or> n = 2" for n
    unfolding f_def entry_bits bit_or_iff bit_kbit by auto
  then have "n < 12 \<or> 52 \<le> n" if "bit f n" for n using that by auto
  then have "((pa AND ADDR_MASK) OR f) AND ADDR_MASK = pa AND ADDR_MASK" by (rule flags_disjoint)
  moreover have "bit ((pa AND ADDR_MASK) OR f) 0" "\<not> bit ((pa AND ADDR_MASK) OR f) 7"
    using f [of 0] f [of 7] flags_bit [of 0 pa f] flags_bit [of 7 pa f] by simp_all
  moreover have "(pa AND ADDR_MASK) OR PRESENT OR WRITABLE OR USER = (pa AND ADDR_MASK) OR f"
    by (simp only: f_def or.assoc)
  ultimately show "((pa AND ADDR_MASK) OR PRESENT OR WRITABLE OR USER) AND ADDR_MASK = pa"
    "bit ((pa AND ADDR_MASK) OR PRESENT OR WRITABLE OR USER) 0"
    "\<not> bit ((pa AND ADDR_MASK) OR PRESENT OR WRITABLE OR USER) 7"
    by (simp_all only: addr_and_aligned [OF pa] not_False_eq_True)
qed

text \<open>
  Encoding of entries, for physical addresses of page frames: a table entry of any
  level reads back as a present table with the given address and never as a page; a page entry
  of any level reads back as a present page with the given address and never as a table; and
  the permission bits of a page entry say exactly what the mapping attributes ask for:
  writable, user, global, no-execute and the two cache bits.
\<close>

theorem entry_roundtrip:
  assumes E: "ext_ok E" and pa: "pa < 0x10000000000000" "pa AND mask 12 = 0"
  shows "(let e = Pml4e_new_table pa in Pml4e_is_table e \<and> \<not> Pml4e_is_page e \<and> Pml4e_paddr E e = Ret pa) \<and>
    (let e = Pdpte_new_table pa in Pdpte_is_table e \<and> \<not> Pdpte_is_page e \<and> Pdpte_paddr E e = Ret pa) \<and>
    (let e = Pde_new_table pa in Pde_is_table e \<and> \<not> Pde_is_page e \<and> Pde_paddr E e = Ret pa) \<and>
    (let e = Pdpte_new_huge_page E pa attr in Pdpte_is_page e \<and> \<not> Pdpte_is_table e \<and> Pdpte_paddr E e = Ret pa) \<and>
    (let e = Pde_new_large_page E pa attr in Pde_is_page e \<and> \<not> Pde_is_table e \<and> Pde_paddr E e = Ret pa) \<and>
    (let e = Pte_new_page E pa attr in Pte_is_page e \<and> \<not> Pte_is_table e \<and> Pte_paddr E e = Ret pa) \<and>
    (\<forall>e \<in> {Pdpte_new_huge_page E pa attr, Pde_new_large_page E pa attr, Pte_new_page E pa attr}.
       (e AND WRITABLE \<noteq> 0 \<longleftrightarrow> vm_rights attr AND VM_WRITE = VM_WRITE) \<and>
       (e AND USER \<noteq> 0 \<longleftrightarrow> vm_user attr) \<and> (e AND GLOBAL \<noteq> 0 \<longleftrightarrow> vm_global attr) \<and>
       (e AND NO_EXECUTE \<noteq> 0 \<longleftrightarrow> vm_rights attr AND VM_EXECUTE \<noteq> VM_EXECUTE) \<and>
       (e AND WRITE_THROUGH \<noteq> 0 \<longleftrightarrow> vm_cache attr \<in> {WriteThrough, WriteCombining}) \<and>
       (e AND CACHE_DISABLE \<noteq> 0 \<longleftrightarrow> vm_cache attr \<in> {Uncacheable, WriteCombining}))"
proof -
  have huge: "bit (build_flags E attr OR HUGE_PAGE) n \<longleftrightarrow> bit (build_flags E attr) n \<or> True \<and> n = 7" for n
    by (auto simp: bit_or_iff HUGE_PAGE_def bit_kbit)
  have small: "bit (build_flags E attr) n \<longleftrightarrow> bit (build_flags E attr) n \<or> False \<and> n = 7" for n by simp
  note table = table_entry [OF pa] and hp = page_entry [OF E pa huge] and sp = page_entry [OF E pa small]
  show ?thesis
  proof (intro conjI)
    show "\<forall>e \<in> {Pdpte_new_huge_page E pa attr, Pde_new_large_page E pa attr, Pte_new_page E pa attr}.
       (e AND WRITABLE \<noteq> 0 \<longleftrightarrow> vm_rights attr AND VM_WRITE = VM_WRITE) \<and>
       (e AND USER \<noteq> 0 \<longleftrightarrow> vm_user attr) \<and> (e AND GLOBAL \<noteq> 0 \<longleftrightarrow> vm_global attr) \<and>
       (e AND NO_EXECUTE \<noteq> 0 \<longleftrightarrow> vm_rights attr AND VM_EXECUTE \<noteq> VM_EXECUTE) \<and>
       (e AND WRITE_THROUGH \<noteq> 0 \<longleftrightarrow> vm_cache attr \<in> {WriteThrough, WriteCombining}) \<and>
       (e AND CACHE_DISABLE \<noteq> 0 \<longleftrightarrow> vm_cache attr \<in> {Uncacheable, WriteCombining})"
      by (simp add: Pdpte_new_huge_page_def Pde_new_large_page_def Pte_new_page_def entry_bits and_kbit flags_bit
          huge [unfolded HUGE_PAGE_def] build_flags_bits [OF E])
  qed (simp_all add: Let_def Pml4e_new_table_def Pdpte_new_table_def Pde_new_table_def Pdpte_new_huge_page_def
      Pde_new_large_page_def Pte_new_page_def entry_kind_defs entry_present_defs entry_paddr_defs
      expect_addr [OF E] and_kbit table hp sp PRESENT_def [symmetric] HUGE_PAGE_def [symmetric]
      and_kbit [of _ 0, folded PRESENT_def] and_kbit [of _ 7, folded HUGE_PAGE_def])
qed

theorem entry_roundtrip_witness:
  "Pde_is_page (Pde_new_large_page ext_doc 0x200000 VMAttributes_default) \<and>
   Pde_paddr ext_doc (Pde_new_large_page ext_doc 0x200000 VMAttributes_default) = Ret 0x200000"
  using entry_roundtrip [OF ext_doc_ok, of "0x200000" VMAttributes_default] by (simp add: Let_def mask_numeral)

end
