(* ===== verification/VSpaces.thy ===== *)
theory VSpaces
  imports Paging
begin

text \<open>
  Operations on address spaces (the second part of \<open>objects/vspace.rs\<close>, and \<open>flush_page\<close> of
  \<open>arch/x86_64/vspace/tlb.rs\<close>): walking the four levels of tables, mapping and unmapping
  pages of the three sizes, and installing tables. The state is the memory of tables and the
  translation buffer of the processor. The operations are refinements of operations on an
  abstract map from canonical addresses to translations.
\<close>

section \<open>State\<close>

text \<open>
  The translation buffer caches for an address the level and the entry at which its walk
  ended. \<open>invlpg\<close> drops what is cached for the page of the given address.
\<close>

record vspace_st =
  v_tables :: tmem
  v_tlb :: "usize \<rightharpoonup> nat \<times> u64"

definition level_shift :: "nat \<Rightarrow> nat" where
  "level_shift l = 12 + 9 * (l - 1)"

definition flush_page :: "vspace_st \<Rightarrow> usize \<Rightarrow> vspace_st" where
  "flush_page s vaddr = s\<lparr>v_tlb := (\<lambda>w. case v_tlb s w of
       None \<Rightarrow> None
     | Some (l, e) \<Rightarrow>
         if drop_bit (level_shift l) w = drop_bit (level_shift l) vaddr then None else Some (l, e))\<rparr>"

section \<open>Operations\<close>

definition pml4 :: "bool \<Rightarrow> ext \<Rightarrow> u64 \<Rightarrow> tmem \<Rightarrow> CapRaw \<Rightarrow> (ptr \<times> table) outcome" where
  "pml4 dbg E OFFSET m raw = obind (root_paddr E raw) (\<lambda>pa. from_paddr dbg OFFSET m pa)"

definition walk ::
    "bool \<Rightarrow> ext \<Rightarrow> u64 \<Rightarrow> tmem \<Rightarrow> CapRaw \<Rightarrow> usize \<Rightarrow> (VSpaceError + WalkResult) outcome" where
  "walk dbg E OFFSET m raw vaddr =
     (if \<not> is_canonical vaddr then Ret (Inl InvalidVAddr) else
      case vaddr_indices vaddr of (pml4_idx, pdpt_idx, pd_idx, pt_idx) \<Rightarrow>
      obind (pml4 dbg E OFFSET m raw) (\<lambda>(_, root).
      obind (Table_index root pml4_idx) (\<lambda>pml4e.
      if \<not> Pml4e_is_present pml4e then Ret (Inr (NotMapped 4)) else
      obind (Pml4e_paddr E pml4e) (\<lambda>pdpt_pa.
      obind (from_paddr dbg OFFSET m pdpt_pa) (\<lambda>(_, pdpt).
      obind (Table_index pdpt pdpt_idx) (\<lambda>pdpte.
      if \<not> Pdpte_is_present pdpte then Ret (Inr (NotMapped 3)) else
      if Pdpte_is_page pdpte then obind (Pdpte_paddr E pdpte) (\<lambda>pa. Ret (Inr (MappedPage pa Huge 3))) else
      obind (Pdpte_paddr E pdpte) (\<lambda>pd_pa.
      obind (from_paddr dbg OFFSET m pd_pa) (\<lambda>(_, pd).
      obind (Table_index pd pd_idx) (\<lambda>pde.
      if \<not> Pde_is_present pde then Ret (Inr (NotMapped 2)) else
      if Pde_is_page pde then obind (Pde_paddr E pde) (\<lambda>pa. Ret (Inr (MappedPage pa Large 2))) else
      obind (Pde_paddr E pde) (\<lambda>pt_pa.
      obind (from_paddr dbg OFFSET m pt_pa) (\<lambda>(_, pt).
      obind (Table_index pt pt_idx) (\<lambda>pte.
      if \<not> Pte_is_present pte then Ret (Inr (NotMapped 1)) else
      obind (Pte_paddr E pte) (\<lambda>pa. Ret (Inr (MappedPage pa Small 1)))))))))))))))"

definition map_4k ::
    "bool \<Rightarrow> ext \<Rightarrow> u64 \<Rightarrow> vspace_st \<Rightarrow> CapRaw \<Rightarrow> usize \<Rightarrow> u64 \<Rightarrow> VMAttributes \<Rightarrow>
     ((VSpaceError + unit) \<times> vspace_st) outcome" where
  "map_4k dbg E OFFSET s raw vaddr frame_paddr attr =
     (if \<not> is_canonical vaddr then Ret (Inl InvalidVAddr, s) else
      if \<not> is_aligned Small vaddr then Ret (Inl MisalignedVAddr, s) else
      if \<not> is_aligned Small frame_paddr then Ret (Inl MisalignedPAddr, s) else
      case vaddr_indices vaddr of (pml4_idx, pdpt_idx, pd_idx, pt_idx) \<Rightarrow>
      let m = v_tables s in
      obind (pml4 dbg E OFFSET m raw) (\<lambda>(_, root).
      obind (Table_index root pml4_idx) (\<lambda>pml4e.
      if \<not> Pml4e_is_present pml4e then Ret (Inl MissingTable, s) else
      obind (Pml4e_paddr E pml4e) (\<lambda>pdpt_pa.
      obind (from_paddr dbg OFFSET m pdpt_pa) (\<lambda>(_, pdpt).
      obind (Table_index pdpt pdpt_idx) (\<lambda>pdpte.
      if \<not> Pdpte_is_present pdpte then Ret (Inl MissingTable, s) else
      if Pdpte_is_page pdpte then Ret (Inl AlreadyMapped, s) else
      obind (Pdpte_paddr E pdpte) (\<lambda>pd_pa.
      obind (from_paddr dbg OFFSET m pd_pa) (\<lambda>(_, pd).
      obind (Table_index pd pd_idx) (\<lambda>pde.
      if \<not> Pde_is_present pde then Ret (Inl MissingTable, s) else
      if Pde_is_page pde then Ret (Inl AlreadyMapped, s) else
      obind (Pde_paddr E pde) (\<lambda>pt_pa.
      obind (from_paddr dbg OFFSET m pt_pa) (\<lambda>(pt_ptr, pt).
      obind (Table_index pt pt_idx) (\<lambda>pte.
      if Pte_is_present pte then Ret (Inl AlreadyMapped, s) else
      obind (Table_index_mut m pt_ptr pt_idx (Pte_new_page E frame_paddr attr)) (\<lambda>m'.
      Ret (Inr (), flush_page (s\<lparr>v_tables := m'\<rparr>) vaddr))))))))))))))"

definition map_2m ::
    "bool \<Rightarrow> ext \<Rightarrow> u64 \<Rightarrow> vspace_st \<Rightarrow> CapRaw \<Rightarrow> usize \<Rightarrow> u64 \<Rightarrow> VMAttributes \<Rightarrow>
     ((VSpaceError + unit) \<times> vspace_st) outcome" where
  "map_2m dbg E OFFSET s raw vaddr frame_paddr attr =
     (if \<not> is_canonical vaddr then Ret (Inl InvalidVAddr, s) else
      if \<not> is_aligned Large vaddr then Ret (Inl MisalignedVAddr, s) else
      if \<not> is_aligned Large frame_paddr then Ret (Inl MisalignedPAddr, s) else
      case vaddr_indices vaddr of (pml4_idx, pdpt_idx, pd_idx, _) \<Rightarrow>
      let m = v_tables s in
      obind (pml4 dbg E OFFSET m raw) (\<lambda>(_, root).
      obind (Table_index root pml4_idx) (\<lambda>pml4e.
      if \<not> Pml4e_is_present pml4e then Ret (Inl MissingTable, s) else
      obind (Pml4e_paddr E pml4e) (\<lambda>pdpt_pa.
      obind (from_paddr dbg OFFSET m pdpt_pa) (\<lambda>(_, pdpt).
      obind (Table_index pdpt pdpt_idx) (\<lambda>pdpte.
      if \<not> Pdpte_is_present pdpte then Ret (Inl MissingTable, s) else
      if Pdpte_is_page pdpte then Ret (Inl AlreadyMapped, s) else
      obind (Pdpte_paddr E pdpte) (\<lambda>pd_pa.
      obind (from_paddr dbg OFFSET m pd_pa) (\<lambda>(pd_ptr, pd).
      obind (Table_index pd pd_idx) (\<lambda>pde.
      if Pde_is_present pde then Ret (Inl AlreadyMapped, s) else
      obind (Table_index_mut m pd_ptr pd_idx (Pde_new_large_page E frame_paddr attr)) (\<lambda>m'.
      Ret (Inr (), flush_page (s\<lparr>v_tables := m'\<rparr>) vaddr)))))))))))"

definition map_1g ::
    "bool \<Rightarrow> ext \<Rightarrow> u64 \<Rightarrow> vspace_st \<Rightarrow> CapRaw \<Rightarrow> usize \<Rightarrow> u64 \<Rightarrow> VMAttributes \<Rightarrow>
     ((VSpaceError + unit) \<times> vspace_st) outcome" where
  "map_1g dbg E OFFSET s raw vaddr frame_paddr attr =
     (if \<not> is_canonical vaddr then Ret (Inl InvalidVAddr, s) else
      if \<not> is_aligned Huge vaddr then Ret (Inl MisalignedVAddr, s) else
      if \<not> is_aligned Huge frame_paddr then Ret (Inl MisalignedPAddr, s) else
      case vaddr_indices vaddr of (pml4_idx, pdpt_idx, _, _) \<Rightarrow>
      let m = v_tables s in
      obind (pml4 dbg E OFFSET m raw) (\<lambda>(_, root).
      obind (Table_index root pml4_idx) (\<lambda>pml4e.
      if \<not> Pml4e_is_present pml4e then Ret (Inl MissingTable, s) else
      obind (Pml4e_paddr E pml4e) (\<lambda>pdpt_pa.
      obind (from_paddr dbg OFFSET m pdpt_pa) (\<lambda>(pdpt_ptr, pdpt).
      obind (Table_index pdpt pdpt_idx) (\<lambda>pdpte.
      if Pdpte_is_present pdpte then Ret (Inl AlreadyMapped, s) else
      obind (Table_index_mut m pdpt_ptr pdpt_idx (Pdpte_new_huge_page E frame_paddr attr)) (\<lambda>m'.
      Ret (Inr (), flush_page (s\<lparr>v_tables := m'\<rparr>) vaddr))))))))"

definition map_frame ::
    "bool \<Rightarrow> ext \<Rightarrow> u64 \<Rightarrow> vspace_st \<Rightarrow> CapRaw \<Rightarrow> usize \<Rightarrow> CapRaw \<Rightarrow> bool \<Rightarrow>
     ((VSpaceError + unit) \<times> vspace_st) outcome" where
  "map_frame dbg E OFFSET s raw vaddr fcap user =
     obind (CapRef_paddr E fcap) (\<lambda>frame_paddr.
       let attr = vm_attributes E fcap user in
       case FrameCap_size fcap of
         Small \<Rightarrow> map_4k dbg E OFFSET s raw vaddr frame_paddr attr
       | Large \<Rightarrow> map_2m dbg E OFFSET s raw vaddr frame_paddr attr
       | Huge \<Rightarrow> map_1g dbg E OFFSET s raw vaddr frame_paddr attr)"

definition unmap ::
    "bool \<Rightarrow> ext \<Rightarrow> u64 \<Rightarrow> vspace_st \<Rightarrow> CapRaw \<Rightarrow> usize \<Rightarrow>
     ((VSpaceError + u64 \<times> FrameSize) \<times> vspace_st) outcome" where
  "unmap dbg E OFFSET s raw vaddr =
     (if \<not> is_canonical vaddr then Ret (Inl InvalidVAddr, s) else
      case vaddr_indices vaddr of (pml4_idx, pdpt_idx, pd_idx, pt_idx) \<Rightarrow>
      let m = v_tables s in
      obind (pml4 dbg E OFFSET m raw) (\<lambda>(_, root).
      obind (Table_index root pml4_idx) (\<lambda>pml4e.
      if \<not> Pml4e_is_present pml4e then Ret (Inl NotMappedErr, s) else
      obind (Pml4e_paddr E pml4e) (\<lambda>pdpt_pa.
      obind (from_paddr dbg OFFSET m pdpt_pa) (\<lambda>(pdpt_ptr, pdpt).
      obind (Table_index pdpt pdpt_idx) (\<lambda>pdpte.
      if \<not> Pdpte_is_present pdpte then Ret (Inl NotMappedErr, s) else
      if Pdpte_is_page pdpte then
        obind (Pdpte_paddr E pdpte) (\<lambda>pa.
        obind (Table_index_mut m pdpt_ptr pdpt_idx Pdpte_invalid) (\<lambda>m'.
        Ret (Inr (pa, Huge), flush_page (s\<lparr>v_tables := m'\<rparr>) vaddr))) else
      obind (Pdpte_paddr E pdpte) (\<lambda>pd_pa.
      obind (from_paddr dbg OFFSET m pd_pa) (\<lambda>(pd_ptr, pd).
      obind (Table_index pd pd_idx) (\<lambda>pde.
      if \<not> Pde_is_present pde then Ret (Inl NotMappedErr, s) else
      if Pde_is_page pde then
        obind (Pde_paddr E pde) (\<lambda>pa.
        obind (Table_index_mut m pd_ptr pd_idx Pde_invalid) (\<lambda>m'.
        Ret (Inr (pa, Large), flush_page (s\<lparr>v_tables := m'\<rparr>) vaddr))) else
      obind (Pde_paddr E pde) (\<lambda>pt_pa.
      obind (from_paddr dbg OFFSET m pt_pa) (\<lambda>(pt_ptr, pt).
      obind (Table_index pt pt_idx) (\<lambda>pte.
      if \<not> Pte_is_present pte then Ret (Inl NotMappedErr, s) else
      obind (Pte_paddr E pte) (\<lambda>pa.
      obind (Table_index_mut m pt_ptr pt_idx Pte_invalid) (\<lambda>m'.
      Ret (Inr (pa, Small), flush_page (s\<lparr>v_tables := m'\<rparr>) vaddr)))))))))))))))"

definition install_table ::
    "bool \<Rightarrow> ext \<Rightarrow> u64 \<Rightarrow> vspace_st \<Rightarrow> CapRaw \<Rightarrow> usize \<Rightarrow> usize \<Rightarrow> u64 \<Rightarrow>
     ((VSpaceError + unit) \<times> vspace_st) outcome" where
  "install_table dbg E OFFSET s raw vaddr level table_paddr =
     (if \<not> is_canonical vaddr then Ret (Inl InvalidVAddr, s) else
      if \<not> is_aligned Small table_paddr then Ret (Inl MisalignedPAddr, s) else
      case vaddr_indices vaddr of (pml4_idx, pdpt_idx, pd_idx, _) \<Rightarrow>
      let m = v_tables s in
      if level = 3 then
        obind (pml4 dbg E OFFSET m raw) (\<lambda>(root_ptr, root).
        obind (Table_index root pml4_idx) (\<lambda>pml4e.
        if Pml4e_is_present pml4e then Ret (Inl AlreadyMapped, s) else
        obind (Table_index_mut m root_ptr pml4_idx (Pml4e_new_table table_paddr)) (\<lambda>m'.
        Ret (Inr (), s\<lparr>v_tables := m'\<rparr>))))
      else if level = 2 then
        obind (pml4 dbg E OFFSET m raw) (\<lambda>(_, root).
        obind (Table_index root pml4_idx) (\<lambda>pml4e.
        if \<not> Pml4e_is_present pml4e then Ret (Inl MissingTable, s) else
        obind (Pml4e_paddr E pml4e) (\<lambda>pdpt_pa.
        obind (from_paddr dbg OFFSET m pdpt_pa) (\<lambda>(pdpt_ptr, pdpt).
        obind (Table_index pdpt pdpt_idx) (\<lambda>pdpte.
        if Pdpte_is_present pdpte then Ret (Inl AlreadyMapped, s) else
        obind (Table_index_mut m pdpt_ptr pdpt_idx (Pdpte_new_table table_paddr)) (\<lambda>m'.
        Ret (Inr (), s\<lparr>v_tables := m'\<rparr>)))))))
      else if level = 1 then
        obind (pml4 dbg E OFFSET m raw) (\<lambda>(_, root).
        obind (Table_index root pml4_idx) (\<lambda>pml4e.
        if \<not> Pml4e_is_present pml4e then Ret (Inl MissingTable, s) else
        obind (Pml4e_paddr E pml4e) (\<lambda>pdpt_pa.
        obind (from_paddr dbg OFFSET m pdpt_pa) (\<lambda>(_, pdpt).
        obind (Table_index pdpt pdpt_idx) (\<lambda>pdpte.
        if \<not> Pdpte_is_present pdpte then Ret (Inl MissingTable, s) else
        if Pdpte_is_page pdpte then Ret (Inl AlreadyMapped, s) else
        obind (Pdpte_paddr E pdpte) (\<lambda>pd_pa.
        obind (from_paddr dbg OFFSET m pd_pa) (\<lambda>(pd_ptr, pd).
        obind (Table_index pd pd_idx) (\<lambda>pde.
        if Pde_is_present pde then Ret (Inl AlreadyMapped, s) else
        obind (Table_index_mut m pd_ptr pd_idx (Pde_new_table table_paddr)) (\<lambda>m'.
        Ret (Inr (), s\<lparr>v_tables := m'\<rparr>))))))))))
      else Ret (Inl InvalidVAddr, s))"

section \<open>Reference translation\<close>

text \<open>
  Translation by recursion over the levels: whether an entry of a level leads to a table, and
  the level and the entry at which the walk for an address ends.
\<close>

definition ltable :: "nat \<Rightarrow> u64 \<Rightarrow> bool" where
  "ltable l e \<longleftrightarrow> bit e 0 \<and> (l = 4 \<or> (l = 3 \<or> l = 2) \<and> \<not> bit e 7)"

fun tr :: "u64 \<Rightarrow> tmem \<Rightarrow> usize \<Rightarrow> nat \<Rightarrow> u64 \<Rightarrow> (nat \<times> u64) option" where
  "tr OFFSET m v 0 pa = None"
| "tr OFFSET m v (Suc l) pa =
     (case m (pa + OFFSET) of
        None \<Rightarrow> None
      | Some t \<Rightarrow>
          let e = t ! vindex (Suc l) v in
          if ltable (Suc l) e then tr OFFSET m v l (e AND ADDR_MASK) else Some (Suc l, e))"

text \<open>The table that the walk for an address visits at a level.\<close>

inductive on_path :: "u64 \<Rightarrow> tmem \<Rightarrow> u64 \<Rightarrow> usize \<Rightarrow> nat \<Rightarrow> u64 \<Rightarrow> bool" for OFFSET m rt v where
  top: "on_path OFFSET m rt v 4 rt"
| down: "on_path OFFSET m rt v (Suc l) p \<Longrightarrow> m (p + OFFSET) = Some t \<Longrightarrow> ltable (Suc l) (t ! vindex (Suc l) v) \<Longrightarrow>
    on_path OFFSET m rt v l (t ! vindex (Suc l) v AND ADDR_MASK)"

text \<open>
  Well-formed tables: every visited table is in memory, at an address that does not wrap, and
  the tables form a tree.
\<close>

definition vs_ok :: "u64 \<Rightarrow> tmem \<Rightarrow> u64 \<Rightarrow> bool" where
  "vs_ok OFFSET m rt \<longleftrightarrow> rt < 0x10000000000000 \<and>
     (\<forall>v l p. on_path OFFSET m rt v l p \<longrightarrow> unat p + unat OFFSET < 2 ^ 64) \<and>
     (\<forall>v l p. on_path OFFSET m rt v l p \<longrightarrow> (\<exists>t. m (p + OFFSET) = Some t \<and> length t = ENTRIES_PER_TABLE)) \<and>
     (\<forall>v w l k p. on_path OFFSET m rt v l p \<longrightarrow> on_path OFFSET m rt w k p \<longrightarrow>
        l = k \<and> (\<forall>j. l < j \<and> j \<le> 4 \<longrightarrow> vindex j v = vindex j w))"

lemma on_path_range: "on_path OFFSET m rt v l p \<Longrightarrow> 1 \<le> l \<and> l \<le> 4"
proof (induction rule: on_path.induct)
  case (down l p t)
  then show ?case by (cases l) (auto simp: ltable_def)
qed simp

lemma on_path_bound: "on_path OFFSET m rt v l p \<Longrightarrow> rt < 0x10000000000000 \<Longrightarrow> p < 0x10000000000000"
  by (induction rule: on_path.induct) (auto simp: addr_and_bound)

lemma on_path_tr: "on_path OFFSET m rt v l p \<Longrightarrow> tr OFFSET m v 4 rt = tr OFFSET m v l p"
  by (induction rule: on_path.induct) (simp_all add: Let_def)

lemma on_path_cong:
  "on_path OFFSET m rt v l p \<Longrightarrow> \<forall>j. l < j \<and> j \<le> 4 \<longrightarrow> vindex j v = vindex j w \<Longrightarrow> on_path OFFSET m rt w l p"
proof (induction rule: on_path.induct)
  case top
  show ?case by (rule on_path.top)
next
  case (down l p t)
  then have "on_path OFFSET m rt w (Suc l) p" by simp
  moreover have "vindex (Suc l) v = vindex (Suc l) w"
    using down.prems on_path_range [OF down.hyps(1)] by simp
  ultimately show ?case using down.hyps(2,3) on_path.down [of OFFSET m rt w l p t] by simp
qed

lemma on_path_fun: "on_path OFFSET m rt v l p \<Longrightarrow> on_path OFFSET m rt v l q \<Longrightarrow> p = q"
proof (induction arbitrary: q rule: on_path.induct)
  case top
  have "\<not> on_path OFFSET m rt v 5 p" for p using on_path_range by fastforce
  with top show ?case by (cases rule: on_path.cases) (simp_all add: numeral_eq_Suc)
next
  case (down l p t)
  note IH = down.IH and t = down.hyps(2)
  have "Suc l \<le> 4" using on_path_range [OF down.hyps(1)] by simp
  with down.prems obtain p' t' where "on_path OFFSET m rt v (Suc l) p'" "m (p' + OFFSET) = Some t'"
    "q = t' ! vindex (Suc l) v AND ADDR_MASK" by (cases rule: on_path.cases) auto
  with IH t show ?case by auto
qed

lemma tr_path:
  "tr OFFSET m v l p = Some (k, e) \<Longrightarrow> on_path OFFSET m rt v l p \<Longrightarrow>
   \<exists>q t. on_path OFFSET m rt v k q \<and> m (q + OFFSET) = Some t \<and> e = t ! vindex k v \<and> \<not> ltable k e"
proof (induction l arbitrary: p)
  case (Suc l)
  from Suc.prems(1) obtain t where t: "m (p + OFFSET) = Some t" by (cases "m (p + OFFSET)") auto
  show ?case
  proof (cases "ltable (Suc l) (t ! vindex (Suc l) v)")
    case True
    from on_path.down [where t = t, OF Suc.prems(2) t True] Suc.prems(1) t True show ?thesis
      by (intro Suc.IH) (simp_all add: Let_def)
  next
    case False
    with Suc.prems t show ?thesis by (auto simp: Let_def)
  qed
qed simp

lemma tr_total:
  "vs_ok OFFSET m rt \<Longrightarrow> on_path OFFSET m rt v l p \<Longrightarrow> \<exists>k e. tr OFFSET m v l p = Some (k, e)"
proof (induction l arbitrary: p)
  case 0
  then show ?case using on_path_range by fastforce
next
  case (Suc l)
  from Suc.prems obtain t where t: "m (p + OFFSET) = Some t" unfolding vs_ok_def by blast
  show ?case
  proof (cases "ltable (Suc l) (t ! vindex (Suc l) v)")
    case True
    from Suc.IH [OF Suc.prems(1) on_path.down [where t = t, OF Suc.prems(2) t True]] t True
    show ?thesis by (simp add: Let_def)
  qed (simp add: t Let_def)
qed

lemma trE:
  assumes "vs_ok OFFSET m rt"
  obtains k e q t where "tr OFFSET m v 4 rt = Some (k, e)" "on_path OFFSET m rt v k q" "m (q + OFFSET) = Some t"
    "e = t ! vindex k v" "\<not> ltable k e"
  using tr_total [OF assms on_path.top, of v] tr_path [OF _ on_path.top, of OFFSET m v] by blast

text \<open>Two addresses in the same region of a level share all indices down to the level.\<close>

definition same_region :: "nat \<Rightarrow> usize \<Rightarrow> usize \<Rightarrow> bool" where
  "same_region l v w \<longleftrightarrow> (\<forall>j. l \<le> j \<and> j \<le> 4 \<longrightarrow> vindex j v = vindex j w)"

lemma same_region_canonical:
  assumes "is_canonical v" "is_canonical w" "1 \<le> l" "l \<le> 4"
  shows "same_region l v w \<longleftrightarrow> drop_bit (level_shift l) w = drop_bit (level_shift l) v"
  using same_page_iff [OF assms] by (auto simp: same_region_def level_shift_def)

lemma same_region_iff:
  "l \<le> 4 \<Longrightarrow> same_region l v w \<longleftrightarrow> vindex l v = vindex l w \<and> (\<forall>j. l < j \<and> j \<le> 4 \<longrightarrow> vindex j v = vindex j w)"
  by (auto simp: same_region_def le_less)

section \<open>Changing one entry\<close>

text \<open>
  \<open>set_entry\<close> replaces the entry that the walk for \<open>v\<close> reads in a table. An entry read by the walk
  for another address is the replaced one only if both are in the same region of the level.
\<close>

definition set_entry :: "u64 \<Rightarrow> tmem \<Rightarrow> usize \<Rightarrow> nat \<Rightarrow> u64 \<Rightarrow> table \<Rightarrow> u64 \<Rightarrow> tmem" where
  "set_entry OFFSET m v l p t e = m(p + OFFSET \<mapsto> t[vindex l v := e])"

lemma put_entry:
  assumes ok: "vs_ok OFFSET m rt" and p: "on_path OFFSET m rt v l p" "m (p + OFFSET) = Some t"
    and q: "on_path OFFSET m rt w k q" "m (q + OFFSET) = Some u"
  shows "\<exists>u'. set_entry OFFSET m v l p t e (q + OFFSET) = Some u' \<and> length u' = ENTRIES_PER_TABLE \<and>
    u' ! vindex k w = (if k = l \<and> same_region l v w then e else u ! vindex k w) \<and>
    (k = l \<and> same_region l v w \<longrightarrow> u = t \<and> q = p \<and> vindex k w = vindex l v)"
proof -
  have len: "length t = 512" "length u = 512"
    using ok p q unfolding vs_ok_def ENTRIES_PER_TABLE_def by (metis option.inject)+
  note range = on_path_range [OF p(1)]
  show ?thesis
  proof (cases "q = p")
    case True
    with p q ok have tree: "l = k" "\<forall>j. l < j \<and> j \<le> 4 \<longrightarrow> vindex j v = vindex j w"
      unfolding vs_ok_def by blast+
    have u: "u = t" using True p(2) q(2) by simp
    have "same_region l v w \<longleftrightarrow> vindex l v = vindex l w" using tree(2) range by (simp add: same_region_iff)
    then show ?thesis using True tree(1) u len vindex_bound [of l v]
      by (auto simp: set_entry_def nth_list_update ENTRIES_PER_TABLE_def)
  next
    case False
    have "\<not> (k = l \<and> same_region l v w)"
    proof
      assume kl: "k = l \<and> same_region l v w"
      then have "\<forall>j. l < j \<and> j \<le> 4 \<longrightarrow> vindex j v = vindex j w" by (simp add: same_region_def)
      with p(1) have "on_path OFFSET m rt w l p" by (rule on_path_cong)
      with q(1) kl False show False using on_path_fun by blast
    qed
    with False q(2) len show ?thesis by (auto simp: set_entry_def ENTRIES_PER_TABLE_def)
  qed
qed

lemma put_path:
  assumes ok: "vs_ok OFFSET m rt" and p: "on_path OFFSET m rt v l p" "m (p + OFFSET) = Some t"
    and old: "\<not> ltable l (t ! vindex l v)" and new: "\<not> ltable l e"
  shows "on_path OFFSET (set_entry OFFSET m v l p t e) rt w k q \<longleftrightarrow> on_path OFFSET m rt w k q"
proof
  let ?m = "set_entry OFFSET m v l p t e"
  assume "on_path OFFSET ?m rt w k q"
  then show "on_path OFFSET m rt w k q"
  proof (induction rule: on_path.induct)
    case (down k q u')
    from ok down.IH obtain u where u: "m (q + OFFSET) = Some u" unfolding vs_ok_def by blast
    from put_entry [OF ok p down.IH u, of e] down.hyps(2,3) new
    have "u' ! vindex (Suc k) w = u ! vindex (Suc k) w" by (auto split: if_splits)
    with down.hyps(3) on_path.down [where t = u, OF down.IH u] show ?case by simp
  qed (rule on_path.top)
next
  let ?m = "set_entry OFFSET m v l p t e"
  assume "on_path OFFSET m rt w k q"
  then show "on_path OFFSET ?m rt w k q"
  proof (induction rule: on_path.induct)
    case (down k q u)
    from put_entry [OF ok p down.hyps(1,2), of e] old down.hyps(3)
    obtain u' where "?m (q + OFFSET) = Some u'" "u' ! vindex (Suc k) w = u ! vindex (Suc k) w"
      by (auto split: if_splits)
    with down.hyps(3) on_path.down [where t = u' and m = ?m, OF down.IH] show ?case by simp
  qed (rule on_path.top)
qed

lemma tr_put:
  assumes ok: "vs_ok OFFSET m rt" and p: "on_path OFFSET m rt v l p" "m (p + OFFSET) = Some t"
    and old: "\<not> ltable l (t ! vindex l v)" and new: "\<not> ltable l e"
  shows "tr OFFSET (set_entry OFFSET m v l p t e) w 4 rt = (if same_region l v w then Some (l, e) else tr OFFSET m w 4 rt)"
proof -
  let ?m = "set_entry OFFSET m v l p t e"
  obtain k e0 q u where k: "tr OFFSET m w 4 rt = Some (k, e0)" "on_path OFFSET m rt w k q" "m (q + OFFSET) = Some u"
    "e0 = u ! vindex k w" "\<not> ltable k e0" by (rule trE [OF ok])
  obtain n where n: "k = Suc n" using on_path_range [OF k(2)] by (cases k) auto
  obtain n' where n': "l = Suc n'" using on_path_range [OF p(1)] by (cases l) auto
  show ?thesis
  proof (cases "same_region l v w")
    case True
    then have "\<forall>j. l < j \<and> j \<le> 4 \<longrightarrow> vindex j v = vindex j w" by (simp add: same_region_def)
    with p(1) have w: "on_path OFFSET m rt w l p" by (rule on_path_cong)
    then have "tr OFFSET ?m w 4 rt = tr OFFSET ?m w l p"
      using put_path [OF ok p old new] by (intro on_path_tr) simp
    with put_entry [OF ok p w p(2), of e] True new n' show ?thesis by (auto simp: Let_def)
  next
    case False
    have "tr OFFSET ?m w 4 rt = tr OFFSET ?m w k q"
      using put_path [OF ok p old new] k(2) by (intro on_path_tr) simp
    with put_entry [OF ok p k(2,3), of e] False k n show ?thesis by (auto simp: Let_def)
  qed
qed

lemma vs_ok_put:
  assumes ok: "vs_ok OFFSET m rt" and p: "on_path OFFSET m rt v l p" "m (p + OFFSET) = Some t"
    and old: "\<not> ltable l (t ! vindex l v)" and new: "\<not> ltable l e"
  shows "vs_ok OFFSET (set_entry OFFSET m v l p t e) rt"
proof -
  have "\<exists>u. set_entry OFFSET m v l p t e (q + OFFSET) = Some u \<and> length u = ENTRIES_PER_TABLE"
    if q: "on_path OFFSET m rt w k q" for w k q
  proof -
    from ok q obtain u where "m (q + OFFSET) = Some u" unfolding vs_ok_def by blast
    from put_entry [OF ok p q this, of e] show ?thesis by blast
  qed
  then show ?thesis using ok by (simp add: vs_ok_def put_path [OF assms])
qed

section \<open>Installing a table\<close>

text \<open>A table that is not in use yet: a cleared page frame that no walk visits.\<close>

definition fresh_table :: "u64 \<Rightarrow> tmem \<Rightarrow> u64 \<Rightarrow> u64 \<Rightarrow> bool" where
  "fresh_table OFFSET m rt pa \<longleftrightarrow> pa < 0x10000000000000 \<and> unat pa + unat OFFSET < 2 ^ 64 \<and> m (pa + OFFSET) = Some Table_new \<and>
     (\<forall>v l. \<not> on_path OFFSET m rt v l pa)"

lemma install_path:
  assumes ok: "vs_ok OFFSET m rt" and p: "on_path OFFSET m rt v l p" "m (p + OFFSET) = Some t"
    and old: "\<not> ltable l (t ! vindex l v)" and new: "ltable l e" "e AND ADDR_MASK = pa"
    and fresh: "fresh_table OFFSET m rt pa" and n: "l = Suc n"
  shows "on_path OFFSET (set_entry OFFSET m v l p t e) rt w k q \<longleftrightarrow>
    on_path OFFSET m rt w k q \<or> k = n \<and> q = pa \<and> same_region l v w"
proof
  let ?m = "set_entry OFFSET m v l p t e"
  have ne: "pa + OFFSET \<noteq> p + OFFSET" using fresh p(1) by (auto simp: fresh_table_def)
  assume "on_path OFFSET ?m rt w k q"
  then show "on_path OFFSET m rt w k q \<or> k = n \<and> q = pa \<and> same_region l v w"
  proof (induction rule: on_path.induct)
    case (down k q u')
    from down.IH show ?case
    proof
      assume q: "on_path OFFSET m rt w (Suc k) q"
      from ok q obtain u where u: "m (q + OFFSET) = Some u" unfolding vs_ok_def by blast
      show ?thesis
      proof (cases "Suc k = l \<and> same_region l v w")
        case True
        with put_entry [OF ok p q u, of e] down.hyps(2) new(2) n show ?thesis by auto
      next
        case False
        with put_entry [OF ok p q u, of e] down.hyps(2)
        have "u' ! vindex (Suc k) w = u ! vindex (Suc k) w" by auto
        with down.hyps(3) on_path.down [where t = u, OF q u] show ?thesis by simp
      qed
    next
      assume "Suc k = n \<and> q = pa \<and> same_region l v w"
      with down.hyps(2) fresh ne have "u' = Table_new" by (simp add: set_entry_def fresh_table_def)
      with down.hyps(3) vindex_bound [of "Suc k" w] show ?thesis
        by (simp add: Table_new_def ENTRIES_PER_TABLE_def ltable_def)
    qed
  qed (simp add: on_path.top)
next
  let ?m = "set_entry OFFSET m v l p t e"
  have keep: "on_path OFFSET ?m rt w k q" if "on_path OFFSET m rt w k q" for k q
    using that
  proof (induction rule: on_path.induct)
    case (down k q u)
    from put_entry [OF ok p down.hyps(1,2), of e] old down.hyps(3)
    obtain u' where "?m (q + OFFSET) = Some u'" "u' ! vindex (Suc k) w = u ! vindex (Suc k) w"
      by (auto split: if_splits)
    with down.hyps(3) on_path.down [where t = u' and m = ?m, OF down.IH] show ?case by simp
  qed (rule on_path.top)
  assume "on_path OFFSET m rt w k q \<or> k = n \<and> q = pa \<and> same_region l v w"
  then show "on_path OFFSET ?m rt w k q"
  proof
    assume r: "k = n \<and> q = pa \<and> same_region l v w"
    then have "\<forall>j. l < j \<and> j \<le> 4 \<longrightarrow> vindex j v = vindex j w" by (simp add: same_region_def)
    with p(1) have w: "on_path OFFSET m rt w l p" by (rule on_path_cong)
    from put_entry [OF ok p w p(2), of e] r
    obtain u' where "?m (p + OFFSET) = Some u'" "u' ! vindex l w = e" by auto
    with keep [OF w] new r n on_path.down [where t = u' and m = ?m and l = n and p = p and v = w]
    show ?thesis by simp
  qed (rule keep)
qed

lemma tr_install:
  assumes ok: "vs_ok OFFSET m rt" and p: "on_path OFFSET m rt v l p" "m (p + OFFSET) = Some t"
    and old: "\<not> ltable l (t ! vindex l v)" and new: "ltable l e" "e AND ADDR_MASK = pa"
    and fresh: "fresh_table OFFSET m rt pa" and n: "l = Suc n"
  shows "tr OFFSET (set_entry OFFSET m v l p t e) w 4 rt = (if same_region l v w then Some (n, 0) else tr OFFSET m w 4 rt)"
proof -
  let ?m = "set_entry OFFSET m v l p t e"
  note path = install_path [OF assms]
  have ne: "pa + OFFSET \<noteq> p + OFFSET" using fresh p(1) by (auto simp: fresh_table_def)
  show ?thesis
  proof (cases "same_region l v w")
    case True
    then have "tr OFFSET ?m w 4 rt = tr OFFSET ?m w n pa" using path by (intro on_path_tr) simp
    moreover obtain n' where "n = Suc n'" using new(1) n by (cases n) (auto simp: ltable_def)
    ultimately show ?thesis using True fresh ne vindex_bound [of n w]
      by (simp add: set_entry_def fresh_table_def Let_def Table_new_def ENTRIES_PER_TABLE_def ltable_def)
  next
    case False
    obtain k e0 q u where k: "tr OFFSET m w 4 rt = Some (k, e0)" "on_path OFFSET m rt w k q" "m (q + OFFSET) = Some u"
      "e0 = u ! vindex k w" "\<not> ltable k e0" by (rule trE [OF ok])
    obtain n' where n': "k = Suc n'" using on_path_range [OF k(2)] by (cases k) auto
    have "tr OFFSET ?m w 4 rt = tr OFFSET ?m w k q" using path k(2) by (intro on_path_tr) simp
    with put_entry [OF ok p k(2,3), of e] False k n' show ?thesis by (auto simp: Let_def)
  qed
qed

lemma vs_ok_install:
  assumes ok: "vs_ok OFFSET m rt" and p: "on_path OFFSET m rt v l p" "m (p + OFFSET) = Some t"
    and old: "\<not> ltable l (t ! vindex l v)" and new: "ltable l e" "e AND ADDR_MASK = pa"
    and fresh: "fresh_table OFFSET m rt pa" and n: "l = Suc n"
  shows "vs_ok OFFSET (set_entry OFFSET m v l p t e) rt"
proof -
  let ?m = "set_entry OFFSET m v l p t e"
  note path = install_path [OF assms]
  have mem: "\<exists>u. ?m (q + OFFSET) = Some u \<and> length u = ENTRIES_PER_TABLE" if "on_path OFFSET ?m rt w k q" for w k q
  proof (cases "on_path OFFSET m rt w k q")
    case q: True
    from ok q obtain u where "m (q + OFFSET) = Some u" unfolding vs_ok_def by blast
    from put_entry [OF ok p q this, of e] show ?thesis by blast
  next
    case False
    with that path fresh p(1) show ?thesis by (auto simp: set_entry_def fresh_table_def Table_new_def)
  qed
  have room: "unat q + unat OFFSET < 2 ^ 64" if "on_path OFFSET ?m rt w k q" for w k q
  proof (cases "on_path OFFSET m rt w k q")
    case True
    with ok show ?thesis unfolding vs_ok_def by blast
  next
    case False
    with that path fresh show ?thesis by (simp add: fresh_table_def)
  qed
  have tree: "x = y \<and> (\<forall>j. x < j \<and> j \<le> 4 \<longrightarrow> vindex j w = vindex j w')"
    if q: "on_path OFFSET ?m rt w x q" "on_path OFFSET ?m rt w' y q" for w w' x y q
  proof (cases "q = pa")
    case True
    with q fresh have "x = n" "y = n" "same_region l v w" "same_region l v w'"
      unfolding path by (auto simp: fresh_table_def)
    with n show ?thesis by (simp add: same_region_def)
  next
    case False
    with q have "on_path OFFSET m rt w x q" "on_path OFFSET m rt w' y q" unfolding path by blast+
    with ok show ?thesis unfolding vs_ok_def by blast
  qed
  show ?thesis unfolding vs_ok_def
  proof (intro conjI allI impI)
    show "rt < 0x10000000000000" using ok by (simp add: vs_ok_def)
  qed (use mem room tree in blast)+
qed

section \<open>The abstract address space\<close>

text \<open>
  An address space as a map from canonical addresses to the level and the entry of their
  translation, with the operations on it. An entry that is present is a mapped page.
\<close>

type_synonym vmap = "usize \<rightharpoonup> nat \<times> u64"

definition vmap_of :: "u64 \<Rightarrow> tmem \<Rightarrow> u64 \<Rightarrow> vmap" where
  "vmap_of OFFSET m rt = (\<lambda>w. if is_canonical w then tr OFFSET m w 4 rt else None)"

definition a_update :: "nat \<Rightarrow> usize \<Rightarrow> nat \<times> u64 \<Rightarrow> vmap \<Rightarrow> vmap" where
  "a_update l v r A = (\<lambda>w. if is_canonical w \<and> drop_bit (level_shift l) w = drop_bit (level_shift l) v
     then Some r else A w)"

definition a_enter :: "nat \<Rightarrow> usize \<Rightarrow> nat \<times> u64 \<Rightarrow> vmap \<Rightarrow> (VSpaceError + unit) \<times> vmap" where
  "a_enter l v r A =
     (case A v of
        None \<Rightarrow> (Inl InvalidVAddr, A)
      | Some (k, e) \<Rightarrow>
          if bit e 0 then (Inl AlreadyMapped, A)
          else if l < k then (Inl MissingTable, A)
          else if k < l then (Inl AlreadyMapped, A)
          else (Inr (), a_update l v r A))"

fun size_level :: "FrameSize \<Rightarrow> nat" where
  "size_level Small = 1"
| "size_level Large = 2"
| "size_level Huge = 3"

fun leaf :: "ext \<Rightarrow> FrameSize \<Rightarrow> u64 \<Rightarrow> VMAttributes \<Rightarrow> u64" where
  "leaf E Small pa attr = Pte_new_page E pa attr"
| "leaf E Large pa attr = Pde_new_large_page E pa attr"
| "leaf E Huge pa attr = Pdpte_new_huge_page E pa attr"

definition a_map :: "ext \<Rightarrow> FrameSize \<Rightarrow> usize \<Rightarrow> u64 \<Rightarrow> VMAttributes \<Rightarrow> vmap \<Rightarrow> (VSpaceError + unit) \<times> vmap" where
  "a_map E sz v pa attr A =
     (if v \<notin> dom A then (Inl InvalidVAddr, A)
      else if \<not> is_aligned sz v then (Inl MisalignedVAddr, A)
      else if \<not> is_aligned sz pa then (Inl MisalignedPAddr, A)
      else a_enter (size_level sz) v (size_level sz, leaf E sz pa attr) A)"

definition a_unmap :: "usize \<Rightarrow> vmap \<Rightarrow> (VSpaceError + u64 \<times> FrameSize) \<times> vmap" where
  "a_unmap v A =
     (case A v of
        None \<Rightarrow> (Inl InvalidVAddr, A)
      | Some (l, e) \<Rightarrow>
          if bit e 0 then (Inr (e AND ADDR_MASK, if l = 1 then Small else if l = 2 then Large else Huge), a_update l v (l, 0) A)
          else (Inl NotMappedErr, A))"

definition a_install :: "usize \<Rightarrow> usize \<Rightarrow> u64 \<Rightarrow> vmap \<Rightarrow> (VSpaceError + unit) \<times> vmap" where
  "a_install v level pa A =
     (if v \<notin> dom A then (Inl InvalidVAddr, A)
      else if \<not> is_aligned Small pa then (Inl MisalignedPAddr, A)
      else if level = 3 then a_enter 4 v (3, 0) A
      else if level = 2 then a_enter 3 v (2, 0) A
      else if level = 1 then a_enter 2 v (1, 0) A
      else (Inl InvalidVAddr, A))"

definition a_walk :: "nat \<times> u64 \<Rightarrow> WalkResult" where
  "a_walk = (\<lambda>(l, e). if bit e 0
     then MappedPage (e AND ADDR_MASK) (if l = 1 then Small else if l = 2 then Large else Huge) (of_nat l)
     else NotMapped (of_nat l))"

section \<open>Refinement\<close>

lemma entry_tests:
  "Pml4e_is_present e \<longleftrightarrow> bit e 0"
  "Pdpte_is_present e \<longleftrightarrow> bit e 0" "Pdpte_is_page e \<longleftrightarrow> bit e 0 \<and> bit e 7"
  "Pde_is_present e \<longleftrightarrow> bit e 0" "Pde_is_page e \<longleftrightarrow> bit e 0 \<and> bit e 7"
  "Pte_is_present e \<longleftrightarrow> bit e 0"
  by (simp_all only: entry_present_defs entry_kind_defs PRESENT_def HUGE_PAGE_def and_kbit) simp_all

lemma entry_addrs:
  assumes "ext_ok E"
  shows "Pml4e_paddr E e = Ret (e AND ADDR_MASK)" "Pdpte_paddr E e = Ret (e AND ADDR_MASK)"
    "Pde_paddr E e = Ret (e AND ADDR_MASK)" "Pte_paddr E e = Ret (e AND ADDR_MASK)"
  by (simp_all add: entry_paddr_defs expect_addr [OF assms])

lemma vindex_fields:
  "unat (field_get 39 9 v) = vindex 4 v" "unat (field_get 30 9 v) = vindex 3 v"
  "unat (field_get 21 9 v) = vindex 2 v" "unat (field_get 12 9 v) = vindex 1 v"
  by (simp_all add: vindex_def)

lemma vmap_at: "is_canonical v \<Longrightarrow> vmap_of OFFSET m rt v = tr OFFSET m v 4 rt"
  by (simp add: vmap_of_def)

lemma vmap_dom:
  assumes "vs_ok OFFSET m rt"
  shows "dom (vmap_of OFFSET m rt) = Collect is_canonical"
proof -
  have "\<exists>r. tr OFFSET m v 4 rt = Some r" for v using tr_total [OF assms on_path.top, of v] by blast
  then show ?thesis by (auto simp: vmap_of_def dom_def)
qed

lemma ltable_levels:
  "ltable 4 e \<longleftrightarrow> bit e 0" "ltable 3 e \<longleftrightarrow> bit e 0 \<and> \<not> bit e 7" "ltable 2 e \<longleftrightarrow> bit e 0 \<and> \<not> bit e 7"
  "\<not> ltable (Suc 0) e"
  by (auto simp: ltable_def)

text \<open>A visited table, and what the code reads and writes there.\<close>

definition stage :: "u64 \<Rightarrow> tmem \<Rightarrow> u64 \<Rightarrow> usize \<Rightarrow> nat \<Rightarrow> u64 \<Rightarrow> table \<Rightarrow> bool" where
  "stage OFFSET m rt v l p t \<longleftrightarrow> on_path OFFSET m rt v l p \<and> m (p + OFFSET) = Some t \<and> length t = 512 \<and>
     (\<forall>dbg. from_paddr dbg OFFSET m p = Ret (p + OFFSET, t))"

lemma stageI:
  assumes ok: "vs_ok OFFSET m rt" and p: "on_path OFFSET m rt v l p"
  obtains t where "stage OFFSET m rt v l p t"
proof -
  from ok p obtain t where t: "m (p + OFFSET) = Some t" "length t = 512"
    unfolding vs_ok_def ENTRIES_PER_TABLE_def by blast
  have "unat p + unat OFFSET < 2 ^ 64" using ok p unfolding vs_ok_def by blast
  then have "u_add dbg p OFFSET = Ret (p + OFFSET)" for dbg by (simp add: u_add_def)
  with t have "from_paddr dbg OFFSET m p = Ret (p + OFFSET, t)" for dbg by (simp add: from_paddr_def)
  with t p show thesis using that [of t] by (simp add: stage_def)
qed

lemma stage_down:
  assumes ok: "vs_ok OFFSET m rt" and st: "stage OFFSET m rt v (Suc l) p t" and "ltable (Suc l) (t ! vindex (Suc l) v)"
  obtains u where "stage OFFSET m rt v l (t ! vindex (Suc l) v AND ADDR_MASK) u"
proof -
  from st have p: "on_path OFFSET m rt v (Suc l) p" "m (p + OFFSET) = Some t" by (simp_all add: stage_def)
  from on_path.down [where t = t, OF p assms(3)] show thesis by (rule stageI [OF ok]) (rule that)
qed

lemma stage_tr:
  assumes "stage OFFSET m rt v (Suc l) p t" "\<not> ltable (Suc l) (t ! vindex (Suc l) v)"
  shows "tr OFFSET m v 4 rt = Some (Suc l, t ! vindex (Suc l) v)"
  using assms on_path_tr [of OFFSET m rt v "Suc l" p] by (simp add: stage_def Let_def)

lemma path_cases:
  assumes ok: "vs_ok OFFSET m rt"
  obtains (c4) t4 where "stage OFFSET m rt v 4 rt t4" "\<not> bit (t4 ! vindex 4 v) 0"
      "tr OFFSET m v 4 rt = Some (4, t4 ! vindex 4 v)"
  | (c3) t4 t3 where "stage OFFSET m rt v 4 rt t4" "bit (t4 ! vindex 4 v) 0"
      "stage OFFSET m rt v 3 (t4 ! vindex 4 v AND ADDR_MASK) t3" "\<not> ltable 3 (t3 ! vindex 3 v)"
      "tr OFFSET m v 4 rt = Some (3, t3 ! vindex 3 v)"
  | (c2) t4 t3 t2 where "stage OFFSET m rt v 4 rt t4" "bit (t4 ! vindex 4 v) 0"
      "stage OFFSET m rt v 3 (t4 ! vindex 4 v AND ADDR_MASK) t3" "bit (t3 ! vindex 3 v) 0" "\<not> bit (t3 ! vindex 3 v) 7"
      "stage OFFSET m rt v 2 (t3 ! vindex 3 v AND ADDR_MASK) t2" "\<not> ltable 2 (t2 ! vindex 2 v)"
      "tr OFFSET m v 4 rt = Some (2, t2 ! vindex 2 v)"
  | (c1) t4 t3 t2 t1 where "stage OFFSET m rt v 4 rt t4" "bit (t4 ! vindex 4 v) 0"
      "stage OFFSET m rt v 3 (t4 ! vindex 4 v AND ADDR_MASK) t3" "bit (t3 ! vindex 3 v) 0" "\<not> bit (t3 ! vindex 3 v) 7"
      "stage OFFSET m rt v 2 (t3 ! vindex 3 v AND ADDR_MASK) t2" "bit (t2 ! vindex 2 v) 0" "\<not> bit (t2 ! vindex 2 v) 7"
      "stage OFFSET m rt v (Suc 0) (t2 ! vindex 2 v AND ADDR_MASK) t1"
      "tr OFFSET m v 4 rt = Some (Suc 0, t1 ! vindex (Suc 0) v)"
proof -
  obtain t4 where s4: "stage OFFSET m rt v 4 rt t4" by (rule stageI [OF ok on_path.top])
  show thesis
  proof (cases "ltable 4 (t4 ! vindex 4 v)")
    case False
    with c4 [OF s4] stage_tr [of OFFSET m rt v 3 rt t4] s4 show ?thesis by (simp add: ltable_levels)
  next
    case l4: True
    obtain t3 where s3: "stage OFFSET m rt v 3 (t4 ! vindex 4 v AND ADDR_MASK) t3"
      by (rule stage_down [OF ok, of v 3 rt t4]) (use s4 l4 in simp_all)
    show ?thesis
    proof (cases "ltable 3 (t3 ! vindex 3 v)")
      case False
      with c3 [OF s4 _ s3] l4 stage_tr [of OFFSET m rt v 2 _ t3] s3 show ?thesis by (simp add: ltable_levels(1))
    next
      case l3: True
      obtain t2 where s2: "stage OFFSET m rt v 2 (t3 ! vindex 3 v AND ADDR_MASK) t2"
        by (rule stage_down [OF ok, of v 2 _ t3]) (use s3 l3 in simp_all)
      show ?thesis
      proof (cases "ltable 2 (t2 ! vindex 2 v)")
        case False
        then have "tr OFFSET m v 4 rt = Some (2, t2 ! vindex 2 v)"
          using stage_tr [of OFFSET m rt v "Suc 0" _ t2] s2 by (simp add: numeral_2_eq_2)
        with False c2 [OF s4 _ s3 _ _ s2] l4 l3 show ?thesis by (simp add: ltable_levels(1,2))
      next
        case l2: True
        obtain t1 where s1: "stage OFFSET m rt v (Suc 0) (t2 ! vindex 2 v AND ADDR_MASK) t1"
          by (rule stage_down [where l = "Suc 0", folded numeral_2_eq_2, OF ok s2 l2])
        with c1 [OF s4 _ s3 _ _ s2 _ _ s1] l4 l3 l2 stage_tr [of OFFSET m rt v 0 _ t1] show ?thesis
          by (simp add: ltable_levels)
      qed
    qed
  qed
qed

lemma Table_index_simps:
  assumes "length t = 512"
  shows "Table_index t (field_get 39 9 v) = Ret (t ! vindex 4 v)" "Table_index t (field_get 30 9 v) = Ret (t ! vindex 3 v)"
    "Table_index t (field_get 21 9 v) = Ret (t ! vindex 2 v)" "Table_index t (field_get 12 9 v) = Ret (t ! vindex 1 v)"
  using assms vindex_bound by (simp_all add: Table_index_def vindex_fields)

lemma put_simps:
  assumes "m (p + OFFSET) = Some t" "length t = 512"
  shows "Table_index_mut m (p + OFFSET) (field_get 39 9 v) e = Ret (set_entry OFFSET m v 4 p t e)"
    "Table_index_mut m (p + OFFSET) (field_get 30 9 v) e = Ret (set_entry OFFSET m v 3 p t e)"
    "Table_index_mut m (p + OFFSET) (field_get 21 9 v) e = Ret (set_entry OFFSET m v 2 p t e)"
    "Table_index_mut m (p + OFFSET) (field_get 12 9 v) e = Ret (set_entry OFFSET m v 1 p t e)"
  using assms vindex_bound by (simp_all add: Table_index_mut_def vindex_fields set_entry_def)

lemma stage_simps:
  assumes "stage OFFSET m rt v l p t"
  shows "m (p + OFFSET) = Some t" "length t = 512" "from_paddr dbg OFFSET m p = Ret (p + OFFSET, t)"
    "on_path OFFSET m rt v l p"
  using assms by (simp_all add: stage_def)

lemma vmap_put:
  assumes ok: "vs_ok OFFSET m rt" and st: "stage OFFSET m rt v l p t" and v: "is_canonical v"
    and old: "\<not> ltable l (t ! vindex l v)" and new: "\<not> ltable l e"
  shows "vmap_of OFFSET (set_entry OFFSET m v l p t e) rt = a_update l v (l, e) (vmap_of OFFSET m rt)"
    and "vs_ok OFFSET (set_entry OFFSET m v l p t e) rt"
proof -
  note tr = tr_put [OF ok stage_simps(4,1) [OF st] old new]
  have l: "1 \<le> l" "l \<le> 4" using on_path_range [OF stage_simps(4) [OF st]] by simp_all
  show "vmap_of OFFSET (set_entry OFFSET m v l p t e) rt = a_update l v (l, e) (vmap_of OFFSET m rt)"
    using same_region_canonical [OF v _ l] by (auto simp: vmap_of_def a_update_def tr)
  show "vs_ok OFFSET (set_entry OFFSET m v l p t e) rt" by (rule vs_ok_put [OF ok stage_simps(4,1) [OF st] old new])
qed

lemma vmap_install:
  assumes ok: "vs_ok OFFSET m rt" and st: "stage OFFSET m rt v (Suc n) p t" and v: "is_canonical v"
    and old: "\<not> ltable (Suc n) (t ! vindex (Suc n) v)" and new: "ltable (Suc n) e" "e AND ADDR_MASK = pa"
    and fresh: "fresh_table OFFSET m rt pa"
  shows "vmap_of OFFSET (set_entry OFFSET m v (Suc n) p t e) rt = a_update (Suc n) v (n, 0) (vmap_of OFFSET m rt)"
    and "vs_ok OFFSET (set_entry OFFSET m v (Suc n) p t e) rt"
proof -
  note tr = tr_install [OF ok stage_simps(4,1) [OF st] old new fresh refl]
  have l: "1 \<le> Suc n" "Suc n \<le> 4" using on_path_range [OF stage_simps(4) [OF st]] by simp_all
  show "vmap_of OFFSET (set_entry OFFSET m v (Suc n) p t e) rt = a_update (Suc n) v (n, 0) (vmap_of OFFSET m rt)"
    using same_region_canonical [OF v _ l] by (auto simp: vmap_of_def a_update_def tr)
  show "vs_ok OFFSET (set_entry OFFSET m v (Suc n) p t e) rt"
    by (rule vs_ok_install [OF ok stage_simps(4,1) [OF st] old new fresh refl])
qed

text \<open>The root of an address space is the table that its capability names.\<close>

definition vs_root :: "CapRaw \<Rightarrow> u64" where
  "vs_root raw = paddr raw"

lemma pml4_stage:
  assumes E: "ext_ok E" and ok: "vs_ok OFFSET m (vs_root raw)" and st: "stage OFFSET m (vs_root raw) v 4 (vs_root raw) t"
  shows "pml4 dbg E OFFSET m raw = Ret (vs_root raw + OFFSET, t)"
proof -
  have "CapRef_paddr E raw = Ret (vs_root raw)"
    using ok by (simp add: CapRef_paddr_Ret [OF E] vs_ok_def vs_root_def)
  then show ?thesis by (simp add: pml4_def root_paddr_def stage_simps(3) [OF st])
qed

lemma walk_tr:
  assumes E: "ext_ok E" and ok: "vs_ok OFFSET m (vs_root raw)"
  shows "walk dbg E OFFSET m raw v = Ret (case vmap_of OFFSET m (vs_root raw) v of
    None \<Rightarrow> Inl InvalidVAddr | Some r \<Rightarrow> Inr (a_walk r))"
proof (cases "is_canonical v")
  case v: True
  note defs = walk_def v vaddr_indices_eq Table_index_simps entry_tests entry_addrs [OF E] vmap_of_def a_walk_def
  from ok show ?thesis
  proof (cases rule: path_cases [where v = v])
    case (c4 t4)
    then show ?thesis by (simp add: defs pml4_stage [OF E ok c4(1)] stage_simps [OF c4(1)])
  next
    case (c3 t4 t3)
    then show ?thesis
      by (simp add: defs ltable_levels pml4_stage [OF E ok c3(1)] stage_simps [OF c3(1)] stage_simps [OF c3(3)])
  next
    case (c2 t4 t3 t2)
    then show ?thesis by (simp add: defs ltable_levels pml4_stage [OF E ok c2(1)] stage_simps [OF c2(1)]
          stage_simps [OF c2(3)] stage_simps [OF c2(6)])
  next
    case (c1 t4 t3 t2 t1)
    then show ?thesis by (simp add: defs pml4_stage [OF E ok c1(1)] stage_simps [OF c1(1)]
          stage_simps [OF c1(3)] stage_simps [OF c1(6)] stage_simps [OF c1(9)])
  qed
qed (simp add: walk_def vmap_of_def)

text \<open>
  What refinement means for an operation: it returns, its result and the new address space are
  those of the abstract operation, the tables stay well-formed, an error changes nothing, and
  after a success the translation buffer is the given one.
\<close>

definition refined ::
    "u64 \<Rightarrow> u64 \<Rightarrow> vspace_st \<Rightarrow> vspace_st \<Rightarrow> ((VSpaceError + 'a) \<times> vspace_st) outcome \<Rightarrow> (VSpaceError + 'a) \<times> vmap \<Rightarrow> bool"
    where
  "refined OFFSET rt s f out a \<longleftrightarrow> (\<exists>r s'. out = Ret (r, s') \<and> a = (r, vmap_of OFFSET (v_tables s') rt) \<and>
     vs_ok OFFSET (v_tables s') rt \<and> (case r of Inl _ \<Rightarrow> s' = s | Inr _ \<Rightarrow> v_tlb s' = v_tlb f))"

lemma refined_error:
  "vs_ok OFFSET (v_tables s) rt \<Longrightarrow> a = (Inl e, vmap_of OFFSET (v_tables s) rt) \<Longrightarrow>
   refined OFFSET rt s f (Ret (Inl e, s)) a"
  by (simp add: refined_def)

lemma refined_put:
  assumes "vs_ok OFFSET (v_tables s) rt" "stage OFFSET (v_tables s) rt v l p t" "is_canonical v"
    "\<not> ltable l (t ! vindex l v)" "\<not> ltable l e" "a = (Inr x, a_update l v (l, e) (vmap_of OFFSET (v_tables s) rt))"
  shows "refined OFFSET rt s (flush_page s v) (Ret (Inr x, flush_page (s\<lparr>v_tables := set_entry OFFSET (v_tables s) v l p t e\<rparr>) v)) a"
  using vmap_put [OF assms(1-5)] assms(6) by (simp add: refined_def flush_page_def)

lemma huge_bits:
  "bit (Pdpte_new_huge_page E pa attr) 7" "bit (Pde_new_large_page E pa attr) 7"
  by (simp_all add: Pdpte_new_huge_page_def Pde_new_large_page_def Let_def flags_bit bit_or_iff HUGE_PAGE_def bit_kbit)

lemma map_4k_refines:
  assumes E: "ext_ok E" and ok: "vs_ok OFFSET (v_tables s) (vs_root raw)"
  shows "refined OFFSET (vs_root raw) s (flush_page s v) (map_4k dbg E OFFSET s raw v pa attr)
    (a_map E Small v pa attr (vmap_of OFFSET (v_tables s) (vs_root raw)))"
proof (cases "is_canonical v \<and> is_aligned Small v \<and> is_aligned Small pa")
  case True
  then have v: "is_canonical v" "is_aligned Small v" "is_aligned Small pa" by simp_all
  note defs = map_4k_def v vaddr_indices_eq Table_index_simps entry_tests entry_addrs [OF E] vmap_at [OF v(1)] a_map_def a_enter_def vmap_dom [OF ok]
  from ok show ?thesis
  proof (cases rule: path_cases [where v = v])
    case (c4 t4)
    then show ?thesis using ok
      by (simp add: defs pml4_stage [OF E ok c4(1)] stage_simps [OF c4(1)] refined_error)
  next
    case (c3 t4 t3)
    then show ?thesis using ok
      by (simp add: defs ltable_levels pml4_stage [OF E ok c3(1)] stage_simps [OF c3(1)] stage_simps [OF c3(3)] refined_error)
  next
    case (c2 t4 t3 t2)
    then show ?thesis using ok
      by (simp add: defs ltable_levels pml4_stage [OF E ok c2(1)] stage_simps [OF c2(1)]
          stage_simps [OF c2(3)] stage_simps [OF c2(6)] refined_error)
  next
    case (c1 t4 t3 t2 t1)
    then show ?thesis using ok
      by (simp add: defs pml4_stage [OF E ok c1(1)] stage_simps [OF c1(1)] stage_simps [OF c1(3)] stage_simps [OF c1(6)]
          stage_simps [OF c1(9)] put_simps refined_error refined_put [OF ok c1(9)] ltable_levels)
  qed
qed (use ok in \<open>auto simp: map_4k_def a_map_def vmap_dom refined_error\<close>)

lemma map_2m_refines:
  assumes E: "ext_ok E" and ok: "vs_ok OFFSET (v_tables s) (vs_root raw)"
  shows "refined OFFSET (vs_root raw) s (flush_page s v) (map_2m dbg E OFFSET s raw v pa attr)
    (a_map E Large v pa attr (vmap_of OFFSET (v_tables s) (vs_root raw)))"
proof (cases "is_canonical v \<and> is_aligned Large v \<and> is_aligned Large pa")
  case True
  then have v: "is_canonical v" "is_aligned Large v" "is_aligned Large pa" by simp_all
  note defs = map_2m_def v vaddr_indices_eq Table_index_simps entry_tests entry_addrs [OF E] vmap_at [OF v(1)]
    a_map_def a_enter_def vmap_dom [OF ok]
  from ok show ?thesis
  proof (cases rule: path_cases [where v = v])
    case (c4 t4)
    then show ?thesis using ok
      by (simp add: defs pml4_stage [OF E ok c4(1)] stage_simps [OF c4(1)] refined_error)
  next
    case (c3 t4 t3)
    then show ?thesis using ok
      by (simp add: defs ltable_levels pml4_stage [OF E ok c3(1)] stage_simps [OF c3(1)] stage_simps [OF c3(3)] refined_error)
  next
    case (c2 t4 t3 t2)
    then show ?thesis using ok
      by (simp add: defs pml4_stage [OF E ok c2(1)] stage_simps [OF c2(1)] stage_simps [OF c2(3)] stage_simps [OF c2(6)]
          put_simps refined_error refined_put [OF ok c2(6)] ltable_levels huge_bits)
  next
    case (c1 t4 t3 t2 t1)
    then show ?thesis using ok
      by (simp add: defs pml4_stage [OF E ok c1(1)] stage_simps [OF c1(1)] stage_simps [OF c1(3)] stage_simps [OF c1(6)]
          refined_error)
  qed
qed (use ok in \<open>auto simp: map_2m_def a_map_def vmap_dom refined_error\<close>)

lemma map_1g_refines:
  assumes E: "ext_ok E" and ok: "vs_ok OFFSET (v_tables s) (vs_root raw)"
  shows "refined OFFSET (vs_root raw) s (flush_page s v) (map_1g dbg E OFFSET s raw v pa attr)
    (a_map E Huge v pa attr (vmap_of OFFSET (v_tables s) (vs_root raw)))"
proof (cases "is_canonical v \<and> is_aligned Huge v \<and> is_aligned Huge pa")
  case True
  then have v: "is_canonical v" "is_aligned Huge v" "is_aligned Huge pa" by simp_all
  note defs = map_1g_def v vaddr_indices_eq Table_index_simps entry_tests entry_addrs [OF E] vmap_at [OF v(1)]
    a_map_def a_enter_def vmap_dom [OF ok]
  from ok show ?thesis
  proof (cases rule: path_cases [where v = v])
    case (c4 t4)
    then show ?thesis using ok
      by (simp add: defs pml4_stage [OF E ok c4(1)] stage_simps [OF c4(1)] refined_error)
  next
    case (c3 t4 t3)
    then show ?thesis using ok
      by (simp add: defs pml4_stage [OF E ok c3(1)] stage_simps [OF c3(1)] stage_simps [OF c3(3)]
          put_simps refined_error refined_put [OF ok c3(3)] ltable_levels huge_bits)
  next
    case (c2 t4 t3 t2)
    then show ?thesis using ok
      by (simp add: defs pml4_stage [OF E ok c2(1)] stage_simps [OF c2(1)] stage_simps [OF c2(3)] refined_error)
  next
    case (c1 t4 t3 t2 t1)
    then show ?thesis using ok
      by (simp add: defs pml4_stage [OF E ok c1(1)] stage_simps [OF c1(1)] stage_simps [OF c1(3)] refined_error)
  qed
qed (use ok in \<open>auto simp: map_1g_def a_map_def vmap_dom refined_error\<close>)

lemma unmap_refines:
  assumes E: "ext_ok E" and ok: "vs_ok OFFSET (v_tables s) (vs_root raw)"
  shows "refined OFFSET (vs_root raw) s (flush_page s v) (unmap dbg E OFFSET s raw v)
    (a_unmap v (vmap_of OFFSET (v_tables s) (vs_root raw)))"
proof (cases "is_canonical v")
  case v: True
  note defs = unmap_def v vaddr_indices_eq Table_index_simps entry_tests entry_addrs [OF E] vmap_at [OF v] a_unmap_def
    entry_invalid_defs
  from ok show ?thesis
  proof (cases rule: path_cases [where v = v])
    case (c4 t4)
    then show ?thesis using ok
      by (simp add: defs pml4_stage [OF E ok c4(1)] stage_simps [OF c4(1)] refined_error)
  next
    case (c3 t4 t3)
    then show ?thesis using ok
      by (simp add: defs pml4_stage [OF E ok c3(1)] stage_simps [OF c3(1)] stage_simps [OF c3(3)]
          put_simps refined_error refined_put [OF ok c3(3)] ltable_levels)
  next
    case (c2 t4 t3 t2)
    then show ?thesis using ok
      by (simp add: defs pml4_stage [OF E ok c2(1)] stage_simps [OF c2(1)] stage_simps [OF c2(3)] stage_simps [OF c2(6)]
          put_simps refined_error refined_put [OF ok c2(6)] ltable_levels)
  next
    case (c1 t4 t3 t2 t1)
    then show ?thesis using ok
      by (simp add: defs pml4_stage [OF E ok c1(1)] stage_simps [OF c1(1)] stage_simps [OF c1(3)] stage_simps [OF c1(6)]
          stage_simps [OF c1(9)] put_simps refined_error refined_put [OF ok c1(9)] ltable_levels)
  qed
qed (use ok in \<open>simp add: unmap_def a_unmap_def vmap_of_def refined_error\<close>)

lemma refined_install:
  assumes "vs_ok OFFSET (v_tables s) rt" "stage OFFSET (v_tables s) rt v (Suc n) p t" "is_canonical v"
    "\<not> ltable (Suc n) (t ! vindex (Suc n) v)" "ltable (Suc n) e" "e AND ADDR_MASK = pa" "fresh_table OFFSET (v_tables s) rt pa"
    "a = (Inr x, a_update (Suc n) v (n, 0) (vmap_of OFFSET (v_tables s) rt))"
  shows "refined OFFSET rt s s (Ret (Inr x, s\<lparr>v_tables := set_entry OFFSET (v_tables s) v (Suc n) p t e\<rparr>)) a"
  using vmap_install [OF assms(1-7)] assms(8) by (simp add: refined_def)

lemma small_aligned: "is_aligned Small pa \<longleftrightarrow> pa AND mask 12 = 0"
  by (simp add: is_aligned_def align_mask_def FrameSize_bytes_def mask_numeral)

lemma new_table_entries:
  assumes "pa < 0x10000000000000" "is_aligned Small pa"
  shows "ltable 4 (Pml4e_new_table pa)" "Pml4e_new_table pa AND ADDR_MASK = pa"
    "ltable 3 (Pdpte_new_table pa)" "Pdpte_new_table pa AND ADDR_MASK = pa"
    "ltable 2 (Pde_new_table pa)" "Pde_new_table pa AND ADDR_MASK = pa"
  using table_entry [of pa] assms
  by (simp_all add: small_aligned ltable_levels Pml4e_new_table_def Pdpte_new_table_def Pde_new_table_def)

lemma install_table_refines:
  assumes E: "ext_ok E" and ok: "vs_ok OFFSET (v_tables s) (vs_root raw)"
    and fresh: "fresh_table OFFSET (v_tables s) (vs_root raw) pa"
  shows "refined OFFSET (vs_root raw) s s (install_table dbg E OFFSET s raw v level pa)
    (a_install v level pa (vmap_of OFFSET (v_tables s) (vs_root raw)))"
proof (cases "is_canonical v \<and> is_aligned Small pa \<and> level \<in> {1, 2, 3}")
  case True
  then have v: "is_canonical v" "is_aligned Small pa" and level: "level = 1 \<or> level = 2 \<or> level = 3" by simp_all
  have pa: "pa < 0x10000000000000" using fresh by (simp add: fresh_table_def)
  note new = new_table_entries [OF pa v(2)]
  note defs = install_table_def v vaddr_indices_eq Table_index_simps entry_tests entry_addrs [OF E] vmap_at [OF v(1)]
    a_install_def a_enter_def vmap_dom [OF ok]
  from ok show ?thesis
  proof (cases rule: path_cases [where v = v])
    case (c4 t4)
    note st = refined_install [OF ok, where n = 3, simplified, OF c4(1) v(1) _ new(1,2) fresh refl, of "()"]
    from level c4 show ?thesis using ok st
      by (elim disjE) (simp_all add: defs pml4_stage [OF E ok c4(1)] stage_simps [OF c4(1)] put_simps refined_error ltable_levels)
  next
    case (c3 t4 t3)
    note st = refined_install [OF ok, where n = 2, simplified, OF c3(3) v(1) _ new(3,4) fresh refl, of "()"]
    from level c3 show ?thesis using ok st
      by (elim disjE) (simp_all add: defs pml4_stage [OF E ok c3(1)] stage_simps [OF c3(1)] stage_simps [OF c3(3)]
          put_simps refined_error ltable_levels)
  next
    case (c2 t4 t3 t2)
    note st = refined_install [OF ok, where n = "Suc 0", folded numeral_2_eq_2, OF c2(6) v(1) _ new(5,6) fresh refl, of "()"]
    from level c2 show ?thesis using ok st
      by (elim disjE) (simp_all add: defs pml4_stage [OF E ok c2(1)] stage_simps [OF c2(1)] stage_simps [OF c2(3)]
          stage_simps [OF c2(6)] put_simps refined_error ltable_levels)
  next
    case (c1 t4 t3 t2 t1)
    from level c1 show ?thesis using ok
      by (elim disjE) (simp_all add: defs pml4_stage [OF E ok c1(1)] stage_simps [OF c1(1)] stage_simps [OF c1(3)]
          stage_simps [OF c1(6)] refined_error)
  qed
qed (use ok in \<open>auto simp: install_table_def a_install_def vmap_dom refined_error vaddr_indices_eq\<close>)

lemma map_frame_refines:
  assumes E: "ext_ok E" and ok: "vs_ok OFFSET (v_tables s) (vs_root raw)" and pa: "paddr fcap < 0x10000000000000"
  shows "refined OFFSET (vs_root raw) s (flush_page s v) (map_frame dbg E OFFSET s raw v fcap user)
    (a_map E (FrameCap_size fcap) v (paddr fcap) (vm_attributes E fcap user) (vmap_of OFFSET (v_tables s) (vs_root raw)))"
proof -
  have "CapRef_paddr E fcap = Ret (paddr fcap)" using pa by (simp add: CapRef_paddr_Ret [OF E])
  then show ?thesis
    by (cases "FrameCap_size fcap")
       (simp_all add: map_frame_def map_4k_refines [OF E ok] map_2m_refines [OF E ok] map_1g_refines [OF E ok])
qed

section \<open>The translation buffer\<close>

text \<open>
  The translation buffer is coherent when everything it caches is a mapped page of the address
  space. The whole region of an address has the same translation, so that one \<open>invlpg\<close> is
  enough for an operation that changes the translation of the region.
\<close>

definition tlb_ok :: "u64 \<Rightarrow> u64 \<Rightarrow> vspace_st \<Rightarrow> bool" where
  "tlb_ok OFFSET rt s \<longleftrightarrow> (\<forall>w r. v_tlb s w = Some r \<longrightarrow> vmap_of OFFSET (v_tables s) rt w = Some r \<and> bit (snd r) 0)"

lemma vmap_region:
  assumes ok: "vs_ok OFFSET m rt" and v: "vmap_of OFFSET m rt v = Some (l, e)"
    and w: "is_canonical w" "drop_bit (level_shift l) w = drop_bit (level_shift l) v"
  shows "vmap_of OFFSET m rt w = Some (l, e)"
proof -
  have c: "is_canonical v" and t: "tr OFFSET m v 4 rt = Some (l, e)"
    using v by (auto simp: vmap_of_def split: if_splits)
  from tr_path [OF t on_path.top] obtain q u where
    q: "on_path OFFSET m rt v l q" "m (q + OFFSET) = Some u" "e = u ! vindex l v" "\<not> ltable l e" by blast
  have l: "1 \<le> l" "l \<le> 4" using on_path_range [OF q(1)] by simp_all
  have r: "same_region l v w" using same_region_canonical [OF c w(1) l] w(2) by simp
  then have "on_path OFFSET m rt w l q" by (intro on_path_cong [OF q(1)]) (simp add: same_region_def)
  from on_path_tr [OF this] q(2,3,4) r l have "tr OFFSET m w 4 rt = Some (l, e)"
    by (cases l) (auto simp: Let_def same_region_def)
  with w(1) show ?thesis by (simp add: vmap_of_def)
qed

lemma tlb_ok_update:
  assumes ok: "vs_ok OFFSET (v_tables s) rt" and tlb: "tlb_ok OFFSET rt s"
    and v: "vmap_of OFFSET (v_tables s) rt v = Some (l, e)"
    and new: "vmap_of OFFSET (v_tables s') rt = a_update l v r (vmap_of OFFSET (v_tables s) rt)"
    and f: "v_tlb s' = v_tlb (flush_page s v) \<or> \<not> bit e 0 \<and> v_tlb s' = v_tlb s"
  shows "tlb_ok OFFSET rt s'"
  unfolding tlb_ok_def
proof (intro allI impI)
  fix w x assume x: "v_tlb s' w = Some x"
  then have "v_tlb s w = Some x" using f
    by (auto simp: flush_page_def split: option.splits prod.splits if_splits)
  then have old: "vmap_of OFFSET (v_tables s) rt w = Some x" "bit (snd x) 0"
    using tlb unfolding tlb_ok_def by blast+
  have "\<not> (is_canonical w \<and> drop_bit (level_shift l) w = drop_bit (level_shift l) v)"
  proof
    assume w: "is_canonical w \<and> drop_bit (level_shift l) w = drop_bit (level_shift l) v"
    with vmap_region [OF ok v] old(1) have "x = (l, e)" by simp
    with w f x old(2) show False by (auto simp: flush_page_def split: option.splits if_splits)
  qed
  with old new show "vmap_of OFFSET (v_tables s') rt w = Some x \<and> bit (snd x) 0" by (auto simp: a_update_def)
qed

lemma tlb_ok_enter:
  assumes ok: "vs_ok OFFSET (v_tables s) rt" and tlb: "tlb_ok OFFSET rt s"
    and r: "refined OFFSET rt s f (Ret (res, s')) (a_enter l v x (vmap_of OFFSET (v_tables s) rt))"
    and f: "f = flush_page s v \<or> f = s"
  shows "tlb_ok OFFSET rt s'"
proof (cases res)
  case (Inl e)
  with r tlb show ?thesis by (auto simp: refined_def)
next
  case (Inr y)
  with r have new: "a_enter l v x (vmap_of OFFSET (v_tables s) rt) = (Inr y, vmap_of OFFSET (v_tables s') rt)"
    "v_tlb s' = v_tlb f" by (auto simp: refined_def)
  then obtain e where "vmap_of OFFSET (v_tables s) rt v = Some (l, e)" "\<not> bit e 0"
    "vmap_of OFFSET (v_tables s') rt = a_update l v x (vmap_of OFFSET (v_tables s) rt)"
    by (auto simp: a_enter_def split: option.splits if_splits)
  with tlb_ok_update [OF ok tlb] new(2) f show ?thesis by metis
qed

lemma tlb_ok_error:
  "tlb_ok OFFSET rt s \<Longrightarrow> refined OFFSET rt s f (Ret (res, s')) (Inl e, A) \<Longrightarrow> tlb_ok OFFSET rt s'"
  by (auto simp: refined_def)

lemma tlb_ok_map:
  assumes ok: "vs_ok OFFSET (v_tables s) rt" and tlb: "tlb_ok OFFSET rt s"
    and r: "refined OFFSET rt s (flush_page s v) (Ret (res, s')) (a_map E sz v pa attr (vmap_of OFFSET (v_tables s) rt))"
  shows "tlb_ok OFFSET rt s'"
proof -
  let ?A = "vmap_of OFFSET (v_tables s) rt"
  have "(\<exists>e. a_map E sz v pa attr ?A = (Inl e, ?A)) \<or>
      a_map E sz v pa attr ?A = a_enter (size_level sz) v (size_level sz, leaf E sz pa attr) ?A"
    by (simp add: a_map_def)
  then consider e where "a_map E sz v pa attr ?A = (Inl e, ?A)"
    | "a_map E sz v pa attr ?A = a_enter (size_level sz) v (size_level sz, leaf E sz pa attr) ?A" by blast
  then show ?thesis
  proof cases
    case 1
    from r [unfolded 1] show ?thesis by (rule tlb_ok_error [OF tlb])
  next
    case 2
    from r [unfolded 2] show ?thesis by (rule tlb_ok_enter [OF ok tlb]) simp
  qed
qed

lemma tlb_ok_install:
  assumes ok: "vs_ok OFFSET (v_tables s) rt" and tlb: "tlb_ok OFFSET rt s"
    and r: "refined OFFSET rt s s (Ret (res, s')) (a_install v level pa (vmap_of OFFSET (v_tables s) rt))"
  shows "tlb_ok OFFSET rt s'"
proof -
  let ?A = "vmap_of OFFSET (v_tables s) rt"
  have "(\<exists>e. a_install v level pa ?A = (Inl e, ?A)) \<or> (\<exists>l x. a_install v level pa ?A = a_enter l v x ?A)"
    unfolding a_install_def by (simp split: if_split) blast
  then consider e where "a_install v level pa ?A = (Inl e, ?A)"
    | l x where "a_install v level pa ?A = a_enter l v x ?A" by blast
  then show ?thesis
  proof cases
    case 1
    from r [unfolded 1] show ?thesis by (rule tlb_ok_error [OF tlb])
  next
    case 2
    from r [unfolded 2] show ?thesis by (rule tlb_ok_enter [OF ok tlb]) simp
  qed
qed

lemma tlb_ok_unmap:
  assumes ok: "vs_ok OFFSET (v_tables s) rt" and tlb: "tlb_ok OFFSET rt s"
    and r: "refined OFFSET rt s (flush_page s v) (Ret (res, s')) (a_unmap v (vmap_of OFFSET (v_tables s) rt))"
  shows "tlb_ok OFFSET rt s'"
proof (cases res)
  case (Inl e)
  with r tlb show ?thesis by (auto simp: refined_def)
next
  case (Inr y)
  with r have new: "a_unmap v (vmap_of OFFSET (v_tables s) rt) = (Inr y, vmap_of OFFSET (v_tables s') rt)"
    "v_tlb s' = v_tlb (flush_page s v)" by (auto simp: refined_def)
  then obtain l e where "vmap_of OFFSET (v_tables s) rt v = Some (l, e)"
    "vmap_of OFFSET (v_tables s') rt = a_update l v (l, 0) (vmap_of OFFSET (v_tables s) rt)"
    by (auto simp: a_unmap_def split: option.splits if_splits)
  with tlb_ok_update [OF ok tlb] new(2) show ?thesis by metis
qed

section \<open>Sequences of operations\<close>

text \<open>
  An address space over time: kernel operations, changes of memory that no walk visits, and
  the processor, which fills its translation buffer from the tables and drops entries at will.
\<close>

inductive vs_step :: "bool \<Rightarrow> ext \<Rightarrow> u64 \<Rightarrow> CapRaw \<Rightarrow> vspace_st \<Rightarrow> vspace_st \<Rightarrow> bool" for dbg E OFFSET raw where
  map_frame: "paddr fcap < 0x10000000000000 \<Longrightarrow> map_frame dbg E OFFSET s raw v fcap user = Ret (r, s') \<Longrightarrow>
    vs_step dbg E OFFSET raw s s'"
| map_4k: "map_4k dbg E OFFSET s raw v pa attr = Ret (r, s') \<Longrightarrow> vs_step dbg E OFFSET raw s s'"
| map_2m: "map_2m dbg E OFFSET s raw v pa attr = Ret (r, s') \<Longrightarrow> vs_step dbg E OFFSET raw s s'"
| map_1g: "map_1g dbg E OFFSET s raw v pa attr = Ret (r, s') \<Longrightarrow> vs_step dbg E OFFSET raw s s'"
| unmap: "unmap dbg E OFFSET s raw v = Ret (r', s') \<Longrightarrow> vs_step dbg E OFFSET raw s s'"
| install: "fresh_table OFFSET (v_tables s) (vs_root raw) pa \<Longrightarrow>
    install_table dbg E OFFSET s raw v level pa = Ret (r, s') \<Longrightarrow> vs_step dbg E OFFSET raw s s'"
| other: "(\<And>w l p. on_path OFFSET (v_tables s) (vs_root raw) w l p \<Longrightarrow> p + OFFSET \<noteq> q) \<Longrightarrow>
    vs_step dbg E OFFSET raw s (s\<lparr>v_tables := (v_tables s)(q := x)\<rparr>)"
| fill: "vmap_of OFFSET (v_tables s) (vs_root raw) w = Some r \<Longrightarrow> bit (snd r) 0 \<Longrightarrow>
    vs_step dbg E OFFSET raw s (s\<lparr>v_tlb := (v_tlb s)(w \<mapsto> r)\<rparr>)"
| evict: "vs_step dbg E OFFSET raw s (s\<lparr>v_tlb := v_tlb s |` K\<rparr>)"

lemma agree_path:
  assumes agree: "\<And>w l p. on_path OFFSET m rt w l p \<Longrightarrow> m' (p + OFFSET) = m (p + OFFSET)"
  shows "on_path OFFSET m' rt w l p \<longleftrightarrow> on_path OFFSET m rt w l p"
proof
  assume "on_path OFFSET m' rt w l p"
  then show "on_path OFFSET m rt w l p"
  proof (induction rule: on_path.induct)
    case (down l p t)
    with agree [OF down.IH] on_path.down [where t = t, OF down.IH] show ?case by simp
  qed (rule on_path.top)
next
  assume "on_path OFFSET m rt w l p"
  then show "on_path OFFSET m' rt w l p"
  proof (induction rule: on_path.induct)
    case (down l p t)
    with agree [OF down.hyps(1)] on_path.down [where t = t and m = m', OF down.IH] show ?case by simp
  qed (rule on_path.top)
qed

lemma agree_tr:
  assumes ok: "vs_ok OFFSET m rt"
    and agree: "\<And>w l p. on_path OFFSET m rt w l p \<Longrightarrow> m' (p + OFFSET) = m (p + OFFSET)"
  shows "vmap_of OFFSET m' rt = vmap_of OFFSET m rt" "vs_ok OFFSET m' rt"
proof -
  have "tr OFFSET m' w 4 rt = tr OFFSET m w 4 rt" for w
  proof -
    obtain k e q u where k: "tr OFFSET m w 4 rt = Some (k, e)" "on_path OFFSET m rt w k q" "m (q + OFFSET) = Some u"
      "e = u ! vindex k w" "\<not> ltable k e" by (rule trE [OF ok])
    obtain n where n: "k = Suc n" using on_path_range [OF k(2)] by (cases k) auto
    have "tr OFFSET m' w 4 rt = tr OFFSET m' w k q"
      using agree_path [where m = m and m' = m', OF agree] k(2) by (intro on_path_tr) simp
    with k agree [OF k(2)] n show ?thesis by (simp add: Let_def)
  qed
  then show "vmap_of OFFSET m' rt = vmap_of OFFSET m rt" by (intro ext) (simp add: vmap_of_def)
  have "(\<exists>t. m' (p + OFFSET) = Some t \<and> length t = ENTRIES_PER_TABLE)" if "on_path OFFSET m rt v l p" for v l p
    using agree [OF that] ok that unfolding vs_ok_def by metis
  then show "vs_ok OFFSET m' rt" using ok agree_path [where m = m and m' = m', OF agree] by (simp add: vs_ok_def)
qed

lemma vs_step_inv:
  assumes E: "ext_ok E" and step: "vs_step dbg E OFFSET raw s s'"
    and ok: "vs_ok OFFSET (v_tables s) (vs_root raw)" and tlb: "tlb_ok OFFSET (vs_root raw) s"
  shows "vs_ok OFFSET (v_tables s') (vs_root raw) \<and> tlb_ok OFFSET (vs_root raw) s'"
proof -
  have okU: "vs_ok OFFSET (v_tables s') (vs_root raw)"
    if "refined OFFSET (vs_root raw) s f (Ret (r, s')) a" for f and r :: "VSpaceError + u64 \<times> FrameSize" and a
    using that by (auto simp: refined_def)
  have okM: "vs_ok OFFSET (v_tables s') (vs_root raw)"
    if "refined OFFSET (vs_root raw) s f (Ret (r, s')) a" for f and r :: "VSpaceError + unit" and a
    using that by (auto simp: refined_def)
  from step show ?thesis
  proof cases
    case (map_frame fcap v user r)
    note r = map_frame_refines [OF E ok map_frame(1), of v dbg user, unfolded map_frame(2)]
    from okM [OF r] tlb_ok_map [OF ok tlb r] show ?thesis ..
  next
    case (map_4k v pa attr r)
    note r = map_4k_refines [OF E ok, of v dbg pa attr, unfolded map_4k]
    from okM [OF r] tlb_ok_map [OF ok tlb r] show ?thesis ..
  next
    case (map_2m v pa attr r)
    note r = map_2m_refines [OF E ok, of v dbg pa attr, unfolded map_2m]
    from okM [OF r] tlb_ok_map [OF ok tlb r] show ?thesis ..
  next
    case (map_1g v pa attr r)
    note r = map_1g_refines [OF E ok, of v dbg pa attr, unfolded map_1g]
    from okM [OF r] tlb_ok_map [OF ok tlb r] show ?thesis ..
  next
    case (unmap v r)
    note r = unmap_refines [OF E ok, of v dbg, unfolded unmap]
    from okU [OF r] tlb_ok_unmap [OF ok tlb r] show ?thesis ..
  next
    case (install pa v level r)
    note r = install_table_refines [OF E ok install(1), of dbg v level, unfolded install(2)]
    from okM [OF r] tlb_ok_install [OF ok tlb r] show ?thesis ..
  next
    case (other q x)
    have agree: "((v_tables s)(q := x)) (p + OFFSET) = v_tables s (p + OFFSET)"
      if "on_path OFFSET (v_tables s) (vs_root raw) w l p" for w l p using other(2) [OF that] by simp
    have "vmap_of OFFSET ((v_tables s)(q := x)) (vs_root raw) = vmap_of OFFSET (v_tables s) (vs_root raw)"
      "vs_ok OFFSET ((v_tables s)(q := x)) (vs_root raw)" by (rule agree_tr [OF ok], erule agree)+
    then show ?thesis using tlb unfolding other(1) tlb_ok_def by (simp del: fun_upd_apply)
  next
    case (fill w r)
    with ok tlb show ?thesis by (auto simp: tlb_ok_def)
  next
    case (evict K)
    with ok tlb show ?thesis by (auto simp: tlb_ok_def restrict_map_def)
  qed
qed

lemma Table_new_entry: "Table_new ! vindex l v = 0"
  using vindex_bound [of l v] by (simp add: Table_new_def ENTRIES_PER_TABLE_def)

lemma on_path_new:
  "on_path OFFSET m rt v l p \<Longrightarrow> m (rt + OFFSET) = Some Table_new \<Longrightarrow> l = 4 \<and> p = rt"
proof (induction rule: on_path.induct)
  case (down l p t)
  then show ?case by (auto simp: Table_new_entry ltable_def)
qed simp

lemma vs_ok_new:
  assumes "unat rt + unat OFFSET < 2 ^ 64" "rt < 0x10000000000000" "m (rt + OFFSET) = Some Table_new"
  shows "vs_ok OFFSET m rt"
  using assms unfolding vs_ok_def by (auto simp: Table_new_def dest!: on_path_new)

section \<open>Properties\<close>

lemma leaf_props:
  assumes E: "ext_ok E" and pa: "pa < 0x10000000000000" "is_aligned sz pa"
  shows "leaf E sz pa attr AND ADDR_MASK = pa" "bit (leaf E sz pa attr) 0"
proof -
  have "(2 :: nat) ^ 12 dvd 2 ^ unat (FrameSize_bits sz)" by (rule le_imp_power_dvd) (cases sz; simp)
  also have "\<dots> dvd unat pa" using pa(2) by (simp add: is_aligned_dvd)
  finally have al: "pa AND mask 12 = 0" by (simp only: and_mask_dvd)
  have huge: "bit (build_flags E attr OR HUGE_PAGE) n \<longleftrightarrow> bit (build_flags E attr) n \<or> True \<and> n = 7" for n
    by (auto simp: bit_or_iff HUGE_PAGE_def bit_kbit)
  have small: "bit (build_flags E attr) n \<longleftrightarrow> bit (build_flags E attr) n \<or> False \<and> n = 7" for n by simp
  note hp = page_entry [OF E pa(1) al huge] and sp = page_entry [OF E pa(1) al small]
  show "leaf E sz pa attr AND ADDR_MASK = pa" "bit (leaf E sz pa attr) 0"
    using hp(1,2) sp(1,2)
    by (cases sz; simp add: Pdpte_new_huge_page_def Pde_new_large_page_def Pte_new_page_def Let_def)+
qed

lemma level_shift_size: "level_shift (size_level sz) = unat (FrameSize_bits sz)"
  by (cases sz) (simp_all add: level_shift_def)

lemma a_map_Inr:
  assumes "a_map E sz v pa attr A = (Inr x, A')"
  shows "is_aligned sz pa" "A' = a_update (size_level sz) v (size_level sz, leaf E sz pa attr) A" "v \<in> dom A"
  using assms by (auto simp: a_map_def a_enter_def split: if_splits option.splits prod.splits)

text \<open>
  An address space for the witnesses: physical memory is mapped in the upper half, the root
  table is at 0x1000, and its first entry leads to an empty table at 0x2000.
\<close>

definition demo_offset :: u64 where
  "demo_offset = 0xFFFF800000000000"

definition demo_space :: CapRaw where
  "demo_space = (default_with_type VSpace)\<lparr>paddr := 0x1000, arg1 := 1, rights := R_CONTROL\<rparr>"

definition demo_frame :: CapRaw where
  "demo_frame = mint_with_cache 0x40000000 Huge False WriteBack (R_READ OR R_WRITE)"

definition demo_empty :: vspace_st where
  "demo_empty = \<lparr>v_tables = [0x1000 + demo_offset \<mapsto> Table_new, 0x2000 + demo_offset \<mapsto> Table_new], v_tlb = Map.empty\<rparr>"

definition demo_vspace :: vspace_st where
  "demo_vspace = demo_empty\<lparr>v_tables :=
     (v_tables demo_empty)(0x1000 + demo_offset \<mapsto> Table_new[0 := Pml4e_new_table 0x2000])\<rparr>"

lemma demo_empty_ok:
  "vs_ok demo_offset (v_tables demo_empty) (vs_root demo_space)"
  "fresh_table demo_offset (v_tables demo_empty) (vs_root demo_space) 0x2000"
proof -
  have t: "v_tables demo_empty (vs_root demo_space + demo_offset) = Some Table_new"
    by (simp add: demo_empty_def demo_offset_def vs_root_def demo_space_def)
  then show "vs_ok demo_offset (v_tables demo_empty) (vs_root demo_space)"
    by (intro vs_ok_new) (simp_all add: demo_offset_def vs_root_def demo_space_def)
  have "\<not> on_path demo_offset (v_tables demo_empty) (vs_root demo_space) v l 0x2000" for v l
    using on_path_new [where m = "v_tables demo_empty", OF _ t, of v l "0x2000"] by (auto simp: vs_root_def demo_space_def)
  then show "fresh_table demo_offset (v_tables demo_empty) (vs_root demo_space) 0x2000"
    by (simp add: fresh_table_def) (simp add: demo_empty_def demo_offset_def)
qed

lemma demo_vspace_ok:
  "vs_ok demo_offset (v_tables demo_vspace) (vs_root demo_space)"
  "vmap_of demo_offset (v_tables demo_vspace) (vs_root demo_space) 0 = Some (3, 0)"
proof -
  let ?m = "v_tables demo_empty"
  have idx: "vindex 4 0 = 0" by (simp add: vindex_def field_get_def)
  have t: "?m (0x1000 + demo_offset) = Some Table_new" by (simp add: demo_empty_def demo_offset_def)
  have rt: "vs_root demo_space = 0x1000" by (simp add: vs_root_def demo_space_def)
  have e: "v_tables demo_vspace = set_entry demo_offset ?m 0 (Suc 3) 0x1000 Table_new (Pml4e_new_table 0x2000)"
    by (simp add: demo_vspace_def set_entry_def idx)
  obtain u where "stage demo_offset ?m 0x1000 0 4 0x1000 u"
    by (rule stageI [OF demo_empty_ok(1) [unfolded rt] on_path.top])
  then have st: "stage demo_offset ?m 0x1000 0 (Suc 3) 0x1000 Table_new" using t by (auto simp: stage_def)
  have old: "\<not> ltable (Suc 3) (Table_new ! vindex (Suc 3) 0)"
    by (simp only: Table_new_entry) (simp add: ltable_def)
  have al: "is_aligned Small 0x2000" by (simp add: small_aligned mask_numeral)
  have new: "ltable (Suc 3) (Pml4e_new_table 0x2000)" "Pml4e_new_table 0x2000 AND ADDR_MASK = 0x2000"
    using new_table_entries [OF _ al] by simp_all
  have c: "is_canonical 0" by (simp add: is_canonical_def)
  note inst = vmap_install [OF demo_empty_ok(1) [unfolded rt] st c old new demo_empty_ok(2) [unfolded rt], folded e]
  from inst(2) show "vs_ok demo_offset (v_tables demo_vspace) (vs_root demo_space)" by (simp add: rt)
  from inst(1) show "vmap_of demo_offset (v_tables demo_vspace) (vs_root demo_space) 0 = Some (3, 0)"
    by (simp add: rt a_update_def c)
qed

lemma demo_frame_reads: "FrameCap_size demo_frame = Huge" "paddr demo_frame = 0x40000000"
  by (simp_all add: demo_frame_def mint_reads) (simp add: mint_with_cache_def)

lemma demo_map:
  "a_map ext_doc Huge 0 0x40000000 attr (vmap_of demo_offset (v_tables demo_vspace) (vs_root demo_space)) =
   (Inr (), a_update 3 0 (3, leaf ext_doc Huge 0x40000000 attr) (vmap_of demo_offset (v_tables demo_vspace) (vs_root demo_space)))"
  using demo_vspace_ok(2)
  by (auto simp: a_map_def a_enter_def is_aligned_def align_mask_def FrameSize_bytes_def)

text \<open>
  Claim C22. \<open>walk\<close> computes the reference translation, which follows the tables level by level:
  on well-formed tables it always returns, with the page that the address is mapped to or the
  level at which the walk ends, and it rejects exactly the addresses that are not canonical.
\<close>

theorem walk_correct:
  assumes "ext_ok E" "vs_ok OFFSET m (vs_root raw)"
  shows "walk dbg E OFFSET m raw v = Ret (case vmap_of OFFSET m (vs_root raw) v of
      None \<Rightarrow> Inl InvalidVAddr | Some r \<Rightarrow> Inr (a_walk r)) \<and>
    (vmap_of OFFSET m (vs_root raw) v \<noteq> None \<longleftrightarrow> is_canonical v)"
proof
  show "walk dbg E OFFSET m raw v = Ret (case vmap_of OFFSET m (vs_root raw) v of
      None \<Rightarrow> Inl InvalidVAddr | Some r \<Rightarrow> Inr (a_walk r))" by (rule walk_tr [OF assms])
  show "vmap_of OFFSET m (vs_root raw) v \<noteq> None \<longleftrightarrow> is_canonical v"
    using vmap_dom [OF assms(2)] unfolding domIff [symmetric] by simp
qed

theorem walk_correct_witness:
  "walk True ext_doc demo_offset (v_tables demo_vspace) demo_space 0 = Ret (Inr (NotMapped 3))"
  using walk_correct [OF ext_doc_ok demo_vspace_ok(1), of True 0] by (simp add: demo_vspace_ok(2) a_walk_def)

text \<open>
  Claim C19. \<open>map_frame\<close> implements the abstract mapping operation: on well-formed tables it
  returns, its result is determined by the translation of the address, by the alignment of
  address and frame and by the size of the frame, an error changes nothing, and after a success
  every address of the page is translated to the frame with the frame's size, every other
  address is translated as before, and the tables are well-formed again.
\<close>

theorem map_frame_correct:
  assumes E: "ext_ok E" and ok: "vs_ok OFFSET (v_tables s) (vs_root raw)" and pa: "paddr fcap < 0x10000000000000"
    and sz: "sz = FrameCap_size fcap" and A: "A = vmap_of OFFSET (v_tables s) (vs_root raw)"
  shows "\<exists>r s'. map_frame dbg E OFFSET s raw v fcap user = Ret (r, s') \<and>
    (r, vmap_of OFFSET (v_tables s') (vs_root raw)) = a_map E sz v (paddr fcap) (vm_attributes E fcap user) A \<and>
    vs_ok OFFSET (v_tables s') (vs_root raw) \<and>
    (case r of
       Inl _ \<Rightarrow> s' = s
     | Inr _ \<Rightarrow> \<forall>w. is_canonical w \<longrightarrow>
         walk dbg E OFFSET (v_tables s') raw w =
         (if drop_bit (unat (FrameSize_bits sz)) w = drop_bit (unat (FrameSize_bits sz)) v
          then Ret (Inr (MappedPage (paddr fcap) sz (of_nat (size_level sz))))
          else walk dbg E OFFSET (v_tables s) raw w))"
proof -
  from map_frame_refines [OF E ok pa, of v dbg user, folded sz A] obtain r s' where
    r: "map_frame dbg E OFFSET s raw v fcap user = Ret (r, s')"
    "a_map E sz v (paddr fcap) (vm_attributes E fcap user) A = (r, vmap_of OFFSET (v_tables s') (vs_root raw))"
    "vs_ok OFFSET (v_tables s') (vs_root raw)" "case r of Inl _ \<Rightarrow> s' = s | Inr _ \<Rightarrow> v_tlb s' = v_tlb (flush_page s v)"
    by (auto simp: refined_def)
  have "walk dbg E OFFSET (v_tables s') raw w =
      (if drop_bit (unat (FrameSize_bits sz)) w = drop_bit (unat (FrameSize_bits sz)) v
       then Ret (Inr (MappedPage (paddr fcap) sz (of_nat (size_level sz))))
       else walk dbg E OFFSET (v_tables s) raw w)" if x: "r = Inr x" and w: "is_canonical w" for x w
  proof -
    note new = a_map_Inr [OF r(2) [unfolded x]]
    have "a_walk (size_level sz, leaf E sz (paddr fcap) attr) = MappedPage (paddr fcap) sz (of_nat (size_level sz))" for attr
      using leaf_props [OF E pa new(1), of attr] by (cases sz) (simp_all add: a_walk_def)
    then show ?thesis using w
      by (simp add: walk_tr [OF E r(3)] walk_tr [OF E ok] new(2) a_update_def level_shift_size A)
  qed
  with r show ?thesis by (auto split: sum.splits)
qed

theorem map_frame_correct_witness:
  "\<exists>s'. map_frame True ext_doc demo_offset demo_vspace demo_space 0 demo_frame True = Ret (Inr (), s') \<and>
     walk True ext_doc demo_offset (v_tables s') demo_space 0x12345678 = Ret (Inr (MappedPage 0x40000000 Huge 3))"
proof -
  have pa: "paddr demo_frame < 0x10000000000000" by (simp add: demo_frame_reads)
  have c: "is_canonical 0x12345678" by (simp add: is_canonical_def)
  from map_frame_correct [OF ext_doc_ok demo_vspace_ok(1) pa refl refl, of True 0 True] c show ?thesis
    by (auto simp: demo_frame_reads demo_map)
qed

lemma map_then_unmap:
  assumes E: "ext_ok E" and ok: "vs_ok OFFSET (v_tables s) (vs_root raw)" and pa: "paddr fcap < 0x10000000000000"
    and m: "map_frame dbg E OFFSET s raw v fcap user = Ret (Inr (), s1)"
    and w: "is_canonical w" "drop_bit (unat (FrameSize_bits (FrameCap_size fcap))) w =
      drop_bit (unat (FrameSize_bits (FrameCap_size fcap))) v"
  shows "\<exists>s2. unmap dbg E OFFSET s1 raw w = Ret (Inr (paddr fcap, FrameCap_size fcap), s2) \<and>
    vs_ok OFFSET (v_tables s2) (vs_root raw) \<and>
    (\<forall>u. walk dbg E OFFSET (v_tables s2) raw u = walk dbg E OFFSET (v_tables s) raw u)"
proof -
  let ?sz = "FrameCap_size fcap"
  let ?l = "size_level ?sz"
  let ?e = "leaf E ?sz (paddr fcap) (vm_attributes E fcap user)"
  let ?A = "vmap_of OFFSET (v_tables s) (vs_root raw)"
  let ?B = "vmap_of OFFSET (v_tables s1) (vs_root raw)"
  from map_frame_refines [OF E ok pa, of v dbg user] m have
    a: "a_map E ?sz v (paddr fcap) (vm_attributes E fcap user) ?A = (Inr (), ?B)"
    and ok1: "vs_ok OFFSET (v_tables s1) (vs_root raw)" by (auto simp: refined_def)
  note new = a_map_Inr [OF a]
  from a obtain e0 where old: "?A v = Some (?l, e0)" "\<not> bit e0 0"
    by (auto simp: a_map_def a_enter_def split: if_splits option.splits prod.splits)
  have same: "drop_bit (level_shift ?l) w = drop_bit (level_shift ?l) v" using w(2) by (simp add: level_shift_size)
  have Bw: "?B w = Some (?l, ?e)" using w(1) same by (simp add: new(2) a_update_def)
  note leaf = leaf_props [OF E pa new(1), of "vm_attributes E fcap user"]
  have un: "a_unmap w ?B = (Inr (paddr fcap, ?sz), a_update ?l w (?l, 0) ?B)"
    using Bw leaf by (cases ?sz) (simp_all add: a_unmap_def)
  from unmap_refines [OF E ok1, of w dbg] obtain s2 where
    s2: "unmap dbg E OFFSET s1 raw w = Ret (Inr (paddr fcap, ?sz), s2)" "vs_ok OFFSET (v_tables s2) (vs_root raw)"
    "vmap_of OFFSET (v_tables s2) (vs_root raw) = a_update ?l w (?l, 0) ?B"
    by (auto simp: refined_def un)
  have "walk dbg E OFFSET (v_tables s2) raw u = walk dbg E OFFSET (v_tables s) raw u" for u
  proof (cases "is_canonical u \<and> drop_bit (level_shift ?l) u = drop_bit (level_shift ?l) v")
    case True
    with vmap_region [OF ok old(1)] have "?A u = Some (?l, e0)" by simp
    with True same old(2) show ?thesis
      by (simp add: walk_tr [OF E s2(2)] walk_tr [OF E ok] s2(3) a_update_def a_walk_def)
  next
    case False
    with same show ?thesis
      by (auto simp: walk_tr [OF E s2(2)] walk_tr [OF E ok] s2(3) new(2) a_update_def)
  qed
  with s2 show ?thesis by blast
qed

text \<open>
  Claim C20. \<open>unmap\<close> implements the abstract operation: it returns the frame and the size that
  the address is mapped to and makes exactly the addresses of that page unmapped, or it reports
  that the address is not mapped and changes nothing. Unmapping any address of a page just
  mapped returns the frame and restores every translation.
\<close>

theorem unmap_correct:
  assumes E: "ext_ok E" and ok: "vs_ok OFFSET (v_tables s) (vs_root raw)"
  shows "(\<exists>r s'. unmap dbg E OFFSET s raw w = Ret (r, s') \<and>
      (r, vmap_of OFFSET (v_tables s') (vs_root raw)) = a_unmap w (vmap_of OFFSET (v_tables s) (vs_root raw)) \<and>
      vs_ok OFFSET (v_tables s') (vs_root raw) \<and> (case r of Inl _ \<Rightarrow> s' = s | Inr _ \<Rightarrow> True)) \<and>
    (map_frame dbg E OFFSET s raw v fcap user = Ret (Inr (), s1) \<longrightarrow> paddr fcap < 0x10000000000000 \<longrightarrow> is_canonical w \<longrightarrow>
     drop_bit (unat (FrameSize_bits (FrameCap_size fcap))) w = drop_bit (unat (FrameSize_bits (FrameCap_size fcap))) v \<longrightarrow>
     (\<exists>s2. unmap dbg E OFFSET s1 raw w = Ret (Inr (paddr fcap, FrameCap_size fcap), s2) \<and>
       vs_ok OFFSET (v_tables s2) (vs_root raw) \<and>
       (\<forall>u. walk dbg E OFFSET (v_tables s2) raw u = walk dbg E OFFSET (v_tables s) raw u)))"
proof (intro conjI impI)
  from unmap_refines [OF E ok, of w dbg]
  show "\<exists>r s'. unmap dbg E OFFSET s raw w = Ret (r, s') \<and>
      (r, vmap_of OFFSET (v_tables s') (vs_root raw)) = a_unmap w (vmap_of OFFSET (v_tables s) (vs_root raw)) \<and>
      vs_ok OFFSET (v_tables s') (vs_root raw) \<and> (case r of Inl _ \<Rightarrow> s' = s | Inr _ \<Rightarrow> True)"
    unfolding refined_def by (fastforce split: sum.splits)
qed (rule map_then_unmap [OF E ok])

theorem unmap_correct_witness:
  "\<exists>s1 s2. map_frame False ext_doc demo_offset demo_vspace demo_space 0 demo_frame True = Ret (Inr (), s1) \<and>
     unmap False ext_doc demo_offset s1 demo_space 0x5000 = Ret (Inr (0x40000000, Huge), s2)"
proof -
  have pa: "paddr demo_frame < 0x10000000000000" by (simp add: demo_frame_reads)
  have c: "is_canonical 0x5000" by (simp add: is_canonical_def)
  from map_frame_refines [OF ext_doc_ok demo_vspace_ok(1) pa, of 0 False True]
  obtain s1 where s1: "map_frame False ext_doc demo_offset demo_vspace demo_space 0 demo_frame True = Ret (Inr (), s1)"
    by (auto simp: demo_frame_reads demo_map refined_def)
  from unmap_correct [OF ext_doc_ok demo_vspace_ok(1), of False "0x5000" 0 demo_frame True s1] s1 pa c show ?thesis
    by (auto simp: demo_frame_reads)
qed

text \<open>
  Claim C21. \<open>install_table\<close> implements the abstract operation: with a fresh table it enters the
  table exactly where the walk for the address ends one level above, keeps every mapping and
  the tree of tables, and otherwise reports the missing table or the existing entry and
  changes nothing.
\<close>

theorem install_table_correct:
  assumes E: "ext_ok E" and ok: "vs_ok OFFSET (v_tables s) (vs_root raw)"
    and fresh: "fresh_table OFFSET (v_tables s) (vs_root raw) pa"
  shows "\<exists>r s'. install_table dbg E OFFSET s raw v level pa = Ret (r, s') \<and>
    (r, vmap_of OFFSET (v_tables s') (vs_root raw)) = a_install v level pa (vmap_of OFFSET (v_tables s) (vs_root raw)) \<and>
    vs_ok OFFSET (v_tables s') (vs_root raw) \<and> (case r of Inl _ \<Rightarrow> s' = s | Inr _ \<Rightarrow> v_tlb s' = v_tlb s)"
  using install_table_refines [OF E ok fresh, of dbg v level] unfolding refined_def by (fastforce split: sum.splits)

theorem install_table_correct_witness:
  "\<exists>s'. install_table True ext_doc demo_offset demo_empty demo_space 0 3 0x2000 = Ret (Inr (), s') \<and>
     vs_ok demo_offset (v_tables s') (vs_root demo_space)"
proof -
  have "on_path demo_offset (v_tables demo_empty) (vs_root demo_space) 0 4 (vs_root demo_space)" by (rule on_path.top)
  from on_path_tr [OF this]
  have "tr demo_offset (v_tables demo_empty) 0 4 (vs_root demo_space) = Some (4, 0)"
    by (simp add: numeral_eq_Suc vs_root_def demo_space_def demo_empty_def demo_offset_def Table_new_entry ltable_def)
  then have "vmap_of demo_offset (v_tables demo_empty) (vs_root demo_space) 0 = Some (4, 0)"
    by (simp add: vmap_of_def is_canonical_def)
  moreover have "is_aligned Small 0x2000" by (simp add: small_aligned mask_numeral)
  ultimately have "fst (a_install 0 3 0x2000 (vmap_of demo_offset (v_tables demo_empty) (vs_root demo_space))) = Inr ()"
    by (simp add: a_install_def a_enter_def dom_def)
  with install_table_correct [OF ext_doc_ok demo_empty_ok, of True 0 3] show ?thesis by (metis fst_conv)
qed

text \<open>
  Claim C6. An address space over time. Start from well-formed tables, for instance a cleared
  root table, and a coherent translation buffer, and let the kernel map, unmap and install
  tables in any order, the processor fill and drop its translation buffer, and other memory
  change. Then the tables stay well-formed, every cached translation stays one that the tables
  give, and every further \<open>walk\<close>, \<open>map_frame\<close> and \<open>unmap\<close> returns, without a panic and without
  an access outside the tables.
\<close>

theorem vspace_sequences:
  assumes E: "ext_ok E" and steps: "(vs_step dbg E OFFSET raw)\<^sup>*\<^sup>* s0 s"
    and start: "vs_ok OFFSET (v_tables s0) (vs_root raw)" "tlb_ok OFFSET (vs_root raw) s0"
  shows "vs_ok OFFSET (v_tables s) (vs_root raw) \<and>
    (\<forall>w l e. v_tlb s w = Some (l, e) \<longrightarrow> walk dbg E OFFSET (v_tables s) raw w = Ret (Inr (a_walk (l, e)))) \<and>
    (\<forall>v. \<exists>r. walk dbg E OFFSET (v_tables s) raw v = Ret r) \<and>
    (\<forall>v fcap user. paddr fcap < 0x10000000000000 \<longrightarrow> (\<exists>r. map_frame dbg E OFFSET s raw v fcap user = Ret r)) \<and>
    (\<forall>v. \<exists>r. unmap dbg E OFFSET s raw v = Ret r)"
proof -
  have "vs_ok OFFSET (v_tables s) (vs_root raw) \<and> tlb_ok OFFSET (vs_root raw) s"
    using steps by induction (use start vs_step_inv [OF E] in blast)+
  then have ok: "vs_ok OFFSET (v_tables s) (vs_root raw)" and tlb: "tlb_ok OFFSET (vs_root raw) s" by simp_all
  have "walk dbg E OFFSET (v_tables s) raw w = Ret (Inr (a_walk (l, e)))" if "v_tlb s w = Some (l, e)" for w l e
  proof -
    have "vmap_of OFFSET (v_tables s) (vs_root raw) w = Some (l, e)" using tlb that unfolding tlb_ok_def by blast
    then show ?thesis by (simp add: walk_tr [OF E ok])
  qed
  moreover have "\<exists>r. walk dbg E OFFSET (v_tables s) raw v = Ret r" for v by (simp add: walk_tr [OF E ok])
  moreover have "\<exists>r. map_frame dbg E OFFSET s raw v fcap user = Ret r" if "paddr fcap < 0x10000000000000" for v fcap user
    using map_frame_refines [OF E ok that, of v dbg user] unfolding refined_def by blast
  moreover have "\<exists>r. unmap dbg E OFFSET s raw v = Ret r" for v
    using unmap_refines [OF E ok, of v dbg] unfolding refined_def by blast
  ultimately show ?thesis using ok by blast
qed

theorem vspace_sequences_witness:
  "\<exists>s r. (vs_step True ext_doc demo_offset demo_space)\<^sup>*\<^sup>* demo_vspace s \<and> s \<noteq> demo_vspace \<and>
     walk True ext_doc demo_offset (v_tables s) demo_space 0x7000 = Ret r"
proof -
  have pa: "paddr demo_frame < 0x10000000000000" by (simp add: demo_frame_reads)
  from map_frame_refines [OF ext_doc_ok demo_vspace_ok(1) pa, of 0 True True]
  obtain s1 where s1: "map_frame True ext_doc demo_offset demo_vspace demo_space 0 demo_frame True = Ret (Inr (), s1)"
    "vmap_of demo_offset (v_tables s1) (vs_root demo_space) =
     a_update 3 0 (3, leaf ext_doc Huge 0x40000000 (vm_attributes ext_doc demo_frame True))
       (vmap_of demo_offset (v_tables demo_vspace) (vs_root demo_space))"
    by (auto simp: demo_frame_reads demo_map refined_def)
  have "leaf ext_doc Huge 0x40000000 attr \<noteq> 0" for attr using huge_bits(1) [of ext_doc "0x40000000" attr] by auto
  moreover have "vmap_of demo_offset (v_tables s1) (vs_root demo_space) 0 =
      Some (3, leaf ext_doc Huge 0x40000000 (vm_attributes ext_doc demo_frame True))"
    by (simp only: s1(2)) (simp add: a_update_def is_canonical_def)
  ultimately have "s1 \<noteq> demo_vspace" using demo_vspace_ok(2) by force
  from vs_step.map_frame [OF pa s1(1)]
  have step: "(vs_step True ext_doc demo_offset demo_space)\<^sup>*\<^sup>* demo_vspace s1" by (rule r_into_rtranclp)
  have "tlb_ok demo_offset (vs_root demo_space) demo_vspace" by (simp add: tlb_ok_def demo_vspace_def demo_empty_def)
  from vspace_sequences [OF ext_doc_ok step demo_vspace_ok(1) this] step \<open>s1 \<noteq> demo_vspace\<close> show ?thesis by blast
qed

end
