(* ===== verification/Segments.thy ===== *)
theory Segments
  imports Prelude
begin

unbundle bit_operations_syntax

text \<open>
  The segment descriptors of the kernel (\<open>arch/x86_64/interrupts/gdt.rs\<close>): the global descriptor
  table and its selectors, the task state segment with the interrupt stacks, and loading them
  into the processor; also the names of the general-purpose registers. The parts of the \<open>x86_64\<close> crate the kernel uses here and in the device
  code are a record of functions; \<open>x86_crate_ok\<close> states what their documentation promises and
  \<open>x86_doc\<close> is an instance of it.
\<close>

section \<open>General-purpose registers\<close>

datatype reg = RAX | RBX | RCX | RDX | RSI | RDI | RBP | RSP
  | R8 | R9 | R10 | R11 | R12 | R13 | R14 | R15

section \<open>Descriptors\<close>

datatype Descriptor = KernelCode | KernelData | UserCode | UserData | TssSegment

fun descriptor_dpl :: "Descriptor \<Rightarrow> u16" where
  "descriptor_dpl UserCode = 3"
| "descriptor_dpl UserData = 3"
| "descriptor_dpl _ = 0"

record Selectors =
  code_selector :: u16
  data_selector :: u16
  user_code_selector :: u16
  user_data_selector :: u16
  tss_selector :: u16

text \<open>
  The \<open>x86_64\<close> crate: \<open>VirtAddr::new\<close> (\<open>None\<close> is a panic), the addition of an offset to an
  address, the append operation of a descriptor table, \<open>RFlags::from_bits\<close>, and the value that
  \<open>Star::write_raw\<close> writes to the \<open>STAR\<close> register.
\<close>

record x86_crate =
  virt_new :: "u64 \<Rightarrow> u64 option"
  virt_add :: "u64 \<Rightarrow> u64 \<Rightarrow> u64 option"
  gdt_append :: "Descriptor list \<Rightarrow> Descriptor \<Rightarrow> u16 option"
  rflags_from_bits :: "u64 \<Rightarrow> u64 option"
  star_write_raw :: "u16 \<Rightarrow> u16 \<Rightarrow> u64"

definition canonical_addr :: "u64 \<Rightarrow> bool" where
  "canonical_addr a \<longleftrightarrow> drop_bit 47 a = 0 \<or> drop_bit 47 a = 0x1FFFF"

text \<open>The number of eight-byte entries that the descriptors take, the null entry included.\<close>

definition gdt_entries :: "Descriptor list \<Rightarrow> nat" where
  "gdt_entries ds = 1 + sum_list (map (\<lambda>d. if d = TssSegment then 2 else 1) ds)"

text \<open>
  Documented behaviour: a canonical address is accepted; a sum that stays in the lower or
  in the upper half is the plain sum; a descriptor is appended to a table of eight entries behind
  the entries there are, and its selector carries its index and privilege level; flags that
  the processor defines are accepted; the selector for \<open>sysret\<close> is the highest quarter of \<open>STAR\<close>
  and the one for \<open>syscall\<close> the quarter below, the rest is zero.
\<close>

definition x86_crate_ok :: "x86_crate \<Rightarrow> bool" where
  "x86_crate_ok X \<longleftrightarrow>
     (\<forall>a. canonical_addr a \<longrightarrow> virt_new X a = Some a) \<and>
     (\<forall>a n. canonical_addr a \<and> unat a + unat n < 2 ^ 64 \<and> drop_bit 47 (a + n) = drop_bit 47 a
        \<longrightarrow> virt_add X a n = Some (a + n)) \<and>
     (\<forall>ds d. gdt_entries (ds @ [d]) \<le> 8 \<longrightarrow>
        gdt_append X ds d = Some (push_bit 3 (of_nat (gdt_entries ds)) OR descriptor_dpl d)) \<and>
     (\<forall>f. f AND NOT 0x3F7FD5 = 0 \<longrightarrow> rflags_from_bits X f = Some f) \<and>
     (\<forall>r c. star_write_raw X r c = push_bit 48 (ucast r) OR push_bit 32 (ucast c))"

definition x86_doc :: x86_crate where
  "x86_doc = \<lparr>virt_new = (\<lambda>a. if canonical_addr a then Some a else None),
     virt_add = (\<lambda>a n. if canonical_addr (a + n) \<and> unat a + unat n < 2 ^ 64 then Some (a + n) else None),
     gdt_append = (\<lambda>ds d. if gdt_entries (ds @ [d]) \<le> 8
       then Some (push_bit 3 (of_nat (gdt_entries ds)) OR descriptor_dpl d) else None),
     rflags_from_bits = (\<lambda>f. if f AND NOT 0x3F7FD5 = 0 then Some f else None),
     star_write_raw = (\<lambda>r c. push_bit 48 (ucast r) OR push_bit 32 (ucast c))\<rparr>"

fun append_all :: "x86_crate \<Rightarrow> Descriptor list \<Rightarrow> Descriptor list \<Rightarrow> (Descriptor list \<times> u16 list) outcome" where
  "append_all X ds [] = Ret (ds, [])"
| "append_all X ds (d # rest) =
     obind (expect (gdt_append X ds d)) (\<lambda>sel.
     obind (append_all X (ds @ [d]) rest) (\<lambda>(t, sels). Ret (t, sel # sels)))"

definition GDT :: "x86_crate \<Rightarrow> (Descriptor list \<times> Selectors) outcome" where
  "GDT X =
     obind (append_all X [] [KernelCode, KernelData, UserCode, UserData, TssSegment]) (\<lambda>(t, sels).
       Ret (t, \<lparr>code_selector = sels ! 0, data_selector = sels ! 1, user_code_selector = sels ! 2,
                user_data_selector = sels ! 3, tss_selector = sels ! 4\<rparr>))"

text \<open>The entry of the table that a selector points at: a descriptor, or none (the null entry, the second half of
  the task state segment, past the end).\<close>

fun descriptor_at :: "nat \<Rightarrow> Descriptor list \<Rightarrow> Descriptor option" where
  "descriptor_at i [] = None"
| "descriptor_at i (d # ds) =
     (if i = 0 then Some d
      else if d = TssSegment then (if i = 1 then None else descriptor_at (i - 2) ds)
      else descriptor_at (i - 1) ds)"

definition selected :: "Descriptor list \<Rightarrow> u16 \<Rightarrow> Descriptor option" where
  "selected ds sel = (let i = unat (drop_bit 3 sel) in if i = 0 then None else descriptor_at (i - 1) ds)"

section \<open>The task state segment\<close>

definition STACK_SIZE :: usize where "STACK_SIZE = 4096 * 2"

datatype IstIndex = DoubleFault | NonMaskableInterrupt | MachineCheck

fun IstIndex_code :: "IstIndex \<Rightarrow> nat" where
  "IstIndex_code DoubleFault = 0"
| "IstIndex_code NonMaskableInterrupt = 1"
| "IstIndex_code MachineCheck = 2"

record TaskStateSegment =
  interrupt_stack_table :: "u64 list"
  privilege_stack_table :: "u64 list"

text \<open>The addresses at which the linker places the four static stacks, in the order of the source.\<close>

record stacks =
  double_fault_stack :: u64
  nmi_stack :: u64
  machine_check_stack :: u64
  privilege_stack :: u64

definition stack_top :: "x86_crate \<Rightarrow> u64 \<Rightarrow> u64 outcome" where
  "stack_top X base = obind (expect (virt_new X base)) (\<lambda>start. expect (virt_add X start STACK_SIZE))"

definition TSS :: "x86_crate \<Rightarrow> stacks \<Rightarrow> TaskStateSegment outcome" where
  "TSS X S =
     (let tss = \<lparr>interrupt_stack_table = replicate 7 0, privilege_stack_table = replicate 3 0\<rparr> in
      obind (stack_top X (double_fault_stack S)) (\<lambda>d.
      obind (stack_top X (nmi_stack S)) (\<lambda>n.
      obind (stack_top X (machine_check_stack S)) (\<lambda>m.
      obind (stack_top X (privilege_stack S)) (\<lambda>p.
        Ret (tss\<lparr>interrupt_stack_table := (interrupt_stack_table tss)
               [IstIndex_code DoubleFault := d, IstIndex_code NonMaskableInterrupt := n,
                IstIndex_code MachineCheck := m],
             privilege_stack_table := (privilege_stack_table tss)[0 := p]\<rparr>))))))"

section \<open>Loading\<close>

record segment_regs =
  gdtr :: "Descriptor list"
  CS :: u16
  SS :: u16
  DS :: u16
  ES :: u16
  FS :: u16
  GS :: u16
  TR :: u16

text \<open>The table refers to the task state segment, whose set-up runs when the table is first used.\<close>

definition gdt_load :: "x86_crate \<Rightarrow> stacks \<Rightarrow> segment_regs outcome" where
  "gdt_load X S =
     obind (TSS X S) (\<lambda>_.
     obind (GDT X) (\<lambda>(t, sel).
       Ret \<lparr>gdtr = t, CS = code_selector sel, SS = data_selector sel, DS = data_selector sel,
            ES = data_selector sel, FS = data_selector sel, GS = data_selector sel, TR = tss_selector sel\<rparr>))"

section \<open>Lemmas\<close>

lemma x86_doc_ok: "x86_crate_ok x86_doc"
  by (simp add: x86_crate_ok_def x86_doc_def canonical_addr_def)

lemma virt_new_ok: "x86_crate_ok X \<Longrightarrow> canonical_addr a \<Longrightarrow> expect (virt_new X a) = Ret a"
  by (simp add: x86_crate_ok_def)

text \<open>The table that the kernel builds: five descriptors and their selectors.\<close>

lemma GDT_Ret:
  assumes "x86_crate_ok X"
  shows "GDT X = Ret ([KernelCode, KernelData, UserCode, UserData, TssSegment],
    \<lparr>code_selector = 0x08, data_selector = 0x10, user_code_selector = 0x1B, user_data_selector = 0x23,
     tss_selector = 0x28\<rparr>)"
proof -
  have ap: "gdt_append X ds d = Some (push_bit 3 (of_nat (gdt_entries ds)) OR descriptor_dpl d)"
    if "gdt_entries (ds @ [d]) \<le> 8" for ds d
    using assms that by (simp add: x86_crate_ok_def)
  show ?thesis by (simp add: GDT_def ap gdt_entries_def)
qed

lemma stack_top_Ret:
  assumes "x86_crate_ok X" "canonical_addr b" "unat b + 8192 < 2 ^ 64" "drop_bit 47 (b + 8192) = drop_bit 47 b"
  shows "stack_top X b = Ret (b + 8192)"
proof -
  have "virt_add X b 8192 = Some (b + 8192)"
    using assms by (auto simp: x86_crate_ok_def)
  then show ?thesis using virt_new_ok [OF assms(1,2)] by (simp add: stack_top_def STACK_SIZE_def)
qed

end
