(* ===== verification/Tlb.thy ===== *)
theory Tlb
  imports Segments
begin

unbundle bit_operations_syntax

text \<open>
  The operations on the translation buffer and the barriers (\<open>arch/x86_64/vspace/tlb.rs\<close>) that
  no other part of the kernel calls yet; \<open>flush_page\<close>, which mapping and unmapping use, is
  modelled with the address spaces. Each is a list of instructions run by an interpreter of the
  processor's documented behaviour: the buffer caches translations by address-space identifier and
  page, global translations belong to all identifiers.

  Shown: which translations each operation drops, and that the barrier restores the registers
  it uses.
\<close>

section \<open>The processor\<close>

record cached =
  c_pcid :: u16
  c_page :: u64
  c_global :: bool

record mmu =
  gprs :: "reg \<Rightarrow> u64"
  mmu_stack :: "u64 list"
  cr3 :: u64
  cr4 :: u64
  buffer :: "cached list"

text \<open>\<open>tmp\<close> is the scratch register of the assembly templates.\<close>

datatype tinsn =
    Mov_from_cr3 reg | Mov_to_cr3 reg | Mov_from_cr4 reg | Mov_to_cr4 reg
  | And_imm reg u64 | Or_imm reg u64 | Invpcid u64 u64 u64 | Mfence
  | TPush reg | TPop reg | Xor_self reg | Cpuid

definition current_pcid :: "u64 \<Rightarrow> u64 \<Rightarrow> u16" where
  "current_pcid c3 c4 = (if bit c4 17 then ucast (c3 AND 0xFFF) else 0)"

text \<open>
  Type 0 of \<open>invpcid\<close> drops the translation of one page of one identifier, type 1 those of one
  identifier, type 2 everything, type 3 everything that is not global.
\<close>

definition invpcid_keeps :: "u64 \<Rightarrow> u64 \<Rightarrow> u64 \<Rightarrow> cached \<Rightarrow> bool" where
  "invpcid_keeps ty pcid addr c =
     (if ty = 0 then c_global c \<or> c_pcid c \<noteq> ucast pcid \<or> c_page c \<noteq> drop_bit 12 addr
      else if ty = 1 then c_global c \<or> c_pcid c \<noteq> ucast pcid
      else if ty = 2 then False
      else c_global c)"

text \<open>\<open>cpuid\<close> overwrites four registers; \<open>answer\<close> is what it leaves there.\<close>

fun run_tinsn :: "(reg \<Rightarrow> u64) \<Rightarrow> tinsn \<Rightarrow> mmu \<Rightarrow> mmu" where
  "run_tinsn answer (Mov_from_cr3 r) s = s\<lparr>gprs := (gprs s)(r := cr3 s)\<rparr>"
| "run_tinsn answer (Mov_to_cr3 r) s =
     s\<lparr>cr3 := gprs s r AND mask 63,
       buffer := (if bit (gprs s r) 63 then buffer s
         else filter (\<lambda>c. c_global c \<or> c_pcid c \<noteq> current_pcid (gprs s r) (cr4 s)) (buffer s))\<rparr>"
| "run_tinsn answer (Mov_from_cr4 r) s = s\<lparr>gprs := (gprs s)(r := cr4 s)\<rparr>"
| "run_tinsn answer (Mov_to_cr4 r) s =
     s\<lparr>cr4 := gprs s r, buffer := (if bit (cr4 s) 7 = bit (gprs s r) 7 then buffer s else [])\<rparr>"
| "run_tinsn answer (And_imm r v) s = s\<lparr>gprs := (gprs s)(r := gprs s r AND v)\<rparr>"
| "run_tinsn answer (Or_imm r v) s = s\<lparr>gprs := (gprs s)(r := gprs s r OR v)\<rparr>"
| "run_tinsn answer (Invpcid ty pcid addr) s = s\<lparr>buffer := filter (invpcid_keeps ty pcid addr) (buffer s)\<rparr>"
| "run_tinsn answer Mfence s = s"
| "run_tinsn answer (TPush r) s = s\<lparr>mmu_stack := gprs s r # mmu_stack s\<rparr>"
| "run_tinsn answer (TPop r) s = s\<lparr>gprs := (gprs s)(r := hd (mmu_stack s)), mmu_stack := tl (mmu_stack s)\<rparr>"
| "run_tinsn answer (Xor_self r) s = s\<lparr>gprs := (gprs s)(r := 0)\<rparr>"
| "run_tinsn answer Cpuid s = s\<lparr>gprs := (\<lambda>r. if r \<in> {RAX, RBX, RCX, RDX} then answer r else gprs s r)\<rparr>"

definition run_tinsns :: "(reg \<Rightarrow> u64) \<Rightarrow> tinsn list \<Rightarrow> mmu \<Rightarrow> mmu" where
  "run_tinsns answer is s = fold (run_tinsn answer) is s"

section \<open>The operations\<close>

definition flush_all :: "reg \<Rightarrow> tinsn list" where
  "flush_all tmp = [Mov_from_cr3 tmp, Mov_to_cr3 tmp]"

definition invalidate_pcid :: "u16 \<Rightarrow> tinsn list" where
  "invalidate_pcid pcid = [Invpcid 0 (ucast pcid) 0]"

definition flush_all_non_global :: "reg \<Rightarrow> tinsn list" where
  "flush_all_non_global tmp =
     [Mov_from_cr4 tmp, And_imm tmp (NOT (push_bit 7 1)), Mov_to_cr4 tmp, Or_imm tmp (push_bit 7 1), Mov_to_cr4 tmp]"

definition dsb :: "tinsn list" where
  "dsb = [Mfence]"

definition isb :: "tinsn list" where
  "isb = [TPush RAX, TPush RBX, TPush RCX, TPush RDX, Xor_self RAX, Cpuid, TPop RDX, TPop RCX, TPop RBX, TPop RAX]"

section \<open>Properties\<close>

text \<open>
  Reloading \<open>cr3\<close> drops exactly the translations of the current identifier that are not
  global. \<open>invalidate_pcid\<close> drops only the translation of page 0 of the identifier: every
  other page of it stays cached. \<open>flush_all_non_global\<close> drops everything, global
  translations included, and leaves global pages enabled. The barriers change neither the buffer
  nor any register nor the stack.
\<close>

theorem tlb_operations:
  assumes "\<not> bit (cr3 s) 63"
  shows "buffer (run_tinsns A (flush_all tmp) s) =
      filter (\<lambda>c. c_global c \<or> c_pcid c \<noteq> current_pcid (cr3 s) (cr4 s)) (buffer s) \<and>
    cr3 (run_tinsns A (flush_all tmp) s) = cr3 s \<and>
    buffer (run_tinsns A (invalidate_pcid p) s) = filter (\<lambda>c. c_global c \<or> c_pcid c \<noteq> p \<or> c_page c \<noteq> 0) (buffer s) \<and>
    buffer (run_tinsns A (flush_all_non_global tmp) s) = [] \<and>
    cr4 (run_tinsns A (flush_all_non_global tmp) s) = cr4 s OR push_bit 7 1 \<and>
    run_tinsns A dsb s = s \<and> run_tinsns A isb s = s"
proof (intro conjI)
  have c3: "cr3 s AND mask 63 = cr3 s"
  proof (rule bit_word_eqI)
    fix n assume n: "n < LENGTH(64)"
    show "bit (cr3 s AND mask 63) n \<longleftrightarrow> bit (cr3 s) n"
    proof (cases "n = 63")
      case False
      then have "n < 63" using n by simp
      then show ?thesis by (simp add: bit_simps)
    qed (use assms in \<open>simp add: bit_simps\<close>)
  qed
  show "buffer (run_tinsns A (flush_all tmp) s) =
      filter (\<lambda>c. c_global c \<or> c_pcid c \<noteq> current_pcid (cr3 s) (cr4 s)) (buffer s)"
    "cr3 (run_tinsns A (flush_all tmp) s) = cr3 s"
    using assms c3 by (simp_all add: run_tinsns_def flush_all_def)
  have "ucast (ucast p :: u64) = p" by (rule bit_word_eqI) (simp add: bit_simps)
  then have "invpcid_keeps 0 (ucast p) 0 = (\<lambda>c. c_global c \<or> c_pcid c \<noteq> p \<or> c_page c \<noteq> 0)"
    by (simp add: invpcid_keeps_def fun_eq_iff)
  then show "buffer (run_tinsns A (invalidate_pcid p) s) = filter (\<lambda>c. c_global c \<or> c_pcid c \<noteq> p \<or> c_page c \<noteq> 0) (buffer s)"
    by (simp add: run_tinsns_def invalidate_pcid_def)
  have b: "bit (128 :: u64) 7" "\<not> bit (NOT 128 :: u64) 7"
    by (simp_all add: bit_numeral_rec bit_not_iff)
  show "buffer (run_tinsns A (flush_all_non_global tmp) s) = []"
    using b by (simp add: run_tinsns_def flush_all_non_global_def bit_and_iff bit_or_iff)
  have "(cr4 s AND NOT 128) OR 128 = cr4 s OR 128"
    by (rule bit_word_eqI) (auto simp: bit_simps)
  then show "cr4 (run_tinsns A (flush_all_non_global tmp) s) = cr4 s OR push_bit 7 1"
    by (simp add: run_tinsns_def flush_all_non_global_def)
  show "run_tinsns A dsb s = s" by (simp add: run_tinsns_def dsb_def)
  show "run_tinsns A isb s = s"
    by (cases s) (auto simp: run_tinsns_def isb_def fun_eq_iff)
qed

theorem tlb_operations_witness:
  "buffer (run_tinsns (\<lambda>_. 7) (invalidate_pcid 3)
     \<lparr>gprs = (\<lambda>_. 0), mmu_stack = [], cr3 = 0x1003, cr4 = 0x20080,
       buffer = [\<lparr>c_pcid = 3, c_page = 0, c_global = False\<rparr>, \<lparr>c_pcid = 3, c_page = 5, c_global = False\<rparr>]\<rparr>) =
   [\<lparr>c_pcid = 3, c_page = 5, c_global = False\<rparr>]"
proof -
  let ?s = "\<lparr>gprs = (\<lambda>_. 0), mmu_stack = [], cr3 = 0x1003, cr4 = 0x20080,
       buffer = [\<lparr>c_pcid = 3, c_page = 0, c_global = False\<rparr>, \<lparr>c_pcid = 3, c_page = 5, c_global = False\<rparr>]\<rparr>"
  have "\<not> bit (cr3 ?s) 63" by (simp add: bit_numeral_rec)
  from tlb_operations [OF this, of "\<lambda>_. 7" RAX 3] show ?thesis by simp
qed

end
