(* ===== verification/Cancel.thy ===== *)
theory Cancel
  imports Ipc
begin

text \<open>
  The two operations that cancel many threads at once, \<open>cancel_all_ipc\<close> and
  \<open>cancel_badged_sends\<close>: their loops end, the threads they take out are restarted and
  handed to the scheduler of the current core, and the endpoint invariant holds afterwards.
\<close>

section \<open>Restarting a thread\<close>

text \<open>The executor of the current core, when there is a scheduler.\<close>

definition core_exec :: "u32 \<Rightarrow> 'h kernel \<Rightarrow> 'h Executor option" where
  "core_exec ebx k =
     (case OnceLock_get (k_sched k) of
        None \<Rightarrow> None
      | Some pc \<Rightarrow> (case PerCore_get_mut ebx pc of Ret ex \<Rightarrow> Some ex | _ \<Rightarrow> None))"

definition restart_state :: "'h kernel \<Rightarrow> ThreadState" where
  "restart_state k = (if OnceLock_get (k_sched k) = None then Restart else Inactive)"

definition restarted :: "ThreadState \<Rightarrow> Tcb \<Rightarrow> Tcb" where
  "restarted st t = t\<lparr>blocking_object := None, tstate := st\<rparr>"

lemma restarted_eq: "t\<lparr>tstate := st, blocking_object := None\<rparr> = restarted st t"
  by (cases t) (simp add: restarted_def)

definition thread_deadline :: "(ptr \<rightharpoonup> SchedContext) \<Rightarrow> Tcb \<Rightarrow> u64" where
  "thread_deadline c t =
     (case sched_context t of
        None \<Rightarrow> - 1
      | Some sc \<Rightarrow> (case c sc of Some s \<Rightarrow> deadline s | None \<Rightarrow> 0))"

definition push_ready :: "'h heap_ops \<Rightarrow> Entry \<Rightarrow> 'h Executor \<Rightarrow> 'h Executor" where
  "push_ready H e ex =
     (case h_push H MAX_TCB_PER_CORE e (ready ex) of Some h \<Rightarrow> ex\<lparr>ready := h\<rparr> | None \<Rightarrow> ex)"

definition sc_valid :: "(ptr \<rightharpoonup> SchedContext) \<Rightarrow> Tcb \<Rightarrow> bool" where
  "sc_valid c t \<longleftrightarrow> (\<forall>sc. sched_context t = Some sc \<longrightarrow> sc \<in> dom c)"

lemma enqueue_inactive:
  assumes "m x = Some t" "tstate t = Inactive" "sc_valid c t"
  shows "\<exists>r. enqueue H \<lparr>tcbs = m, scs = c, exec = ex\<rparr> x =
    Ret (r, \<lparr>tcbs = m, scs = c, exec = push_ready H (Entry (thread_deadline c t) x) ex\<rparr>)"
proof -
  have "deadline_of \<lparr>tcbs = m, scs = c, exec = ex\<rparr> x = Ret (thread_deadline c t)"
    using assms by (auto simp: deadline_of_def thread_deadline_def sc_valid_def split: option.splits)
  with assms show ?thesis
    by (simp add: enqueue_def push_ready_def split: option.splits)
qed

lemma restart_thread_Ret:
  assumes core: "core_ok ebx k" and x: "k_tcbs k x = Some t" "sc_valid (k_scs k) t"
  obtains k' where "restart_thread H ebx k x = Ret k'"
    "k_tcbs k' = (k_tcbs k)(x \<mapsto> restarted (restart_state k) t)"
    "k_eps k' = k_eps k" "k_scs k' = k_scs k" "core_ok ebx k'" "restart_state k' = restart_state k"
    "core_exec ebx k' = map_option (push_ready H (Entry (thread_deadline (k_scs k) t) x)) (core_exec ebx k)"
proof (cases "OnceLock_get (k_sched k)")
  case None
  let ?k' = "k\<lparr>k_tcbs := (k_tcbs k)(x \<mapsto> restarted Restart t)\<rparr>"
  have "restart_thread H ebx k x = Ret ?k'"
    using None x by (simp add: restart_thread_def set_state_def with_scheduler_def restarted_eq)
  then show thesis
    by (rule that) (use None core in \<open>simp_all add: restart_state_def core_exec_def core_ok_def\<close>)
next
  case (Some pc)
  with core obtain ex where ex: "PerCore_get_mut ebx pc = Ret ex" by (auto simp: core_ok_def)
  have init: "once (k_sched k) = INITIALIZED" using Some by (auto simp: OnceLock_get_def split: if_splits)
  define m where "m = (k_tcbs k)(x \<mapsto> restarted Inactive t)"
  define e where "e = Entry (thread_deadline (k_scs k) t) x"
  have t': "m x = Some (restarted Inactive t)" "tstate (restarted Inactive t) = Inactive"
    "sc_valid (k_scs k) (restarted Inactive t)"
    using x by (simp_all add: m_def restarted_def sc_valid_def)
  have "thread_deadline (k_scs k) (restarted Inactive t) = thread_deadline (k_scs k) t"
    by (simp add: thread_deadline_def restarted_def)
  with enqueue_inactive [where m = m, OF t', of H ex] obtain r where
    enq: "enqueue H \<lparr>tcbs = m, scs = k_scs k, exec = ex\<rparr> x =
      Ret (r, \<lparr>tcbs = m, scs = k_scs k, exec = push_ready H e ex\<rparr>)" by (auto simp: e_def)
  define k' where "k' = k\<lparr>k_tcbs := m, k_sched := (k_sched k)\<lparr>cell := Some (PerCore_put ebx pc (push_ready H e ex))\<rparr>\<rparr>"
  have "(k_tcbs k)(x \<mapsto> t\<lparr>tstate := Restart, blocking_object := None, tstate := Inactive\<rparr>) = m"
    by (simp add: m_def restarted_def)
  then have "restart_thread H ebx k x = Ret k'"
    using Some ex x enq
    by (cases k) (simp add: restart_thread_def set_state_def with_scheduler_def k'_def)
  moreover have get': "OnceLock_get (k_sched k') = Some (PerCore_put ebx pc (push_ready H e ex))"
    using init by (simp add: k'_def OnceLock_get_def)
  then have "core_exec ebx k' = Some (push_ready H e ex)" "core_ok ebx k'"
    by (simp_all add: core_exec_def core_ok_def put_get [OF ex])
  ultimately show thesis
    using that [of k'] Some ex get' by (simp add: restart_state_def core_exec_def k'_def m_def e_def)
qed

lemma restarted_simps [simp]:
  "regs_ok (restarted st t) = regs_ok t" "tstate (restarted st t) = st"
  "blocking_object (restarted st t) = None" "sched_context (restarted st t) = sched_context t"
  by (simp_all add: restarted_def regs_ok_def)

lemma restart_state_free [simp]: "\<not> waits (restarted (restart_state k) t)"
  by (simp add: waits_def restart_state_def)

lemma tcb_body_deadline [simp]:
  "thread_deadline c (tcb_body t) = thread_deadline c t" "sc_valid c (tcb_body t) = sc_valid c t"
  by (simp_all add: thread_deadline_def sc_valid_def tcb_body_def)

section \<open>Cancelling everything\<close>

definition entry_of :: "'h kernel \<Rightarrow> ptr \<Rightarrow> Entry" where
  "entry_of k x =
     Entry (case k_tcbs k x of Some t \<Rightarrow> thread_deadline (k_scs k) t | None \<Rightarrow> - 1) x"

lemma entry_of_cong:
  assumes "tmem_body (k_tcbs k') x = tmem_body (k_tcbs k) x" "k_scs k' = k_scs k"
  shows "entry_of k' x = entry_of k x"
proof (cases "k_tcbs k x")
  case None
  with assms(1) show ?thesis by (simp add: entry_of_def tmem_body_def)
next
  case (Some t)
  with assms(1) obtain t' where t': "k_tcbs k' x = Some t'" "tcb_body t' = tcb_body t"
    by (cases "k_tcbs k' x") (auto simp: tmem_body_def)
  have "thread_deadline (k_scs k) t' = thread_deadline (k_scs k) t"
    using tcb_body_fields(7) [OF t'(2)] by (simp add: thread_deadline_def)
  with Some t' assms(2) show ?thesis by (simp add: entry_of_def)
qed

text \<open>
  Every thread of \<open>xs\<close> was restarted and handed to the scheduler in this order; all other
  threads kept everything but their links.
\<close>

definition all_restarted :: "'h heap_ops \<Rightarrow> u32 \<Rightarrow> 'h kernel \<Rightarrow> ptr list \<Rightarrow> 'h kernel \<Rightarrow> bool" where
  "all_restarted H ebx k xs k' \<longleftrightarrow>
     (\<forall>x \<in> set xs. \<exists>t. k_tcbs k x = Some t \<and> k_tcbs k' x = Some (restarted (restart_state k) (tcb_body t))) \<and>
     (\<forall>z. z \<notin> set xs \<longrightarrow> tmem_body (k_tcbs k') z = tmem_body (k_tcbs k) z) \<and>
     k_scs k' = k_scs k \<and> core_ok ebx k' \<and> restart_state k' = restart_state k \<and>
     core_exec ebx k' = map_option (fold (\<lambda>x. push_ready H (entry_of k x)) xs) (core_exec ebx k)"

lemma all_restarted_Nil: "core_ok ebx k \<Longrightarrow> all_restarted H ebx k [] k"
  by (simp add: all_restarted_def option.map_id)

lemma all_restarted_Cons:
  assumes one: "all_restarted H ebx k [x] k1" and rest: "all_restarted H ebx k1 xs k'"
    and dist: "x \<notin> set xs" and same: "k_tcbs k' x = k_tcbs k1 x"
  shows "all_restarted H ebx k (x # xs) k'"
  unfolding all_restarted_def
proof (intro conjI ballI allI impI)
  note r = rest [unfolded all_restarted_def] and o = one [unfolded all_restarted_def, simplified]
  have frame: "tmem_body (k_tcbs k1) z = tmem_body (k_tcbs k) z" if "z \<noteq> x" for z using o that by blast
  show "\<exists>t. k_tcbs k y = Some t \<and> k_tcbs k' y = Some (restarted (restart_state k) (tcb_body t))"
    if y: "y \<in> set (x # xs)" for y
  proof (cases "y = x")
    case True
    with o same show ?thesis by simp
  next
    case False
    with y r o obtain t1 where t1: "k_tcbs k1 y = Some t1"
      "k_tcbs k' y = Some (restarted (restart_state k) (tcb_body t1))" by auto
    from tmem_body_eqD [OF frame [OF False] t1(1)] obtain t0 where
      "k_tcbs k y = Some t0" "tcb_body t1 = tcb_body t0" .
    with t1 show ?thesis by simp
  qed
  show "tmem_body (k_tcbs k') z = tmem_body (k_tcbs k) z" if "z \<notin> set (x # xs)" for z
    using that r frame [of z] by simp
  show "k_scs k' = k_scs k" "core_ok ebx k'" "restart_state k' = restart_state k"
    using r o by simp_all
  have "entry_of k1 y = entry_of k y" if "y \<in> set xs" for y
    using entry_of_cong [OF frame, of y] that dist o by auto
  then have "fold (\<lambda>x. push_ready H (entry_of k1 x)) xs = fold (\<lambda>x. push_ready H (entry_of k x)) xs"
    by (intro ext fold_cong refl) simp
  with r o show "core_exec ebx k' =
      map_option (fold (\<lambda>x. push_ready H (entry_of k x)) (x # xs)) (core_exec ebx k)"
    by (simp add: option.map_comp comp_def)
qed

text \<open>One thread, already unlinked, is restarted.\<close>

lemma restart_unlinked:
  assumes core: "core_ok ebx k" and x: "k_tcbs k x = Some t" "sc_valid (k_scs k) t"
    and m: "m x = Some (tcb_body t)" "tmem_body m = tmem_body (k_tcbs k)"
  obtains k' where "restart_thread H ebx (k\<lparr>k_tcbs := m, k_eps := eps\<rparr>) x = Ret k'"
    "k_tcbs k' = m(x \<mapsto> restarted (restart_state k) (tcb_body t))" "k_eps k' = eps" "k_scs k' = k_scs k"
    "core_ok ebx k'" "all_restarted H ebx k [x] k'"
proof -
  let ?k1 = "k\<lparr>k_tcbs := m, k_eps := eps\<rparr>"
  have x1: "core_ok ebx ?k1" "k_tcbs ?k1 x = Some (tcb_body t)" "sc_valid (k_scs ?k1) (tcb_body t)"
    using core x m by (simp_all add: core_ok_def)
  from restart_thread_Ret [OF x1, of H] obtain k' where
    k': "restart_thread H ebx ?k1 x = Ret k'" "k_tcbs k' = m(x \<mapsto> restarted (restart_state k) (tcb_body t))"
    "k_eps k' = eps" "k_scs k' = k_scs k" "core_ok ebx k'" "restart_state k' = restart_state k"
    "core_exec ebx k' = map_option (push_ready H (entry_of k x)) (core_exec ebx k)"
    using x(1) by (auto simp: restart_state_def core_exec_def entry_of_def)
  have "tmem_body (k_tcbs k') z = tmem_body (k_tcbs k) z" if "z \<noteq> x" for z
    using that m(2) by (simp add: k'(2) tmem_body_def fun_eq_iff)
  with k' x(1) have "all_restarted H ebx k [x] k'" by (simp add: all_restarted_def)
  with k' that show thesis by blast
qed

text \<open>
  The loop state of \<open>cancel_all_ipc\<close>: the threads \<open>xs\<close> are still queued. The state of the
  endpoint itself is written only after the loop, so the invariant holds up to it.
\<close>

definition cancelling :: "u32 \<Rightarrow> 'h kernel \<Rightarrow> ptr \<Rightarrow> EndpointObj \<Rightarrow> (ptr \<Rightarrow> ptr list) \<Rightarrow> bool" where
  "cancelling ebx k p ep Q \<longleftrightarrow> k_eps k p = Some ep \<and> ep_state ep \<noteq> EpIdle \<and> core_ok ebx k \<and>
     ipc_rep (k_tcbs k) ((k_eps k)(p \<mapsto> ep\<lparr>ep_state := (if Q p = [] then EpIdle else ep_state ep)\<rparr>)) Q \<and>
     (\<forall>x \<in> set (Q p). \<forall>t. k_tcbs k x = Some t \<longrightarrow> sc_valid (k_scs k) t)"

lemma sc_valid_frame:
  assumes "tmem_body m z = tmem_body m' z" "m z = Some u" "\<forall>t. m' z = Some t \<longrightarrow> sc_valid c t"
  shows "sc_valid c u"
proof -
  from tmem_body_eqD [OF assms(1,2)] obtain u0 where u0: "m' z = Some u0" "tcb_body u = tcb_body u0" .
  with assms(3) tcb_body_fields(7) [OF u0(2)] show ?thesis by (simp add: sc_valid_def)
qed

lemma cancel_all_step_Nil:
  assumes inv: "cancelling ebx k p ep Q" and Q: "Q p = []"
  shows "cancel_all_step H ebx k p = Ret (False, k)"
proof -
  from inv have ep: "k_eps k p = Some ep"
    and rep: "ipc_rep (k_tcbs k) ((k_eps k)(p \<mapsto> ep\<lparr>ep_state := (if Q p = [] then EpIdle else ep_state ep)\<rparr>)) Q"
    by (simp_all add: cancelling_def)
  have "queue_rep (k_tcbs k) (ep_queue ep) []" using ipc_repD(1) [OF rep, of p] Q by simp
  moreover have "k\<lparr>k_tcbs := k_tcbs k, k_eps := (k_eps k)(p \<mapsto> ep\<lparr>ep_queue := ep_queue ep\<rparr>)\<rparr> = k"
    using ep by (cases k) (simp add: fun_upd_idem)
  ultimately show ?thesis using ep dequeue_head_empty by (simp add: cancel_all_step_def)
qed

lemma cancel_all_step_Cons:
  assumes inv: "cancelling ebx k p ep Q" and Q: "Q p = x # xs"
  obtains k1 ep1 where "cancel_all_step H ebx k p = Ret (True, k1)" "cancelling ebx k1 p ep1 (Q(p := xs))"
    "k_eps k1 = (k_eps k)(p \<mapsto> ep1)" "all_restarted H ebx k [x] k1" "x \<notin> set xs"
    "\<forall>z. z \<notin> set (Q p) \<longrightarrow> k_tcbs k1 z = k_tcbs k z"
proof -
  let ?eps0 = "(k_eps k)(p \<mapsto> ep)"
  from inv have ep: "k_eps k p = Some ep" "ep_state ep \<noteq> EpIdle" and core: "core_ok ebx k"
    and rep: "ipc_rep (k_tcbs k) ?eps0 Q" and sc: "\<forall>y \<in> set (Q p). \<forall>t. k_tcbs k y = Some t \<longrightarrow> sc_valid (k_scs k) t"
    using Q by (simp_all add: cancelling_def)
  have qr: "queue_rep (k_tcbs k) (ep_queue ep) (x # xs)" using ipc_repD(1) [OF rep, of p ep] Q by simp
  then have dist: "x \<notin> set xs" using tq.rep_distinct by fastforce
  from dequeue_head_rep [OF qr] obtain m1 q1 t where
    m1: "dequeue_head (k_tcbs k) (ep_queue ep) = Ret (Some x, m1, q1)" "queue_rep m1 q1 xs"
    "tmem_body m1 = tmem_body (k_tcbs k)" "\<And>z. z \<notin> insert x (set xs) \<Longrightarrow> m1 z = k_tcbs k z"
    "k_tcbs k x = Some t" "m1 x = Some (tcb_body t)" by blast
  let ?ep1 = "ep\<lparr>ep_queue := q1\<rparr>"
  let ?t = "restarted (restart_state k) (tcb_body t)"
  have "sc_valid (k_scs k) t" using sc m1(5) Q by simp
  from restart_unlinked [OF core m1(5) this m1(6,3), of H "(k_eps k)(p \<mapsto> ?ep1)"] obtain k1 where
    k1: "restart_thread H ebx (k\<lparr>k_tcbs := m1, k_eps := (k_eps k)(p \<mapsto> ?ep1)\<rparr>) x = Ret k1" "k_tcbs k1 = m1(x \<mapsto> ?t)"
    "k_eps k1 = (k_eps k)(p \<mapsto> ?ep1)" "k_scs k1 = k_scs k" "core_ok ebx k1" "all_restarted H ebx k [x] k1" by blast
  let ?ep2 = "?ep1\<lparr>ep_state := (if xs = [] then EpIdle else ep_state ep)\<rparr>"
  have "ipc_rep (k_tcbs k1) (?eps0(p \<mapsto> ?ep2)) (Q(p := xs))"
    unfolding k1(2)
  proof (rule take_out [OF rep _ _ m1(2) _ m1(3)])
    show "x \<in> set (Q p)" "set xs = set (Q p) - {x}" using Q dist by auto
    show "m1 z = k_tcbs k z" if "z \<notin> set (Q p)" for z using m1(4) [of z] that Q by simp
    show "regs_ok ?t" using ipc_repD(5) [OF rep m1(5)] by simp
  qed simp_all
  moreover have "sc_valid (k_scs k1) u" if y: "y \<in> set xs" "k_tcbs k1 y = Some u" for y u
    using y dist sc Q k1(4) by (intro sc_valid_frame [of m1 y "k_tcbs k" u]) (auto simp: k1(2) m1(3) split: if_splits)
  ultimately have "cancelling ebx k1 p ?ep1 (Q(p := xs))"
    using ep(2) k1(3,5) by (cases "xs = []") (simp_all add: cancelling_def)
  moreover have "cancel_all_step H ebx k p = Ret (True, k1)"
    using ep(1) m1(1) k1(1) by (simp add: cancel_all_step_def)
  moreover have "\<forall>z. z \<notin> set (Q p) \<longrightarrow> k_tcbs k1 z = k_tcbs k z" using m1(4) Q by (simp add: k1(2))
  ultimately show thesis using that k1(3,6) dist by blast
qed

lemma cancel_all_loop_Ret:
  assumes "cancelling ebx k p ep Q" "Q p = xs"
  shows "\<exists>k' ep'. cancel_all_loop H ebx k p = Some (Ret k') \<and> k_eps k' = (k_eps k)(p \<mapsto> ep') \<and>
    ipc_rep (k_tcbs k') ((k_eps k)(p \<mapsto> ep'\<lparr>ep_state := EpIdle\<rparr>)) (Q(p := [])) \<and>
    all_restarted H ebx k xs k' \<and> (\<forall>z. z \<notin> set xs \<longrightarrow> k_tcbs k' z = k_tcbs k z)"
  using assms
proof (induction xs arbitrary: k ep Q)
  case Nil
  then have d: "k_eps k p = Some ep" "core_ok ebx k"
    "ipc_rep (k_tcbs k) ((k_eps k)(p \<mapsto> ep\<lparr>ep_state := EpIdle\<rparr>)) Q" by (simp_all add: cancelling_def)
  have "cancel_all_loop H ebx k p = Some (Ret k)"
    using cancel_all_step_Nil [OF Nil.prems, of H] by (subst cancel_all_loop.simps) simp
  moreover have "Q(p := []) = Q" "k_eps k = (k_eps k)(p \<mapsto> ep)" using Nil.prems(2) d(1) by auto
  ultimately show ?case
    using d(3) all_restarted_Nil [OF d(2), of H] by (intro exI [of _ k] exI [of _ ep]) (simp only: list.set, blast)
next
  case (Cons x xs)
  from cancel_all_step_Cons [OF Cons.prems, of H] obtain k1 ep1 where
    k1: "cancel_all_step H ebx k p = Ret (True, k1)" "cancelling ebx k1 p ep1 (Q(p := xs))"
    "k_eps k1 = (k_eps k)(p \<mapsto> ep1)" "all_restarted H ebx k [x] k1" "x \<notin> set xs"
    "\<forall>z. z \<notin> set (Q p) \<longrightarrow> k_tcbs k1 z = k_tcbs k z" .
  from Cons.IH [OF k1(2) fun_upd_same, unfolded fun_upd_upd] obtain k' ep' where k': "cancel_all_loop H ebx k1 p = Some (Ret k')"
    "k_eps k' = (k_eps k1)(p \<mapsto> ep')"
    "ipc_rep (k_tcbs k') ((k_eps k1)(p \<mapsto> ep'\<lparr>ep_state := EpIdle\<rparr>)) (Q(p := []))"
    "all_restarted H ebx k1 xs k'" "\<And>z. z \<notin> set xs \<Longrightarrow> k_tcbs k' z = k_tcbs k1 z" by blast
  have "cancel_all_loop H ebx k p = Some (Ret k')"
    using k1(1) k'(1) by (subst cancel_all_loop.simps) simp
  moreover have "all_restarted H ebx k (x # xs) k'"
    by (rule all_restarted_Cons [OF k1(4) k'(4) k1(5) k'(5) [OF k1(5)]])
  moreover have "k_tcbs k' z = k_tcbs k z" if "z \<notin> set (x # xs)" for z
    using that k'(5) [of z] k1(6) Cons.prems(2) by simp
  ultimately show ?case using k'(2,3) unfolding k1(3) fun_upd_upd by blast
qed

section \<open>Cancelling by badge\<close>

definition with_badge :: "'h kernel \<Rightarrow> usize \<Rightarrow> ptr \<Rightarrow> bool" where
  "with_badge k bdg x \<longleftrightarrow> (\<exists>t. k_tcbs k x = Some t \<and> badge (ipc_state t) = bdg)"

lemma with_badge_cong:
  assumes "tmem_body (k_tcbs k') x = tmem_body (k_tcbs k) x"
  shows "with_badge k' bdg x \<longleftrightarrow> with_badge k bdg x"
proof (cases "k_tcbs k x")
  case None
  with assms show ?thesis by (simp add: with_badge_def tmem_body_def)
next
  case (Some t)
  with assms obtain t' where t': "k_tcbs k' x = Some t'" "tcb_body t' = tcb_body t"
    by (cases "k_tcbs k' x") (auto simp: tmem_body_def)
  with Some tcb_body_fields(5) [OF t'(2)] show ?thesis by (simp add: with_badge_def)
qed

text \<open>
  The loop works through \<open>rest\<close>, still linked forward, and moves what it keeps behind the
  threads \<open>kept\<close> of the new queue.
\<close>

definition sorting :: "u32 \<Rightarrow> 'h kernel \<Rightarrow> TcbQueue \<Rightarrow> ptr list \<Rightarrow> ptr option \<Rightarrow> ptr list \<Rightarrow> bool" where
  "sorting ebx k nq kept pr rest \<longleftrightarrow> queue_rep (k_tcbs k) nq kept \<and>
     dseg ep_prev ep_next (k_tcbs k) pr rest None \<and> distinct (kept @ rest) \<and> core_ok ebx k \<and>
     (\<forall>x \<in> set rest. \<forall>t. k_tcbs k x = Some t \<longrightarrow> sc_valid (k_scs k) t)"

definition sorted_out ::
    "'h heap_ops \<Rightarrow> u32 \<Rightarrow> usize \<Rightarrow> 'h kernel \<Rightarrow> ptr list \<Rightarrow> ptr list \<Rightarrow> 'h kernel \<Rightarrow> TcbQueue \<Rightarrow> bool" where
  "sorted_out H ebx bdg k kept rest k' q' \<longleftrightarrow>
     queue_rep (k_tcbs k') q' (kept @ filter (\<lambda>x. \<not> with_badge k bdg x) rest) \<and>
     all_restarted H ebx k (filter (with_badge k bdg) rest) k' \<and> k_eps k' = k_eps k \<and>
     (\<forall>z. z \<notin> set (kept @ rest) \<longrightarrow> k_tcbs k' z = k_tcbs k z)"

lemma with_badge_filter:
  assumes "\<And>y. y \<in> set ys \<Longrightarrow> tmem_body (k_tcbs k') y = tmem_body (k_tcbs k) y"
  shows "filter (with_badge k' bdg) ys = filter (with_badge k bdg) ys"
    "filter (\<lambda>y. \<not> with_badge k' bdg y) ys = filter (\<lambda>y. \<not> with_badge k bdg y) ys"
  using with_badge_cong [OF assms] by (auto intro: filter_cong)

lemma cancel_badged_step_restart:
  assumes inv: "sorting ebx k nq kept pr (x # rest)" and bdg: "with_badge k bdg x"
  obtains k1 where "cancel_badged_step H ebx k nq x bdg = Ret (k1, nq, first_or rest None)"
    "sorting ebx k1 nq kept (Some x) rest"
    "\<And>k' q'. sorted_out H ebx bdg k1 kept rest k' q' \<Longrightarrow> sorted_out H ebx bdg k kept (x # rest) k' q'"
proof -
  from inv have d: "queue_rep (k_tcbs k) nq kept" "dseg ep_prev ep_next (k_tcbs k) (Some x) rest None"
    "x \<notin> set kept" "x \<notin> set rest" "distinct (kept @ rest)" "core_ok ebx k"
    "\<forall>y \<in> set (x # rest). \<forall>t. k_tcbs k y = Some t \<longrightarrow> sc_valid (k_scs k) t" by (auto simp: sorting_def)
  from dseg_member [of ep_prev ep_next "k_tcbs k" pr "[]" x rest None] inv
  obtain t where t: "k_tcbs k x = Some t" "ep_next t = first_or rest None" by (auto simp: sorting_def)
  let ?m = "(k_tcbs k)(x \<mapsto> tcb_body t)"
  have "sc_valid (k_scs k) t" using d(7) t(1) by simp
  moreover have "?m x = Some (tcb_body t)" "tmem_body ?m = tmem_body (k_tcbs k)"
    using t(1) by (simp_all add: tmem_body_def tcb_body_def fun_eq_iff)
  ultimately obtain k1 where k1: "restart_thread H ebx (k\<lparr>k_tcbs := ?m, k_eps := k_eps k\<rparr>) x = Ret k1"
    "k_tcbs k1 = ?m(x \<mapsto> restarted (restart_state k) (tcb_body t))" "k_eps k1 = k_eps k" "k_scs k1 = k_scs k"
    "core_ok ebx k1" "all_restarted H ebx k [x] k1" by (rule restart_unlinked [OF d(6) t(1)])
  have other: "k_tcbs k1 z = k_tcbs k z" if "z \<noteq> x" for z using that by (simp add: k1(2))
  have bx: "badge (ipc_state t) = bdg" using bdg t(1) by (simp add: with_badge_def)
  show thesis
  proof (rule that)
    show "cancel_badged_step H ebx k nq x bdg = Ret (k1, nq, first_or rest None)"
      using t bx k1(1) by (simp add: cancel_badged_step_def tcb_body_def)
    have "queue_rep (k_tcbs k1) nq kept" using d(3) by (intro queue_rep_frame [OF d(1)] other) auto
    moreover have "dseg ep_prev ep_next (k_tcbs k1) (Some x) rest None"
      unfolding k1(2) fun_upd_upd by (rule tl.upd_frame [OF d(2,4)])
    moreover have "k_tcbs k1 y = k_tcbs k y" if "y \<in> set rest" for y using that d(4) by (intro other) auto
    ultimately show "sorting ebx k1 nq kept (Some x) rest" using d(5,7) k1(4,5) by (simp add: sorting_def)
    fix k' q' assume so: "sorted_out H ebx bdg k1 kept rest k' q'"
    have "tmem_body (k_tcbs k1) y = tmem_body (k_tcbs k) y" if "y \<in> set rest" for y
      using that d(4) other [of y] by (cases "y = x") (auto simp: tmem_body_def)
    note f = with_badge_filter [OF this, of rest bdg, simplified]
    from so d(3,4) have "k_tcbs k' x = k_tcbs k1 x" by (simp add: sorted_out_def)
    then have "all_restarted H ebx k (x # filter (with_badge k bdg) rest) k'"
      using so d(4) by (intro all_restarted_Cons [OF k1(6)]) (simp_all add: sorted_out_def f)
    with so bdg k1(3) other show "sorted_out H ebx bdg k kept (x # rest) k' q'"
      by (auto simp: sorted_out_def f)
  qed
qed

text \<open>Changes of links only do not matter to what was restarted.\<close>

lemma all_restarted_links:
  assumes "all_restarted H ebx (k\<lparr>k_tcbs := m\<rparr>) xs k'" and body: "tmem_body m = tmem_body (k_tcbs k)"
  shows "all_restarted H ebx k xs k'"
proof -
  have "entry_of (k\<lparr>k_tcbs := m\<rparr>) y = entry_of k y" for y using body by (intro entry_of_cong) simp_all
  moreover have "\<exists>u. k_tcbs k y = Some u \<and> tcb_body u = tcb_body v" if "m y = Some v" for y v
    using tmem_body_eqD [OF fun_cong [OF body] that] by metis
  ultimately show ?thesis
    using assms unfolding all_restarted_def by (fastforce simp: restart_state_def core_exec_def)
qed

lemma cancel_badged_step_keep:
  assumes inv: "sorting ebx k nq kept pr (x # rest)" and bdg: "\<not> with_badge k bdg x"
  obtains k1 q1 where "cancel_badged_step H ebx k nq x bdg = Ret (k1, q1, first_or rest None)"
    "sorting ebx k1 q1 (kept @ [x]) (Some x) rest"
    "\<And>k' q'. sorted_out H ebx bdg k1 (kept @ [x]) rest k' q' \<Longrightarrow> sorted_out H ebx bdg k kept (x # rest) k' q'"
proof -
  from inv have d: "queue_rep (k_tcbs k) nq kept" "dseg ep_prev ep_next (k_tcbs k) (Some x) rest None"
    "x \<notin> set kept" "x \<notin> set rest" "distinct (kept @ rest)" "core_ok ebx k"
    "\<forall>y \<in> set rest. \<forall>t. k_tcbs k y = Some t \<longrightarrow> sc_valid (k_scs k) t" by (auto simp: sorting_def)
  from dseg_member [of ep_prev ep_next "k_tcbs k" pr "[]" x rest None] inv
  obtain t where t: "k_tcbs k x = Some t" "ep_next t = first_or rest None" by (auto simp: sorting_def)
  from queue_append_rep [OF d(1) t(1) d(3)] obtain m1 q1 where
    m1: "queue_append (k_tcbs k) nq x = Ret (m1, q1)" "queue_rep m1 q1 (kept @ [x])"
    "tmem_body m1 = tmem_body (k_tcbs k)" "\<And>z. z \<notin> insert x (set kept) \<Longrightarrow> m1 z = k_tcbs k z" by blast
  let ?k1 = "k\<lparr>k_tcbs := m1\<rparr>"
  have rest: "m1 y = k_tcbs k y" if "y \<in> set rest" for y using that m1(4) [of y] d(4,5) by auto
  note f = with_badge_filter [of rest ?k1 k bdg, simplified, OF fun_cong [OF m1(3)]]
  show thesis
  proof (rule that)
    show "cancel_badged_step H ebx k nq x bdg = Ret (?k1, q1, first_or rest None)"
      using t bdg m1(1) by (simp add: cancel_badged_step_def with_badge_def)
    show "sorting ebx ?k1 q1 (kept @ [x]) (Some x) rest"
      using m1(2) d rest dseg_frame [of rest m1 "k_tcbs k" ep_prev ep_next "Some x" None]
      by (auto simp: sorting_def core_ok_def)
    show "sorted_out H ebx bdg k kept (x # rest) k' q'" if "sorted_out H ebx bdg ?k1 (kept @ [x]) rest k' q'" for k' q'
      using that bdg m1(4) by (auto simp: sorted_out_def f intro: all_restarted_links [OF _ m1(3)])
  qed
qed

lemma cancel_badged_loop_Ret:
  assumes "sorting ebx k nq kept pr rest"
  shows "\<exists>k' q'. cancel_badged_loop H ebx k nq (first_or rest None) bdg = Some (Ret (k', q')) \<and>
    sorted_out H ebx bdg k kept rest k' q'"
  using assms
proof (induction rest arbitrary: k nq kept pr)
  case Nil
  then have "sorted_out H ebx bdg k kept [] k nq"
    by (simp add: sorting_def sorted_out_def all_restarted_Nil)
  then show ?case by (subst cancel_badged_loop.simps) simp
next
  case (Cons x rest)
  show ?case
  proof (cases "with_badge k bdg x")
    case True
    obtain k1 where k1: "cancel_badged_step H ebx k nq x bdg = Ret (k1, nq, first_or rest None)"
      "sorting ebx k1 nq kept (Some x) rest"
      "\<And>k' q'. sorted_out H ebx bdg k1 kept rest k' q' \<Longrightarrow> sorted_out H ebx bdg k kept (x # rest) k' q'"
      by (rule cancel_badged_step_restart [OF Cons.prems True]) blast
    with Cons.IH [OF k1(2)] show ?thesis by (subst cancel_badged_loop.simps) auto
  next
    case False
    obtain k1 q1 where k1: "cancel_badged_step H ebx k nq x bdg = Ret (k1, q1, first_or rest None)"
      "sorting ebx k1 q1 (kept @ [x]) (Some x) rest"
      "\<And>k' q'. sorted_out H ebx bdg k1 (kept @ [x]) rest k' q' \<Longrightarrow> sorted_out H ebx bdg k kept (x # rest) k' q'"
      by (rule cancel_badged_step_keep [OF Cons.prems False]) blast
    with Cons.IH [OF k1(2)] show ?thesis by (subst cancel_badged_loop.simps) auto
  qed
qed

section \<open>The ready queue after cancelling\<close>

lemma push_ready_fold:
  assumes H: "heap_spec H I \<alpha>"
  shows "I (ready ex) \<Longrightarrow> size (\<alpha> (ready ex)) + length xs \<le> MAX_TCB_PER_CORE \<Longrightarrow>
    I (ready (fold (\<lambda>x. push_ready H (f x)) xs ex)) \<and>
    \<alpha> (ready (fold (\<lambda>x. push_ready H (f x)) xs ex)) = \<alpha> (ready ex) + mset (map f xs) \<and>
    current (fold (\<lambda>x. push_ready H (f x)) xs ex) = current ex"
proof (induction xs arbitrary: ex)
  case Nil
  then show ?case by simp
next
  case (Cons x xs)
  from Cons.prems(2) have "size (\<alpha> (ready ex)) < MAX_TCB_PER_CORE" by simp
  from heap_push [OF H Cons.prems(1) this, of "f x"] obtain h where
    h: "h_push H MAX_TCB_PER_CORE (f x) (ready ex) = Some h" "I h" "\<alpha> h = add_mset (f x) (\<alpha> (ready ex))" .
  have push: "push_ready H (f x) ex = ex\<lparr>ready := h\<rparr>" using h(1) by (simp add: push_ready_def)
  show ?case
    using Cons.IH [of "ex\<lparr>ready := h\<rparr>"] h(2,3) Cons.prems(2) by (simp add: push)
qed

lemma all_restarted_ready:
  assumes H: "heap_spec H I \<alpha>" and all: "all_restarted H ebx k xs k'"
    and ex: "core_exec ebx k = Some ex" "I (ready ex)"
      "size (\<alpha> (ready ex)) + length xs \<le> MAX_TCB_PER_CORE"
  shows "\<exists>ex'. core_exec ebx k' = Some ex' \<and> I (ready ex') \<and> current ex' = current ex \<and>
    \<alpha> (ready ex') = \<alpha> (ready ex) + mset (map (entry_of k) xs)"
  using all ex(1) push_ready_fold [OF H ex(2,3), of "entry_of k"] by (simp add: all_restarted_def)

lemma cancel_all_ipc_Ret:
  assumes E: "ext_ok E" "paddr cap < 0x10000000000000" and rep: "ipc_rep (k_tcbs k) (k_eps k) Q"
    and ep: "k_eps k (paddr cap) = Some ep" and core: "core_ok ebx k"
    and sc: "\<And>x t. x \<in> set (Q (paddr cap)) \<Longrightarrow> k_tcbs k x = Some t \<Longrightarrow> sc_valid (k_scs k) t"
  obtains k' where "cancel_all_ipc E H ebx k cap = Some (Ret k')"
    "ipc_rep (k_tcbs k') (k_eps k') (Q(paddr cap := []))" "all_restarted H ebx k (Q (paddr cap)) k'"
    "\<And>p. p \<noteq> paddr cap \<Longrightarrow> k_eps k' p = k_eps k p"
    "\<And>z. z \<notin> set (Q (paddr cap)) \<Longrightarrow> k_tcbs k' z = k_tcbs k z"
proof (cases "ep_state ep = EpIdle")
  case True
  then have "Q (paddr cap) = []" using ipc_repD(2) [OF rep ep] by simp
  moreover from this have "Q(paddr cap := []) = Q" by auto
  moreover have "cancel_all_ipc E H ebx k cap = Some (Ret k)"
    using True ep_object_Ret [OF E ep] by (simp add: cancel_all_ipc_def)
  ultimately show thesis using that [of k] rep all_restarted_Nil [OF core] by simp
next
  case False
  then have ne: "Q (paddr cap) \<noteq> []" using ipc_repD(2) [OF rep ep] by simp
  then have "cancelling ebx k (paddr cap) ep Q"
    using rep ep False core sc by (simp add: cancelling_def fun_upd_idem)
  from cancel_all_loop_Ret [where H = H, OF this refl] obtain k1 ep' where
    k1: "cancel_all_loop H ebx k (paddr cap) = Some (Ret k1)" "k_eps k1 = (k_eps k)(paddr cap \<mapsto> ep')"
    "ipc_rep (k_tcbs k1) ((k_eps k)(paddr cap \<mapsto> ep'\<lparr>ep_state := EpIdle\<rparr>)) (Q(paddr cap := []))"
    "all_restarted H ebx k (Q (paddr cap)) k1"
    "\<And>z. z \<notin> set (Q (paddr cap)) \<Longrightarrow> k_tcbs k1 z = k_tcbs k z" by blast
  define k' where "k' = k1\<lparr>k_eps := (k_eps k)(paddr cap \<mapsto> ep'\<lparr>ep_state := EpIdle\<rparr>)\<rparr>"
  have "cancel_all_ipc E H ebx k cap = Some (Ret k')"
    using False ep_object_Ret [OF E ep] k1(1,2) by (simp add: cancel_all_ipc_def k'_def)
  moreover have "all_restarted H ebx k (Q (paddr cap)) k'"
    using k1(4) by (simp add: all_restarted_def k'_def core_ok_def restart_state_def core_exec_def)
  ultimately show thesis using that [of k'] k1(3,5) by (simp add: k'_def)
qed

lemma cancel_badged_sends_Ret:
  assumes E: "ext_ok E" "paddr cap < 0x10000000000000" and rep: "ipc_rep (k_tcbs k) (k_eps k) Q"
    and ep: "k_eps k (paddr cap) = Some ep" "ep_state ep = EpSend" and core: "core_ok ebx k"
    and sc: "\<And>x t. x \<in> set (Q (paddr cap)) \<Longrightarrow> k_tcbs k x = Some t \<Longrightarrow> sc_valid (k_scs k) t"
  obtains k' where "cancel_badged_sends E H ebx k cap bdg = Some (Ret k')"
    "ipc_rep (k_tcbs k') (k_eps k')
       (Q(paddr cap := filter (\<lambda>x. \<not> with_badge k bdg x) (Q (paddr cap))))"
    "all_restarted H ebx k (filter (with_badge k bdg) (Q (paddr cap))) k'"
    "\<And>p. p \<noteq> paddr cap \<Longrightarrow> k_eps k' p = k_eps k p"
proof -
  let ?p = "paddr cap"
  let ?out = "filter (with_badge k bdg) (Q ?p)" and ?keep = "filter (\<lambda>x. \<not> with_badge k bdg x) (Q ?p)"
  note d = ipc_repD [OF rep]
  have qr: "queue_rep (k_tcbs k) (ep_queue ep) (Q ?p)" by (rule d(1) [OF ep(1)])
  then have seg: "dseg ep_prev ep_next (k_tcbs k) None (Q ?p) None" and hd: "head (ep_queue ep) = first_or (Q ?p) None"
    by (simp_all add: queue_rep_def)
  have "sorting ebx k TcbQueue_new [] None (Q ?p)"
    using seg core sc tq.rep_distinct [OF qr] by (simp add: sorting_def queue_rep_def TcbQueue_new_def)
  from cancel_badged_loop_Ret [where H = H and bdg = bdg, OF this] obtain k1 q where
    k1: "cancel_badged_loop H ebx k TcbQueue_new (first_or (Q ?p) None) bdg = Some (Ret (k1, q))"
    "queue_rep (k_tcbs k1) q ?keep" "all_restarted H ebx k ?out k1" "k_eps k1 = k_eps k"
    "\<And>z. z \<notin> set (Q ?p) \<Longrightarrow> k_tcbs k1 z = k_tcbs k z" by (auto simp: sorted_out_def)
  note r = k1(3) [unfolded all_restarted_def]
  define ep2 where "ep2 = (if queue_is_empty q then (ep\<lparr>ep_queue := q\<rparr>)\<lparr>ep_state := EpIdle\<rparr>
      else ep\<lparr>ep_queue := q\<rparr>)"
  define k' where "k' = k1\<lparr>k_eps := (k_eps k)(?p \<mapsto> ep2)\<rparr>"
  have empty: "queue_is_empty q \<longleftrightarrow> ?keep = []" by (rule tq.nil_iff [OF k1(2)])
  have run: "cancel_badged_sends E H ebx k cap bdg = Some (Ret k')"
    using ep ep_object_Ret [OF E ep(1)] k1(1,4) hd by (simp add: cancel_badged_sends_def k'_def ep2_def)
  have "ipc_rep (k_tcbs k1) ((k_eps k)(?p \<mapsto> ep2)) (Q(?p := ?keep))"
  proof (rule ipc_rep_change [OF rep ep(1), where C = "set ?out"])
    show "queue_rep (k_tcbs k1) (ep_queue ep2) ?keep" using k1(2) by (simp add: ep2_def)
    show "ep_state ep2 = EpIdle \<longleftrightarrow> ?keep = []" using empty ep(2) by (simp add: ep2_def)
    show "waits_at (k_tcbs k1) ?p (wait_state (ep_state ep2)) x" if x: "x \<in> set ?keep" for x
    proof -
      have "tmem_body (k_tcbs k1) x = tmem_body (k_tcbs k) x" using r x by simp
      from waits_at_cong [OF this] have "waits_at (k_tcbs k1) ?p (wait_state EpSend) x"
        using d(3) [OF ep(1), of x] ep(2) x by simp
      moreover have "ep_state ep2 = EpSend" using empty x ep(2) by (auto simp: ep2_def filter_empty_conv)
      ultimately show ?thesis by simp
    qed
    show "queue_rep (k_tcbs k1) (ep_queue ep') (Q p2)" if "p2 \<noteq> ?p" "k_eps k p2 = Some ep'" for p2 ep'
    proof (rule queue_rep_frame [OF d(1) [OF that(2)]])
      fix z assume z: "z \<in> set (Q p2)"
      have "z \<notin> set (Q ?p)" using queues_disjoint [OF rep _ _ _ z, of ?p] that ep(1) by blast
      then show "k_tcbs k1 z = k_tcbs k z" by (rule k1(5))
    qed
    show "tmem_body (k_tcbs k1) x = tmem_body (k_tcbs k) x" if "x \<notin> set ?out" for x using r that by blast
    show "x \<notin> set (Q p2)" if "x \<in> set ?out" "p2 \<noteq> ?p" "p2 \<in> dom (k_eps k)" for x p2
      using queues_disjoint [OF rep _ that(3,2), of x] that(1) ep(1) by auto
    show "x \<in> set ?keep" if x: "k_tcbs k1 x = Some t" "waits t" "x \<in> set ?out \<union> set (Q ?p)" for x t
    proof (rule ccontr)
      assume "x \<notin> set ?keep"
      with x(3) have "x \<in> set ?out" by auto
      with r x(1) obtain t0 where "t = restarted (restart_state k) (tcb_body t0)" by fastforce
      with x(2) show False by simp
    qed
    show "regs_ok t" if "x \<in> set ?out" "k_tcbs k1 x = Some t" for x t
    proof -
      from r that obtain t0 where "k_tcbs k x = Some t0" "t = restarted (restart_state k) (tcb_body t0)"
        by fastforce
      with d(5) show ?thesis by simp
    qed
  qed
  then have "ipc_rep (k_tcbs k') (k_eps k') (Q(?p := ?keep))" by (simp add: k'_def)
  moreover have "all_restarted H ebx k ?out k'"
    using k1(3) by (simp add: all_restarted_def k'_def core_ok_def restart_state_def core_exec_def)
  ultimately show thesis using that [of k'] run by (simp add: k'_def)
qed

section \<open>Properties\<close>

text \<open>
  Claim C29. \<open>cancel_all_ipc\<close> always ends, without a panic or an invalid access, and empties
  the endpoint: every thread that waited there is restarted, unlinked and blocked on nothing, no
  other thread is touched, and the endpoint invariant holds. When the ready queue of the current
  core has room, it afterwards holds exactly one entry more for each of these threads, with the
  thread's deadline.
\<close>

theorem cancel_all_correct:
  assumes H: "heap_spec H I \<alpha>" and E: "ext_ok E" "paddr cap < 0x10000000000000"
    and rep: "ipc_rep (k_tcbs k) (k_eps k) Q"
    and ep: "k_eps k (paddr cap) = Some ep" and core: "core_ok ebx k"
    and sc: "\<And>x t. x \<in> set (Q (paddr cap)) \<Longrightarrow> k_tcbs k x = Some t \<Longrightarrow> sc_valid (k_scs k) t"
  shows "\<exists>k'. cancel_all_ipc E H ebx k cap = Some (Ret k') \<and>
    ipc_rep (k_tcbs k') (k_eps k') (Q(paddr cap := [])) \<and>
    (\<forall>x \<in> set (Q (paddr cap)). \<exists>t. k_tcbs k x = Some t \<and>
       k_tcbs k' x = Some (restarted (restart_state k) (tcb_body t))) \<and>
    (\<forall>z. z \<notin> set (Q (paddr cap)) \<longrightarrow> k_tcbs k' z = k_tcbs k z) \<and>
    (\<forall>ex. core_exec ebx k = Some ex \<and> I (ready ex) \<and>
       size (\<alpha> (ready ex)) + length (Q (paddr cap)) \<le> MAX_TCB_PER_CORE \<longrightarrow>
       (\<exists>ex'. core_exec ebx k' = Some ex' \<and> I (ready ex') \<and> current ex' = current ex \<and>
          \<alpha> (ready ex') = \<alpha> (ready ex) + mset (map (entry_of k) (Q (paddr cap)))))"
proof -
  from cancel_all_ipc_Ret [where H = H, OF E rep ep core] sc obtain k' where
    k': "cancel_all_ipc E H ebx k cap = Some (Ret k')"
    "ipc_rep (k_tcbs k') (k_eps k') (Q(paddr cap := []))" "all_restarted H ebx k (Q (paddr cap)) k'"
    "\<And>z. z \<notin> set (Q (paddr cap)) \<Longrightarrow> k_tcbs k' z = k_tcbs k z" by metis
  have "\<forall>x \<in> set (Q (paddr cap)). \<exists>t. k_tcbs k x = Some t \<and>
      k_tcbs k' x = Some (restarted (restart_state k) (tcb_body t))"
    using k'(3) unfolding all_restarted_def by blast
  with k'(1,2,4) all_restarted_ready [OF H k'(3)] show ?thesis by blast
qed

lemma demo_kernel_sched:
  "OnceLock_get (k_sched demo_kernel) \<noteq> None"
  "core_exec 0 demo_kernel = Some (Executor_new list_heap)"
  by (simp_all add: core_exec_def demo_kernel_def init_scheduler_new OnceLock_get_def PerCore_get_mut_def
      get_unsafe_def fresh_cores_def cpuid_def sysinfo_def)

lemma demo_kernel_sc: "k_tcbs demo_kernel x = Some t \<Longrightarrow> sc_valid (k_scs demo_kernel) t"
  by (auto simp: demo_kernel_def sc_valid_def Tcb_new_def split: if_splits)

theorem cancel_all_correct_witness:
  "\<exists>k' t ex'. cancel_all_ipc ext_doc list_heap 0 demo_kernel demo_ep = Some (Ret k') \<and>
     k_tcbs k' 0x800 = Some t \<and> tstate t = Inactive \<and> blocking_object t = None \<and>
     core_exec 0 k' = Some ex' \<and> mset (ready ex') = {#Entry (- 1) 0x800#}"
proof -
  have q: "demo_Q 0x9000 = [0x800]" by (simp add: demo_Q_def)
  have e: "entry_of demo_kernel 0x800 = Entry (- 1) 0x800"
    by (simp add: entry_of_def demo_kernel_def thread_deadline_def Tcb_new_def)
  have "restart_state demo_kernel = Inactive" using demo_kernel_sched(1) by (simp add: restart_state_def)
  with cancel_all_correct [OF list_heap_spec _ _ demo_kernel_rep _ demo_kernel_core demo_kernel_sc,
      of ext_doc demo_ep "\<lparr>ep_state = EpRecv, ep_queue = \<lparr>head = Some 0x800, tail = Some 0x800\<rparr>\<rparr>"]
    demo_kernel_sched(2) q e show ?thesis
    by (fastforce simp: demo_kernel_def Executor_new_def list_heap_def MAX_TCB_PER_CORE_def)
qed

text \<open>
  Claim C30. \<open>cancel_badged_sends\<close> always ends. On an endpoint with waiting senders it
  restarts exactly the senders whose message carries the badge, in queue order, and keeps the
  others queued in their order; nothing but the links of the kept threads changes, and the
  endpoint invariant holds, so that the endpoint is idle when no sender is left. On an endpoint
  without waiting senders it changes nothing.
\<close>

theorem cancel_badged_correct:
  assumes H: "heap_spec H I \<alpha>" and E: "ext_ok E" "paddr cap < 0x10000000000000"
    and rep: "ipc_rep (k_tcbs k) (k_eps k) Q"
    and ep: "k_eps k (paddr cap) = Some ep" and core: "core_ok ebx k"
    and sc: "\<And>x t. x \<in> set (Q (paddr cap)) \<Longrightarrow> k_tcbs k x = Some t \<Longrightarrow> sc_valid (k_scs k) t"
    and out: "out = (if ep_state ep = EpSend then filter (with_badge k bdg) (Q (paddr cap)) else [])"
  shows "\<exists>k'. cancel_badged_sends E H ebx k cap bdg = Some (Ret k') \<and>
    ipc_rep (k_tcbs k') (k_eps k') (Q(paddr cap := filter (\<lambda>x. x \<notin> set out) (Q (paddr cap)))) \<and>
    (\<forall>x \<in> set out. \<exists>t. k_tcbs k x = Some t \<and>
       k_tcbs k' x = Some (restarted (restart_state k) (tcb_body t))) \<and>
    (\<forall>z. z \<notin> set out \<longrightarrow> tmem_body (k_tcbs k') z = tmem_body (k_tcbs k) z) \<and>
    (ep_state ep \<noteq> EpSend \<longrightarrow> k' = k) \<and>
    (\<forall>ex. core_exec ebx k = Some ex \<and> I (ready ex) \<and>
       size (\<alpha> (ready ex)) + length out \<le> MAX_TCB_PER_CORE \<longrightarrow>
       (\<exists>ex'. core_exec ebx k' = Some ex' \<and> I (ready ex') \<and> current ex' = current ex \<and>
          \<alpha> (ready ex') = \<alpha> (ready ex) + mset (map (entry_of k) out)))"
proof (cases "ep_state ep = EpSend")
  case True
  from cancel_badged_sends_Ret [where H = H and bdg = bdg, OF E rep ep True core] sc obtain k' where
    k': "cancel_badged_sends E H ebx k cap bdg = Some (Ret k')"
    "ipc_rep (k_tcbs k') (k_eps k')
       (Q(paddr cap := filter (\<lambda>x. \<not> with_badge k bdg x) (Q (paddr cap))))"
    "all_restarted H ebx k (filter (with_badge k bdg) (Q (paddr cap))) k'" by metis
  have out: "out = filter (with_badge k bdg) (Q (paddr cap))" using True out by simp
  have keep: "filter (\<lambda>x. \<not> with_badge k bdg x) (Q (paddr cap)) = filter (\<lambda>x. x \<notin> set out) (Q (paddr cap))"
    unfolding out by (rule filter_cong) auto
  note r = k'(3) [folded out]
  have "\<forall>x \<in> set out. \<exists>t. k_tcbs k x = Some t \<and>
      k_tcbs k' x = Some (restarted (restart_state k) (tcb_body t))"
    "\<forall>z. z \<notin> set out \<longrightarrow> tmem_body (k_tcbs k') z = tmem_body (k_tcbs k) z"
    using r unfolding all_restarted_def by blast+
  with k'(1) k'(2) [unfolded keep] True all_restarted_ready [OF H r] show ?thesis by blast
next
  case False
  then have "cancel_badged_sends E H ebx k cap bdg = Some (Ret k)"
    using ep_object_Ret [OF E ep] by (simp add: cancel_badged_sends_def)
  moreover have "out = []" using False out by simp
  ultimately show ?thesis using rep by (intro exI [of _ k]) simp
qed

text \<open>Two senders wait, with badges 7 and 9.\<close>

definition demo_senders :: "Entry list kernel" where
  "demo_senders = demo_kernel\<lparr>
     k_tcbs := [0x400 \<mapsto> Tcb_new\<lparr>tstate := BlockedOnSend, blocking_object := Some 0x9000, ep_next := Some 0x800,
                  ipc_state := \<lparr>badge = 7, can_grant = False, can_grant_reply = False, is_call = False\<rparr>\<rparr>,
                0x800 \<mapsto> Tcb_new\<lparr>tstate := BlockedOnSend, blocking_object := Some 0x9000, ep_prev := Some 0x400,
                  ipc_state := \<lparr>badge = 9, can_grant = False, can_grant_reply = False, is_call = False\<rparr>\<rparr>],
     k_eps := [0x9000 \<mapsto> \<lparr>ep_state = EpSend, ep_queue = \<lparr>head = Some 0x400, tail = Some 0x800\<rparr>\<rparr>]\<rparr>"

theorem cancel_badged_correct_witness:
  "\<exists>k' ex'. cancel_badged_sends ext_doc list_heap 0 demo_senders demo_ep 7 = Some (Ret k') \<and>
     ipc_rep (k_tcbs k') (k_eps k') ((\<lambda>_. [])(0x9000 := [0x800])) \<and>
     core_exec 0 k' = Some ex' \<and> mset (ready ex') = {#Entry (- 1) 0x400#}"
proof -
  let ?Q = "(\<lambda>_. [])(0x9000 := [0x400, 0x800]) :: ptr \<Rightarrow> ptr list"
  let ?ep = "\<lparr>ep_state = EpSend, ep_queue = \<lparr>head = Some 0x400, tail = Some 0x800\<rparr>\<rparr>"
  have rep: "ipc_rep (k_tcbs demo_senders) (k_eps demo_senders) ?Q"
    by (auto simp: ipc_rep_def demo_senders_def queue_rep_def waits_at_def waits_def Tcb_new_def
        TrapFrame_new_def regs_ok_def split: if_splits)
  have core: "core_ok 0 demo_senders"
    using demo_kernel_core by (simp add: core_ok_def demo_senders_def)
  have sc: "sc_valid (k_scs demo_senders) t" if "k_tcbs demo_senders x = Some t" for x t
    using that by (auto simp: demo_senders_def sc_valid_def Tcb_new_def split: if_splits)
  have ex: "core_exec 0 demo_senders = Some (Executor_new list_heap)"
    using demo_kernel_sched(2) by (simp add: core_exec_def demo_senders_def)
  have out: "filter (with_badge demo_senders 7) [0x400, 0x800] = [0x400]"
    by (simp add: with_badge_def demo_senders_def)
  have e: "entry_of demo_senders 0x400 = Entry (- 1) 0x400"
    by (simp add: entry_of_def demo_senders_def thread_deadline_def Tcb_new_def)
  have ep: "k_eps demo_senders (paddr demo_ep) = Some ?ep" by (simp add: demo_senders_def)
  have addr: "paddr demo_ep < 0x10000000000000" by simp
  have "[0x400] = (if ep_state ?ep = EpSend then filter (with_badge demo_senders 7) (?Q (paddr demo_ep)) else [])"
    using out by simp
  from cancel_badged_correct [OF list_heap_spec ext_doc_ok addr rep ep core sc this] ex e show ?thesis
    by (fastforce simp: Executor_new_def list_heap_def MAX_TCB_PER_CORE_def)
qed

end
