(* ===== verification/IpcSteps.thy ===== *)
theory IpcSteps
  imports Cancel
begin

text \<open>
  Sequences of message-passing operations. A call is one of the five entry points of
  \<open>objects/endpoint.rs\<close> with its arguments; \<open>ipc_step\<close> is the relation between the kernel
  states before and after a permitted call in a release build. The invariant of reachable
  states is proved by rule induction over the lemmas of the single operations.
\<close>

section \<open>Calls\<close>

datatype ipc_call =
    CallSend bool bool usize bool bool ptr CapRaw
  | CallReceive ptr CapRaw bool
  | CallCancel ptr
  | CallCancelAll CapRaw
  | CallCancelBadged CapRaw usize

fun perform :: "ext \<Rightarrow> 'h heap_ops \<Rightarrow> u32 \<Rightarrow> 'h kernel \<Rightarrow> ipc_call \<Rightarrow> 'h kernel outcome option" where
  "perform E H ebx k (CallSend blocking do_call bdg cg cgr s cap) =
     Some (obind (send_ipc False E H ebx k blocking do_call bdg cg cgr s cap) (\<lambda>(_, k'). Ret k'))"
| "perform E H ebx k (CallReceive r cap is_blocking) =
     Some (obind (receive_ipc False E H ebx k r cap is_blocking) (\<lambda>(_, k'). Ret k'))"
| "perform E H ebx k (CallCancel x) = Some (cancel_ipc k x)"
| "perform E H ebx k (CallCancelAll cap) = cancel_all_ipc E H ebx k cap"
| "perform E H ebx k (CallCancelBadged cap bdg) = cancel_badged_sends E H ebx k cap bdg"

text \<open>
  What the safety comments of the source ask of a caller: live objects behind the pointers,
  and a thread that sends or receives is not itself waiting.
\<close>

definition free_thread :: "'h kernel \<Rightarrow> ptr \<Rightarrow> bool" where
  "free_thread k x = (case k_tcbs k x of Some t \<Rightarrow> \<not> waits t | None \<Rightarrow> False)"

definition live_endpoint :: "'h kernel \<Rightarrow> CapRaw \<Rightarrow> bool" where
  "live_endpoint k cap \<longleftrightarrow> paddr cap < 0x10000000000000 \<and> k_eps k (paddr cap) \<noteq> None"

fun permitted :: "'h kernel \<Rightarrow> ipc_call \<Rightarrow> bool" where
  "permitted k (CallSend _ _ _ _ _ s cap) \<longleftrightarrow> free_thread k s \<and> live_endpoint k cap"
| "permitted k (CallReceive r cap _) \<longleftrightarrow> free_thread k r \<and> live_endpoint k cap"
| "permitted k (CallCancel x) \<longleftrightarrow> k_tcbs k x \<noteq> None"
| "permitted k (CallCancelAll cap) \<longleftrightarrow> live_endpoint k cap"
| "permitted k (CallCancelBadged cap _) \<longleftrightarrow> live_endpoint k cap"

inductive ipc_step :: "ext \<Rightarrow> 'h heap_ops \<Rightarrow> u32 \<Rightarrow> 'h kernel \<Rightarrow> 'h kernel \<Rightarrow> bool"
  for E H ebx where
  call: "permitted k c \<Longrightarrow> perform E H ebx k c = Some (Ret k') \<Longrightarrow> ipc_step E H ebx k k'"

inductive_cases ipc_stepE: "ipc_step E H ebx k k'"

section \<open>Invariant\<close>

text \<open>
  Besides the endpoint invariant: scheduling contexts exist, and a reply is owed by a live
  thread other than the one that waits for it.
\<close>

definition thread_ok :: "'h kernel \<Rightarrow> ptr \<Rightarrow> Tcb \<Rightarrow> bool" where
  "thread_ok k x t \<longleftrightarrow> sc_valid (k_scs k) t \<and>
     (\<forall>c. reply_to t = Some c \<longrightarrow> c \<in> dom (k_tcbs k) \<and> c \<noteq> x)"

definition ipc_inv :: "u32 \<Rightarrow> 'h kernel \<Rightarrow> bool" where
  "ipc_inv ebx k \<longleftrightarrow> (\<exists>Q. ipc_rep (k_tcbs k) (k_eps k) Q) \<and> core_ok ebx k \<and>
     (\<forall>x t. k_tcbs k x = Some t \<longrightarrow> thread_ok k x t)"

text \<open>What the operations may do to the fields that \<open>thread_ok\<close> reads.\<close>

definition reply_changes :: "'h kernel \<Rightarrow> ptr \<Rightarrow> Tcb \<Rightarrow> Tcb \<Rightarrow> bool" where
  "reply_changes k x t t' \<longleftrightarrow> sched_context t' = sched_context t \<and>
     (reply_to t' = reply_to t \<or> reply_to t' = None \<or>
      (\<exists>c \<in> dom (k_tcbs k). c \<noteq> x \<and> reply_to t' = Some c))"

text \<open>
  The effect of a call by the threads \<open>S\<close> which hands the threads \<open>xs\<close> to the scheduler of the
  current core: apart from \<open>S\<close> and the threads that waited, a thread keeps its state or becomes
  inactive.
\<close>

definition thread_change :: "'h kernel \<Rightarrow> ptr set \<Rightarrow> ptr \<Rightarrow> Tcb \<Rightarrow> Tcb \<Rightarrow> bool" where
  "thread_change k S x t t' \<longleftrightarrow> reply_changes k x t t' \<and>
     (x \<in> S \<or> waits t \<or> tstate t' = tstate t \<or> tstate t' = Inactive)"

definition requeued :: "'h heap_ops \<Rightarrow> u32 \<Rightarrow> 'h kernel \<Rightarrow> ptr list \<Rightarrow> 'h kernel \<Rightarrow> bool" where
  "requeued H ebx k xs k' \<longleftrightarrow> distinct xs \<and>
     (\<forall>x \<in> set xs. \<exists>t t'. k_tcbs k x = Some t \<and> waits t \<and>
        k_tcbs k' x = Some t' \<and> tstate t' = restart_state k) \<and>
     core_exec ebx k' = map_option (fold (\<lambda>x. push_ready H (entry_of k x)) xs) (core_exec ebx k)"

definition ipc_effect ::
    "'h heap_ops \<Rightarrow> u32 \<Rightarrow> 'h kernel \<Rightarrow> ptr set \<Rightarrow> ptr list \<Rightarrow> 'h kernel \<Rightarrow> bool" where
  "ipc_effect H ebx k S xs k' \<longleftrightarrow> k_scs k' = k_scs k \<and> dom (k_tcbs k') = dom (k_tcbs k) \<and>
     (\<forall>x t t'. k_tcbs k x = Some t \<longrightarrow> k_tcbs k' x = Some t' \<longrightarrow> thread_change k S x t t') \<and>
     requeued H ebx k xs k'"

lemma thread_change_body: "tcb_body t' = tcb_body t \<Longrightarrow> thread_change k S x t t'"
proof -
  assume b: "tcb_body t' = tcb_body t"
  then have "reply_to (tcb_body t') = reply_to (tcb_body t)" by simp
  with tcb_body_fields(1,7) [OF b] show ?thesis
    by (simp add: thread_change_def reply_changes_def tcb_body_def)
qed

lemma ipc_effectI:
  assumes scs: "k_scs k' = k_scs k" and req: "requeued H ebx k xs k'"
    and frame: "\<And>z. z \<notin> C \<Longrightarrow> tmem_body (k_tcbs k') z = tmem_body (k_tcbs k) z"
    and C: "\<And>z. z \<in> C \<Longrightarrow> \<exists>t t'. k_tcbs k z = Some t \<and> k_tcbs k' z = Some t' \<and> thread_change k S z t t'"
  shows "ipc_effect H ebx k S xs k'"
  unfolding ipc_effect_def
proof (intro conjI allI impI scs req)
  have "k_tcbs k' z = None \<longleftrightarrow> k_tcbs k z = None" for z
    using frame [of z] C [of z] by (cases "z \<in> C") (auto simp: tmem_body_def)
  then show "dom (k_tcbs k') = dom (k_tcbs k)" by (intro set_eqI) (simp add: domIff del: not_None_eq)
  fix x t u assume t: "k_tcbs k x = Some t" "k_tcbs k' x = Some u"
  show "thread_change k S x t u"
  proof (cases "x \<in> C")
    case True
    from C [OF True] t show ?thesis by auto
  next
    case False
    from tmem_body_eqD [OF frame [OF False] t(2)] t(1) have "tcb_body u = tcb_body t" by auto
    then show ?thesis by (rule thread_change_body)
  qed
qed

text \<open>A call that leaves the scheduler alone.\<close>

lemma requeued_none: "k_sched k' = k_sched k \<Longrightarrow> requeued H ebx k [] k'"
  by (simp add: requeued_def core_exec_def option.map_id)

lemma ipc_effect_refl: "ipc_effect H ebx k S [] k"
  by (auto intro!: ipc_effectI [of _ _ _ _ _ "{}"] requeued_none)

text \<open>A call that rewrites one thread, given up to its links.\<close>

lemma ipc_effect_one:
  assumes t: "k_tcbs k x = Some t" "x \<in> S" and keeps: "k_sched k' = k_sched k" "k_scs k' = k_scs k"
    and m: "tmem_body (k_tcbs k') = tmem_body ((k_tcbs k)(x \<mapsto> u))"
    and u: "sched_context u = sched_context t" "reply_to u = reply_to t"
  shows "ipc_effect H ebx k S [] k'"
proof (rule ipc_effectI [OF keeps(2) requeued_none [OF keeps(1)], of "{x}"])
  show "tmem_body (k_tcbs k') z = tmem_body (k_tcbs k) z" if "z \<notin> {x}" for z
    using fun_cong [OF m, of z] that by (simp add: tmem_body_def)
  from fun_cong [OF m, of x] obtain t' where t': "k_tcbs k' x = Some t'" "tcb_body t' = tcb_body u"
    by (auto simp: tmem_body_def)
  from thread_change_body [OF t'(2), of k S x] t(2) u have "thread_change k S x t t'"
    by (simp add: thread_change_def reply_changes_def)
  with t(1) t'(1) show "\<exists>t t'. k_tcbs k z = Some t \<and> k_tcbs k' z = Some t' \<and> thread_change k S z t t'"
    if "z \<in> {x}" for z using that by blast
qed

text \<open>A rendezvous: the caller is given a message by, or gives one to, a thread that waited.\<close>

lemma ipc_effect_two:
  assumes caller: "k_tcbs k s = Some ts" "k_tcbs k' s = Some ts'" "reply_changes k s ts ts'"
    and partner: "k_tcbs k r = Some tr" "waits tr" "k_tcbs k' r = Some tr'" "reply_changes k r tr tr'"
    and keeps: "k_sched k' = k_sched k" "k_scs k' = k_scs k"
    and frame: "\<And>z. z \<noteq> r \<Longrightarrow> z \<noteq> s \<Longrightarrow> tmem_body (k_tcbs k') z = tmem_body (k_tcbs k) z"
  shows "ipc_effect H ebx k {s} [] k'"
  using caller partner frame
  by (intro ipc_effectI [OF keeps(2) requeued_none [OF keeps(1)], of "{r, s}"])
    (auto simp: thread_change_def)

lemma ipc_invI:
  assumes inv: "ipc_inv ebx k" and rep: "ipc_rep (k_tcbs k') (k_eps k') Q'" and core: "core_ok ebx k'"
    and eff: "ipc_effect H ebx k S xs k'"
  shows "ipc_inv ebx k'"
  unfolding ipc_inv_def
proof (intro conjI exI allI impI)
  show "ipc_rep (k_tcbs k') (k_eps k') Q'" "core_ok ebx k'" by fact+
  note e = eff [unfolded ipc_effect_def]
  fix x u assume x: "k_tcbs k' x = Some u"
  with e obtain t where t: "k_tcbs k x = Some t" by blast
  with x e have "reply_changes k x t u" by (auto simp: thread_change_def)
  moreover from inv t have "thread_ok k x t" by (simp add: ipc_inv_def)
  ultimately show "thread_ok k' x u"
    unfolding thread_ok_def reply_changes_def using e by (auto simp: sc_valid_def)
qed

lemma core_ok_sched: "k_sched k' = k_sched k \<Longrightarrow> core_ok ebx k \<Longrightarrow> core_ok ebx k'"
  by (simp add: core_ok_def)

lemma waiting_member:
  assumes "ipc_rep m eps Q" "eps p = Some e" "x \<in> set (Q p)" "m x = Some t"
  shows "waits t"
  using members_wait [OF assms(1-3)] assms(4) by auto

section \<open>Every call keeps the invariant\<close>

lemma send_ipc_inv:
  assumes E: "ext_ok E" and inv: "ipc_inv ebx k" and s: "free_thread k s" and ep: "live_endpoint k cap"
  shows "\<exists>k'. send_ipc False E H ebx k blocking do_call bdg cg cgr s cap = Ret (Inr (), k') \<and>
    ipc_inv ebx k' \<and> ipc_effect H ebx k {s} [] k'"
proof -
  from ep obtain e where addr: "paddr cap < 0x10000000000000" and e: "k_eps k (paddr cap) = Some e"
    by (auto simp: live_endpoint_def)
  from s obtain ts where ts: "k_tcbs k s = Some ts" "\<not> waits ts"
    by (auto simp: free_thread_def split: option.splits)
  from inv obtain Q where rep: "ipc_rep (k_tcbs k) (k_eps k) Q" and core: "core_ok ebx k"
    by (auto simp: ipc_inv_def)
  consider (recv) "ep_state e = EpRecv" | (block) "ep_state e \<noteq> EpRecv" "blocking"
    | (skip) "ep_state e \<noteq> EpRecv" "\<not> blocking" by blast
  then show ?thesis
  proof cases
    case recv
    from send_ipc_recv [OF E addr rep e recv ts core] obtain r rs k' tr tr' where
      k': "Q (paddr cap) = r # rs" "r \<noteq> s" "k_tcbs k r = Some tr"
      "send_ipc False E H ebx k blocking do_call bdg cg cgr s cap = Ret (Inr (), k')"
      "ipc_rep (k_tcbs k') (k_eps k') (Q(paddr cap := rs))"
      "tr' = (if do_call \<and> (cg \<or> cgr) then (received ts (tcb_body tr))\<lparr>caller := Some s\<rparr>
            else received ts (tcb_body tr))\<lparr>tstate := wake_state k\<rparr>"
      "k_tcbs k' r = Some tr'" "k_tcbs k' s = Some (sent do_call (cg \<or> cgr) r ts)"
      "k_sched k' = k_sched k" "k_scs k' = k_scs k"
      "\<And>z. z \<noteq> r \<Longrightarrow> z \<noteq> s \<Longrightarrow> tmem_body (k_tcbs k') z = tmem_body (k_tcbs k) z" by metis
    have wr: "waits tr" using waiting_member [OF rep e _ k'(3)] k'(1) by simp
    have "reply_changes k r tr tr'"
      by (simp add: k'(6) reply_changes_def received_def tcb_body_def)
    moreover have "reply_changes k s ts (sent do_call (cg \<or> cgr) r ts)"
      using k'(2,3) by (auto simp: reply_changes_def sent_def)
    ultimately have eff: "ipc_effect H ebx k {s} [] k'"
      by (intro ipc_effect_two [OF ts(1) k'(8) _ k'(3) wr k'(7) _ k'(9,10,11)])
    with k'(4) ipc_invI [OF inv k'(5) core_ok_sched [OF k'(9) core] eff] show ?thesis by blast
  next
    case block
    from send_ipc_block [OF E addr rep e block(1) ts] obtain k' where
      k': "send_ipc False E H ebx k True do_call bdg cg cgr s cap = Ret (Inr (), k')"
      "ipc_rep (k_tcbs k') (k_eps k') (Q(paddr cap := Q (paddr cap) @ [s]))"
      "tmem_body (k_tcbs k') = tmem_body ((k_tcbs k)(s \<mapsto>
         ts\<lparr>ipc_state := \<lparr>badge = bdg, can_grant = cg, can_grant_reply = cgr, is_call = do_call\<rparr>,
            tstate := BlockedOnSend, blocking_object := Some (paddr cap)\<rparr>))"
      "k_sched k' = k_sched k" "k_scs k' = k_scs k" by metis
    have eff: "ipc_effect H ebx k {s} [] k'"
      by (rule ipc_effect_one [OF ts(1) _ k'(4,5,3)]) simp_all
    with k'(1) block ipc_invI [OF inv k'(2) core_ok_sched [OF k'(4) core] eff] show ?thesis by auto
  next
    case skip
    then have "send_ipc False E H ebx k blocking do_call bdg cg cgr s cap = Ret (Inr (), k)"
      using ep_object_Ret [OF E addr e] by (cases "ep_state e") (simp_all add: send_ipc_def)
    with inv ipc_effect_refl show ?thesis by blast
  qed
qed

text \<open>A poll that finds no sender clears the first message register.\<close>

lemma receive_ipc_poll:
  assumes E: "ext_ok E" and addr: "paddr cap < 0x10000000000000" and e: "k_eps k (paddr cap) = Some e"
    and rep: "ipc_rep (k_tcbs k) (k_eps k) Q" and tr: "k_tcbs k r = Some tr" "\<not> waits tr"
    and poll: "ep_state e \<noteq> EpSend" "\<not> is_blocking"
  defines "k' \<equiv> k\<lparr>k_tcbs := (k_tcbs k)(r \<mapsto> with_reg tr 0 0)\<rparr>"
  shows "receive_ipc False E H ebx k r cap is_blocking = Ret (Inr (), k')"
    and "ipc_rep (k_tcbs k') (k_eps k') Q"
proof -
  have regs: "regs_ok tr" by (rule ipc_repD(5) [OF rep tr(1)])
  have "do_nb_recv_failed_transfer False (k_tcbs k) r = Ret ((k_tcbs k)(r \<mapsto> with_reg tr 0 0))"
    using set_mr_at_Ret [where m = "k_tcbs k", OF tr(1) regs, of MR1 0]
    by (simp add: do_nb_recv_failed_transfer_def mr_consts)
  then show "receive_ipc False E H ebx k r cap is_blocking = Ret (Inr (), k')"
    using poll ep_object_Ret [OF E addr e] by (cases "ep_state e") (simp_all add: receive_ipc_def k'_def)
  have "\<not> waits (with_reg tr 0 0)" using tr(2) by (simp add: with_reg_def waits_def)
  then show "ipc_rep (k_tcbs k') (k_eps k') Q"
    using ipc_rep_free [OF rep tr, of "with_reg tr 0 0"] regs by (simp add: k'_def)
qed

lemma receive_ipc_inv:
  assumes E: "ext_ok E" and inv: "ipc_inv ebx k" and r: "free_thread k r" and ep: "live_endpoint k cap"
  shows "\<exists>k'. receive_ipc False E H ebx k r cap is_blocking = Ret (Inr (), k') \<and>
    ipc_inv ebx k' \<and> ipc_effect H ebx k {r} [] k'"
proof -
  from ep obtain e where addr: "paddr cap < 0x10000000000000" and e: "k_eps k (paddr cap) = Some e"
    by (auto simp: live_endpoint_def)
  from r obtain tr where tr: "k_tcbs k r = Some tr" "\<not> waits tr"
    by (auto simp: free_thread_def split: option.splits)
  from inv obtain Q where rep: "ipc_rep (k_tcbs k) (k_eps k) Q" and core: "core_ok ebx k"
    by (auto simp: ipc_inv_def)
  consider (send) "ep_state e = EpSend" | (block) "ep_state e \<noteq> EpSend" "is_blocking"
    | (poll) "ep_state e \<noteq> EpSend" "\<not> is_blocking" by blast
  then show ?thesis
  proof cases
    case send
    from receive_ipc_send [OF E addr rep e send tr core] obtain s ss k' ts tr' where
      k': "Q (paddr cap) = s # ss" "s \<noteq> r" "k_tcbs k s = Some ts"
      "receive_ipc False E H ebx k r cap is_blocking = Ret (Inr (), k')"
      "ipc_rep (k_tcbs k') (k_eps k') (Q(paddr cap := ss))"
      "tr' = (if tstate (taken r ts) = BlockedOnReply then (received ts tr)\<lparr>caller := Some s\<rparr>
            else received ts tr)"
      "k_tcbs k' r = Some tr'" "k_tcbs k' s = Some (taken r (tcb_body ts))"
      "k_sched k' = k_sched k" "k_scs k' = k_scs k"
      "\<And>z. z \<noteq> r \<Longrightarrow> z \<noteq> s \<Longrightarrow> tmem_body (k_tcbs k') z = tmem_body (k_tcbs k) z" by metis
    have ws: "waits ts" using waiting_member [OF rep e _ k'(3)] k'(1) by simp
    have frame: "tmem_body (k_tcbs k') z = tmem_body (k_tcbs k) z" if "z \<noteq> s" "z \<noteq> r" for z
      using k'(11) that by blast
    have "reply_changes k r tr tr'" by (simp add: k'(6) reply_changes_def received_def)
    moreover have "reply_changes k s ts (taken r (tcb_body ts))"
      using k'(2) tr(1) by (auto simp: reply_changes_def taken_def tcb_body_def)
    ultimately have eff: "ipc_effect H ebx k {r} [] k'"
      by (intro ipc_effect_two [OF tr(1) k'(7) _ k'(3) ws k'(8) _ k'(9,10) frame])
    with k'(4) ipc_invI [OF inv k'(5) core_ok_sched [OF k'(9) core] eff] show ?thesis by blast
  next
    case block
    from receive_ipc_block [OF E addr rep e block(1) tr] obtain k' where
      k': "receive_ipc False E H ebx k r cap True = Ret (Inr (), k')"
      "ipc_rep (k_tcbs k') (k_eps k') (Q(paddr cap := Q (paddr cap) @ [r]))"
      "tmem_body (k_tcbs k') = tmem_body ((k_tcbs k)(r \<mapsto>
         tr\<lparr>tstate := BlockedOnReceive, blocking_object := Some (paddr cap)\<rparr>))"
      "k_sched k' = k_sched k" "k_scs k' = k_scs k" by metis
    have eff: "ipc_effect H ebx k {r} [] k'"
      by (rule ipc_effect_one [OF tr(1) _ k'(4,5,3)]) simp_all
    with k'(1) block ipc_invI [OF inv k'(2) core_ok_sched [OF k'(4) core] eff] show ?thesis by auto
  next
    case poll
    let ?k' = "k\<lparr>k_tcbs := (k_tcbs k)(r \<mapsto> with_reg tr 0 0)\<rparr>"
    note p = receive_ipc_poll [OF E addr e rep tr poll]
    have eff: "ipc_effect H ebx k {r} [] ?k'"
      by (rule ipc_effect_one [OF tr(1), where u = "with_reg tr 0 0"]) (simp_all add: with_reg_def)
    have "core_ok ebx ?k'" using core by (simp add: core_ok_def)
    from p(1) [of H ebx] ipc_invI [OF inv p(2) this eff] eff show ?thesis by blast
  qed
qed

lemma cancel_ipc_inv:
  assumes inv: "ipc_inv ebx k" and x: "k_tcbs k x = Some t"
  shows "\<exists>k'. cancel_ipc k x = Ret k' \<and> ipc_inv ebx k' \<and> ipc_effect H ebx k {} [] k'"
proof -
  from inv obtain Q where rep: "ipc_rep (k_tcbs k) (k_eps k) Q" and core: "core_ok ebx k"
    and ok: "thread_ok k x t" using x by (auto simp: ipc_inv_def)
  show ?thesis
  proof (cases "waits t")
    case True
    from cancel_ipc_waiting [OF rep x True] obtain p k' where
      k': "cancel_ipc k x = Ret k'" "ipc_rep (k_tcbs k') (k_eps k') (Q(p := remove1 x (Q p)))"
      "k_tcbs k' x = Some ((tcb_body t)\<lparr>tstate := Inactive, blocking_object := None\<rparr>)"
      "\<And>z. z \<noteq> x \<Longrightarrow> tmem_body (k_tcbs k') z = tmem_body (k_tcbs k) z"
      "k_sched k' = k_sched k" "k_scs k' = k_scs k" by metis
    have "thread_change k {} x t ((tcb_body t)\<lparr>tstate := Inactive, blocking_object := None\<rparr>)"
      by (simp add: thread_change_def reply_changes_def tcb_body_def)
    then have eff: "ipc_effect H ebx k {} [] k'"
      using k'(3,4) x by (intro ipc_effectI [OF k'(6) requeued_none [OF k'(5)], of "{x}"]) auto
    with k'(1) ipc_invI [OF inv k'(2) core_ok_sched [OF k'(5) core] eff] show ?thesis by blast
  next
    case False
    have callee: "\<And>c. tstate t = BlockedOnReply \<Longrightarrow> reply_to t = Some c \<Longrightarrow> c \<in> dom (k_tcbs k) \<and> c \<noteq> x"
      using ok by (simp add: thread_ok_def)
    obtain k' t' where
      k': "cancel_ipc k x = Ret k'" "ipc_rep (k_tcbs k') (k_eps k') Q" "k_tcbs k' x = Some t'"
      "k_sched k' = k_sched k" "k_scs k' = k_scs k"
      "tstate t' = (if tstate t = BlockedOnReply \<or> tstate t = BlockedOnNotification then Inactive else tstate t)"
      "dom (k_tcbs k') = dom (k_tcbs k)"
      and fields: "\<forall>z u u'. k_tcbs k z = Some u \<longrightarrow> k_tcbs k' z = Some u' \<longrightarrow>
         sched_context u' = sched_context u \<and> (reply_to u' = reply_to u \<or> reply_to u' = None) \<and>
         (tstate u' = tstate u \<or> tstate u' = Inactive)"
      by (rule cancel_ipc_other [OF rep x False callee])
    have eff: "ipc_effect H ebx k {} [] k'"
      using fields k'(5,7) requeued_none [OF k'(4)]
      by (auto simp: ipc_effect_def thread_change_def reply_changes_def)
    with k'(1) ipc_invI [OF inv k'(2) core_ok_sched [OF k'(4) core] eff] show ?thesis by blast
  qed
qed

lemma all_restarted_effect:
  assumes r: "all_restarted H ebx k xs k'" and dist: "distinct xs"
    and w: "\<And>x t. x \<in> set xs \<Longrightarrow> k_tcbs k x = Some t \<Longrightarrow> waits t"
  shows "ipc_effect H ebx k {} xs k'"
proof (rule ipc_effectI [of _ _ _ _ _ "set xs"])
  note r = r [unfolded all_restarted_def]
  show "k_scs k' = k_scs k" using r by blast
  show "requeued H ebx k xs k'" using r dist w by (fastforce simp: requeued_def)
  show "tmem_body (k_tcbs k') z = tmem_body (k_tcbs k) z" if "z \<notin> set xs" for z using r that by blast
  show "\<exists>t t'. k_tcbs k z = Some t \<and> k_tcbs k' z = Some t' \<and> thread_change k {} z t t'" if "z \<in> set xs" for z
  proof -
    from r that obtain t where "k_tcbs k z = Some t"
      "k_tcbs k' z = Some (restarted (restart_state k) (tcb_body t))" by blast
    moreover from this(1) w that have "thread_change k {} z t (restarted (restart_state k) (tcb_body t))"
      by (simp add: thread_change_def reply_changes_def restarted_def tcb_body_def)
    ultimately show ?thesis by blast
  qed
qed

lemma cancel_many_inv:
  assumes E: "ext_ok E" and inv: "ipc_inv ebx k" and ep: "live_endpoint k cap"
  shows "\<exists>k' xs. cancel_all_ipc E H ebx k cap = Some (Ret k') \<and> ipc_inv ebx k' \<and> ipc_effect H ebx k {} xs k'"
    and "\<exists>k' xs. cancel_badged_sends E H ebx k cap bdg = Some (Ret k') \<and> ipc_inv ebx k' \<and>
      ipc_effect H ebx k {} xs k'"
proof -
  from ep obtain e where addr: "paddr cap < 0x10000000000000" and e: "k_eps k (paddr cap) = Some e"
    by (auto simp: live_endpoint_def)
  from inv obtain Q where rep: "ipc_rep (k_tcbs k) (k_eps k) Q" and core: "core_ok ebx k"
    by (auto simp: ipc_inv_def)
  have sc: "sc_valid (k_scs k) t" if "k_tcbs k x = Some t" for x t
    using inv that by (auto simp: ipc_inv_def thread_ok_def)
  have keep: "ipc_inv ebx k' \<and> ipc_effect H ebx k {} (filter P (Q (paddr cap))) k'"
    if "ipc_rep (k_tcbs k') (k_eps k') Q'" "all_restarted H ebx k (filter P (Q (paddr cap))) k'" for k' Q' P
  proof -
    have "distinct (Q (paddr cap))" by (rule tq.rep_distinct [OF ipc_repD(1) [OF rep e]])
    then have eff: "ipc_effect H ebx k {} (filter P (Q (paddr cap))) k'"
      using waiting_member [OF rep e] by (intro all_restarted_effect [OF that(2)]) auto
    moreover from that(2) have "core_ok ebx k'" by (simp add: all_restarted_def)
    ultimately show ?thesis using ipc_invI [OF inv that(1) _ eff] by blast
  qed
  obtain k' where "cancel_all_ipc E H ebx k cap = Some (Ret k')"
    "ipc_rep (k_tcbs k') (k_eps k') (Q(paddr cap := []))" "all_restarted H ebx k (Q (paddr cap)) k'"
    by (rule cancel_all_ipc_Ret [where H = H, OF E addr rep e core]) (rule sc)
  with keep [of k' _ "\<lambda>_. True"]
  show "\<exists>k' xs. cancel_all_ipc E H ebx k cap = Some (Ret k') \<and> ipc_inv ebx k' \<and> ipc_effect H ebx k {} xs k'"
    by auto
  show "\<exists>k' xs. cancel_badged_sends E H ebx k cap bdg = Some (Ret k') \<and> ipc_inv ebx k' \<and>
      ipc_effect H ebx k {} xs k'"
  proof (cases "ep_state e = EpSend")
    case True
    obtain k' where "cancel_badged_sends E H ebx k cap bdg = Some (Ret k')"
      "ipc_rep (k_tcbs k') (k_eps k')
         (Q(paddr cap := filter (\<lambda>x. \<not> with_badge k bdg x) (Q (paddr cap))))"
      "all_restarted H ebx k (filter (with_badge k bdg) (Q (paddr cap))) k'"
      by (rule cancel_badged_sends_Ret [where H = H and bdg = bdg, OF E addr rep e True core]) (rule sc)
    with keep show ?thesis by blast
  next
    case False
    then have "cancel_badged_sends E H ebx k cap bdg = Some (Ret k)"
      using ep_object_Ret [OF E addr e] by (simp add: cancel_badged_sends_def)
    with inv ipc_effect_refl show ?thesis by blast
  qed
qed

text \<open>The thread that makes a call, and the calls that hand threads to the scheduler.\<close>

fun callers :: "ipc_call \<Rightarrow> ptr set" where
  "callers (CallSend _ _ _ _ _ s _) = {s}"
| "callers (CallReceive r _ _) = {r}"
| "callers _ = {}"

fun requeues :: "ipc_call \<Rightarrow> bool" where
  "requeues (CallCancelAll _) \<longleftrightarrow> True"
| "requeues (CallCancelBadged _ _) \<longleftrightarrow> True"
| "requeues _ \<longleftrightarrow> False"

lemma perform_inv:
  assumes "ext_ok E" "ipc_inv ebx k" "permitted k c"
  shows "\<exists>k' xs. perform E H ebx k c = Some (Ret k') \<and> ipc_inv ebx k' \<and>
    ipc_effect H ebx k (callers c) xs k' \<and> (requeues c \<or> xs = [])"
proof (cases c)
  case (CallSend blocking do_call bdg cg cgr s cap)
  with assms send_ipc_inv [of E ebx k s cap H blocking do_call bdg cg cgr] show ?thesis by auto
next
  case (CallReceive r cap is_blocking)
  with assms receive_ipc_inv [of E ebx k r cap H is_blocking] show ?thesis by auto
next
  case (CallCancel x)
  with assms cancel_ipc_inv [of ebx k x _ H] show ?thesis by auto
next
  case (CallCancelAll cap)
  with assms cancel_many_inv(1) [of E ebx k cap H] show ?thesis by auto
next
  case (CallCancelBadged cap bdg)
  with assms cancel_many_inv(2) [of E ebx k cap H bdg] show ?thesis by auto
qed

section \<open>Properties\<close>

text \<open>
  Claim C3. In a release build, no sequence of sends, receives and cancellations breaks the
  endpoint invariant, and none gets stuck: in every state that is reachable from a state with
  the invariant, every permitted call returns, without a panic, an invalid memory access or an
  endless loop.
\<close>

theorem ipc_invariant:
  assumes E: "ext_ok E" and start: "ipc_inv ebx k0" and reach: "(ipc_step E H ebx)\<^sup>*\<^sup>* k0 k"
  shows "ipc_inv ebx k \<and> (\<forall>c. permitted k c \<longrightarrow> (\<exists>k'. perform E H ebx k c = Some (Ret k')))"
proof -
  from reach have "ipc_inv ebx k"
  proof (induction rule: rtranclp_induct)
    case base
    show ?case by (rule start)
  next
    case (step k k')
    from step.hyps(2) obtain c where "permitted k c" "perform E H ebx k c = Some (Ret k')"
      by (elim ipc_stepE)
    with perform_inv [OF E step.IH, of c H] show ?case by simp
  qed
  with perform_inv [OF E] show ?thesis by blast
qed

theorem ipc_invariant_witness:
  "\<exists>k. ipc_step ext_doc list_heap 0 demo_kernel k \<and> ipc_inv 0 k \<and>
     (\<exists>k'. perform ext_doc list_heap 0 k (CallCancelAll demo_ep) = Some (Ret k'))"
proof -
  have inv: "ipc_inv 0 demo_kernel"
    using demo_kernel_rep demo_kernel_core demo_kernel_sc
    by (auto simp: ipc_inv_def thread_ok_def demo_kernel_def Tcb_new_def split: if_splits)
  have allowed: "permitted demo_kernel (CallCancel 0x800)" by (simp add: demo_kernel_def)
  from ipc_invariant [OF ext_doc_ok inv rtranclp.rtrancl_refl] allowed obtain k where
    k: "perform ext_doc list_heap 0 demo_kernel (CallCancel 0x800) = Some (Ret k)" by blast
  have step: "ipc_step ext_doc list_heap 0 demo_kernel k" by (rule call [OF allowed k])
  from ipc_invariant [OF ext_doc_ok inv r_into_rtranclp [of "ipc_step ext_doc list_heap 0", OF step]] have
    inv': "ipc_inv 0 k" and
    all: "\<forall>c. permitted k c \<longrightarrow> (\<exists>k'. perform ext_doc list_heap 0 k c = Some (Ret k'))" by blast+
  have "live_endpoint k demo_ep"
    using k by (auto simp: live_endpoint_def demo_kernel_def cancel_ipc_def queue_remove_def set_state_def
        Tcb_new_def Let_def queue_is_empty_def)
  with all have "\<exists>k'. perform ext_doc list_heap 0 k (CallCancelAll demo_ep) = Some (Ret k')"
    by (metis permitted.simps(4))
  with inv' step show ?thesis by blast
qed

end
