(* ===== verification/Devices.thy ===== *)
theory Devices
  imports Complex_Main Segments Traces
begin

unbundle bit_operations_syntax

text \<open>
  The interrupt and timer hardware: the legacy controller (\<open>arch/x86_64/pic.rs\<close>), the interval
  timer (\<open>pit.rs\<close>), the local and the I/O interrupt controller (\<open>apic.rs\<close>,
  \<open>constants/apic.rs\<close>) and the ACPI region mapper (\<open>acpi.rs\<close>).

  A device operation extends the trace of accesses and log records, in order. What a
  device answers to a read is a function of the trace so far and of the address, so that
  nothing is assumed about the hardware. A register of an interrupt controller is accessed through a
  virtual address; when its page is not mapped the access faults. Floating-point numbers are the rationals they stand for; every
  operation rounds its exact result to the nearest representable value, ties to even. Only positive
  finite numbers and positive infinity occur.
\<close>

section \<open>Accesses\<close>

record devices =
  port_answer :: "io_trace \<Rightarrow> u16 \<Rightarrow> u8"
  mmio_answer :: "io_trace \<Rightarrow> u64 \<Rightarrow> u32"
  cpuid1_edx :: u32
  mapped_page :: "u64 \<Rightarrow> bool"

definition outb :: "u16 \<Rightarrow> u8 \<Rightarrow> io_trace \<Rightarrow> io_trace" where
  "outb p v t = t @ [Out8 p v]"

definition inb :: "devices \<Rightarrow> u16 \<Rightarrow> io_trace \<Rightarrow> u8 \<times> io_trace" where
  "inb D p t = (let v = port_answer D t p in (v, t @ [In8 p v]))"

text \<open>\<open>mapped_page\<close> tells which virtual pages are mapped; all registers are aligned.\<close>

definition mapped :: "devices \<Rightarrow> u64 \<Rightarrow> bool" where
  "mapped D a = mapped_page D (drop_bit 12 a)"

definition write_volatile :: "devices \<Rightarrow> u64 \<Rightarrow> u32 \<Rightarrow> io_trace \<Rightarrow> io_trace outcome" where
  "write_volatile D a v t = (if mapped D a then Ret (t @ [Write32 a v]) else Fault)"

definition read_volatile :: "devices \<Rightarrow> u64 \<Rightarrow> io_trace \<Rightarrow> (u32 \<times> io_trace) outcome" where
  "read_volatile D a t =
     (if mapped D a then let v = mmio_answer D t a in Ret (v, t @ [Read32 a v]) else Fault)"

section \<open>Floating point\<close>

fun bits :: "nat \<Rightarrow> nat" where
  "bits n = (if n = 0 then 0 else Suc (bits (n div 2)))"

declare bits.simps [simp del]

text \<open>The exponent of a positive number: the largest power of two that is not above it.\<close>

definition flog :: "rat \<Rightarrow> int" where
  "flog x = (if 1 \<le> x then int (bits (nat \<lfloor>x\<rfloor>)) - 1 else - int (bits (nat \<lceil>1 / x\<rceil> - 1)))"

definition round_half_even :: "rat \<Rightarrow> int" where
  "round_half_even x =
     (let f = \<lfloor>x\<rfloor>; d = x - of_int f
      in if d < 1 / 2 then f else if 1 / 2 < d then f + 1 else if even f then f else f + 1)"

text \<open>Rounding to a significand of \<open>p\<close> bits: 24 for \<open>f32\<close>, 53 for \<open>f64\<close>.\<close>

definition fround :: "nat \<Rightarrow> rat \<Rightarrow> rat" where
  "fround p x =
     (if x = 0 then 0
      else let u = 2 powi (flog x - (int p - 1)) in of_int (round_half_even (x / u)) * u)"

text \<open>Division; \<open>None\<close> is infinity, the quotient of a positive number by zero.\<close>

definition fdiv :: "nat \<Rightarrow> rat \<Rightarrow> rat \<Rightarrow> rat option" where
  "fdiv p x y = (if y = 0 then None else Some (fround p (x / y)))"

text \<open>The saturating casts \<open>as u32\<close> and \<open>as u64\<close>.\<close>

definition fcast :: "rat option \<Rightarrow> 'a::len word" where
  "fcast x = (case x of None \<Rightarrow> of_nat (2 ^ LENGTH('a) - 1)
     | Some v \<Rightarrow> of_nat (min (nat \<lfloor>v\<rfloor>) (2 ^ LENGTH('a) - 1)))"

section \<open>Durations\<close>

text \<open>In nanoseconds.\<close>

type_synonym duration = nat

definition from_millis :: "nat \<Rightarrow> duration" where
  "from_millis m = m * 1000000"

definition as_millis :: "duration \<Rightarrow> nat" where
  "as_millis d = d div 1000000"

section \<open>The legacy interrupt controller\<close>

definition PIC_1_PORT :: u16 where "PIC_1_PORT = 0x21"
definition PIC_2_PORT :: u16 where "PIC_2_PORT = 0xA1"

record Pic =
  pic1 :: u16
  pic2 :: u16

definition Pic_new :: Pic where
  "Pic_new = \<lparr>pic1 = PIC_1_PORT, pic2 = PIC_2_PORT\<rparr>"

definition Pic_disable :: "Pic \<Rightarrow> io_trace \<Rightarrow> io_trace" where
  "Pic_disable p t = outb (pic2 p) 0xff (outb (pic1 p) 0xff t)"

section \<open>The interval timer\<close>

definition FREQUENCE_HZ :: u64 where "FREQUENCE_HZ = 1193182"
definition COMMAND_PORT :: u16 where "COMMAND_PORT = 0x43"
definition DATA_PORT :: u16 where "DATA_PORT = 0x40"

datatype Mode = InterruptOnTerminalCount | RateGenerator

fun Mode_code :: "Mode \<Rightarrow> u8" where
  "Mode_code InterruptOnTerminalCount = 0x0"
| "Mode_code RateGenerator = 0x2"

record Pit =
  command_port :: u16
  data_port :: u16

definition reload_value :: "duration \<Rightarrow> u16 outcome" where
  "reload_value counter =
     (let millis = fround 53 (of_nat (as_millis counter));
          frequence = fdiv 53 (fround 53 (1000 * 1)) millis;
          f = (fcast frequence :: u64)
      in if f = 0 then Panic else Ret (ucast (FREQUENCE_HZ div f)))"

definition Pit_new :: "bool \<Rightarrow> duration \<Rightarrow> io_trace \<Rightarrow> (Pit \<times> io_trace) outcome" where
  "Pit_new dbg counter t =
     obind (reload_value counter) (\<lambda>v.
       let low = ucast (v AND 0xFF); high = ucast (drop_bit 8 v);
           p = \<lparr>command_port = COMMAND_PORT, data_port = DATA_PORT\<rparr>;
           t1 = log_record dbg Debug (MsgPit counter v) t
       in Ret (p, outb (data_port p) high (outb (data_port p) low (outb (command_port p) 0b00110000 t1))))"

definition Pit_set_mode :: "Pit \<Rightarrow> Mode \<Rightarrow> io_trace \<Rightarrow> io_trace" where
  "Pit_set_mode p m t = outb (command_port p) (Mode_code m) t"

definition Pit_read :: "devices \<Rightarrow> Pit \<Rightarrow> io_trace \<Rightarrow> u16 \<times> io_trace" where
  "Pit_read D p t =
     (let (low, t1) = inb D (data_port p) (outb (command_port p) 0x00 t);
          (high, t2) = inb D (data_port p) t1
      in (push_bit 8 (ucast high) OR ucast low, t2))"

section \<open>The local and the I/O interrupt controller\<close>

datatype ApicRegister =
    LapicSivr | LapicEoi | LapicLvtt | LapicTdcr | LapicTicr | LapicTccr
  | IoApicId | IoapicVersion | IoapicArbId | IoapicRedirectionTableBase

fun ApicRegister_code :: "ApicRegister \<Rightarrow> u32" where
  "ApicRegister_code LapicSivr = 0xF0"
| "ApicRegister_code LapicEoi = 0xB0"
| "ApicRegister_code LapicLvtt = 0x320"
| "ApicRegister_code LapicTdcr = 0x3E0"
| "ApicRegister_code LapicTicr = 0x380"
| "ApicRegister_code LapicTccr = 0x390"
| "ApicRegister_code IoApicId = 0x0"
| "ApicRegister_code IoapicVersion = 0x1"
| "ApicRegister_code IoapicArbId = 0x2"
| "ApicRegister_code IoapicRedirectionTableBase = 0x10"

datatype ApicValue = TdcrDivideBy1 | SvrEnable

fun ApicValue_code :: "ApicValue \<Rightarrow> u32" where
  "ApicValue_code TdcrDivideBy1 = 0x1"
| "ApicValue_code SvrEnable = 0x100"

record Apic =
  io_apic_addr :: u64
  lapic_addr :: u64

definition Apic_new :: Apic where
  "Apic_new = \<lparr>io_apic_addr = 0, lapic_addr = 0\<rparr>"

text \<open>\<open>ptr.offset(r as isize / 4)\<close> on a pointer to \<open>u32\<close>.\<close>

definition reg_ptr :: "u64 \<Rightarrow> ApicRegister \<Rightarrow> u64" where
  "reg_ptr base r = base + 4 * (ucast (ApicRegister_code r) div 4)"

definition has_apic :: "devices \<Rightarrow> bool" where
  "has_apic D \<longleftrightarrow> cpuid1_edx D AND push_bit 9 1 \<noteq> 0"

definition enable_io_apic :: "devices \<Rightarrow> u64 \<Rightarrow> io_trace \<Rightarrow> io_trace outcome" where
  "enable_io_apic D addr t = write_volatile D addr 0x12 t"

definition enable_lapic :: "devices \<Rightarrow> u64 \<Rightarrow> io_trace \<Rightarrow> io_trace outcome" where
  "enable_lapic D addr t =
     (let svr = reg_ptr addr LapicSivr in
      obind (read_volatile D svr t) (\<lambda>(v, t1).
        write_volatile D svr (v OR ApicValue_code SvrEnable) t1))"

definition map_apic :: "bool \<Rightarrow> x86_crate \<Rightarrow> u64 \<Rightarrow> u64 \<Rightarrow> u64 outcome" where
  "map_apic dbg X paddr vspace_offset =
     obind (u_add dbg paddr vspace_offset) (\<lambda>a. expect (virt_new X a))"

definition Apic_init ::
    "bool \<Rightarrow> x86_crate \<Rightarrow> devices \<Rightarrow> Apic \<Rightarrow> usize \<Rightarrow> u64 \<Rightarrow> io_trace \<Rightarrow> (Apic \<times> io_trace) outcome" where
  "Apic_init dbg X D self rsdp_addr vspace_offset t =
     (if \<not> has_apic D then Panic
      else
        let t1 = Pic_disable Pic_new t in
        obind (map_apic dbg X 0xFEC00000 vspace_offset) (\<lambda>io.
        obind (map_apic dbg X 0xFEE00000 vspace_offset) (\<lambda>la.
        obind (enable_io_apic D io t1) (\<lambda>t2.
        obind (enable_lapic D la t2) (\<lambda>t3.
          Ret (self\<lparr>io_apic_addr := io, lapic_addr := la\<rparr>, log_record dbg Info (MsgApic io la) t3))))))"

definition ioapic_read :: "devices \<Rightarrow> Apic \<Rightarrow> u32 \<Rightarrow> io_trace \<Rightarrow> (u32 \<times> io_trace) outcome" where
  "ioapic_read D a reg t =
     obind (write_volatile D (io_apic_addr a) reg t) (\<lambda>t1. read_volatile D (io_apic_addr a + 4 * 4) t1)"

definition ioapic_write :: "devices \<Rightarrow> Apic \<Rightarrow> u32 \<Rightarrow> u32 \<Rightarrow> io_trace \<Rightarrow> io_trace outcome" where
  "ioapic_write D a reg v t =
     obind (write_volatile D (io_apic_addr a) reg t) (\<lambda>t1. write_volatile D (io_apic_addr a + 4 * 4) v t1)"

definition init_counter :: "devices \<Rightarrow> Apic \<Rightarrow> bool \<Rightarrow> u32 \<Rightarrow> io_trace \<Rightarrow> (u32 \<times> io_trace) outcome" where
  "init_counter D a periodic ticks t =
     (let p = lapic_addr a in
      obind (write_volatile D (reg_ptr p LapicLvtt) (0x20 OR push_bit 17 (if periodic then 1 else 0)) t) (\<lambda>t1.
      obind (write_volatile D (reg_ptr p LapicTdcr) (ApicValue_code TdcrDivideBy1) t1) (\<lambda>t2.
      obind (write_volatile D (reg_ptr p LapicTicr) ticks t2) (\<lambda>t3.
        Ret (ticks, t3)))))"

definition read_counter :: "devices \<Rightarrow> Apic \<Rightarrow> io_trace \<Rightarrow> (u32 \<times> io_trace) outcome" where
  "read_counter D a t = read_volatile D (reg_ptr (lapic_addr a) LapicTccr) t"

definition end_interrupt :: "devices \<Rightarrow> Apic \<Rightarrow> io_trace \<Rightarrow> io_trace outcome" where
  "end_interrupt D a t = write_volatile D (reg_ptr (lapic_addr a) LapicEoi) 0 t"

section \<open>The ACPI region mapper\<close>

text \<open>The mapping that \<open>PhysicalMapping::new\<close> describes: physical start, virtual start, region
  length and mapped length. Unmapping does nothing.\<close>

record Acpi =
  physical_memory_offset :: u64

record PhysicalMapping =
  physical_start :: u64
  virtual_start :: u64
  region_length :: usize
  mapped_length :: usize

definition Acpi_new :: "u64 \<Rightarrow> Acpi" where
  "Acpi_new off = \<lparr>physical_memory_offset = off\<rparr>"

definition map_physical_region ::
    "x86_crate \<Rightarrow> (u64 \<Rightarrow> u64 option) \<Rightarrow> Acpi \<Rightarrow> usize \<Rightarrow> usize \<Rightarrow> PhysicalMapping outcome" where
  "map_physical_region X phys_addr_new self physical_address sz =
     obind (expect (phys_addr_new physical_address)) (\<lambda>phys_addr.
     obind (expect (virt_add X (physical_memory_offset self) phys_addr)) (\<lambda>virt_addr.
     obind (assert_that (virt_addr \<noteq> 0)) (\<lambda>_.
       Ret \<lparr>physical_start = physical_address, virtual_start = virt_addr, region_length = sz, mapped_length = sz\<rparr>)))"

section \<open>Lemmas on the registers\<close>

text \<open>The registers that the timer and the routing of its interrupt use are mapped.\<close>

definition lapic_mapped :: "devices \<Rightarrow> Apic \<Rightarrow> bool" where
  "lapic_mapped D a \<longleftrightarrow> (\<forall>r \<in> {LapicEoi, LapicLvtt, LapicTdcr, LapicTicr, LapicTccr}.
     mapped D (reg_ptr (lapic_addr a) r))"

definition ioapic_mapped :: "devices \<Rightarrow> Apic \<Rightarrow> bool" where
  "ioapic_mapped D a \<longleftrightarrow> mapped D (io_apic_addr a) \<and> mapped D (io_apic_addr a + 16)"

lemma lapic_mapped_regs:
  "lapic_mapped D a \<Longrightarrow> r \<in> {LapicEoi, LapicLvtt, LapicTdcr, LapicTicr, LapicTccr} \<Longrightarrow>
    mapped D (reg_ptr (lapic_addr a) r)"
  unfolding lapic_mapped_def by blast

text \<open>The counter of the local timer, and the trace after its registers were accessed.\<close>

definition counter :: "devices \<Rightarrow> Apic \<Rightarrow> io_trace \<Rightarrow> u32" where
  "counter D a t = mmio_answer D t (reg_ptr (lapic_addr a) LapicTccr)"

definition after_read :: "devices \<Rightarrow> Apic \<Rightarrow> io_trace \<Rightarrow> io_trace" where
  "after_read D a t = t @ [Read32 (reg_ptr (lapic_addr a) LapicTccr) (counter D a t)]"

definition programmed :: "Apic \<Rightarrow> bool \<Rightarrow> u32 \<Rightarrow> io_trace \<Rightarrow> io_trace" where
  "programmed a periodic n t = t @ [Write32 (reg_ptr (lapic_addr a) LapicLvtt) (0x20 OR push_bit 17 (if periodic then 1 else 0)),
     Write32 (reg_ptr (lapic_addr a) LapicTdcr) 1, Write32 (reg_ptr (lapic_addr a) LapicTicr) n]"

definition acknowledged :: "Apic \<Rightarrow> io_trace \<Rightarrow> io_trace" where
  "acknowledged a t = t @ [Write32 (reg_ptr (lapic_addr a) LapicEoi) 0]"

lemma read_counter_eq:
  "read_counter D a t = (if mapped D (reg_ptr (lapic_addr a) LapicTccr) then Ret (counter D a t, after_read D a t) else Fault)"
  by (simp add: read_counter_def read_volatile_def counter_def after_read_def Let_def)

lemma end_interrupt_eq:
  "end_interrupt D a t = (if mapped D (reg_ptr (lapic_addr a) LapicEoi) then Ret (acknowledged a t) else Fault)"
  by (simp add: end_interrupt_def write_volatile_def acknowledged_def)

lemma mapped_Ret:
  assumes "lapic_mapped D a"
  shows "read_counter D a t = Ret (counter D a t, after_read D a t)"
    "end_interrupt D a t = Ret (acknowledged a t)" "init_counter D a periodic n t = Ret (n, programmed a periodic n t)"
  using assms
  by (simp_all add: read_counter_eq end_interrupt_eq init_counter_def write_volatile_def programmed_def lapic_mapped_regs Let_def)

section \<open>Lemmas on floating point\<close>

lemma bits_pos: "n \<noteq> 0 \<Longrightarrow> 0 < bits n"
  by (simp add: bits.simps)

lemma bits_bounds: "n \<noteq> 0 \<Longrightarrow> 2 ^ (bits n - 1) \<le> n \<and> n < 2 ^ bits n"
proof (induction n rule: bits.induct)
  case (1 n)
  show ?case
  proof (cases "n div 2 = 0")
    case True
    then have "n = 1" using 1(2) by simp
    then show ?thesis by (simp add: bits.simps)
  next
    case False
    then have ih: "2 ^ (bits (n div 2) - 1) \<le> n div 2" "n div 2 < 2 ^ bits (n div 2)" using 1 by auto
    from bits_pos [OF False] obtain m where m: "bits (n div 2) = Suc m" by (cases "bits (n div 2)") auto
    have "bits n = Suc (Suc m)" using 1(2) m by (subst bits.simps) simp
    moreover have "n = 2 * (n div 2) + n mod 2" "n mod 2 < 2" by simp_all
    ultimately show ?thesis using ih by (simp only: m power_Suc diff_Suc_1) linarith
  qed
qed

lemma bits_le: "n < 2 ^ p \<Longrightarrow> bits n \<le> p"
proof (cases "n = 0")
  case False
  assume "n < 2 ^ p"
  with bits_bounds [OF False] have "(2::nat) ^ (bits n - 1) < 2 ^ p" by linarith
  then have "bits n - 1 < p" by simp
  then show ?thesis by simp
qed (simp add: bits.simps)

lemma round_half_even_int: "round_half_even (of_int k) = k"
  by (simp add: round_half_even_def)

lemma fround_nat:
  assumes "n < 2 ^ p"
  shows "fround p (of_nat n) = of_nat n"
proof (cases "n = 0")
  case False
  define k where "k = p - bits n"
  have b: "bits n \<le> p" by (rule bits_le [OF assms])
  have "flog (of_nat n) = int (bits n) - 1" using False by (simp add: flog_def)
  then have "flog (of_nat n) - (int p - 1) = - int k" using b by (simp add: k_def)
  then have u: "(2 :: rat) powi (flog (of_nat n) - (int p - 1)) = 1 / 2 ^ k" by (simp add: power_int_minus inverse_eq_divide)
  have "(of_nat n :: rat) / (1 / 2 ^ k) = of_int (int (n * 2 ^ k))" by simp
  then have "round_half_even ((of_nat n :: rat) / (1 / 2 ^ k)) = int (n * 2 ^ k)" by (simp only: round_half_even_int)
  then show ?thesis using False by (simp add: fround_def u Let_def)
qed (simp add: fround_def)

lemma fround_numeral [simp]: "(numeral k :: nat) < 2 ^ p \<Longrightarrow> fround p (numeral k) = numeral k"
  using fround_nat [of "numeral k" p] by simp

lemma fcast_nat:
  assumes "n < 2 ^ LENGTH('a)"
  shows "unat (fcast (Some (of_nat n)) :: 'a::len word) = n"
  using assms by (simp add: fcast_def min_def unat_of_nat take_bit_nat_eq_self)

lemma reload_50ms: "reload_value (from_millis 50) = Ret 59659"
  by (simp add: reload_value_def from_millis_def as_millis_def fdiv_def fcast_def Let_def FREQUENCE_HZ_def)

end
