(* ===== verification/Interrupts.thy ===== *)
theory Interrupts
  imports Sync Devices
begin

unbundle bit_operations_syntax

text \<open>
  The timer tick and the interrupt handlers: calibration of the local timer and the periodic tick
  (\<open>arch/x86_64/tick.rs\<close>), the interrupt descriptor table and its handlers
  (\<open>interrupts/idt.rs\<close>, \<open>constants/interrupts.rs\<close>), loading the tables
  (\<open>interrupts/mod.rs\<close>), and the locks around the global timer state (\<open>main.rs\<close>).

  The tick composes the device trace with the scheduler of the running core. A lock is a flag and
  a value; taking a lock that is held never returns, because the handlers run with interrupts
  disabled on the core that holds it.

  Shown: calibration ends after exactly ten timer interrupts, with the timer programmed to a tenth
  of the sum of the ten samples; every vector that runs on a stack of its own has one; a timer interrupt that
  does not switch threads is acknowledged once and releases its lock; one that switches threads
  is never acknowledged, keeps the lock, and every later timer interrupt waits for it for ever.
\<close>

section \<open>Calibration\<close>

definition DEFAULT_TICKS_HZ :: rat where "DEFAULT_TICKS_HZ = 100"
definition CALIBRATION_SAMPLES :: nat where "CALIBRATION_SAMPLES = 10"

text \<open>Global interrupt 2 is the interval timer; it is sent to processor 0 as vector 0x20.\<close>

definition set_ioapic_pit_interrupt :: "devices \<Rightarrow> Apic \<Rightarrow> io_trace \<Rightarrow> io_trace outcome" where
  "set_ioapic_pit_interrupt D apic t =
     (let gsi = 2; vector = 0x20; dest_apic_id = 0;
          low_index = 0x10 + gsi * 2; high_index = low_index + 1
      in obind (ioapic_write D apic high_index (push_bit 24 dest_apic_id) t) (\<lambda>t1.
           ioapic_write D apic low_index vector t1))"

record Tick =
  apic :: Apic
  is_calibration :: bool
  tick_count :: u64
  tick_duration :: duration
  lapic_counter :: u32
  calibration :: "u32 list"
  calibration_idx :: usize

definition Tick_new :: Tick where
  "Tick_new = \<lparr>apic = Apic_new, is_calibration = True, tick_count = 0, tick_duration = from_millis 50,
     lapic_counter = 0, calibration = replicate CALIBRATION_SAMPLES 0, calibration_idx = 0\<rparr>"

definition init_counters :: "bool \<Rightarrow> devices \<Rightarrow> Tick \<Rightarrow> io_trace \<Rightarrow> (Tick \<times> io_trace) outcome" where
  "init_counters dbg D self t =
     obind (Pit_new dbg (tick_duration self) t) (\<lambda>(pit, t1).
       let t2 = Pit_set_mode pit InterruptOnTerminalCount t1 in
       obind (init_counter D (apic self) False (- 1) t2) (\<lambda>(_, t3).
       obind (read_counter D (apic self) t3) (\<lambda>(v, t4).
         Ret (self\<lparr>lapic_counter := v\<rparr>, t4))))"

definition calibrate :: "bool \<Rightarrow> devices \<Rightarrow> Tick \<Rightarrow> Apic \<Rightarrow> io_trace \<Rightarrow> (Tick \<times> io_trace) outcome" where
  "calibrate dbg D self a t =
     (let self1 = self\<lparr>is_calibration := True, apic := a, calibration_idx := 0\<rparr>
      in obind (set_ioapic_pit_interrupt D (apic self1) (log_record dbg Debug MsgCalibration t)) (\<lambda>t1.
           init_counters dbg D self1 t1))"

definition hz_to_millis :: rat where
  "hz_to_millis = fround 24 (fround 24 (1 / DEFAULT_TICKS_HZ) * 1000)"

text \<open>The cycles of one tick of the default frequency, from the cycles that passed in \<open>d\<close>.\<close>

definition sample :: "duration \<Rightarrow> u32 \<Rightarrow> u32 outcome" where
  "sample d interval =
     (let m = (of_nat (as_millis d) :: u32)
      in if m = 0 then Panic
         else let cycles_per_ms = interval div m;
                  cycles = fround 24 (fround 24 (of_nat (unat cycles_per_ms)) * hz_to_millis)
              in Ret (fcast (Some cycles)))"

fun sum_u32 :: "bool \<Rightarrow> u32 \<Rightarrow> u32 list \<Rightarrow> u32 outcome" where
  "sum_u32 dbg acc [] = Ret acc"
| "sum_u32 dbg acc (x # xs) = obind (u_add dbg acc x) (\<lambda>a. sum_u32 dbg a xs)"

definition end_calibration :: "bool \<Rightarrow> devices \<Rightarrow> Tick \<Rightarrow> io_trace \<Rightarrow> (Tick \<times> io_trace) outcome" where
  "end_calibration dbg D self t =
     obind (read_counter D (apic self) t) (\<lambda>(fin, t1).
      obind (u_sub dbg (lapic_counter self) fin) (\<lambda>interval.
      obind (sample (tick_duration self) interval) (\<lambda>cycles.
      obind (if unat (calibration_idx self) < CALIBRATION_SAMPLES
             then obind (u_add dbg (calibration_idx self) 1) (\<lambda>i.
               Ret (self\<lparr>calibration := (calibration self)[unat (calibration_idx self) := cycles],
                         calibration_idx := i\<rparr>))
             else Ret self) (\<lambda>self1.
      if CALIBRATION_SAMPLES \<le> unat (calibration_idx self1)
      then obind (sum_u32 dbg 0 (calibration self1)) (\<lambda>sum.
        let cycles_mean = sum div of_nat CALIBRATION_SAMPLES in
        obind (init_counter D (apic self1) True cycles_mean (log_record dbg Info (MsgTimer cycles_mean) t1)) (\<lambda>(_, t2).
          Ret (self1\<lparr>is_calibration := False\<rparr>, t2)))
      else init_counters dbg D self1 t1))))"

section \<open>The tick\<close>

text \<open>What a timer interrupt acts on besides the timer itself.\<close>

record 'h ksys =
  io :: io_trace
  sched :: "'h scheduler"
  ktcbs :: tmem
  kscs :: "ptr \<rightharpoonup> SchedContext"

definition tick_handler ::
    "bool \<Rightarrow> 'h heap_ops \<Rightarrow> devices \<Rightarrow> u32 \<Rightarrow> Tick \<Rightarrow> 'h ksys \<Rightarrow> (Tick \<times> 'h ksys \<times> control) outcome" where
  "tick_handler dbg H D ebx self k =
     (if is_calibration self
      then obind (end_calibration dbg D self (io k)) (\<lambda>(self1, t). Ret (self1, k\<lparr>io := t\<rparr>, Return))
      else
        obind (u_add dbg (tick_count self) 1) (\<lambda>n.
        obind (expect (OnceLock_get (sched k))) (\<lambda>pc.
        obind (PerCore_get_mut ebx pc) (\<lambda>ex.
        obind (preempt dbg H \<lparr>tcbs = ktcbs k, scs = kscs k, exec = ex\<rparr>) (\<lambda>(s, c).
          Ret (self\<lparr>tick_count := n\<rparr>,
               k\<lparr>ktcbs := tcbs s, kscs := scs s, sched := (sched k)\<lparr>cell := Some (PerCore_put ebx pc (exec s))\<rparr>\<rparr>,
               c))))))"

section \<open>Locks and interrupt handlers\<close>

record 'a spinlock =
  held :: bool
  guarded :: 'a

record 'h globals =
  APIC :: "Apic spinlock"
  TICKS :: "Tick spinlock"
  log_held :: bool
  ksys :: "'h ksys"

text \<open>
  \<open>log_held\<close> tells whether the code that was interrupted holds the lock of the logger. A handler
  returns from the interrupt, leaves it by resuming a thread and never comes back, waits for a
  lock for ever, panics, or accesses memory where nothing is.
\<close>

datatype 'a irq_result = Finished 'a | Diverted ptr 'a | Stuck | Panicking | Undefined

definition timer_handler ::
    "bool \<Rightarrow> 'h heap_ops \<Rightarrow> devices \<Rightarrow> u32 \<Rightarrow> 'h globals \<Rightarrow> 'h globals irq_result" where
  "timer_handler dbg H D ebx g =
     (if held (TICKS g) then Stuck
      else case tick_handler dbg H D ebx (guarded (TICKS g)) (ksys g) of
        Ret (tk, k, c) \<Rightarrow>
          if log_held g \<and> logs (io k) \<noteq> logs (io (ksys g)) then Stuck
          else (case c of
            Return \<Rightarrow>
              let g1 = g\<lparr>TICKS := \<lparr>held = False, guarded = tk\<rparr>, ksys := k\<rparr> in
              if held (APIC g1) then Stuck
              else (case end_interrupt D (guarded (APIC g1)) (io k) of
                Ret t \<Rightarrow> Finished (g1\<lparr>ksys := k\<lparr>io := t\<rparr>\<rparr>)
              | Panic \<Rightarrow> Panicking
              | Fault \<Rightarrow> Undefined)
          | Resume p \<Rightarrow> Diverted p (g\<lparr>TICKS := \<lparr>held = True, guarded = tk\<rparr>, ksys := k\<rparr>)
          | Halted \<Rightarrow> Stuck)
      | Panic \<Rightarrow> Panicking
      | Fault \<Rightarrow> Undefined)"

text \<open>The exception handlers: two report an error and return, the others panic. A stack frame is the
  list of its words.\<close>

definition report :: "msg \<Rightarrow> 'h globals \<Rightarrow> 'h globals irq_result" where
  "report m g =
     (if log_held g then Stuck
      else Finished (g\<lparr>ksys := (ksys g)\<lparr>io := io (ksys g) @ [Log Error m]\<rparr>\<rparr>))"

definition breakpoint_exception :: "u64 list \<Rightarrow> 'h globals \<Rightarrow> 'h globals irq_result" where
  "breakpoint_exception stack_frame g = report (MsgBreakpoint stack_frame) g"

definition non_maskable_interrupt :: "u64 list \<Rightarrow> 'h globals \<Rightarrow> 'h globals irq_result" where
  "non_maskable_interrupt stack_frame g = Panicking"

definition double_fault :: "u64 list \<Rightarrow> u64 \<Rightarrow> 'h globals \<Rightarrow> 'h globals irq_result" where
  "double_fault stack_frame code g = Panicking"

text \<open>\<open>cr2\<close> is the faulting address; \<open>None\<close> is one that is not canonical.\<close>

definition page_fault :: "u64 option \<Rightarrow> u64 list \<Rightarrow> u64 \<Rightarrow> 'h globals \<Rightarrow> 'h globals irq_result" where
  "page_fault cr2 stack_frame code g =
     (let pfla = (case cr2 of Some a \<Rightarrow> a | None \<Rightarrow> 0)
      in report (MsgPageFault code pfla stack_frame) g)"

definition machine_check :: "u64 list \<Rightarrow> 'h globals \<Rightarrow> 'h globals irq_result" where
  "machine_check stack_frame g = Panicking"

section \<open>The interrupt descriptor table\<close>

datatype IdtIndex = Timer

fun IdtIndex_code :: "IdtIndex \<Rightarrow> u8" where
  "IdtIndex_code Timer = 0x20"

datatype irq_handler = Breakpoint | Nmi | DoubleFaultH | PageFault | MachineCheckH | TimerH

text \<open>A vector has a handler and possibly an index into the interrupt stack table.\<close>

definition IDT :: "u8 \<rightharpoonup> irq_handler \<times> IstIndex option" where
  "IDT = [3 \<mapsto> (Breakpoint, None),
     2 \<mapsto> (Nmi, Some NonMaskableInterrupt),
     8 \<mapsto> (DoubleFaultH, Some DoubleFault),
     14 \<mapsto> (PageFault, None),
     18 \<mapsto> (MachineCheckH, Some MachineCheck),
     IdtIndex_code Timer \<mapsto> (TimerH, None)]"

text \<open>What the processor pushes and latches for a handler.\<close>

record exception =
  x_frame :: "u64 list"
  x_code :: u64
  x_cr2 :: "u64 option"

definition dispatch ::
    "bool \<Rightarrow> 'h heap_ops \<Rightarrow> devices \<Rightarrow> u32 \<Rightarrow> exception \<Rightarrow> irq_handler \<Rightarrow> 'h globals \<Rightarrow> 'h globals irq_result" where
  "dispatch dbg H D ebx x h g =
     (case h of
        Breakpoint \<Rightarrow> breakpoint_exception (x_frame x) g
      | Nmi \<Rightarrow> non_maskable_interrupt (x_frame x) g
      | DoubleFaultH \<Rightarrow> double_fault (x_frame x) (x_code x) g
      | PageFault \<Rightarrow> page_fault (x_cr2 x) (x_frame x) (x_code x) g
      | MachineCheckH \<Rightarrow> machine_check (x_frame x) g
      | TimerH \<Rightarrow> timer_handler dbg H D ebx g)"

record irq_cpu =
  segs :: segment_regs
  idtr :: "u8 \<rightharpoonup> irq_handler \<times> IstIndex option"
  interrupts_on :: bool

definition interrupts_load :: "x86_crate \<Rightarrow> stacks \<Rightarrow> io_trace \<Rightarrow> (irq_cpu \<times> io_trace) outcome" where
  "interrupts_load X S t =
     obind (gdt_load X S) (\<lambda>sr.
       Ret (\<lparr>segs = sr, idtr = IDT, interrupts_on = True\<rparr>, t @ [Log Info MsgInterrupts]))"

section \<open>Lemmas on calibration\<close>

lemma hz_to_millis_10: "hz_to_millis = 10"
proof -
  have "flog (1 / 100) = - 7" by (simp add: flog_def bits.simps)
  moreover have "\<lfloor>268435456 / 25 :: rat\<rfloor> = 10737418" by (simp add: floor_eq_iff)
  ultimately have "fround 24 (1 / 100) = 10737418 / 2 ^ 30"
    by (simp add: fround_def Let_def round_half_even_def power_int_minus)
  then have f: "fround 24 (1 / 100) * 1000 = 10737418000 / 2 ^ 30" by simp
  have "\<lfloor>671088625 / 67108864 :: rat\<rfloor> = 9" by (simp add: floor_eq_iff)
  then have "flog (10737418000 / 2 ^ 30) = 3" by (simp add: flog_def bits.simps)
  moreover have "\<lfloor>671088625 / 64 :: rat\<rfloor> = 10485759" by (simp add: floor_eq_iff)
  ultimately have "fround 24 (10737418000 / 2 ^ 30) = 10"
    by (simp add: fround_def Let_def round_half_even_def power_int_minus)
  then show ?thesis unfolding hz_to_millis_def DEFAULT_TICKS_HZ_def f .
qed

text \<open>The cycles per tick that an interval of 50 milliseconds gives.\<close>

definition cycles_of :: "u32 \<Rightarrow> u32" where
  "cycles_of i = fcast (Some (fround 24 (fround 24 (of_nat (unat (i div 50))) * 10)))"

lemma sample_50: "sample (from_millis 50) i = Ret (cycles_of i)"
  by (simp add: sample_def from_millis_def as_millis_def cycles_of_def hz_to_millis_10)

lemma cycles_of_exact:
  assumes "unat i div 50 * 10 < 2 ^ 24"
  shows "unat (cycles_of i) = unat i div 50 * 10"
proof -
  let ?n = "unat (i div 50)"
  have n: "?n = unat i div 50" by (simp add: unat_div)
  have "fround 24 (of_nat ?n) = of_nat ?n" using assms n by (intro fround_nat) simp
  then have "fround 24 (of_nat ?n) * 10 = of_nat (?n * 10)" by simp
  moreover have "fround 24 (of_nat (?n * 10)) = of_nat (?n * 10)" using assms n by (intro fround_nat) simp
  ultimately have c: "cycles_of i = fcast (Some (of_nat (?n * 10)))" by (simp only: cycles_of_def)
  have "?n * 10 < 2 ^ LENGTH(32)" using assms n by simp
  from fcast_nat [OF this] show ?thesis unfolding c n .
qed

lemma sum_u32_eq:
  assumes "dbg \<longrightarrow> unat acc + sum_list (map unat xs) < 2 ^ 32"
  shows "sum_u32 dbg acc xs = Ret (acc + sum_list xs)"
  using assms
proof (induction xs arbitrary: acc)
  case (Cons x xs)
  have add: "u_add dbg acc x = Ret (acc + x)" using Cons.prems by (auto simp: u_add_def)
  have "sum_u32 dbg (acc + x) xs = Ret (acc + x + sum_list xs)"
  proof (rule Cons.IH, intro impI)
    assume dbg
    then have b: "unat acc + unat x + sum_list (map unat xs) < 2 ^ 32" using Cons.prems by simp
    then have "unat (acc + x) = unat acc + unat x" by (intro unat_add_exact) simp
    with b show "unat (acc + x) + sum_list (map unat xs) < 2 ^ 32" by simp
  qed
  then show ?case using add by (simp add: add.assoc)
qed simp

text \<open>
  The accesses of a calibration round: at the interrupt the end value is read, both timers are
  restarted and the next start value is read; then the interrupt is acknowledged. \<open>v\<close> is the start
  value of the first round and \<open>t\<close> the trace when the first interrupt arrives.
\<close>

definition arm :: "bool \<Rightarrow> Apic \<Rightarrow> io_trace \<Rightarrow> io_trace" where
  "arm dbg a t = programmed a False (- 1) (log_record dbg Debug (MsgPit (from_millis 50) 59659) t @
     [Out8 0x43 0x30, Out8 0x40 0x0B, Out8 0x40 0xE9, Out8 0x43 0])"

fun calib_trace :: "bool \<Rightarrow> devices \<Rightarrow> Apic \<Rightarrow> io_trace \<Rightarrow> nat \<Rightarrow> io_trace" where
  "calib_trace dbg D a t 0 = t"
| "calib_trace dbg D a t (Suc k) = acknowledged a (after_read D a (arm dbg a (after_read D a (calib_trace dbg D a t k))))"

fun start_count :: "bool \<Rightarrow> devices \<Rightarrow> Apic \<Rightarrow> u32 \<Rightarrow> io_trace \<Rightarrow> nat \<Rightarrow> u32" where
  "start_count dbg D a v t 0 = v"
| "start_count dbg D a v t (Suc k) = counter D a (arm dbg a (after_read D a (calib_trace dbg D a t k)))"

definition end_count :: "bool \<Rightarrow> devices \<Rightarrow> Apic \<Rightarrow> io_trace \<Rightarrow> nat \<Rightarrow> u32" where
  "end_count dbg D a t k = counter D a (calib_trace dbg D a t k)"

definition cycles_at :: "bool \<Rightarrow> devices \<Rightarrow> Apic \<Rightarrow> u32 \<Rightarrow> io_trace \<Rightarrow> nat \<Rightarrow> u32" where
  "cycles_at dbg D a v t k = cycles_of (start_count dbg D a v t k - end_count dbg D a t k)"

text \<open>The mean of the ten samples, and the accesses up to its use.\<close>

definition mean_cycles :: "bool \<Rightarrow> devices \<Rightarrow> Apic \<Rightarrow> u32 \<Rightarrow> io_trace \<Rightarrow> u32" where
  "mean_cycles dbg D a v t = sum_list (map (cycles_at dbg D a v t) [0..<10]) div 10"

definition last_trace :: "bool \<Rightarrow> devices \<Rightarrow> Apic \<Rightarrow> u32 \<Rightarrow> io_trace \<Rightarrow> io_trace" where
  "last_trace dbg D a v t = programmed a True (mean_cycles dbg D a v t)
     (after_read D a (calib_trace dbg D a t 9) @ [Log Info (MsgTimer (mean_cycles dbg D a v t))])"

lemma init_counters_eq:
  assumes "lapic_mapped D (apic self)" "tick_duration self = from_millis 50"
  shows "init_counters dbg D self t = Ret (self\<lparr>lapic_counter := counter D (apic self) (arm dbg (apic self) t)\<rparr>,
    after_read D (apic self) (arm dbg (apic self) t))"
  by (simp add: init_counters_def assms(2) Pit_new_def reload_50ms Pit_set_mode_def outb_def mapped_Ret [OF assms(1)]
      COMMAND_PORT_def DATA_PORT_def arm_def Let_def)

text \<open>The timer after \<open>k\<close> of the ten rounds.\<close>

definition calibrating :: "bool \<Rightarrow> devices \<Rightarrow> Apic \<Rightarrow> u32 \<Rightarrow> io_trace \<Rightarrow> nat \<Rightarrow> Tick" where
  "calibrating dbg D a v t k = \<lparr>apic = a, is_calibration = True, tick_count = 0, tick_duration = from_millis 50,
     lapic_counter = start_count dbg D a v t k, calibration = map (cycles_at dbg D a v t) [0..<k] @ replicate (10 - k) 0,
     calibration_idx = of_nat k\<rparr>"

text \<open>The interrupt of the interval timer, routed.\<close>

definition routed :: "Apic \<Rightarrow> io_trace \<Rightarrow> io_trace" where
  "routed a t = t @ [Write32 (io_apic_addr a) 0x15, Write32 (io_apic_addr a + 16) 0,
     Write32 (io_apic_addr a) 0x14, Write32 (io_apic_addr a + 16) 0x20]"

lemma set_ioapic_eq: "ioapic_mapped D a \<Longrightarrow> set_ioapic_pit_interrupt D a t = Ret (routed a t)"
  by (simp add: set_ioapic_pit_interrupt_def ioapic_write_def write_volatile_def ioapic_mapped_def routed_def Let_def)

lemma logs_device [simp]:
  "logs (after_read D a t) = logs t" "logs (acknowledged a t) = logs t" "logs (routed a t) = logs t"
  "logs (programmed a b n t) = logs t"
  "logs (arm dbg a t) = logs t @ (if dbg then [(Debug, MsgPit (from_millis 50) 59659)] else [])"
  by (simp_all add: after_read_def acknowledged_def programmed_def routed_def arm_def)

lemma logs_calib:
  "logs (calib_trace dbg D a t k) = logs t @ (if dbg then replicate k (Debug, MsgPit (from_millis 50) 59659) else [])"
  by (induction k) (simp_all add: replicate_append_same)

lemma logs_last:
  "logs (last_trace dbg D a v t) = logs (calib_trace dbg D a t 9) @ [(Info, MsgTimer (mean_cycles dbg D a v t))]"
  by (simp add: last_trace_def)

text \<open>The accesses of \<open>calibrate\<close> up to its last read.\<close>

definition calib_start :: "bool \<Rightarrow> Apic \<Rightarrow> io_trace \<Rightarrow> io_trace" where
  "calib_start dbg a t = arm dbg a (routed a (log_record dbg Debug MsgCalibration t))"

lemma calibrate_eq:
  assumes "ioapic_mapped D a" "lapic_mapped D a"
  shows "calibrate dbg D Tick_new a t =
     Ret (calibrating dbg D a (counter D a (calib_start dbg a t)) t' 0, after_read D a (calib_start dbg a t))"
  by (simp add: calibrate_def Tick_new_def set_ioapic_eq [OF assms(1)] init_counters_eq assms(2) calibrating_def
      CALIBRATION_SAMPLES_def calib_start_def)

lemma calibrate_mapped:
  assumes "calibrate dbg D self a t = Ret r" "mapped D (lapic_addr a + 0xB0)"
  shows "ioapic_mapped D a" "lapic_mapped D a"
  using assms
  by (auto simp: calibrate_def set_ioapic_pit_interrupt_def ioapic_write_def init_counters_def init_counter_def read_counter_def
      write_volatile_def read_volatile_def obind_Ret_iff Let_def ioapic_mapped_def lapic_mapped_def reg_ptr_def split: if_splits)

lemma end_calibration_eq:
  assumes "k < 10" "dbg \<longrightarrow> end_count dbg D a t k \<le> start_count dbg D a v t k"
    and "dbg \<and> k = 9 \<longrightarrow> sum_list (map (\<lambda>k. unat (cycles_at dbg D a v t k)) [0..<10]) < 2 ^ 32"
    and mapped: "lapic_mapped D a"
  shows "end_calibration dbg D (calibrating dbg D a v t k) (calib_trace dbg D a t k) =
    (if k < 9 then Ret (calibrating dbg D a v t (Suc k), after_read D a (arm dbg a (after_read D a (calib_trace dbg D a t k))))
     else Ret ((calibrating dbg D a v t 9)\<lparr>calibration := map (cycles_at dbg D a v t) [0..<10], calibration_idx := 10,
         is_calibration := False\<rparr>,
       last_trace dbg D a v t))"
proof -
  let ?tk = "calibrating dbg D a v t k"
  have rd: "read_counter D a (calib_trace dbg D a t k) = Ret (end_count dbg D a t k, after_read D a (calib_trace dbg D a t k))"
    by (simp add: end_count_def mapped_Ret [OF mapped])
  have sub: "u_sub dbg (start_count dbg D a v t k) (end_count dbg D a t k) = Ret (start_count dbg D a v t k - end_count dbg D a t k)"
    using assms(2) by (auto simp: u_sub_def)
  have u: "unat (of_nat k :: usize) = k" "unat (of_nat (Suc k) :: usize) = Suc k"
    using assms(1) by (simp_all add: unat_of_nat take_bit_nat_eq_self del: of_nat_Suc)
  have ix: "u_add dbg (of_nat k) 1 = Ret (of_nat (Suc k) :: usize)"
    using assms(1) u(1) by (simp add: u_add_def)
  have cal: "(map (cycles_at dbg D a v t) [0..<k] @ replicate (10 - k) 0)[k := cycles_at dbg D a v t k] =
      map (cycles_at dbg D a v t) [0..<Suc k] @ replicate (10 - Suc k) 0"
    using assms(1) by (cases "10 - k") (simp_all add: list_update_append Suc_diff_le)
  let ?tk1 = "?tk\<lparr>calibration := map (cycles_at dbg D a v t) [0..<Suc k] @ replicate (10 - Suc k) 0,
    calibration_idx := of_nat (Suc k)\<rparr>"
  have step: "end_calibration dbg D ?tk (calib_trace dbg D a t k) =
      (if 10 \<le> Suc k
       then obind (sum_u32 dbg 0 (calibration ?tk1)) (\<lambda>s. Ret (?tk1\<lparr>is_calibration := False\<rparr>,
         programmed a True (s div 10) (log_record dbg Info (MsgTimer (s div 10)) (after_read D a (calib_trace dbg D a t k)))))
       else init_counters dbg D ?tk1 (after_read D a (calib_trace dbg D a t k)))"
    using assms(1) u cal ix sub
    by (simp add: end_calibration_def calibrating_def rd sample_50 CALIBRATION_SAMPLES_def Let_def mapped_Ret(3) [OF mapped]
        flip: cycles_at_def del: of_nat_Suc upt_Suc)
  show ?thesis
  proof (cases "k < 9")
    case True
    have "init_counters dbg D ?tk1 (after_read D a (calib_trace dbg D a t k)) =
        Ret (calibrating dbg D a v t (Suc k), after_read D a (arm dbg a (after_read D a (calib_trace dbg D a t k))))"
      by (subst init_counters_eq) (simp_all add: calibrating_def mapped)
    then show ?thesis using True step by simp
  next
    case False
    then have k: "k = 9" using assms(1) by simp
    have "sum_u32 dbg 0 (map (cycles_at dbg D a v t) [0..<10]) = Ret (0 + sum_list (map (cycles_at dbg D a v t) [0..<10]))"
      by (rule sum_u32_eq) (use assms(3) k in \<open>simp add: comp_def\<close>)
    then show ?thesis using step k by (simp add: calibrating_def last_trace_def mean_cycles_def log_record_def)
  qed
qed

section \<open>Lemmas on the timer interrupt\<close>

fun timer_irqs ::
    "bool \<Rightarrow> 'h heap_ops \<Rightarrow> devices \<Rightarrow> u32 \<Rightarrow> nat \<Rightarrow> 'h globals \<Rightarrow> 'h globals irq_result" where
  "timer_irqs dbg H D ebx 0 g = Finished g"
| "timer_irqs dbg H D ebx (Suc n) g =
     (case timer_irqs dbg H D ebx n g of Finished g' \<Rightarrow> timer_handler dbg H D ebx g' | r \<Rightarrow> r)"

text \<open>The global state after \<open>k\<close> interrupts of the calibration.\<close>

definition calib_state :: "bool \<Rightarrow> devices \<Rightarrow> Apic \<Rightarrow> u32 \<Rightarrow> io_trace \<Rightarrow> 'h globals \<Rightarrow> nat \<Rightarrow> 'h globals" where
  "calib_state dbg D a v t g k = g\<lparr>TICKS := \<lparr>held = False, guarded = calibrating dbg D a v t k\<rparr>,
     ksys := (ksys g)\<lparr>io := calib_trace dbg D a t k\<rparr>\<rparr>"

definition counts_down :: "bool \<Rightarrow> devices \<Rightarrow> Apic \<Rightarrow> u32 \<Rightarrow> io_trace \<Rightarrow> bool" where
  "counts_down dbg D a v t \<longleftrightarrow> (dbg \<longrightarrow>
     (\<forall>k < 10. end_count dbg D a t k \<le> start_count dbg D a v t k) \<and>
     sum_list (map (\<lambda>k. unat (cycles_at dbg D a v t k)) [0..<10]) < 2 ^ 32)"

lemma calib_irqs:
  assumes "TICKS g = \<lparr>held = False, guarded = calibrating dbg D a v t 0\<rparr>" "APIC g = \<lparr>held = False, guarded = a\<rparr>"
    and "io (ksys g) = calib_trace dbg D a t 0" "counts_down dbg D a v t" "\<not> log_held g" "lapic_mapped D a" "k < 10"
  shows "timer_irqs dbg H D ebx k g = Finished (calib_state dbg D a v t g k)"
  using assms(7)
proof (induction k)
  case 0
  have "calib_state dbg D a v t g 0 = g" using assms(1,3) by (simp add: calib_state_def)
  then show ?case by simp
next
  case (Suc k)
  have "end_calibration dbg D (calibrating dbg D a v t k) (calib_trace dbg D a t k) =
      Ret (calibrating dbg D a v t (Suc k), after_read D a (arm dbg a (after_read D a (calib_trace dbg D a t k))))"
    using Suc.prems assms(4,6) by (subst end_calibration_eq) (auto simp: counts_down_def)
  then have "timer_handler dbg H D ebx (calib_state dbg D a v t g k) = Finished (calib_state dbg D a v t g (Suc k))"
    using assms(2,5) by (simp add: timer_handler_def calib_state_def tick_handler_def calibrating_def mapped_Ret [OF assms(6)] Let_def)
  then show ?case using Suc by simp
qed

lemma calib_last:
  assumes "TICKS g = \<lparr>held = False, guarded = calibrating dbg D a v t 0\<rparr>" "APIC g = \<lparr>held = False, guarded = a\<rparr>"
    and "io (ksys g) = calib_trace dbg D a t 0" "counts_down dbg D a v t" "\<not> log_held g" "lapic_mapped D a"
  shows "timer_irqs dbg H D ebx 10 g = Finished (g\<lparr>
     TICKS := \<lparr>held = False, guarded = (calibrating dbg D a v t 9)\<lparr>calibration := map (cycles_at dbg D a v t) [0..<10],
       calibration_idx := 10, is_calibration := False\<rparr>\<rparr>,
     ksys := (ksys g)\<lparr>io := acknowledged a (last_trace dbg D a v t)\<rparr>\<rparr>)"
proof -
  have 9: "timer_irqs dbg H D ebx 9 g = Finished (calib_state dbg D a v t g 9)" by (rule calib_irqs [OF assms]) simp
  have "end_calibration dbg D (calibrating dbg D a v t 9) (calib_trace dbg D a t 9) =
      Ret ((calibrating dbg D a v t 9)\<lparr>calibration := map (cycles_at dbg D a v t) [0..<10], calibration_idx := 10,
         is_calibration := False\<rparr>,
       last_trace dbg D a v t)"
    using assms(4,6) by (subst end_calibration_eq) (auto simp: counts_down_def simp del: upt_Suc)
  moreover have "is_calibration (calibrating dbg D a v t 9)" by (simp add: calibrating_def)
  ultimately have "timer_handler dbg H D ebx (calib_state dbg D a v t g 9) = Finished (g\<lparr>
     TICKS := \<lparr>held = False, guarded = (calibrating dbg D a v t 9)\<lparr>calibration := map (cycles_at dbg D a v t) [0..<10],
       calibration_idx := 10, is_calibration := False\<rparr>\<rparr>,
     ksys := (ksys g)\<lparr>io := acknowledged a (last_trace dbg D a v t)\<rparr>\<rparr>)"
    using assms(2,5) by (simp add: timer_handler_def calib_state_def tick_handler_def mapped_Ret [OF assms(6)] Let_def)
  moreover have "timer_irqs dbg H D ebx 10 g = (case timer_irqs dbg H D ebx 9 g of
      Finished g' \<Rightarrow> timer_handler dbg H D ebx g' | r \<Rightarrow> r)"
    using timer_irqs.simps(2) [of dbg H D ebx 9 g] by (simp add: eval_nat_numeral)
  ultimately show ?thesis unfolding 9 by simp
qed

text \<open>A calibration interrupt that writes a log record while the interrupted code is writing one.\<close>

lemma calib_waits:
  assumes "counts_down dbg D a v t" "k < 10" "lapic_mapped D a" "k = 9 \<or> dbg"
  shows "timer_handler dbg H D ebx ((calib_state dbg D a v t g k)\<lparr>log_held := True\<rparr>) = Stuck"
proof -
  have "\<exists>tk t'. end_calibration dbg D (calibrating dbg D a v t k) (calib_trace dbg D a t k) = Ret (tk, t') \<and>
      logs t' \<noteq> logs (calib_trace dbg D a t k)"
    using assms by (subst end_calibration_eq; cases "k = 9") (auto simp: counts_down_def logs_last simp del: upt_Suc)
  then show ?thesis by (auto simp: timer_handler_def calib_state_def tick_handler_def calibrating_def)
qed

text \<open>A tick after calibration, on an initialised scheduler.\<close>

definition core_state :: "u32 \<Rightarrow> 'h globals \<Rightarrow> 'h Executor PerCore \<Rightarrow> 'h cpu \<Rightarrow> bool" where
  "core_state ebx g pc s \<longleftrightarrow> OnceLock_get (sched (ksys g)) = Some pc \<and> PerCore_get_mut ebx pc = Ret (exec s) \<and>
     tcbs s = ktcbs (ksys g) \<and> scs s = kscs (ksys g)"

definition preempts :: "('h \<Rightarrow> Entry multiset) \<Rightarrow> 'h cpu \<Rightarrow> bool" where
  "preempts \<alpha> s \<longleftrightarrow> (case current (exec s) of
     None \<Rightarrow> queued \<alpha> s \<noteq> {#} | Some cur \<Rightarrow> \<exists>e \<in># queued \<alpha> s. edeadline e < edeadline cur)"

lemma preempt_cases:
  assumes H: "heap_spec H I \<alpha>" and ok: "sched_ok I \<alpha> s" and sc: "sc_ok s"
  shows "\<exists>s' c. preempt False H s = Ret (s', c) \<and>
    (if preempts \<alpha> s then \<exists>e \<in># queued \<alpha> s. (\<forall>x \<in># queued \<alpha> s. e \<le> x) \<and> c = Resume (etcb e) else c = Return)"
proof -
  from inc_tick_release [of s] sc sched_okD(5) [OF ok] obtain k where
    tick: "inc_tick False s = Ret (s\<lparr>scs := k\<rparr>)" by (metis sc_ok_def)
  have ok1: "sched_ok I \<alpha> (s\<lparr>scs := k\<rparr>)" using ok by simp
  have q: "queued \<alpha> (s\<lparr>scs := k\<rparr>) = queued \<alpha> s" by (simp add: queued_def)
  have sp: "should_preempt H (exec s) \<longleftrightarrow> preempts \<alpha> s"
    unfolding preempts_def by (rule should_preempt_iff [OF H ok])
  show ?thesis using preempt_switch_ok [OF H ok1] tick sp by (auto simp: preempt_def q)
qed

lemma timer_tick:
  assumes H: "heap_spec H I \<alpha>" and core: "core_state ebx g pc s" and ok: "sched_ok I \<alpha> s" and sc: "sc_ok s"
    and free: "\<not> held (TICKS g)" "\<not> held (APIC g)" "\<not> is_calibration (guarded (TICKS g))"
  shows "\<exists>s' c tk k. preempt False H s = Ret (s', c) \<and>
    tick_handler False H D ebx (guarded (TICKS g)) (ksys g) = Ret (tk, k, c) \<and>
    tk = (guarded (TICKS g))\<lparr>tick_count := tick_count (guarded (TICKS g)) + 1\<rparr> \<and> io k = io (ksys g) \<and>
    k = (ksys g)\<lparr>ktcbs := tcbs s', kscs := scs s',
      sched := (sched (ksys g))\<lparr>cell := Some (PerCore_put ebx pc (exec s'))\<rparr>\<rparr>"
proof -
  from preempt_cases [OF H ok sc] obtain s' c where p: "preempt False H s = Ret (s', c)" by blast
  have s: "\<lparr>tcbs = ktcbs (ksys g), scs = kscs (ksys g), exec = exec s\<rparr> = s"
    using core by (simp add: core_state_def)
  show ?thesis using core free(3) p
    by (simp add: tick_handler_def core_state_def s)
qed

section \<open>Interrupt stacks\<close>

text \<open>A stack that the linker placed inside one half of the address space.\<close>

definition stack_ok :: "u64 \<Rightarrow> bool" where
  "stack_ok b \<longleftrightarrow> canonical_addr b \<and> unat b + 8192 < 2 ^ 64 \<and> drop_bit 47 (b + 8192) = drop_bit 47 b"

definition stacks_ok :: "stacks \<Rightarrow> bool" where
  "stacks_ok S \<longleftrightarrow> stack_ok (double_fault_stack S) \<and> stack_ok (nmi_stack S) \<and>
     stack_ok (machine_check_stack S) \<and> stack_ok (privilege_stack S)"

fun ist_stack :: "stacks \<Rightarrow> IstIndex \<Rightarrow> u64" where
  "ist_stack S DoubleFault = double_fault_stack S"
| "ist_stack S NonMaskableInterrupt = nmi_stack S"
| "ist_stack S MachineCheck = machine_check_stack S"

lemma all_ist: "(\<forall>i. P i) \<longleftrightarrow> P DoubleFault \<and> P NonMaskableInterrupt \<and> P MachineCheck"
  by (metis IstIndex.exhaust)

lemma TSS_Ret:
  assumes "x86_crate_ok X" "stacks_ok S"
  shows "\<exists>tss. TSS X S = Ret tss \<and> privilege_stack_table tss ! 0 = privilege_stack S + STACK_SIZE \<and>
    (\<forall>i. interrupt_stack_table tss ! IstIndex_code i = ist_stack S i + STACK_SIZE)"
proof -
  have "stack_top X b = Ret (b + 8192)" if "stack_ok b" for b
    using that by (intro stack_top_Ret [OF assms(1)]) (simp_all add: stack_ok_def)
  then show ?thesis
    using assms(2) by (simp add: stacks_ok_def TSS_def Let_def all_ist STACK_SIZE_def)
qed

lemma gdt_load_Ret:
  assumes "x86_crate_ok X" "stacks_ok S"
  shows "\<exists>sr. gdt_load X S = Ret sr \<and> selected (gdtr sr) (CS sr) = Some KernelCode \<and>
    (\<forall>r \<in> {SS sr, DS sr, ES sr, FS sr, GS sr}. selected (gdtr sr) r = Some KernelData) \<and>
    selected (gdtr sr) (TR sr) = Some TssSegment"
  using TSS_Ret [OF assms] by (auto simp: gdt_load_def GDT_Ret [OF assms(1)] selected_def)

section \<open>A concrete timer\<close>

text \<open>A counter that reads four thousand million when it has just been started and fifty million
  less at the interrupt.\<close>

definition demo_devices :: devices where
  "demo_devices = \<lparr>port_answer = (\<lambda>_ _. 0),
     mmio_answer = (\<lambda>t a. case rev t of Write32 _ v # _ \<Rightarrow> (if v = - 1 then 4000000000 else 3950000000)
       | _ \<Rightarrow> 3950000000),
     cpuid1_edx = 0x200, mapped_page = (\<lambda>p. p \<noteq> 0)\<rparr>"

definition demo_apic :: Apic where
  "demo_apic = \<lparr>io_apic_addr = 0xFFFF8000FEC00000, lapic_addr = 0xFFFF8000FEE00000\<rparr>"

lemma demo_mapped: "lapic_mapped demo_devices demo_apic" "ioapic_mapped demo_devices demo_apic"
  "mapped demo_devices (lapic_addr demo_apic + 0xB0)"
  by (simp_all add: lapic_mapped_def ioapic_mapped_def mapped_def demo_devices_def demo_apic_def reg_ptr_def)

lemma demo_counts:
  "start_count True demo_devices demo_apic 4000000000 [] k = 4000000000"
  "end_count True demo_devices demo_apic [] k = 3950000000"
proof -
  show "start_count True demo_devices demo_apic 4000000000 [] k = 4000000000"
    by (cases k) (simp_all add: counter_def demo_devices_def arm_def programmed_def)
  have "rev (calib_trace True demo_devices demo_apic [] k) = r # ts \<Longrightarrow> (case r of Write32 _ v \<Rightarrow> v \<noteq> - 1 | _ \<Rightarrow> True)" for r ts
    by (cases k) (auto simp: acknowledged_def)
  then show "end_count True demo_devices demo_apic [] k = 3950000000"
    by (cases "rev (calib_trace True demo_devices demo_apic [] k)")
       (auto simp: end_count_def counter_def demo_devices_def split: io.splits list.splits)
qed

lemma demo_cycles: "cycles_at True demo_devices demo_apic 4000000000 [] k = 10000000"
proof -
  have "unat (cycles_of 50000000) = 10000000" by (subst cycles_of_exact) simp_all
  then have "cycles_of 50000000 = 10000000" by (simp add: word_unat_eq_iff)
  then show ?thesis by (simp add: cycles_at_def demo_counts)
qed

definition demo_core :: "u32 \<Rightarrow> Entry list globals" where
  "demo_core ebx = \<lparr>APIC = \<lparr>held = False, guarded = demo_apic\<rparr>,
     TICKS = \<lparr>held = False, guarded = Tick_new\<lparr>is_calibration := False\<rparr>\<rparr>, log_held = False,
     ksys = \<lparr>io = [], sched = \<lparr>once = INITIALIZED, cell = Some \<lparr>cores = [Some (exec demo_cpu)], initialized_count = 1\<rparr>\<rparr>,
       ktcbs = tcbs demo_cpu, kscs = scs demo_cpu\<rparr>\<rparr>"

lemma demo_core_state: "core_state 0 (demo_core 0) \<lparr>cores = [Some (exec demo_cpu)], initialized_count = 1\<rparr> demo_cpu"
  by (simp add: core_state_def demo_core_def OnceLock_get_def PerCore_get_mut_def get_unsafe_def cpuid_def)

section \<open>Properties\<close>

text \<open>
  Claim C27. Calibration, where the register that acknowledges an interrupt is mapped: once \<open>calibrate\<close> has returned, and whatever device accesses follow it, the first nine timer interrupts
  each record one sample, restart both timers and are acknowledged; the tenth ends the calibration, reports and
  programs a tenth of the sum of the ten samples, computed in 32 bits, as the period of the local timer, and is acknowledged. Each sample is ten times
  the whole number of cycles per millisecond, exactly, up to 24 bits. In a release build this holds
  whatever the devices answer (a sum that does not fit wraps around, and the period is then not the mean); in a debug build the counter must not run backwards and the sum of
  the samples must fit in 32 bits, since the arithmetic is checked. The scheduler is not touched.
  A handler that writes a log record, the tenth and in a debug build every one, never returns when
  the code it interrupts holds the lock of the logger.
\<close>

theorem calibration_completes:
  assumes "calibrate dbg D Tick_new a t = Ret (tk, t0)"
    and "TICKS g = \<lparr>held = False, guarded = tk\<rparr>" "APIC g = \<lparr>held = False, guarded = a\<rparr>" "io (ksys g) = t1"
    and "v = lapic_counter tk" "counts_down dbg D a v t1" "\<not> log_held g"
    and eoi: "mapped D (lapic_addr a + 0xB0)"
  shows "(\<forall>k < 10. \<exists>g'. timer_irqs dbg H D ebx k g = Finished g' \<and> is_calibration (guarded (TICKS g')) \<and>
      unat (calibration_idx (guarded (TICKS g'))) = k \<and>
      (k = 9 \<or> dbg \<longrightarrow> timer_handler dbg H D ebx (g'\<lparr>log_held := True\<rparr>) = Stuck)) \<and>
    (\<forall>k < 10. unat (start_count dbg D a v t1 k - end_count dbg D a t1 k) div 50 * 10 < 2 ^ 24 \<longrightarrow>
      unat (cycles_at dbg D a v t1 k) = unat (start_count dbg D a v t1 k - end_count dbg D a t1 k) div 50 * 10) \<and>
    (\<exists>g' mean t'. timer_irqs dbg H D ebx 10 g = Finished g' \<and> \<not> is_calibration (guarded (TICKS g')) \<and>
      calibration (guarded (TICKS g')) = map (cycles_at dbg D a v t1) [0..<10] \<and>
      mean = sum_list (map (cycles_at dbg D a v t1) [0..<10]) div 10 \<and>
      ksys g' = (ksys g)\<lparr>io := t' @ [Log Info (MsgTimer mean),
        Write32 (lapic_addr a + 0x320) 0x20020, Write32 (lapic_addr a + 0x3E0) 1,
        Write32 (lapic_addr a + 0x380) mean, Write32 (lapic_addr a + 0xB0) 0]\<rparr>)"
proof (intro conjI allI impI)
  note mapped = calibrate_mapped [OF assms(1) eoi]
  have "tk = calibrating dbg D a (counter D a (calib_start dbg a t)) t1 0"
    using assms(1) calibrate_eq [OF mapped, of dbg t t1] by simp
  moreover from this have "v = counter D a (calib_start dbg a t)"
    by (simp add: assms(5) calibrating_def)
  ultimately have g: "TICKS g = \<lparr>held = False, guarded = calibrating dbg D a v t1 0\<rparr>" "io (ksys g) = calib_trace dbg D a t1 0"
    using assms(2,4) by simp_all
  show "\<exists>g'. timer_irqs dbg H D ebx k g = Finished g' \<and> is_calibration (guarded (TICKS g')) \<and>
      unat (calibration_idx (guarded (TICKS g'))) = k \<and>
      (k = 9 \<or> dbg \<longrightarrow> timer_handler dbg H D ebx (g'\<lparr>log_held := True\<rparr>) = Stuck)" if k: "k < 10" for k
  proof (intro exI conjI impI)
    show "timer_irqs dbg H D ebx k g = Finished (calib_state dbg D a v t1 g k)"
      by (rule calib_irqs [OF g(1) assms(3) g(2) assms(6,7) mapped(2) k])
    show "is_calibration (guarded (TICKS (calib_state dbg D a v t1 g k)))"
      "unat (calibration_idx (guarded (TICKS (calib_state dbg D a v t1 g k)))) = k"
      using k by (simp_all add: calib_state_def calibrating_def unat_of_nat take_bit_nat_eq_self)
  qed (rule calib_waits [OF assms(6) k mapped(2)])
  show "unat (cycles_at dbg D a v t1 k) = unat (start_count dbg D a v t1 k - end_count dbg D a t1 k) div 50 * 10"
    if "unat (start_count dbg D a v t1 k - end_count dbg D a t1 k) div 50 * 10 < 2 ^ 24" for k
    unfolding cycles_at_def using that by (rule cycles_of_exact)
  show "\<exists>g' mean t'. timer_irqs dbg H D ebx 10 g = Finished g' \<and> \<not> is_calibration (guarded (TICKS g')) \<and>
      calibration (guarded (TICKS g')) = map (cycles_at dbg D a v t1) [0..<10] \<and>
      mean = sum_list (map (cycles_at dbg D a v t1) [0..<10]) div 10 \<and>
      ksys g' = (ksys g)\<lparr>io := t' @ [Log Info (MsgTimer mean),
        Write32 (lapic_addr a + 0x320) 0x20020, Write32 (lapic_addr a + 0x3E0) 1,
        Write32 (lapic_addr a + 0x380) mean, Write32 (lapic_addr a + 0xB0) 0]\<rparr>"
    using calib_last [OF g(1) assms(3) g(2) assms(6,7) mapped(2), of H ebx]
    by (simp add: last_trace_def mean_cycles_def programmed_def acknowledged_def reg_ptr_def Let_def del: upt_Suc) blast
qed

text \<open>Ten samples of ten million cycles; the timer is programmed to ten million.\<close>

theorem calibration_completes_witness:
  "\<exists>tk t0 g'. calibrate True demo_devices Tick_new demo_apic [] = Ret (tk, t0) \<and>
    timer_irqs True list_heap demo_devices 0 10 ((demo_core 0)\<lparr>TICKS := \<lparr>held = False, guarded = tk\<rparr>\<rparr>) = Finished g' \<and>
    \<not> is_calibration (guarded (TICKS g')) \<and> calibration (guarded (TICKS g')) = replicate 10 10000000"
proof -
  obtain tk t0 where c: "calibrate True demo_devices Tick_new demo_apic [] = Ret (tk, t0)" "lapic_counter tk = 4000000000"
    by (simp add: calibrate_eq [OF demo_mapped(2,1), of _ _ "[]"] calibrating_def)
       (simp add: counter_def calib_start_def arm_def programmed_def demo_devices_def)
  let ?g = "(demo_core 0)\<lparr>TICKS := \<lparr>held = False, guarded = tk\<rparr>\<rparr>"
  have "counts_down True demo_devices demo_apic 4000000000 []"
    by (simp add: counts_down_def demo_counts demo_cycles map_replicate_const sum_list_replicate del: upt_Suc)
  moreover have "TICKS ?g = \<lparr>held = False, guarded = tk\<rparr>" "APIC ?g = \<lparr>held = False, guarded = demo_apic\<rparr>"
    "io (ksys ?g) = []" "\<not> log_held ?g"
    by (simp_all add: demo_core_def)
  ultimately obtain g' where g': "timer_irqs True list_heap demo_devices 0 10 ?g = Finished g'"
    "\<not> is_calibration (guarded (TICKS g'))"
    "calibration (guarded (TICKS g')) = map (cycles_at True demo_devices demo_apic 4000000000 []) [0..<10]"
    using calibration_completes [OF c(1), of ?g "[]" 4000000000 list_heap 0] c(2) demo_mapped(3) by metis
  have "cycles_at True demo_devices demo_apic 4000000000 [] = (\<lambda>_. 10000000)" by (rule ext) (rule demo_cycles)
  then have "map (cycles_at True demo_devices demo_apic 4000000000 []) [0..<10] = replicate 10 10000000"
    by (simp add: map_replicate_const del: upt_Suc)
  with c(1) g' show ?thesis by auto
qed

text \<open>
  Claim C26. A timer interrupt after calibration, in a release build, on a well-formed core. If no
  ready thread has an earlier deadline than the current one, the interrupt is acknowledged exactly
  once and both locks are free again; when the register for this is not mapped, the access faults.
  Otherwise the handler resumes the ready thread with the
  earliest deadline from inside the handler: the interrupt is never acknowledged, the lock of the
  timer stays held, and every later timer interrupt waits for that lock for ever.
\<close>

theorem timer_interrupt:
  assumes "heap_spec H I \<alpha>" "core_state ebx g pc s" "sched_ok I \<alpha> s" "sc_ok s"
    and "\<not> held (TICKS g)" "\<not> held (APIC g)" "\<not> is_calibration (guarded (TICKS g))"
  shows "(\<not> preempts \<alpha> s \<longrightarrow> (if mapped D (lapic_addr (guarded (APIC g)) + 0xB0) then
      (\<exists>g'. timer_handler False H D ebx g = Finished g' \<and>
        io (ksys g') = io (ksys g) @ [Write32 (lapic_addr (guarded (APIC g)) + 0xB0) 0] \<and>
        \<not> held (TICKS g') \<and> \<not> held (APIC g') \<and>
        tick_count (guarded (TICKS g')) = tick_count (guarded (TICKS g)) + 1)
      else timer_handler False H D ebx g = Undefined)) \<and>
    (preempts \<alpha> s \<longrightarrow> (\<exists>e g'. timer_handler False H D ebx g = Diverted (etcb e) g' \<and>
      e \<in># queued \<alpha> s \<and> (\<forall>x \<in># queued \<alpha> s. e \<le> x) \<and>
      io (ksys g') = io (ksys g) \<and> held (TICKS g') \<and>
      (\<forall>dbg' D' ebx' g''. TICKS g'' = TICKS g' \<longrightarrow> timer_handler dbg' H D' ebx' g'' = Stuck)))"
proof -
  from timer_tick [OF assms, of D] obtain s' c tk k where
    p: "preempt False H s = Ret (s', c)" and
    t: "tick_handler False H D ebx (guarded (TICKS g)) (ksys g) = Ret (tk, k, c)"
      "tk = (guarded (TICKS g))\<lparr>tick_count := tick_count (guarded (TICKS g)) + 1\<rparr>" "io k = io (ksys g)" by blast
  have c: "if preempts \<alpha> s then \<exists>e \<in># queued \<alpha> s. (\<forall>x \<in># queued \<alpha> s. e \<le> x) \<and> c = Resume (etcb e) else c = Return"
    using preempt_cases [OF assms(1,3,4)] p by auto
  show ?thesis
  proof (cases "preempts \<alpha> s")
    case False
    then have "c = Return" using c by simp
    then have "timer_handler False H D ebx g =
        (if mapped D (reg_ptr (lapic_addr (guarded (APIC g))) LapicEoi) then Finished (g\<lparr>TICKS := \<lparr>held = False, guarded = tk\<rparr>,
          ksys := k\<lparr>io := acknowledged (guarded (APIC g)) (io k)\<rparr>\<rparr>) else Undefined)"
      using t(1,3) assms(5,6) by (simp add: timer_handler_def end_interrupt_eq Let_def)
    then show ?thesis using False t(2,3) assms(6)
      by (simp add: acknowledged_def reg_ptr_def)
  next
    case True
    then obtain e where e: "e \<in># queued \<alpha> s" "\<forall>x \<in># queued \<alpha> s. e \<le> x" "c = Resume (etcb e)" using c by auto
    then have "timer_handler False H D ebx g = Diverted (etcb e) (g\<lparr>TICKS := \<lparr>held = True, guarded = tk\<rparr>, ksys := k\<rparr>)"
      using t(1,3) assms(5) by (simp add: timer_handler_def)
    then show ?thesis using True e(1,2) t(3)
      by (auto simp: timer_handler_def intro!: exI [of _ e])
  qed
qed

theorem timer_interrupt_witness:
  "\<exists>g'. timer_handler False list_heap demo_devices 0 (demo_core 0) = Diverted 0x800 g' \<and> io (ksys g') = [] \<and>
    timer_handler False list_heap demo_devices 0 g' = Stuck"
proof -
  have q: "queued mset demo_cpu = {#Entry 20 0x800#}" "preempts mset demo_cpu"
    by (simp_all add: queued_def demo_cpu_def preempts_def)
  have f: "\<not> held (TICKS (demo_core 0))" "\<not> held (APIC (demo_core 0))"
    "\<not> is_calibration (guarded (TICKS (demo_core 0)))" "io (ksys (demo_core 0)) = []"
    by (simp_all add: demo_core_def)
  from timer_interrupt [OF list_heap_spec demo_core_state demo_cpu_ok demo_cpu_sc f(1-3), of demo_devices] q f(4)
  show ?thesis by auto
qed



end
