(* ===== verification/Kernel.thy ===== *)
theory Kernel
  imports IpcSteps Interrupts
begin

text \<open>
  Message passing, the scheduler of a core and its timer interrupt together. All three write to
  the same thread control blocks: \<open>objects/endpoint.rs\<close> blocks and restarts threads and hands
  them to the executor, \<open>scheduler/executor.rs\<close> sets the states of the threads it switches, and
  the timer interrupt of \<open>interrupts/idt.rs\<close>, with the locks it takes and the interrupt controller
  it acknowledges, runs the executor on the global scheduler. A system call runs with interrupts
  masked, so that events do not overlap. The theory joins the invariants of the endpoints and of the
  ready queue and shows, by rule induction, that neither side breaks that of the other; it also
  shows the one interleaving that does, and that the timer stops with the first switch it makes.
\<close>

section \<open>Events\<close>

text \<open>A method of the current core's executor, called on the global scheduler.\<close>

definition core_cpu :: "'h kernel \<Rightarrow> 'h Executor \<Rightarrow> 'h cpu" where
  "core_cpu k ex = \<lparr>tcbs = k_tcbs k, scs = k_scs k, exec = ex\<rparr>"

definition with_cpu :: "u32 \<Rightarrow> 'h Executor PerCore \<Rightarrow> 'h cpu \<Rightarrow> 'h kernel \<Rightarrow> 'h kernel" where
  "with_cpu ebx pc s k = k\<lparr>k_tcbs := tcbs s, k_scs := scs s,
     k_sched := (k_sched k)\<lparr>cell := Some (PerCore_put ebx pc (exec s))\<rparr>\<rparr>"

definition on_core :: "u32 \<Rightarrow> 'h kernel \<Rightarrow> ('h cpu \<Rightarrow> 'h cpu outcome) \<Rightarrow> 'h kernel outcome" where
  "on_core ebx k f =
     obind (expect (OnceLock_get (k_sched k))) (\<lambda>pc.
     obind (PerCore_get_mut ebx pc) (\<lambda>ex.
     obind (f (core_cpu k ex)) (\<lambda>s. Ret (with_cpu ebx pc s k))))"

text \<open>The kernel with the global state of the timer interrupt: the two locks and the device trace.\<close>

record 'h machine =
  kern :: "'h kernel"
  m_apic :: "Apic spinlock"
  m_ticks :: "Tick spinlock"
  m_io :: io_trace

text \<open>What the timer interrupt sees of it, and what it leaves; the interrupted code is not writing
  a log record.\<close>

definition globals_of :: "'h machine \<Rightarrow> 'h globals" where
  "globals_of M = \<lparr>APIC = m_apic M, TICKS = m_ticks M, log_held = False,
     ksys = \<lparr>io = m_io M, sched = k_sched (kern M), ktcbs = k_tcbs (kern M), kscs = k_scs (kern M)\<rparr>\<rparr>"

definition with_globals :: "'h globals \<Rightarrow> 'h machine \<Rightarrow> 'h machine" where
  "with_globals g M = M\<lparr>m_apic := APIC g, m_ticks := TICKS g, m_io := io (ksys g),
     kern := (kern M)\<lparr>k_tcbs := ktcbs (ksys g), k_scs := kscs (ksys g), k_sched := sched (ksys g)\<rparr>\<rparr>"

text \<open>
  The handler of \<open>interrupts/idt.rs\<close>, whole. Whether it returns to the interrupted thread or resumes
  another one, the core goes on; \<open>None\<close> is a handler that waits for ever.
\<close>

definition on_timer :: "'h heap_ops \<Rightarrow> devices \<Rightarrow> u32 \<Rightarrow> 'h machine \<Rightarrow> 'h machine outcome option" where
  "on_timer H D ebx M =
     (case timer_handler False H D ebx (globals_of M) of
        Finished g \<Rightarrow> Some (Ret (with_globals g M))
      | Diverted p g \<Rightarrow> Some (Ret (with_globals g M))
      | Stuck \<Rightarrow> None
      | Panicking \<Rightarrow> Some Panic
      | Undefined \<Rightarrow> Some Fault)"

datatype kernel_event =
    Call ipc_call
  | TimerTick
  | Core core_op

definition put_kern :: "'h machine \<Rightarrow> 'h kernel outcome \<Rightarrow> 'h machine outcome" where
  "put_kern M r = obind r (\<lambda>k. Ret (M\<lparr>kern := k\<rparr>))"

fun occur :: "ext \<Rightarrow> 'h heap_ops \<Rightarrow> devices \<Rightarrow> u32 \<Rightarrow> 'h machine \<Rightarrow> kernel_event \<Rightarrow> 'h machine outcome option" where
  "occur E H D ebx M (Call c) = map_option (put_kern M) (perform E H ebx (kern M) c)"
| "occur E H D ebx M TimerTick = on_timer H D ebx M"
| "occur E H D ebx M (Core op) = Some (put_kern M (on_core ebx (kern M) (\<lambda>s. core_call False H s op)))"

text \<open>
  The obligations of the callers on a core whose executor is \<open>ex\<close>. A thread sends and receives
  only while it is the current one, and the idle thread never does. The operations that restart
  the threads of an endpoint are called while the current thread is not waiting. The executor
  parks the current thread in the state message passing gave it, and wakes no thread that an
  endpoint still holds.
\<close>

definition is_current :: "'h Executor \<Rightarrow> ptr \<Rightarrow> bool" where
  "is_current ex p \<longleftrightarrow> map_option etcb (current ex) = Some p"

fun blocks_as :: "'h kernel \<Rightarrow> ThreadState \<Rightarrow> ptr \<Rightarrow> bool" where
  "blocks_as k st p =
     (case k_tcbs k p of
        None \<Rightarrow> False
      | Some t \<Rightarrow> if waits t then st = tstate t else st = BlockedOnReply \<or> st = BlockedOnNotification)"

fun allowed :: "('h \<Rightarrow> Entry multiset) \<Rightarrow> 'h kernel \<Rightarrow> 'h Executor \<Rightarrow> kernel_event \<Rightarrow> bool" where
  "allowed \<alpha> k ex (Call c) \<longleftrightarrow> permitted k c \<and>
     (\<forall>x \<in> callers c. is_current ex x \<and> idle ex \<noteq> Some x) \<and>
     (requeues c \<longrightarrow> (\<forall>x. is_current ex x \<longrightarrow> free_thread k x))"
| "allowed \<alpha> k ex TimerTick \<longleftrightarrow> True"
| "allowed \<alpha> k ex (Core (Enqueue p)) \<longleftrightarrow>
     p \<in> dom (k_tcbs k) \<and> p \<notin># image_mset etcb (\<alpha> (ready ex)) \<and> \<not> is_current ex p"
| "allowed \<alpha> k ex (Core (Wake p)) \<longleftrightarrow> free_thread k p \<and> \<not> is_current ex p"
| "allowed \<alpha> k ex (Core (SetIdle p)) \<longleftrightarrow> free_thread k p"
| "allowed \<alpha> k ex (Core Preempt) \<longleftrightarrow> True"
| "allowed \<alpha> k ex (Core Yield) \<longleftrightarrow> (\<forall>x. is_current ex x \<longrightarrow> free_thread k x) \<and>
     (current ex = None \<or> size (\<alpha> (ready ex)) < MAX_TCB_PER_CORE)"
| "allowed \<alpha> k ex (Core (Block st)) \<longleftrightarrow> is_blocked st \<and> (\<forall>x. is_current ex x \<longrightarrow> blocks_as k st x)"
| "allowed \<alpha> k ex (Core Run) \<longleftrightarrow> current ex = None"

definition may_occur :: "('h \<Rightarrow> Entry multiset) \<Rightarrow> u32 \<Rightarrow> 'h machine \<Rightarrow> kernel_event \<Rightarrow> bool" where
  "may_occur \<alpha> ebx M ev = (case core_exec ebx (kern M) of None \<Rightarrow> False | Some ex \<Rightarrow> allowed \<alpha> (kern M) ex ev)"

inductive kernel_step ::
    "ext \<Rightarrow> 'h heap_ops \<Rightarrow> devices \<Rightarrow> ('h \<Rightarrow> Entry multiset) \<Rightarrow> u32 \<Rightarrow> 'h machine \<Rightarrow> 'h machine \<Rightarrow> bool"
  for E H D \<alpha> ebx where
  event: "may_occur \<alpha> ebx M ev \<Longrightarrow> occur E H D ebx M ev = Some (Ret M') \<Longrightarrow> kernel_step E H D \<alpha> ebx M M'"

inductive_cases kernel_stepE: "kernel_step E H D \<alpha> ebx M M'"

section \<open>The joint invariant\<close>

definition kernel_inv :: "('h \<Rightarrow> bool) \<Rightarrow> ('h \<Rightarrow> Entry multiset) \<Rightarrow> u32 \<Rightarrow> 'h kernel \<Rightarrow> bool" where
  "kernel_inv I \<alpha> ebx k \<longleftrightarrow> ipc_inv ebx k \<and>
     (\<exists>ex. core_exec ebx k = Some ex \<and> sched_ok I \<alpha> (core_cpu k ex) \<and>
       (\<forall>p. idle ex = Some p \<longrightarrow> free_thread k p))"

lemma core_cpu_simps [simp]:
  "tcbs (core_cpu k ex) = k_tcbs k" "scs (core_cpu k ex) = k_scs k" "exec (core_cpu k ex) = ex"
  "queued \<alpha> (core_cpu k ex) = \<alpha> (ready ex)"
  by (simp_all add: core_cpu_def queued_def)

lemma core_execD:
  assumes "core_exec ebx k = Some ex"
  obtains pc where "OnceLock_get (k_sched k) = Some pc" "PerCore_get_mut ebx pc = Ret ex"
  using assms by (auto simp: core_exec_def split: option.splits outcome.splits)

lemma core_exec_with_cpu:
  assumes "OnceLock_get (k_sched k) = Some pc" "PerCore_get_mut ebx pc = Ret ex"
  shows "core_exec ebx (with_cpu ebx pc s k) = Some (exec s)" "core_ok ebx (with_cpu ebx pc s k)"
proof -
  from assms(1) have "OnceLock_get (k_sched (with_cpu ebx pc s k)) = Some (PerCore_put ebx pc (exec s))"
    by (auto simp: with_cpu_def OnceLock_get_def split: if_splits)
  with put_get [OF assms(2)] show
    "core_exec ebx (with_cpu ebx pc s k) = Some (exec s)" "core_ok ebx (with_cpu ebx pc s k)"
    by (simp_all add: core_exec_def core_ok_def)
qed

lemma with_cpu_simps [simp]:
  "k_tcbs (with_cpu ebx pc s k) = tcbs s" "k_scs (with_cpu ebx pc s k) = scs s"
  "k_eps (with_cpu ebx pc s k) = k_eps k"
  by (simp_all add: with_cpu_def)

lemma core_cpu_with_cpu [simp]: "core_cpu (with_cpu ebx pc s k) (exec s) = s"
  by (simp add: core_cpu_def)

section \<open>The executor keeps the endpoints\<close>

text \<open>
  The executor changes nothing but the states of threads that neither wait at an endpoint nor
  will.
\<close>

definition quiet :: "tmem \<Rightarrow> tmem \<Rightarrow> bool" where
  "quiet m m' \<longleftrightarrow> (\<forall>x. m' x = m x \<or> (\<exists>t st. m x = Some t \<and> \<not> waits t \<and>
     m' x = Some (t\<lparr>tstate := st\<rparr>) \<and> \<not> waits (t\<lparr>tstate := st\<rparr>)))"

lemma quiet_refl [simp]: "quiet m m"
  by (simp add: quiet_def)

lemma quiet_upd:
  "m x = Some t \<Longrightarrow> \<not> waits t \<Longrightarrow> st \<notin> {BlockedOnSend, BlockedOnReceive} \<Longrightarrow>
    quiet m (m(x \<mapsto> t\<lparr>tstate := st\<rparr>))"
  by (auto simp: quiet_def waits_def)

lemma quietE:
  assumes "quiet m m'" "m' x = Some u"
  obtains "m x = Some u" | t where "m x = Some t" "\<not> waits t" "u = t\<lparr>tstate := tstate u\<rparr>" "\<not> waits u"
  using assms unfolding quiet_def by (elim allE [of _ x]) auto

lemma quiet_trans:
  assumes 1: "quiet m1 m2" and 2: "quiet m2 m3"
  shows "quiet m1 m3"
  unfolding quiet_def
proof (rule allI)
  fix x
  from 1 consider (same) "m2 x = m1 x"
    | (upd) t st where "m1 x = Some t" "\<not> waits t" "m2 x = Some (t\<lparr>tstate := st\<rparr>)" "\<not> waits (t\<lparr>tstate := st\<rparr>)"
    unfolding quiet_def by blast
  then show "m3 x = m1 x \<or> (\<exists>t st. m1 x = Some t \<and> \<not> waits t \<and>
     m3 x = Some (t\<lparr>tstate := st\<rparr>) \<and> \<not> waits (t\<lparr>tstate := st\<rparr>))"
  proof cases
    case same
    with 2 show ?thesis unfolding quiet_def by metis
  next
    case upd
    with 2 [unfolded quiet_def, rule_format, of x] show ?thesis by auto
  qed
qed

lemma quiet_fields:
  "quiet m m' \<Longrightarrow> m' x = Some u \<Longrightarrow> \<exists>t. m x = Some t \<and> sched_context u = sched_context t \<and>
    reply_to u = reply_to t \<and> regs_ok u = regs_ok t"
  unfolding quiet_def by (elim allE [of _ x] disjE) (auto simp: regs_ok_def)

lemma quiet_dom: "quiet m m' \<Longrightarrow> dom m' = dom m"
  unfolding quiet_def by (intro set_eqI) (metis domIff option.distinct(1))

lemma quiet_free: "quiet m m' \<Longrightarrow> m x = Some t \<Longrightarrow> \<not> waits t \<Longrightarrow> \<exists>t'. m' x = Some t' \<and> \<not> waits t'"
  unfolding quiet_def by (elim allE [of _ x]) auto

lemma quiet_waits: "quiet m m' \<Longrightarrow> m x = Some t \<Longrightarrow> waits t \<Longrightarrow> m' x = Some t"
  unfolding quiet_def by (elim allE [of _ x]) auto

lemma ipc_rep_quiet:
  assumes rep: "ipc_rep m eps Q" and q: "quiet m m'"
  shows "ipc_rep m' eps Q"
  unfolding ipc_rep_def
proof (intro conjI allI impI ballI)
  fix p ep assume e: "eps p = Some ep"
  have same: "m' x = m x" if "x \<in> set (Q p)" for x
    using members_wait [OF rep e that] quiet_waits [OF q] by fastforce
  with ipc_repD(1) [OF rep e] show "queue_rep m' (ep_queue ep) (Q p)" by (rule queue_rep_frame)
  show "ep_state ep = EpIdle \<longleftrightarrow> Q p = []" by (rule ipc_repD(2) [OF rep e])
  fix x assume "x \<in> set (Q p)"
  with ipc_repD(3) [OF rep e this] same show "waits_at m' p (wait_state (ep_state ep)) x"
    by (simp add: waits_at_def)
next
  fix x t assume x: "m' x = Some t"
  { assume w: "waits t"
    from q x w have "m x = Some t" by (cases rule: quietE) auto
    from ipc_repD(4) [OF rep this w]
    show "\<exists>p \<in> dom eps. blocking_object t = Some p \<and> x \<in> set (Q p)" . }
  from quiet_fields [OF q x] ipc_repD(5) [OF rep] show "regs_ok t" by blast
qed

text \<open>Every method of the executor goes through \<open>context_switch\<close>.\<close>

lemma context_switch_quiet:
  assumes run: "context_switch H s nxt = Ret (s', c)"
    and nxt: "tcbs s (etcb nxt) = Some tn" "\<not> waits tn"
  shows "quiet (tcbs s) (tcbs s')" "scs s' = scs s" "idle (exec s') = idle (exec s)"
proof -
  let ?park = "case current (exec s) of
      None \<Rightarrow> Ret s
    | Some cur \<Rightarrow> let s1 = s\<lparr>exec := (exec s)\<lparr>current := None\<rparr>\<rparr> in
        obind (deref (tcbs s1) (etcb cur)) (\<lambda>cur_tcb.
          if tstate cur_tcb = Running
          then obind (modify (tcbs s1) (etcb cur) (\<lambda>t. t\<lparr>tstate := Inactive\<rparr>)) (\<lambda>m.
               obind (expect (h_push H MAX_TCB_PER_CORE cur (ready (exec s1)))) (\<lambda>h.
                 Ret (s1\<lparr>tcbs := m, exec := (exec s1)\<lparr>ready := h\<rparr>\<rparr>)))
          else Ret s1)"
  from run obtain s2 m where park: "?park = Ret s2"
    and m: "modify (tcbs s2) (etcb nxt) (\<lambda>t. t\<lparr>tstate := Running\<rparr>) = Ret m"
      "s' = s2\<lparr>tcbs := m, exec := (exec s2)\<lparr>current := Some nxt\<rparr>\<rparr>"
    unfolding context_switch_def obind_Ret_iff by blast
  have s2: "quiet (tcbs s) (tcbs s2)" "scs s2 = scs s" "idle (exec s2) = idle (exec s)"
    using park
    by (auto simp: obind_Ret_iff deref_Ret_iff modify_Ret_iff Let_def waits_def
        intro!: quiet_upd split: option.splits if_splits)
  from quiet_free [OF s2(1) nxt] obtain t' where t': "tcbs s2 (etcb nxt) = Some t'" "\<not> waits t'" by blast
  have "quiet (tcbs s2) m" using m(1) t' by (auto intro!: quiet_upd)
  with s2 m(2) show "quiet (tcbs s) (tcbs s')" "scs s' = scs s" "idle (exec s') = idle (exec s)"
    using quiet_trans by auto
qed

text \<open>
  What an operation of the executor promises on a core \<open>s\<close>: it returns, the core is well-formed
  again, and message passing does not notice.
\<close>

definition core_keeps :: "('h \<Rightarrow> bool) \<Rightarrow> ('h \<Rightarrow> Entry multiset) \<Rightarrow> 'h cpu \<Rightarrow> 'h cpu \<Rightarrow> bool" where
  "core_keeps I \<alpha> s s' \<longleftrightarrow> sched_ok I \<alpha> s' \<and> quiet (tcbs s) (tcbs s') \<and> dom (scs s') = dom (scs s)"

definition idle_free :: "'h cpu \<Rightarrow> bool" where
  "idle_free s \<longleftrightarrow> (\<forall>p. idle (exec s) = Some p \<longrightarrow> (\<exists>t. tcbs s p = Some t \<and> \<not> waits t))"

lemma inactive_free: "in_state s p Inactive \<Longrightarrow> \<exists>t. tcbs s p = Some t \<and> \<not> waits t"
  by (auto simp: in_state_def waits_def)

lemma schedule_quiet:
  assumes H: "heap_spec H I \<alpha>" and ok: "sched_ok I \<alpha> s" and idle: "idle_free s"
    and run: "schedule H s = Ret (s', c)"
  shows "quiet (tcbs s) (tcbs s')" "scs s' = scs s" "idle (exec s') = idle (exec s)"
proof -
  consider (ready) e h where "context_switch H (s\<lparr>exec := (exec s)\<lparr>ready := h\<rparr>\<rparr>) e = Ret (s', c)"
      "in_state s (etcb e) Inactive"
    | (idle) p where "context_switch H s (Entry (- 1) p) = Ret (s', c)" "idle (exec s) = Some p"
    | (halt) "s' = s"
  proof (cases "queued \<alpha> s = {#}")
    case True
    then have "h_pop H (ready (exec s)) = None"
      using heap_pop_empty [OF H sched_okD(1) [OF ok]] by (simp add: queued_def)
    with run that(2,3) show thesis by (auto simp: schedule_def split: option.splits)
  next
    case False
    from pop_ok [OF H ok False] obtain e h where
      "h_pop H (ready (exec s)) = Some (e, h)" "in_state s (etcb e) Inactive" by metis
    with run that(1) show thesis by (simp add: schedule_def)
  qed
  then have "quiet (tcbs s) (tcbs s') \<and> scs s' = scs s \<and> idle (exec s') = idle (exec s)"
  proof cases
    case ready
    with inactive_free [OF ready(2)] context_switch_quiet [OF ready(1)] show ?thesis by auto
  next
    case (idle p)
    with assms(3) context_switch_quiet [OF idle(1)] show ?thesis by (auto simp: idle_free_def)
  qed simp
  then show "quiet (tcbs s) (tcbs s')" "scs s' = scs s" "idle (exec s') = idle (exec s)" by blast+
qed

lemma preempt_keeps:
  assumes H: "heap_spec H I \<alpha>" and ok: "sched_ok I \<alpha> s" and sc: "sc_ok s"
  shows "\<exists>s' c. preempt False H s = Ret (s', c) \<and> core_keeps I \<alpha> s s' \<and> idle (exec s') = idle (exec s)"
proof -
  from preempt_cases [OF H ok sc] obtain s' c where p: "preempt False H s = Ret (s', c)" by blast
  from sc have sc': "current (exec s) = Some cur \<Longrightarrow> tcbs s (etcb cur) = Some t \<Longrightarrow>
      sched_context t = Some x \<Longrightarrow> x \<in> dom (scs s)" for cur t x by (auto simp: sc_ok_def)
  obtain k where tick: "inc_tick False s = Ret (s\<lparr>scs := k\<rparr>)" "dom k = dom (scs s)"
    by (rule inc_tick_release [OF sc' sched_okD(5) [OF ok]])
  let ?s1 = "s\<lparr>scs := k\<rparr>"
  have ok1: "sched_ok I \<alpha> ?s1" using ok by simp
  have "quiet (tcbs s) (tcbs s') \<and> scs s' = k \<and> idle (exec s') = idle (exec s)"
  proof (cases "should_preempt H (exec ?s1)")
    case True
    then have ne: "queued \<alpha> ?s1 \<noteq> {#}"
      using should_preempt_iff [OF H ok1] by (auto split: option.splits)
    from pop_ok [OF H ok1 ne] obtain e h where
      e: "h_pop H (ready (exec ?s1)) = Some (e, h)" "in_state ?s1 (etcb e) Inactive" by metis
    with True p tick(1) have "context_switch H (?s1\<lparr>exec := (exec ?s1)\<lparr>ready := h\<rparr>\<rparr>) e = Ret (s', c)"
      by (simp add: preempt_def)
    with inactive_free [OF e(2)] context_switch_quiet [OF this] show ?thesis by auto
  next
    case False
    with p tick(1) show ?thesis by (auto simp: preempt_def)
  qed
  with p preempt_ok [OF H ok p] tick(2) show ?thesis by (auto simp: core_keeps_def)
qed

text \<open>The state in which \<open>yield_current\<close> and \<open>block_current\<close> call the scheduler.\<close>

lemma parked_keeps:
  assumes H: "heap_spec H I \<alpha>" and idle: "idle_free s"
    and s2: "sched_ok I \<alpha> s2" "quiet (tcbs s) (tcbs s2)" "scs s2 = scs s" "idle (exec s2) = idle (exec s)"
      "current (exec s2) = None"
  shows "\<exists>s' c. schedule H s2 = Ret (s', c) \<and> core_keeps I \<alpha> s s' \<and> idle (exec s') = idle (exec s)"
proof -
  from schedule_sched_ok [OF H s2(1,5)] obtain s' c where
    s': "schedule H s2 = Ret (s', c)" "sched_ok I \<alpha> s'" by blast
  have "idle_free s2" using idle s2(4) quiet_free [OF s2(2)] by (fastforce simp: idle_free_def)
  note q = schedule_quiet [OF H s2(1) this s'(1)]
  with s' s2 quiet_trans [OF s2(2) q(1)] show ?thesis by (auto simp: core_keeps_def)
qed

lemma yield_keeps:
  assumes H: "heap_spec H I \<alpha>" and ok: "sched_ok I \<alpha> s" and idle: "idle_free s"
    and room: "current (exec s) = None \<or> size (queued \<alpha> s) < MAX_TCB_PER_CORE"
    and cur: "\<And>e t. current (exec s) = Some e \<Longrightarrow> tcbs s (etcb e) = Some t \<Longrightarrow> \<not> waits t"
  shows "\<exists>s' c. yield_current H s = Ret (s', c) \<and> core_keeps I \<alpha> s s' \<and> idle (exec s') = idle (exec s)"
proof (cases "current (exec s)")
  case None
  with parked_keeps [OF H idle ok] show ?thesis by (simp add: yield_current_def)
next
  case (Some e)
  then obtain t where t: "tcbs s (etcb e) = Some t" using sched_okD(5) [OF ok] by blast
  from room Some have room: "size (queued \<alpha> s) < MAX_TCB_PER_CORE" by simp
  with heap_push [OF H sched_okD(1) [OF ok]] obtain h where
    h: "h_push H MAX_TCB_PER_CORE e (ready (exec s)) = Some h" "I h"
    "\<alpha> h = add_mset e (queued \<alpha> s)" by (metis queued_def)
  let ?s2 = "s\<lparr>tcbs := (tcbs s)(etcb e \<mapsto> t\<lparr>tstate := Inactive\<rparr>),
      exec := (exec s)\<lparr>current := None, ready := h\<rparr>\<rparr>"
  have "quiet (tcbs s) (tcbs ?s2)" using quiet_upd [of "tcbs s" "etcb e" t Inactive] t cur [OF Some t] by simp
  with parked_keeps [OF H idle park_ok(2) [OF H ok Some t h(2,3) room]] show ?thesis
    using Some t h(1) by (simp add: yield_current_def)
qed

lemma block_keeps:
  assumes H: "heap_spec H I \<alpha>" and ok: "sched_ok I \<alpha> s" and idle: "idle_free s" and st: "is_blocked st"
    and cur: "\<And>e t. current (exec s) = Some e \<Longrightarrow> tcbs s (etcb e) = Some t \<Longrightarrow>
      if waits t then st = tstate t else st = BlockedOnReply \<or> st = BlockedOnNotification"
  shows "\<exists>s' c. block_current H s st = Ret (s', c) \<and> core_keeps I \<alpha> s s' \<and> idle (exec s') = idle (exec s)"
proof (cases "current (exec s)")
  case None
  with parked_keeps [OF H idle ok] st show ?thesis by (simp add: block_current_def)
next
  case (Some e)
  then obtain t where t: "tcbs s (etcb e) = Some t" using sched_okD(5) [OF ok] by blast
  let ?s2 = "s\<lparr>exec := (exec s)\<lparr>current := None\<rparr>, tcbs := (tcbs s)(etcb e \<mapsto> t\<lparr>tstate := st\<rparr>)\<rparr>"
  have "quiet (tcbs s) (tcbs ?s2)"
  proof (cases "waits t")
    case True
    with cur [OF Some t] t have "(tcbs s)(etcb e \<mapsto> t\<lparr>tstate := st\<rparr>) = tcbs s" by auto
    then show ?thesis by simp
  next
    case False
    with cur [OF Some t] quiet_upd [of "tcbs s" "etcb e" t st] t show ?thesis by auto
  qed
  with parked_keeps [OF H idle park_ok(1) [OF H ok Some t]] show ?thesis
    using Some t st by (simp add: block_current_def)
qed

lemma enqueue_keeps:
  assumes H: "heap_spec H I \<alpha>" and ok: "sched_ok I \<alpha> s" and sc: "sc_ok s" and p: "p \<in> dom (tcbs s)"
    and fresh: "p \<notin># image_mset etcb (queued \<alpha> s)"
    and cur: "\<And>e. current (exec s) = Some e \<Longrightarrow> etcb e \<noteq> p"
  shows "\<exists>r s'. enqueue H s p = Ret (r, s') \<and> core_keeps I \<alpha> s s' \<and> tcbs s' = tcbs s \<and>
    idle (exec s') = idle (exec s)"
proof -
  from p obtain t where t: "tcbs s p = Some t" by blast
  have dl: "\<exists>d. deadline_of s p = Ret d"
  proof (cases "sched_context t")
    case (Some x)
    with sc t obtain c where "scs s x = Some c" unfolding sc_ok_def by blast
    with Some t show ?thesis by (simp add: deadline_of_def)
  qed (use t in \<open>simp add: deadline_of_def\<close>)
  then have "\<exists>r s'. enqueue H s p = Ret (r, s')" using t by (auto simp: enqueue_def split: option.splits)
  then obtain r s' where enq: "enqueue H s p = Ret (r, s')" by blast
  have "idle (exec s') = idle (exec s)"
    using enq t dl by (auto simp: enqueue_def split: option.splits if_splits)
  with enq enqueue_ok [OF H ok enq fresh cur] show ?thesis by (auto simp: core_keeps_def)
qed

lemma wake_keeps:
  assumes H: "heap_spec H I \<alpha>" and ok: "sched_ok I \<alpha> s" and sc: "sc_ok s"
    and p: "tcbs s p = Some t" "\<not> waits t" and cur: "\<And>e. current (exec s) = Some e \<Longrightarrow> etcb e \<noteq> p"
  shows "\<exists>r s'. wake H s p = Ret (r, s') \<and> core_keeps I \<alpha> s s' \<and> idle (exec s') = idle (exec s)"
proof (cases "is_blocked (tstate t)")
  case False
  with p ok show ?thesis by (simp add: wake_def core_keeps_def)
next
  case True
  let ?s1 = "s\<lparr>tcbs := (tcbs s)(p \<mapsto> t\<lparr>tstate := Inactive\<rparr>)\<rparr>"
  from True have "tstate t \<noteq> Inactive" by (auto simp: is_blocked_def)
  from blocked_not_queued [OF ok p(1) this] have nq: "p \<notin># image_mset etcb (queued \<alpha> s)" .
  have ok1: "sched_ok I \<alpha> ?s1" using other_thread_ok [OF ok nq] p(1) by blast
  have sc1: "sc_ok ?s1" using sc p(1) by (auto simp: sc_ok_def)
  have fresh: "p \<notin># image_mset etcb (queued \<alpha> ?s1)" using nq by (simp add: queued_def)
  from enqueue_keeps [OF H ok1 sc1 _ fresh] cur obtain r s' where
    s': "enqueue H ?s1 p = Ret (r, s')" "core_keeps I \<alpha> ?s1 s'" "tcbs s' = tcbs ?s1"
    "idle (exec s') = idle (exec s)" by auto
  have "quiet (tcbs s) (tcbs s')" unfolding s'(3) using quiet_upd [of "tcbs s" p t Inactive] p by simp
  with s' True p(1) show ?thesis by (auto simp: wake_def core_keeps_def)
qed

lemma set_idle_keeps:
  assumes ok: "sched_ok I \<alpha> s" and p: "tcbs s p = Some t" "\<not> waits t"
  shows "\<exists>s'. set_idle s p = Ret s' \<and> core_keeps I \<alpha> s s' \<and> idle (exec s') = Some p"
  using p set_idle_ok [OF ok, of p] quiet_upd [of "tcbs s" p t Inactive]
  by (simp add: set_idle_def core_keeps_def)

text \<open>An operation of the executor inside the kernel.\<close>

lemma with_cpu_inv:
  assumes inv: "ipc_inv ebx k"
    and pc: "OnceLock_get (k_sched k) = Some pc" "PerCore_get_mut ebx pc = Ret ex"
    and run: "core_keeps I \<alpha> (core_cpu k ex) s'" and idle: "idle_free s'"
  shows "kernel_inv I \<alpha> ebx (with_cpu ebx pc s' k)"
proof -
  from inv obtain Q where rep: "ipc_rep (k_tcbs k) (k_eps k) Q" by (auto simp: ipc_inv_def)
  have keeps: "sched_ok I \<alpha> s'" "quiet (k_tcbs k) (tcbs s')" "dom (scs s') = dom (k_scs k)"
    using run by (simp_all add: core_keeps_def)
  let ?k' = "with_cpu ebx pc s' k"
  have ok: "thread_ok ?k' x t" if "tcbs s' x = Some t" for x t
  proof -
    from quiet_dom [OF keeps(2)] have dom: "dom (tcbs s') = dom (k_tcbs k)" .
    from quiet_fields [OF keeps(2) that] obtain t0 where "k_tcbs k x = Some t0"
      "sched_context t = sched_context t0" "reply_to t = reply_to t0" by blast
    with inv dom keeps(3) show ?thesis by (auto simp: ipc_inv_def thread_ok_def sc_valid_def)
  qed
  have "ipc_inv ebx ?k'"
    unfolding ipc_inv_def using ipc_rep_quiet [OF rep keeps(2)] core_exec_with_cpu(2) [OF pc] ok by auto
  moreover have "free_thread ?k' p" if "idle (exec s') = Some p" for p
    using idle that by (auto simp: idle_free_def free_thread_def)
  ultimately show "kernel_inv I \<alpha> ebx ?k'"
    using core_exec_with_cpu(1) [OF pc] keeps(1) by (auto simp: kernel_inv_def)
qed

lemma on_core_inv:
  assumes inv: "ipc_inv ebx k" and ex: "core_exec ebx k = Some ex"
    and run: "f (core_cpu k ex) = Ret s'" "core_keeps I \<alpha> (core_cpu k ex) s'" and idle: "idle_free s'"
  shows "\<exists>k'. on_core ebx k f = Ret k' \<and> kernel_inv I \<alpha> ebx k'"
proof -
  from ex obtain pc where pc: "OnceLock_get (k_sched k) = Some pc" "PerCore_get_mut ebx pc = Ret ex"
    by (rule core_execD)
  with with_cpu_inv [OF inv pc run(2) idle] run(1) show ?thesis by (simp add: on_core_def)
qed

section \<open>Message passing keeps the ready queue\<close>

lemma push_ready_ok:
  assumes H: "heap_spec H I \<alpha>" and ok: "sched_ok I \<alpha> (core_cpu k ex)"
    and x: "in_state (core_cpu k ex) (etcb e) Inactive" "etcb e \<notin># image_mset etcb (\<alpha> (ready ex))"
      "\<not> is_current ex (etcb e)"
  shows "sched_ok I \<alpha> (core_cpu k (push_ready H e ex))"
    "\<alpha> (ready (push_ready H e ex)) \<subseteq># add_mset e (\<alpha> (ready ex))"
    "current (push_ready H e ex) = current ex" "idle (push_ready H e ex) = idle ex"
proof -
  note d = sched_okD [OF ok, simplified]
  consider (full) "push_ready H e ex = ex"
    | (pushed) h where "push_ready H e ex = ex\<lparr>ready := h\<rparr>" "I h" "\<alpha> h = add_mset e (\<alpha> (ready ex))"
      "size (\<alpha> (ready ex)) < MAX_TCB_PER_CORE"
  proof (cases "size (\<alpha> (ready ex)) < MAX_TCB_PER_CORE")
    case True
    from heap_push [OF H d(1) True, of e] obtain h where
      "h_push H MAX_TCB_PER_CORE e (ready ex) = Some h" "I h" "\<alpha> h = add_mset e (\<alpha> (ready ex))" .
    with True that(2) show thesis by (simp add: push_ready_def)
  next
    case False
    with heap_push_full [OF H d(1) False] that(1) show thesis by (simp add: push_ready_def)
  qed
  then have "sched_ok I \<alpha> (core_cpu k (push_ready H e ex)) \<and>
    \<alpha> (ready (push_ready H e ex)) \<subseteq># add_mset e (\<alpha> (ready ex)) \<and>
    current (push_ready H e ex) = current ex \<and> idle (push_ready H e ex) = idle ex"
  proof cases
    case full
    with ok show ?thesis by simp
  next
    case (pushed h)
    have "count (image_mset etcb (\<alpha> h)) p \<le> 1" for p
      using d(3) [of p] iffD2 [OF count_eq_zero_iff x(2)] pushed(3) by auto
    moreover have "\<forall>e' \<in># \<alpha> h. in_state (core_cpu k (ex\<lparr>ready := h\<rparr>)) (etcb e') Inactive"
      using d(4) x(1) pushed(3) by (auto simp: in_state_def)
    ultimately have "sched_ok I \<alpha> (core_cpu k (ex\<lparr>ready := h\<rparr>))"
      unfolding sched_ok_def using d(5,6,7) x(3) pushed(2,3,4) by (auto simp: is_current_def)
    with pushed show ?thesis by simp
  qed
  then show "sched_ok I \<alpha> (core_cpu k (push_ready H e ex))"
    "\<alpha> (ready (push_ready H e ex)) \<subseteq># add_mset e (\<alpha> (ready ex))"
    "current (push_ready H e ex) = current ex" "idle (push_ready H e ex) = idle ex" by blast+
qed

lemma push_all_ok:
  assumes H: "heap_spec H I \<alpha>" and f: "\<And>x. etcb (f x) = x"
  shows "sched_ok I \<alpha> (core_cpu k ex) \<Longrightarrow> distinct xs \<Longrightarrow>
    (\<And>x. x \<in> set xs \<Longrightarrow> in_state (core_cpu k ex) x Inactive \<and> \<not> is_current ex x \<and>
       x \<notin># image_mset etcb (\<alpha> (ready ex))) \<Longrightarrow>
    sched_ok I \<alpha> (core_cpu k (fold (\<lambda>x. push_ready H (f x)) xs ex)) \<and>
    idle (fold (\<lambda>x. push_ready H (f x)) xs ex) = idle ex"
proof (induction xs arbitrary: ex)
  case Nil
  then show ?case by simp
next
  case (Cons x xs)
  let ?ex = "push_ready H (f x) ex"
  have p: "sched_ok I \<alpha> (core_cpu k ?ex)" "\<alpha> (ready ?ex) \<subseteq># add_mset (f x) (\<alpha> (ready ex))"
    "current ?ex = current ex" "idle ?ex = idle ex"
    using Cons.prems(3) [of x] push_ready_ok [OF H Cons.prems(1), of "f x"] by (simp_all add: f)
  have "in_state (core_cpu k ?ex) y Inactive \<and> \<not> is_current ?ex y \<and> y \<notin># image_mset etcb (\<alpha> (ready ?ex))"
    if y: "y \<in> set xs" for y
  proof -
    have "y \<noteq> x" using y Cons.prems(2) by auto
    moreover have "y \<notin># image_mset etcb (\<alpha> (ready ex))" using Cons.prems(3) [of y] y by simp
    ultimately have "y \<notin># image_mset etcb (add_mset (f x) (\<alpha> (ready ex)))" by (simp add: f)
    then have "y \<notin># image_mset etcb (\<alpha> (ready ?ex))" using set_mset_mono [OF p(2)] by auto
    with Cons.prems(3) [of y] y p(3) show ?thesis by (simp add: in_state_def is_current_def)
  qed
  with Cons.IH [OF p(1)] Cons.prems(2) p(4) show ?case by simp
qed

text \<open>The effect of a call, seen from the core on which it was made.\<close>

lemma call_keeps:
  assumes H: "heap_spec H I \<alpha>" and inv: "kernel_inv I \<alpha> ebx k" and ex: "core_exec ebx k = Some ex"
    and eff: "ipc_effect H ebx k S xs k'" and inv': "ipc_inv ebx k'"
    and S: "\<And>x. x \<in> S \<Longrightarrow> is_current ex x \<and> idle ex \<noteq> Some x"
    and xs: "\<And>x. x \<in> set xs \<Longrightarrow> \<not> is_current ex x"
  shows "kernel_inv I \<alpha> ebx k'"
proof -
  note e = eff [unfolded ipc_effect_def requeued_def]
  from inv ex have ok: "sched_ok I \<alpha> (core_cpu k ex)" and free: "\<And>p. idle ex = Some p \<Longrightarrow> free_thread k p"
    by (auto simp: kernel_inv_def)
  note d = sched_okD [OF ok, simplified]
  have dom: "dom (k_tcbs k') = dom (k_tcbs k)" using e by blast
  have still: "in_state (core_cpu k' ex) (etcb q) Inactive" if q: "q \<in># \<alpha> (ready ex)" for q
  proof -
    from d(4) [OF q] obtain t where t: "k_tcbs k (etcb q) = Some t" "tstate t = Inactive"
      by (auto simp: in_state_def)
    with dom obtain t' where t': "k_tcbs k' (etcb q) = Some t'" by blast
    have "etcb q \<notin> S" using S [of "etcb q"] d(6) q by (auto simp: is_current_def)
    moreover have "thread_change k S (etcb q) t t'" using e t(1) t' by blast
    ultimately show ?thesis using t t' by (auto simp: thread_change_def waits_def in_state_def)
  qed
  have ok1: "sched_ok I \<alpha> (core_cpu k' ex)"
    unfolding sched_ok_def using d still by (auto simp: dom)
  have rs: "restart_state k = Inactive" using core_execD [OF ex] by (metis option.distinct(1) restart_state_def)
  have fresh: "in_state (core_cpu k' ex) x Inactive \<and> \<not> is_current ex x \<and> x \<notin># image_mset etcb (\<alpha> (ready ex))"
    if x: "x \<in> set xs" for x
  proof -
    from e x obtain t t' where t: "k_tcbs k x = Some t" "waits t" "k_tcbs k' x = Some t'"
      "tstate t' = restart_state k" by blast
    then have "tstate t \<noteq> Inactive" by (auto simp: waits_def)
    with blocked_not_queued [OF ok, of x t] t rs xs [OF x] show ?thesis by (simp add: in_state_def)
  qed
  let ?ex' = "fold (\<lambda>x. push_ready H (entry_of k x)) xs ex"
  have "core_exec ebx k' = Some ?ex'" using e ex by simp
  moreover have "sched_ok I \<alpha> (core_cpu k' ?ex') \<and> idle ?ex' = idle ex"
    using e fresh by (intro push_all_ok [OF H _ ok1]) (auto simp: entry_of_def)
  moreover have "free_thread k' p" if p: "idle ex = Some p" for p
  proof -
    from free [OF p] obtain t where t: "k_tcbs k p = Some t" "\<not> waits t"
      by (auto simp: free_thread_def split: option.splits)
    with dom obtain t' where t': "k_tcbs k' p = Some t'" by blast
    have "p \<notin> S" using S p by auto
    moreover have "thread_change k S p t t'" using e t(1) t' by blast
    ultimately show ?thesis using t t' by (auto simp: thread_change_def waits_def free_thread_def)
  qed
  ultimately show ?thesis using inv' by (auto simp: kernel_inv_def)
qed

section \<open>Every event keeps the invariant\<close>

lemma kernel_cpu:
  assumes "kernel_inv I \<alpha> ebx k" "core_exec ebx k = Some ex"
  shows "sched_ok I \<alpha> (core_cpu k ex)" "idle_free (core_cpu k ex)" "sc_ok (core_cpu k ex)"
proof -
  show "sched_ok I \<alpha> (core_cpu k ex)" "idle_free (core_cpu k ex)"
    using assms by (auto simp: kernel_inv_def idle_free_def free_thread_def split: option.splits)
  have "thread_ok k x t" if "k_tcbs k x = Some t" for x t
    using assms(1) that by (auto simp: kernel_inv_def ipc_inv_def)
  then show "sc_ok (core_cpu k ex)" unfolding sc_ok_def by (force simp: thread_ok_def sc_valid_def)
qed

lemma same_idle_free:
  assumes "idle_free s" "core_keeps I \<alpha> s s'" "idle (exec s') = idle (exec s)"
  shows "idle_free s'"
  unfolding idle_free_def
proof (intro allI impI)
  fix p assume "idle (exec s') = Some p"
  with assms(1,3) obtain t where "tcbs s p = Some t" "\<not> waits t" by (metis idle_free_def)
  with assms(2) show "\<exists>t. tcbs s' p = Some t \<and> \<not> waits t"
    using quiet_free unfolding core_keeps_def by blast
qed

lemma on_core_keeps:
  assumes inv: "kernel_inv I \<alpha> ebx k" and ex: "core_exec ebx k = Some ex"
    and run: "\<exists>s'. f (core_cpu k ex) = Ret s' \<and> core_keeps I \<alpha> (core_cpu k ex) s' \<and> idle (exec s') = idle ex"
  shows "\<exists>k'. on_core ebx k f = Ret k' \<and> kernel_inv I \<alpha> ebx k'"
proof -
  from inv have ipc: "ipc_inv ebx k" by (simp add: kernel_inv_def)
  from run obtain s' where s': "f (core_cpu k ex) = Ret s'" "core_keeps I \<alpha> (core_cpu k ex) s'"
    "idle (exec s') = idle ex" by blast
  have "idle_free s'" using s'(3) by (intro same_idle_free [OF kernel_cpu(2) [OF inv ex] s'(2)]) simp
  with on_core_inv [of ebx k ex f s' I \<alpha>, OF ipc ex s'(1,2)] show ?thesis by blast
qed

lemma free_threadD: "free_thread k p \<Longrightarrow> \<exists>t. k_tcbs k p = Some t \<and> \<not> waits t"
  by (auto simp: free_thread_def split: option.splits)

lemma call_event_inv:
  assumes E: "ext_ok E" and H: "heap_spec H I \<alpha>" and inv: "kernel_inv I \<alpha> ebx k"
    and ex: "core_exec ebx k = Some ex" and may: "allowed \<alpha> k ex (Call c)"
  shows "\<exists>k'. perform E H ebx k c = Some (Ret k') \<and> kernel_inv I \<alpha> ebx k'"
proof -
  from inv have "ipc_inv ebx k" by (simp add: kernel_inv_def)
  from perform_inv [OF E this, of c H] may obtain k' xs where
    k': "perform E H ebx k c = Some (Ret k')" "ipc_inv ebx k'" "ipc_effect H ebx k (callers c) xs k'"
    "requeues c \<or> xs = []" by auto
  have "\<not> is_current ex x" if x: "x \<in> set xs" for x
  proof -
    from k'(3) x have "\<not> free_thread k x" by (auto simp: ipc_effect_def requeued_def free_thread_def)
    moreover have "requeues c" using x k'(4) by auto
    ultimately show ?thesis using may by auto
  qed
  with call_keeps [OF H inv ex k'(3,2)] may k'(1) show ?thesis by auto
qed

lemma set_idle_event_inv:
  assumes inv: "kernel_inv I \<alpha> ebx k" and ex: "core_exec ebx k = Some ex" and p: "free_thread k p"
  shows "\<exists>k'. on_core ebx k (\<lambda>s. set_idle s p) = Ret k' \<and> kernel_inv I \<alpha> ebx k'"
proof -
  from free_threadD [OF p] obtain t where t: "k_tcbs k p = Some t" "\<not> waits t" by blast
  from set_idle_keeps [OF kernel_cpu(1) [OF inv ex], of p t] t obtain s' where
    s': "set_idle (core_cpu k ex) p = Ret s'" "core_keeps I \<alpha> (core_cpu k ex) s'" "idle (exec s') = Some p" by auto
  from inv have ipc: "ipc_inv ebx k" by (simp add: kernel_inv_def)
  have "idle_free s'"
    using s'(2,3) t quiet_free [of "k_tcbs k" "tcbs s'" p t] by (simp add: idle_free_def core_keeps_def)
  with on_core_inv [OF ipc ex, of "\<lambda>s. set_idle s p" s'] s'(1,2) show ?thesis by simp
qed

lemma core_call_keeps:
  assumes H: "heap_spec H I \<alpha>" and inv: "kernel_inv I \<alpha> ebx k" and ex: "core_exec ebx k = Some ex"
    and may: "allowed \<alpha> k ex (Core op)" and op: "\<And>p. op \<noteq> SetIdle p"
  shows "\<exists>s'. core_call False H (core_cpu k ex) op = Ret s' \<and> core_keeps I \<alpha> (core_cpu k ex) s' \<and> idle (exec s') = idle ex"
proof -
  note cpu = kernel_cpu [OF inv ex]
  have cur: "is_current ex (etcb e)" if "current ex = Some e" for e using that by (simp add: is_current_def)
  show ?thesis
  proof (cases op)
    case (SetIdle p)
    with op [of p] show ?thesis by simp
  next
    case (Enqueue p)
    have "\<exists>r s'. enqueue H (core_cpu k ex) p = Ret (r, s') \<and> core_keeps I \<alpha> (core_cpu k ex) s' \<and>
        tcbs s' = tcbs (core_cpu k ex) \<and> idle (exec s') = idle (exec (core_cpu k ex))"
      by (rule enqueue_keeps [OF H cpu(1,3)]) (use may Enqueue cur in auto)
    with Enqueue show ?thesis by auto
  next
    case (Wake p)
    with may free_threadD [of k p] obtain t where t: "k_tcbs k p = Some t" "\<not> waits t" by auto
    have "\<exists>r s'. wake H (core_cpu k ex) p = Ret (r, s') \<and> core_keeps I \<alpha> (core_cpu k ex) s' \<and>
        idle (exec s') = idle (exec (core_cpu k ex))"
      by (rule wake_keeps [OF H cpu(1,3)]) (use may Wake cur t in auto)
    with Wake show ?thesis by auto
  next
    case Preempt
    with preempt_keeps [OF H cpu(1,3)] show ?thesis by auto
  next
    case Yield
    have "\<exists>s' c. yield_current H (core_cpu k ex) = Ret (s', c) \<and> core_keeps I \<alpha> (core_cpu k ex) s' \<and>
        idle (exec s') = idle (exec (core_cpu k ex))"
      by (rule yield_keeps [OF H cpu(1,2)]) (use may Yield cur in \<open>fastforce simp: free_thread_def\<close>)+
    with Yield show ?thesis by auto
  next
    case (Block st)
    have "\<exists>s' c. block_current H (core_cpu k ex) st = Ret (s', c) \<and> core_keeps I \<alpha> (core_cpu k ex) s' \<and>
        idle (exec s') = idle (exec (core_cpu k ex))"
      by (rule block_keeps [OF H cpu(1,2)]) (use may Block cur in fastforce)+
    with Block show ?thesis by auto
  next
    case Run
    have "\<exists>s' c. schedule H (core_cpu k ex) = Ret (s', c) \<and> core_keeps I \<alpha> (core_cpu k ex) s' \<and>
        idle (exec s') = idle (exec (core_cpu k ex))"
      by (rule parked_keeps [OF H cpu(2,1)]) (use may Run in auto)
    with Run show ?thesis by (auto simp: run_def)
  qed
qed

lemma core_event_inv:
  assumes H: "heap_spec H I \<alpha>" and inv: "kernel_inv I \<alpha> ebx k" and ex: "core_exec ebx k = Some ex"
    and may: "allowed \<alpha> k ex (Core op)"
  shows "\<exists>k'. on_core ebx k (\<lambda>s. core_call False H s op) = Ret k' \<and> kernel_inv I \<alpha> ebx k'"
proof (cases "\<exists>p. op = SetIdle p")
  case True
  with set_idle_event_inv [OF inv ex] may show ?thesis by auto
next
  case False
  then have "\<And>p. op \<noteq> SetIdle p" by blast
  from core_call_keeps [OF H inv ex may this] show ?thesis by (rule on_core_keeps [OF inv ex])
qed

section \<open>The timer interrupt\<close>

text \<open>The locks: calibration has ended, the lock of the controller is free, and the register that
  acknowledges an interrupt is mapped. The lock of the timer may be held.\<close>

definition machine_inv :: "('h \<Rightarrow> bool) \<Rightarrow> ('h \<Rightarrow> Entry multiset) \<Rightarrow> devices \<Rightarrow> u32 \<Rightarrow> 'h machine \<Rightarrow> bool" where
  "machine_inv I \<alpha> D ebx M \<longleftrightarrow> kernel_inv I \<alpha> ebx (kern M) \<and> \<not> held (m_apic M) \<and>
     \<not> is_calibration (guarded (m_ticks M)) \<and> mapped D (lapic_addr (guarded (m_apic M)) + 0xB0)"

lemma on_timer_free:
  assumes H: "heap_spec H I \<alpha>" and inv: "machine_inv I \<alpha> D ebx M" and ex: "core_exec ebx (kern M) = Some ex"
    and free: "\<not> held (m_ticks M)"
  shows "\<exists>M'. on_timer H D ebx M = Some (Ret M') \<and> machine_inv I \<alpha> D ebx M' \<and>
    (held (m_ticks M') \<longleftrightarrow> preempts \<alpha> (core_cpu (kern M) ex))"
proof -
  from inv have k: "kernel_inv I \<alpha> ebx (kern M)" by (simp add: machine_inv_def)
  then have ipc: "ipc_inv ebx (kern M)" by (simp add: kernel_inv_def)
  note cpu = kernel_cpu [OF k ex]
  from ex obtain pc where pc: "OnceLock_get (k_sched (kern M)) = Some pc" "PerCore_get_mut ebx pc = Ret ex"
    by (rule core_execD)
  let ?g = "globals_of M" and ?s = "core_cpu (kern M) ex"
  have g: "core_state ebx ?g pc ?s" "\<not> held (TICKS ?g)" "\<not> held (APIC ?g)" "\<not> is_calibration (guarded (TICKS ?g))"
    using pc free inv by (simp_all add: core_state_def globals_of_def machine_inv_def)
  from timer_tick [OF H g(1) cpu(1,3) g(2-4), of D] obtain s' c tk k' where
    p: "preempt False H ?s = Ret (s', c)" and
    t: "tick_handler False H D ebx (guarded (TICKS ?g)) (ksys ?g) = Ret (tk, k', c)"
      "tk = (guarded (m_ticks M))\<lparr>tick_count := tick_count (guarded (m_ticks M)) + 1\<rparr>"
      "k' = \<lparr>io = m_io M, sched = (k_sched (kern M))\<lparr>cell := Some (PerCore_put ebx pc (exec s'))\<rparr>, ktcbs = tcbs s', kscs = scs s'\<rparr>"
    by (auto simp: globals_of_def)
  have c: "if preempts \<alpha> ?s then \<exists>e. c = Resume (etcb e) else c = Return"
    using preempt_cases [OF H cpu(1,3)] p by auto
  from preempt_keeps [OF H cpu(1,3)] p have keeps: "core_keeps I \<alpha> ?s s'" "idle (exec s') = idle (exec ?s)" by auto
  from with_cpu_inv [OF ipc pc keeps(1) same_idle_free [OF cpu(2) keeps]]
  have k1: "kernel_inv I \<alpha> ebx (with_cpu ebx pc s' (kern M))" .
  have wg: "with_globals (?g\<lparr>TICKS := T, ksys := k'\<lparr>io := u\<rparr>\<rparr>) M =
      M\<lparr>m_ticks := T, m_io := u, kern := with_cpu ebx pc s' (kern M)\<rparr>" for T u
    by (simp add: with_globals_def globals_of_def t(3) with_cpu_def)
  have eoi: "end_interrupt D (guarded (m_apic M)) u = Ret (acknowledged (guarded (m_apic M)) u)" for u
    using inv by (simp add: end_interrupt_eq machine_inv_def reg_ptr_def)
  have same: "k' = k'\<lparr>io := m_io M\<rparr>" by (simp add: t(3))
  show ?thesis
  proof (cases "preempts \<alpha> ?s")
    case True
    with c obtain e where "c = Resume (etcb e)" by auto
    with t(1) free have "timer_handler False H D ebx ?g = Diverted (etcb e) (?g\<lparr>TICKS := \<lparr>held = True, guarded = tk\<rparr>, ksys := k'\<rparr>)"
      by (simp add: timer_handler_def globals_of_def)
    then have "on_timer H D ebx M = Some (Ret (M\<lparr>m_ticks := \<lparr>held = True, guarded = tk\<rparr>, m_io := m_io M,
        kern := with_cpu ebx pc s' (kern M)\<rparr>))"
      by (subst (asm) same) (simp add: on_timer_def wg)
    with True k1 inv t(2) show ?thesis by (simp add: machine_inv_def)
  next
    case False
    with c have "c = Return" by simp
    with t(1,3) free inv have "timer_handler False H D ebx ?g = Finished (?g\<lparr>TICKS := \<lparr>held = False, guarded = tk\<rparr>,
        ksys := k'\<lparr>io := acknowledged (guarded (m_apic M)) (m_io M)\<rparr>\<rparr>)"
      by (simp add: timer_handler_def globals_of_def machine_inv_def eoi Let_def)
    then have "on_timer H D ebx M = Some (Ret (M\<lparr>m_ticks := \<lparr>held = False, guarded = tk\<rparr>,
        m_io := acknowledged (guarded (m_apic M)) (m_io M), kern := with_cpu ebx pc s' (kern M)\<rparr>))"
      by (simp add: on_timer_def wg)
    with False k1 inv t(2) show ?thesis by (simp add: machine_inv_def)
  qed
qed

lemma on_timer_held: "held (m_ticks M) \<Longrightarrow> on_timer H D ebx M = None"
  by (simp add: on_timer_def timer_handler_def globals_of_def)

text \<open>Events other than the timer interrupt change nothing but the kernel.\<close>

lemma other_event_inv:
  assumes E: "ext_ok E" and H: "heap_spec H I \<alpha>" and inv: "machine_inv I \<alpha> D ebx M"
    and may: "may_occur \<alpha> ebx M ev" and ev: "ev \<noteq> TimerTick"
  shows "\<exists>k'. occur E H D ebx M ev = Some (Ret (M\<lparr>kern := k'\<rparr>)) \<and> machine_inv I \<alpha> D ebx (M\<lparr>kern := k'\<rparr>)"
proof -
  from inv have k: "kernel_inv I \<alpha> ebx (kern M)" by (simp add: machine_inv_def)
  then obtain ex where ex: "core_exec ebx (kern M) = Some ex" by (auto simp: kernel_inv_def)
  from may ex have may: "allowed \<alpha> (kern M) ex ev" by (simp add: may_occur_def)
  show ?thesis
  proof (cases ev)
    case (Call c)
    with call_event_inv [OF E H k ex, of c] may inv show ?thesis by (auto simp: put_kern_def machine_inv_def)
  next
    case (Core op)
    with core_event_inv [OF H k ex, of op] may inv show ?thesis by (auto simp: put_kern_def machine_inv_def)
  qed (use ev in simp)
qed

lemma kernel_step_inv:
  assumes E: "ext_ok E" and H: "heap_spec H I \<alpha>" and inv: "machine_inv I \<alpha> D ebx M"
    and step: "kernel_step E H D \<alpha> ebx M M'"
  shows "machine_inv I \<alpha> D ebx M'" "held (m_ticks M) \<Longrightarrow> held (m_ticks M')"
proof -
  from step obtain ev where ev: "may_occur \<alpha> ebx M ev" "occur E H D ebx M ev = Some (Ret M')" by (elim kernel_stepE)
  have "machine_inv I \<alpha> D ebx M' \<and> (held (m_ticks M) \<longrightarrow> held (m_ticks M'))"
  proof (cases "ev = TimerTick")
    case True
    from inv obtain ex where ex: "core_exec ebx (kern M) = Some ex" by (auto simp: machine_inv_def kernel_inv_def)
    have "\<not> held (m_ticks M)" using ev(2) True on_timer_held [of M H D ebx] by auto
    with on_timer_free [OF H inv ex this] ev(2) True show ?thesis by auto
  next
    case False
    from other_event_inv [OF E H inv ev(1) False] ev(2) show ?thesis by auto
  qed
  then show "machine_inv I \<alpha> D ebx M'" "held (m_ticks M) \<Longrightarrow> held (m_ticks M')" by simp_all
qed

lemma kernel_reach_inv:
  assumes E: "ext_ok E" and H: "heap_spec H I \<alpha>" and reach: "(kernel_step E H D \<alpha> ebx)\<^sup>*\<^sup>* M0 M"
  shows "machine_inv I \<alpha> D ebx M0 \<Longrightarrow> machine_inv I \<alpha> D ebx M \<and> (held (m_ticks M0) \<longrightarrow> held (m_ticks M))"
  using reach
proof (induction rule: rtranclp_induct)
  case (step M M')
  with kernel_step_inv [OF E H, of D ebx M M'] show ?case by blast
qed simp

section \<open>Properties\<close>

text \<open>
  Claim C4. On a core of a release build, after calibration and with the register that acknowledges
  an interrupt mapped, message passing, the methods of the executor and the timer interrupt, with its
  locks, are interleaved in any order that respects the obligations of their callers: a thread sends
  and receives only as the current thread and never as the idle one; threads of an endpoint are
  restarted only while the current thread is not waiting; \<open>enqueue\<close> is called for threads that are
  neither ready nor current, \<open>wake\<close> and \<open>set_idle\<close> for threads that no endpoint holds, \<open>wake\<close>
  not for the current one, \<open>yield_current\<close> with room in the ready queue, \<open>block_current\<close> with the state that message passing gave the current
  thread or one of the other two blocked states, \<open>run\<close> with no current thread. Then in every
  reachable state the joint invariant of endpoints and ready queue holds, and no ready thread is in
  the queue of an endpoint. Every such call returns, without a panic, an invalid memory access or an
  endless loop. A timer interrupt goes on as well, to the interrupted or to another thread, unless an earlier
  one has switched threads: a timer interrupt holds the lock of the timer afterwards exactly when it
  switches, nothing ever releases this lock, and a timer interrupt that finds it held never ends.
\<close>

theorem kernel_invariant:
  assumes "ext_ok E" "heap_spec H I \<alpha>" "machine_inv I \<alpha> D ebx M0" "(kernel_step E H D \<alpha> ebx)\<^sup>*\<^sup>* M0 M"
  shows "machine_inv I \<alpha> D ebx M \<and>
    (\<forall>ev. may_occur \<alpha> ebx M ev \<and> ev \<noteq> TimerTick \<longrightarrow> (\<exists>M'. occur E H D ebx M ev = Some (Ret M'))) \<and>
    (\<exists>ex. core_exec ebx (kern M) = Some ex \<and> (\<forall>e \<in># \<alpha> (ready ex). free_thread (kern M) (etcb e)) \<and>
      (if held (m_ticks M) then occur E H D ebx M TimerTick = None
       else \<exists>M'. occur E H D ebx M TimerTick = Some (Ret M') \<and>
         (held (m_ticks M') \<longleftrightarrow> preempts \<alpha> (core_cpu (kern M) ex)))) \<and>
    (held (m_ticks M) \<longrightarrow> (\<forall>M'. (kernel_step E H D \<alpha> ebx)\<^sup>*\<^sup>* M M' \<longrightarrow> held (m_ticks M')))"
proof -
  have inv: "machine_inv I \<alpha> D ebx M" using kernel_reach_inv [OF assms(1,2,4,3)] by blast
  then have k: "kernel_inv I \<alpha> ebx (kern M)" by (simp add: machine_inv_def)
  then obtain ex where ex: "core_exec ebx (kern M) = Some ex" by (auto simp: kernel_inv_def)
  have "free_thread (kern M) (etcb e)" if "e \<in># \<alpha> (ready ex)" for e
    using sched_okD(4) [OF kernel_cpu(1) [OF k ex], of e] that
    by (auto simp: in_state_def free_thread_def waits_def)
  moreover have "if held (m_ticks M) then occur E H D ebx M TimerTick = None
      else \<exists>M'. occur E H D ebx M TimerTick = Some (Ret M') \<and> (held (m_ticks M') \<longleftrightarrow> preempts \<alpha> (core_cpu (kern M) ex))"
    using on_timer_held [of M H D ebx] on_timer_free [OF assms(2) inv ex] by auto
  moreover have "held (m_ticks M')" if "held (m_ticks M)" "(kernel_step E H D \<alpha> ebx)\<^sup>*\<^sup>* M M'" for M'
    using kernel_reach_inv [OF assms(1,2) that(2) inv] that(1) by blast
  ultimately show ?thesis using inv ex other_event_inv [OF assms(1,2) inv] by blast
qed

text \<open>
  A kernel for the witnesses: thread 0x400 runs with deadline 50, thread 0xc00 is ready with
  deadline 20, and thread 0x800 waits to receive on the endpoint at 0x9000.
\<close>

definition demo_joint :: "Entry list kernel" where
  "demo_joint = demo_kernel\<lparr>
     k_tcbs := (k_tcbs demo_kernel)(0xc00 \<mapsto> Tcb_new\<lparr>tstate := Inactive\<rparr>),
     k_sched := \<lparr>once = INITIALIZED, cell = Some \<lparr>cores =
       [Some \<lparr>ready = [Entry 20 0xc00], current = Some (Entry 50 0x400), idle = None\<rparr>], initialized_count = 1\<rparr>\<rparr>\<rparr>"

lemma demo_joint_exec:
  "core_exec 0 demo_joint = Some \<lparr>ready = [Entry 20 0xc00], current = Some (Entry 50 0x400), idle = None\<rparr>"
  by (simp add: demo_joint_def core_exec_def OnceLock_get_def PerCore_get_mut_def get_unsafe_def cpuid_def sysinfo_def)

lemma demo_joint_rep: "ipc_rep (k_tcbs demo_joint) (k_eps demo_joint) demo_Q"
  by (auto simp: ipc_rep_def demo_joint_def demo_kernel_def demo_Q_def queue_rep_def waits_at_def waits_def Tcb_new_def
      TrapFrame_new_def regs_ok_def split: if_splits)

lemma demo_joint_inv: "kernel_inv sorted mset 0 demo_joint"
proof -
  have "core_ok 0 demo_joint"
    using demo_joint_exec by (auto simp: core_ok_def core_exec_def split: option.splits outcome.splits)
  moreover have "thread_ok demo_joint x t" if "k_tcbs demo_joint x = Some t" for x t
    using that by (auto simp: thread_ok_def sc_valid_def demo_joint_def demo_kernel_def Tcb_new_def split: if_splits)
  ultimately have "ipc_inv 0 demo_joint" using demo_joint_rep by (auto simp: ipc_inv_def)
  then show ?thesis
    by (simp add: kernel_inv_def demo_joint_exec)
      (auto simp: sched_ok_def core_cpu_def in_state_def queued_def demo_joint_def demo_kernel_def MAX_TCB_PER_CORE_def)
qed

definition demo_machine :: "Entry list machine" where
  "demo_machine = \<lparr>kern = demo_joint, m_apic = \<lparr>held = False, guarded = demo_apic\<rparr>,
     m_ticks = \<lparr>held = False, guarded = Tick_new\<lparr>is_calibration := False\<rparr>\<rparr>, m_io = []\<rparr>"

lemma demo_machine_inv: "machine_inv sorted mset demo_devices 0 demo_machine"
  using demo_joint_inv demo_mapped(3) by (simp add: machine_inv_def demo_machine_def)

text \<open>A send, then a timer interrupt that switches to the ready thread, then one that never ends.\<close>

theorem kernel_invariant_witness:
  "\<exists>M1 M2. kernel_step ext_doc list_heap demo_devices mset 0 demo_machine M1 \<and>
     kernel_step ext_doc list_heap demo_devices mset 0 demo_machine M2 \<and> machine_inv sorted mset demo_devices 0 M2 \<and>
     held (m_ticks M2) \<and> occur ext_doc list_heap demo_devices 0 M2 TimerTick = None"
proof -
  let ?step = "kernel_step ext_doc list_heap demo_devices mset 0"
  let ?send = "Call (CallSend True False 7 False False 0x400 demo_ep)"
  note inv = kernel_invariant [OF ext_doc_ok list_heap_spec demo_machine_inv]
  note i0 = inv [OF rtranclp.rtrancl_refl]
  have ex: "core_exec 0 (kern demo_machine) = Some \<lparr>ready = [Entry 20 0xc00], current = Some (Entry 50 0x400), idle = None\<rparr>"
    by (simp add: demo_machine_def demo_joint_exec)
  have send: "may_occur mset 0 demo_machine ?send"
    unfolding may_occur_def ex
    by (simp add: is_current_def free_thread_def live_endpoint_def demo_machine_def demo_joint_def demo_kernel_def waits_def Tcb_new_def)
  with i0 obtain M1 where M1: "occur ext_doc list_heap demo_devices 0 demo_machine ?send = Some (Ret M1)" by blast
  have tick: "may_occur mset 0 demo_machine TimerTick" unfolding may_occur_def ex by simp
  have free: "\<not> held (m_ticks demo_machine)" by (simp add: demo_machine_def)
  from i0 free ex obtain M2 where M2: "occur ext_doc list_heap demo_devices 0 demo_machine TimerTick = Some (Ret M2)"
    "held (m_ticks M2) \<longleftrightarrow> preempts mset (core_cpu (kern demo_machine) \<lparr>ready = [Entry 20 0xc00], current = Some (Entry 50 0x400), idle = None\<rparr>)"
    by (auto simp del: occur.simps)
  have "held (m_ticks M2)" unfolding M2(2) by (simp add: preempts_def)
  have step: "?step demo_machine M1" "?step demo_machine M2" by (rule event [OF send M1]) (rule event [OF tick M2(1)])
  from inv [OF r_into_rtranclp [of ?step, OF step(2)]] \<open>held (m_ticks M2)\<close> step show ?thesis
    by (auto simp del: occur.simps)
qed

text \<open>
  Claim C32. The obligation on restarting is needed, because a blocking \<open>send_ipc\<close> leaves the
  blocked sender the current thread of its core: when the current thread sends on an endpoint at
  which nobody receives and \<open>cancel_all_ipc\<close> is called on this endpoint before the next switch,
  both calls succeed, and the thread is then at once the current one and in the ready queue, so
  that the core is no longer well-formed.
\<close>

theorem restarted_while_current:
  assumes E: "ext_ok E" and H: "heap_spec H I \<alpha>" and inv: "kernel_inv I \<alpha> ebx k"
    and ex: "core_exec ebx k = Some ex" "current ex = Some cur" "free_thread k (etcb cur)"
    and rep: "ipc_rep (k_tcbs k) (k_eps k) Q" and addr: "paddr cap < 0x10000000000000"
    and ep: "k_eps k (paddr cap) = Some ep" "ep_state ep \<noteq> EpRecv"
    and room: "size (\<alpha> (ready ex)) + length (Q (paddr cap)) < MAX_TCB_PER_CORE"
  shows "\<exists>k1 k2 ex2. send_ipc False E H ebx k True do_call bdg cg cgr (etcb cur) cap = Ret (Inr (), k1) \<and>
    core_exec ebx k1 = Some ex \<and> cancel_all_ipc E H ebx k1 cap = Some (Ret k2) \<and>
    core_exec ebx k2 = Some ex2 \<and> current ex2 = Some cur \<and>
    etcb cur \<in># image_mset etcb (\<alpha> (ready ex2)) \<and> \<not> sched_ok I \<alpha> (core_cpu k2 ex2)"
proof -
  from free_threadD [OF ex(3)] obtain ts where ts: "k_tcbs k (etcb cur) = Some ts" "\<not> waits ts" by blast
  from send_ipc_block [OF E addr rep ep ts] obtain k1 where
    k1: "send_ipc False E H ebx k True do_call bdg cg cgr (etcb cur) cap = Ret (Inr (), k1)"
    "ipc_rep (k_tcbs k1) (k_eps k1) (Q(paddr cap := Q (paddr cap) @ [etcb cur]))" "k_sched k1 = k_sched k"
    "dom (k_eps k1) = dom (k_eps k)" by metis
  have live: "live_endpoint k cap" using addr ep by (simp add: live_endpoint_def)
  from inv have "ipc_inv ebx k" by (simp add: kernel_inv_def)
  from send_ipc_inv [OF E this ex(3) live, of H True do_call bdg cg cgr] k1(1) have
    inv1: "ipc_inv ebx k1" by auto
  have sc: "sc_valid (k_scs k1) t" if "k_tcbs k1 x = Some t" for x t
    using inv1 that by (auto simp: ipc_inv_def thread_ok_def)
  have core1: "core_ok ebx k1" and ex1: "core_exec ebx k1 = Some ex"
    using inv1 ex(1) k1(3) by (simp_all add: ipc_inv_def core_exec_def)
  from k1(4) ep obtain ep1 where ep1: "k_eps k1 (paddr cap) = Some ep1" by blast
  obtain k2 where k2: "cancel_all_ipc E H ebx k1 cap = Some (Ret k2)"
    "all_restarted H ebx k1 (Q (paddr cap) @ [etcb cur]) k2"
    by (rule cancel_all_ipc_Ret [where H = H, OF E addr k1(2) ep1 core1]) (use sc in auto)
  have I: "I (ready ex)" using sched_okD(1) [OF kernel_cpu(1) [OF inv ex(1)]] by simp
  from all_restarted_ready [OF H k2(2) ex1 I] room obtain ex2 where
    ex2: "core_exec ebx k2 = Some ex2" "current ex2 = current ex"
    "\<alpha> (ready ex2) = \<alpha> (ready ex) + mset (map (entry_of k1) (Q (paddr cap) @ [etcb cur]))" by auto
  have in2: "etcb cur \<in># image_mset etcb (\<alpha> (ready ex2))" by (simp add: ex2(3) entry_of_def)
  then have "\<not> sched_ok I \<alpha> (core_cpu k2 ex2)"
    using sched_okD(6) [of I \<alpha> "core_cpu k2 ex2" cur] ex(2) ex2(2) by auto
  with k1(1) ex1 k2(1) ex2(1,2) ex(2) in2 show ?thesis by auto
qed

text \<open>The same kernel with nobody at the endpoint.\<close>

definition demo_alone :: "Entry list kernel" where
  "demo_alone = demo_joint\<lparr>k_tcbs := (k_tcbs demo_joint)(0x800 := None), k_eps := [0x9000 \<mapsto> EndpointObj_new]\<rparr>"

lemma demo_alone_rep: "ipc_rep (k_tcbs demo_alone) (k_eps demo_alone) (\<lambda>_. [])"
  by (auto simp: ipc_rep_def demo_alone_def demo_joint_def demo_kernel_def EndpointObj_new_def TcbQueue_new_def
      queue_rep_def waits_def Tcb_new_def TrapFrame_new_def regs_ok_def split: if_splits)

lemma demo_alone_exec:
  "core_exec 0 demo_alone = Some \<lparr>ready = [Entry 20 0xc00], current = Some (Entry 50 0x400), idle = None\<rparr>"
  using demo_joint_exec by (simp add: demo_alone_def core_exec_def)

lemma demo_alone_inv: "kernel_inv sorted mset 0 demo_alone"
proof -
  have "core_ok 0 demo_alone"
    using demo_alone_exec by (auto simp: core_ok_def core_exec_def split: option.splits outcome.splits)
  moreover have "thread_ok demo_alone x t" if "k_tcbs demo_alone x = Some t" for x t
    using that
    by (auto simp: thread_ok_def sc_valid_def demo_alone_def demo_joint_def demo_kernel_def Tcb_new_def split: if_splits)
  ultimately have "ipc_inv 0 demo_alone" using demo_alone_rep by (auto simp: ipc_inv_def)
  then show ?thesis
    by (simp add: kernel_inv_def demo_alone_exec)
      (auto simp: sched_ok_def core_cpu_def in_state_def queued_def demo_alone_def demo_joint_def demo_kernel_def
        MAX_TCB_PER_CORE_def)
qed

theorem restarted_while_current_witness:
  "\<exists>k1 k2 ex2. send_ipc False ext_doc list_heap 0 demo_alone True False 7 False False 0x400 demo_ep = Ret (Inr (), k1) \<and>
    cancel_all_ipc ext_doc list_heap 0 k1 demo_ep = Some (Ret k2) \<and> core_exec 0 k2 = Some ex2 \<and>
    current ex2 = Some (Entry 50 0x400) \<and> 0x400 \<in># image_mset etcb (mset (ready ex2))"
proof -
  have "free_thread demo_alone 0x400"
    by (simp add: free_thread_def demo_alone_def demo_joint_def demo_kernel_def waits_def Tcb_new_def)
  moreover have "k_eps demo_alone 0x9000 = Some EndpointObj_new" by (simp add: demo_alone_def)
  ultimately show ?thesis
    using restarted_while_current [OF ext_doc_ok list_heap_spec demo_alone_inv demo_alone_exec, of "Entry 50 0x400"
        "\<lambda>_. []" demo_ep EndpointObj_new False 7 False False] demo_alone_rep
    by (simp add: MAX_TCB_PER_CORE_def EndpointObj_new_def) blast
qed

end
