(* ===== verification/Console.thy ===== *)
theory Console
  imports Prelude
begin

unbundle bit_operations_syntax

text \<open>
  The console of the kernel: the pixel framebuffer writer
  (\<open>arch/x86_64/console/framebuffer.rs\<close>), the logger behind its spin lock
  (\<open>console/logger.rs\<close>), their initialisation (\<open>console/mod.rs\<close>) and the panic handler that
  paints the screen (\<open>main.rs\<close>).

  The framebuffer is a list of bytes. The font is a third-party table and is a parameter: what
  \<open>get_raster\<close> answers for a character and the width of a symbol; \<open>font_ok\<close> is its documented
  shape. The text that the formatting machinery of the language produces for a log record is
  an argument. A panic leaves the writer as it is at that point (the panic handler uses it again),
  so an operation returns \<open>Inl w\<close> when it panics with the writer \<open>w\<close> and \<open>Inr w\<close> when it
  returns.

  Shown: a character drawn changes exactly the pixels of its cell, which lies on the visible
  screen; writing any text never panics in either build profile and keeps the writer
  well-formed; the panic screen paints every visible pixel; a panic raised while the logger
  lock is held makes the panic handler panic itself, for ever.
\<close>

section \<open>Data\<close>

datatype PixelFormat = Rgb | Bgr | U8 | Unknown

record FrameBufferInfo =
  fb_width :: usize
  fb_height :: usize
  pixel_format :: PixelFormat
  bytes_per_pixel :: usize
  stride :: usize

text \<open>A character is its Unicode scalar value.\<close>

type_synonym rchar = u32

record RasterizedChar =
  raster :: "u8 list list"
  raster_w :: usize

record font =
  get_raster :: "rchar \<Rightarrow> RasterizedChar option"
  get_raster_width :: usize

record FrameBufferWriter =
  framebuffer :: "u8 list"
  info :: FrameBufferInfo
  x_pos :: usize
  y_pos :: usize
  panic_mode :: bool

definition LINE_SPACING :: usize where "LINE_SPACING = 2"
definition LETTER_SPACING :: usize where "LETTER_SPACING = 0"
definition BORDER_PADDING :: usize where "BORDER_PADDING = 1"

text \<open>\<open>RasterHeight::Size16.val()\<close>.\<close>

definition CHAR_RASTER_HEIGHT :: usize where "CHAR_RASTER_HEIGHT = 16"
definition BACKUP_CHAR :: rchar where "BACKUP_CHAR = 0xFFFD"

section \<open>Sequencing\<close>

definition cbind :: "'w + 'a \<Rightarrow> ('a \<Rightarrow> 'w + 'b) \<Rightarrow> 'w + 'b" where
  "cbind m f = (case m of Inl w \<Rightarrow> Inl w | Inr x \<Rightarrow> f x)"

text \<open>Arithmetic and option unwrapping inside an operation: a panic leaves the state \<open>w\<close>.\<close>

definition or_panic :: "'w \<Rightarrow> 'a outcome \<Rightarrow> ('a \<Rightarrow> 'w + 'b) \<Rightarrow> 'w + 'b" where
  "or_panic w m f = (case m of Ret x \<Rightarrow> f x | _ \<Rightarrow> Inl w)"

lemma cbind_simps [simp]: "cbind (Inl w) f = Inl w" "cbind (Inr x) f = f x"
  by (simp_all add: cbind_def)

lemma or_panic_simps [simp]: "or_panic w (Ret x) f = f x" "or_panic w Panic f = Inl w"
  by (simp_all add: or_panic_def)

section \<open>The framebuffer writer\<close>

definition get_char_raster :: "font \<Rightarrow> rchar \<Rightarrow> RasterizedChar outcome" where
  "get_char_raster F c =
     (case get_raster F c of Some r \<Rightarrow> Ret r | None \<Rightarrow> expect (get_raster F BACKUP_CHAR))"

definition carriage_return :: "FrameBufferWriter \<Rightarrow> FrameBufferWriter" where
  "carriage_return w = w\<lparr>x_pos := BORDER_PADDING\<rparr>"

definition newline :: "bool \<Rightarrow> FrameBufferWriter \<Rightarrow> FrameBufferWriter + FrameBufferWriter" where
  "newline dbg w =
     or_panic w (u_add dbg CHAR_RASTER_HEIGHT LINE_SPACING) (\<lambda>d.
     or_panic w (u_add dbg (y_pos w) d) (\<lambda>y.
       Inr (carriage_return (w\<lparr>y_pos := y\<rparr>))))"

definition clear :: "FrameBufferWriter \<Rightarrow> FrameBufferWriter" where
  "clear w = w\<lparr>x_pos := BORDER_PADDING, y_pos := BORDER_PADDING,
     framebuffer := map (\<lambda>_. 0) (framebuffer w)\<rparr>"

definition FrameBufferWriter_new :: "u8 list \<Rightarrow> FrameBufferInfo \<Rightarrow> FrameBufferWriter" where
  "FrameBufferWriter_new fb i =
     clear \<lparr>framebuffer = fb, info = i, x_pos = 0, y_pos = 0, panic_mode = False\<rparr>"

text \<open>The colour bytes of a pixel; \<open>None\<close> for a format that is not supported.\<close>

fun pixel_color :: "PixelFormat \<Rightarrow> bool \<Rightarrow> u8 \<Rightarrow> u8 list option" where
  "pixel_color Rgb pm i = Some [if pm then 139 else i, i, i div 2, 0]"
| "pixel_color Bgr pm i = Some [i div 2, i, if pm then 139 else i, 0]"
| "pixel_color U8 pm i = Some [if i > 200 then 0xf else 0, 0, 0, 0]"
| "pixel_color Unknown pm i = None"

text \<open>\<open>fb[a..a + n].copy_from_slice(..)\<close> once the bounds are checked.\<close>

definition copy_from_slice :: "u8 list \<Rightarrow> nat \<Rightarrow> u8 list \<Rightarrow> u8 list" where
  "copy_from_slice fb a bs = take a fb @ bs @ drop (a + length bs) fb"

text \<open>
  The common tail of \<open>write_pixel\<close> and of the loop body of \<open>panic_screen\<close>: the slice
  of the framebuffer and the slice of the colour are bounds-checked.
\<close>

definition store_pixel ::
    "bool \<Rightarrow> FrameBufferWriter \<Rightarrow> usize \<Rightarrow> u8 list \<Rightarrow> (FrameBufferWriter, usize \<times> FrameBufferWriter) sum" where
  "store_pixel dbg w pixel_offset color =
     (let bpp = bytes_per_pixel (info w) in
      or_panic w (u_mul dbg pixel_offset bpp) (\<lambda>byte_offset.
      or_panic w (u_add dbg byte_offset bpp) (\<lambda>byte_end.
        if byte_end < byte_offset \<or> length (framebuffer w) < unat byte_end \<or> length color < unat bpp
        then Inl w
        else Inr (byte_offset, w\<lparr>framebuffer :=
               copy_from_slice (framebuffer w) (unat byte_offset) (take (unat bpp) color)\<rparr>))))"

definition write_pixel ::
    "bool \<Rightarrow> FrameBufferWriter \<Rightarrow> usize \<Rightarrow> usize \<Rightarrow> u8 \<Rightarrow> FrameBufferWriter + FrameBufferWriter" where
  "write_pixel dbg w x y intensity =
     or_panic w (u_mul dbg y (stride (info w))) (\<lambda>row.
     or_panic w (u_add dbg row x) (\<lambda>pixel_offset.
     case pixel_color (pixel_format (info w)) (panic_mode w) intensity of
       None \<Rightarrow> Inl (w\<lparr>info := (info w)\<lparr>pixel_format := Rgb\<rparr>\<rparr>)
     | Some color \<Rightarrow>
         cbind (store_pixel dbg w pixel_offset color) (\<lambda>(byte_offset, w').
           if unat byte_offset < length (framebuffer w') then Inr w' else Inl w')))"

fun write_row ::
    "bool \<Rightarrow> FrameBufferWriter \<Rightarrow> nat \<Rightarrow> nat \<Rightarrow> u8 list \<Rightarrow> FrameBufferWriter + FrameBufferWriter" where
  "write_row dbg w y x [] = Inr w"
| "write_row dbg w y x (b # row) =
     or_panic w (u_add dbg (x_pos w) (of_nat x)) (\<lambda>px.
     or_panic w (u_add dbg (y_pos w) (of_nat y)) (\<lambda>py.
     cbind (write_pixel dbg w px py b) (\<lambda>w'. write_row dbg w' y (Suc x) row)))"

fun write_rows ::
    "bool \<Rightarrow> FrameBufferWriter \<Rightarrow> nat \<Rightarrow> u8 list list \<Rightarrow> FrameBufferWriter + FrameBufferWriter" where
  "write_rows dbg w y [] = Inr w"
| "write_rows dbg w y (row # rows) =
     cbind (write_row dbg w y 0 row) (\<lambda>w'. write_rows dbg w' (Suc y) rows)"

definition write_rendered_char ::
    "bool \<Rightarrow> FrameBufferWriter \<Rightarrow> RasterizedChar \<Rightarrow> FrameBufferWriter + FrameBufferWriter" where
  "write_rendered_char dbg w r =
     cbind (write_rows dbg w 0 (raster r)) (\<lambda>w'.
     or_panic w' (u_add dbg (raster_w r) LETTER_SPACING) (\<lambda>d.
     or_panic w' (u_add dbg (x_pos w') d) (\<lambda>x.
       Inr (w'\<lparr>x_pos := x\<rparr>))))"

definition write_char ::
    "bool \<Rightarrow> font \<Rightarrow> FrameBufferWriter \<Rightarrow> rchar \<Rightarrow> FrameBufferWriter + FrameBufferWriter" where
  "write_char dbg F w c =
     (if c = 10 then newline dbg w
      else if c = 13 then Inr (carriage_return w)
      else
        or_panic w (u_add dbg (x_pos w) (get_raster_width F)) (\<lambda>new_xpos.
        cbind (if fb_width (info w) \<le> new_xpos then newline dbg w else Inr w) (\<lambda>w1.
        or_panic w1 (u_add dbg (y_pos w1) CHAR_RASTER_HEIGHT) (\<lambda>y1.
        or_panic w1 (u_add dbg y1 BORDER_PADDING) (\<lambda>new_ypos.
        let w2 = (if fb_height (info w1) \<le> new_ypos then clear w1 else w1) in
        or_panic w2 (get_char_raster F c) (\<lambda>r. write_rendered_char dbg w2 r))))))"

fun write_str ::
    "bool \<Rightarrow> font \<Rightarrow> FrameBufferWriter \<Rightarrow> rchar list \<Rightarrow> FrameBufferWriter + FrameBufferWriter" where
  "write_str dbg F w [] = Inr w"
| "write_str dbg F w (c # s) = cbind (write_char dbg F w c) (\<lambda>w'. write_str dbg F w' s)"

fun panic_color :: "PixelFormat \<Rightarrow> u8 list option" where
  "panic_color Rgb = Some [139, 0, 0, 0]"
| "panic_color Bgr = Some [0, 0, 139, 0]"
| "panic_color U8 = Some [0xf, 0, 0, 0]"
| "panic_color Unknown = None"

fun paint_cols ::
    "bool \<Rightarrow> u8 list \<Rightarrow> FrameBufferWriter \<Rightarrow> nat \<Rightarrow> nat list \<Rightarrow> FrameBufferWriter + FrameBufferWriter" where
  "paint_cols dbg color w y [] = Inr w"
| "paint_cols dbg color w y (x # xs) =
     or_panic w (u_mul dbg (of_nat y) (stride (info w))) (\<lambda>row.
     or_panic w (u_add dbg row (of_nat x)) (\<lambda>pixel_offset.
     cbind (store_pixel dbg w pixel_offset color) (\<lambda>(_, w'). paint_cols dbg color w' y xs)))"

fun paint_lines ::
    "bool \<Rightarrow> u8 list \<Rightarrow> FrameBufferWriter \<Rightarrow> nat list \<Rightarrow> FrameBufferWriter + FrameBufferWriter" where
  "paint_lines dbg color w [] = Inr w"
| "paint_lines dbg color w (y # ys) =
     cbind (paint_cols dbg color w y [0..<unat (fb_width (info w))]) (\<lambda>w'.
       paint_lines dbg color w' ys)"

definition panic_screen :: "bool \<Rightarrow> FrameBufferWriter \<Rightarrow> FrameBufferWriter + FrameBufferWriter" where
  "panic_screen dbg w =
     (let w1 = w\<lparr>x_pos := BORDER_PADDING, y_pos := BORDER_PADDING\<rparr> in
      case panic_color (pixel_format (info w1)) of
        None \<Rightarrow> Inl w1
      | Some dark_red \<Rightarrow>
          cbind (paint_lines dbg dark_red w1 [0..<unat (fb_height (info w1))]) (\<lambda>w2.
            Inr (w2\<lparr>panic_mode := True\<rparr>)))"

section \<open>The logger and the panic handler\<close>

text \<open>
  \<open>LOGGER\<close> is a cell that is filled once (\<open>spin::Once\<close>); the writer is behind a spin lock.
  \<open>Spins\<close> is a call that waits for a lock that is held.
\<close>

record Logger =
  locked :: bool
  writer :: FrameBufferWriter

datatype 'a logged = Done 'a | Panicked 'a | Spins

datatype LevelFilter = LevelDebug | LevelInfo

definition Logger_new :: "u8 list \<Rightarrow> FrameBufferInfo \<Rightarrow> Logger" where
  "Logger_new fb i = \<lparr>locked = False, writer = FrameBufferWriter_new fb i\<rparr>"

text \<open>
  The guard is dropped when \<open>log\<close> returns; a panic aborts, so the guard is not dropped then.
  \<open>text\<close> is the formatted record, its line feed included.
\<close>

definition Logger_log :: "bool \<Rightarrow> font \<Rightarrow> Logger \<Rightarrow> rchar list \<Rightarrow> Logger logged" where
  "Logger_log dbg F L text =
     (if locked L then Spins
      else case write_str dbg F (writer L) text of
        Inr w \<Rightarrow> Done (L\<lparr>writer := w\<rparr>)
      | Inl w \<Rightarrow> Panicked (L\<lparr>locked := True, writer := w\<rparr>))"

definition console_init ::
    "bool \<Rightarrow> font \<Rightarrow> Logger option \<Rightarrow> u8 list \<Rightarrow> FrameBufferInfo \<Rightarrow> rchar list \<Rightarrow> (Logger \<times> LevelFilter) logged" where
  "console_init dbg F LOGGER fb i text =
     (let L = (case LOGGER of Some L \<Rightarrow> L | None \<Rightarrow> Logger_new fb i);
          level = (if dbg then LevelDebug else LevelInfo)
      in case Logger_log dbg F L text of
           Done L' \<Rightarrow> Done (L', level) | Panicked L' \<Rightarrow> Panicked (L', level) | Spins \<Rightarrow> Spins)"

text \<open>
  What the panic handler comes to: it halts in its final loop, it panics (which enters the
  handler again), or it waits for the logger lock.
\<close>

datatype handled = Looping "Logger option" | Repanic Logger | Waiting

definition panic_handler ::
    "bool \<Rightarrow> font \<Rightarrow> Logger option \<Rightarrow> rchar list \<Rightarrow> handled" where
  "panic_handler dbg F LOGGER text =
     (case LOGGER of
        None \<Rightarrow> Looping None
      | Some L \<Rightarrow>
          if locked L then Repanic L
          else (case panic_screen dbg (writer L) of
            Inl w \<Rightarrow> Repanic (L\<lparr>locked := True, writer := w\<rparr>)
          | Inr w \<Rightarrow>
              (case Logger_log dbg F (L\<lparr>writer := w\<rparr>) text of
                 Done L' \<Rightarrow> Looping (Some L') | Panicked L' \<Rightarrow> Repanic L' | Spins \<Rightarrow> Waiting)))"

text \<open>The handler entered again for every panic it raises, \<open>n\<close> times at most.\<close>

fun panic_nested :: "nat \<Rightarrow> bool \<Rightarrow> font \<Rightarrow> Logger \<Rightarrow> rchar list \<Rightarrow> handled" where
  "panic_nested 0 dbg F L text = panic_handler dbg F (Some L) text"
| "panic_nested (Suc n) dbg F L text =
     (case panic_handler dbg F (Some L) text of
        Repanic L' \<Rightarrow> panic_nested n dbg F L' text
      | h \<Rightarrow> h)"

section \<open>The screen\<close>

text \<open>The bytes of the pixel in column \<open>i\<close> of line \<open>j\<close>.\<close>

definition pixel_at :: "FrameBufferWriter \<Rightarrow> nat \<Rightarrow> nat \<Rightarrow> u8 list" where
  "pixel_at w i j =
     (let b = unat (bytes_per_pixel (info w))
      in take b (drop ((j * unat (stride (info w)) + i) * b) (framebuffer w)))"

definition paint :: "FrameBufferWriter \<Rightarrow> u8 \<Rightarrow> u8 list" where
  "paint w b = take (unat (bytes_per_pixel (info w)))
     (the (pixel_color (pixel_format (info w)) (panic_mode w) b))"

text \<open>
  A usable screen: a supported format, one to four bytes per pixel, lines no longer than the
  stride, and a buffer that holds all lines (a slice is never longer than \<open>isize::MAX\<close>).
\<close>

definition screen_ok :: "FrameBufferWriter \<Rightarrow> bool" where
  "screen_ok w \<longleftrightarrow> pixel_format (info w) \<noteq> Unknown \<and>
     1 \<le> unat (bytes_per_pixel (info w)) \<and> unat (bytes_per_pixel (info w)) \<le> 4 \<and>
     fb_width (info w) \<le> stride (info w) \<and>
     unat (fb_height (info w)) * unat (stride (info w)) * unat (bytes_per_pixel (info w))
       \<le> length (framebuffer w) \<and>
     length (framebuffer w) < 2 ^ 63"

text \<open>
  The documented shape of the font: every raster has sixteen rows of the width of a symbol, the
  replacement character has a raster, and a symbol is narrow.
\<close>

definition font_ok :: "font \<Rightarrow> bool" where
  "font_ok F \<longleftrightarrow> get_raster F BACKUP_CHAR \<noteq> None \<and> get_raster_width F < 2 ^ 16 \<and>
     (\<forall>c r. get_raster F c = Some r \<longrightarrow> length (raster r) = 16 \<and> raster_w r = get_raster_width F \<and>
        (\<forall>row \<in> set (raster r). length row = unat (get_raster_width F)))"

text \<open>A screen with room for one symbol; the cursor has not run off to the right.\<close>

definition console_ok :: "font \<Rightarrow> FrameBufferWriter \<Rightarrow> bool" where
  "console_ok F w \<longleftrightarrow> font_ok F \<and> screen_ok w \<and>
     unat (get_raster_width F) + 1 \<le> unat (fb_width (info w)) \<and> 17 \<le> unat (fb_height (info w)) \<and>
     unat (x_pos w) \<le> unat (fb_width (info w)) \<and> fb_width (info w) < 2 ^ 63 \<and> fb_height (info w) < 2 ^ 63"

text \<open>Where the next symbol goes, and whether the screen is erased before.\<close>

definition place :: "font \<Rightarrow> FrameBufferWriter \<Rightarrow> nat \<times> nat \<times> bool" where
  "place F w =
     (let (x, y) = (if unat (fb_width (info w)) \<le> unat (x_pos w) + unat (get_raster_width F)
                    then (1, unat (y_pos w) + 18) else (unat (x_pos w), unat (y_pos w)))
      in if unat (fb_height (info w)) \<le> y + 17 then (1, 1, True) else (x, y, False))"

section \<open>Lemmas on pixels\<close>

lemma length_copy [simp]:
  "a + length bs \<le> length fb \<Longrightarrow> length (copy_from_slice fb a bs) = length fb"
  by (simp add: copy_from_slice_def)

lemma chunk_copy:
  assumes "length bs = b" "(k + 1) * b \<le> length fb"
  shows "take b (drop (k' * b) (copy_from_slice fb (k * b) bs)) =
    (if k' = k then bs else take b (drop (k' * b) fb))"
proof -
  have len: "k * b + b \<le> length fb" using assms(2) by (simp add: algebra_simps)
  consider "k' = k" | "k' < k" | "k < k'" by linarith
  then show ?thesis
  proof cases
    case 1
    then show ?thesis using len assms(1) by (simp add: copy_from_slice_def)
  next
    case 2
    then have "Suc k' * b \<le> k * b" by (intro mult_right_mono) simp_all
    then have "k' * b + b \<le> k * b" by simp
    moreover from this have "b \<le> k * b - k' * b" by arith
    ultimately show ?thesis using 2 len assms(1)
      by (simp add: copy_from_slice_def drop_take)
  next
    case 3
    then have "Suc k * b \<le> k' * b" by (intro mult_right_mono) simp_all
    then have le: "k * b + b \<le> k' * b" by simp
    then have "drop (k' * b) (copy_from_slice fb (k * b) bs) = drop (k' * b) fb"
      using 3 len assms(1) by (simp add: copy_from_slice_def)
    then show ?thesis using 3 by simp
  qed
qed

lemma pixel_color_Some:
  assumes "f \<noteq> Unknown"
  obtains c where "pixel_color f pm i = Some c" "length c = 4"
  using assms by (cases f) auto

lemma panic_color_Some:
  assumes "f \<noteq> Unknown"
  obtains c where "panic_color f = Some c" "length c = 4"
  using assms by (cases f) auto

lemma screen_offset:
  assumes "screen_ok w" "i < unat (stride (info w))" "j < unat (fb_height (info w))"
  shows "(j * unat (stride (info w)) + i + 1) * unat (bytes_per_pixel (info w)) \<le> length (framebuffer w)"
    "j * unat (stride (info w)) + i < 2 ^ 63"
proof -
  let ?s = "unat (stride (info w))" and ?b = "unat (bytes_per_pixel (info w))"
  have "Suc j * ?s \<le> unat (fb_height (info w)) * ?s" using assms(3) by (intro mult_right_mono) simp_all
  then have le: "j * ?s + i + 1 \<le> unat (fb_height (info w)) * ?s" using assms(2) by simp
  then have "(j * ?s + i + 1) * ?b \<le> unat (fb_height (info w)) * ?s * ?b" by (rule mult_right_mono) simp
  with assms(1) show fit: "(j * ?s + i + 1) * ?b \<le> length (framebuffer w)" by (simp add: screen_ok_def)
  have "(j * ?s + i + 1) * 1 \<le> (j * ?s + i + 1) * ?b" using assms(1)
    by (intro mult_left_mono) (auto simp: screen_ok_def)
  with fit assms(1) show "j * ?s + i < 2 ^ 63" by (simp add: screen_ok_def)
qed

text \<open>The writer with other framebuffer contents of the same length.\<close>

definition repainted :: "FrameBufferWriter \<Rightarrow> (nat \<Rightarrow> nat \<Rightarrow> u8 list) \<Rightarrow> FrameBufferWriter \<Rightarrow> bool" where
  "repainted w px w' \<longleftrightarrow> w' = w\<lparr>framebuffer := framebuffer w'\<rparr> \<and>
     length (framebuffer w') = length (framebuffer w) \<and>
     (\<forall>i j. i < unat (stride (info w)) \<longrightarrow> pixel_at w' i j = px i j)"

lemma repainted_refl: "repainted w (pixel_at w) w"
  by (simp add: repainted_def)

lemma repainted_keeps:
  assumes "repainted w px w'"
  shows "info w' = info w" "x_pos w' = x_pos w" "y_pos w' = y_pos w" "panic_mode w' = panic_mode w"
    "length (framebuffer w') = length (framebuffer w)"
    "\<And>i j. i < unat (stride (info w)) \<Longrightarrow> pixel_at w' i j = px i j"
    "screen_ok w' = screen_ok w" "paint w' = paint w"
proof -
  define fb where "fb = framebuffer w'"
  with assms have w': "w' = w\<lparr>framebuffer := fb\<rparr>" and "length fb = length (framebuffer w)"
    unfolding repainted_def by simp_all
  then show "info w' = info w" "x_pos w' = x_pos w" "y_pos w' = y_pos w" "panic_mode w' = panic_mode w"
    "length (framebuffer w') = length (framebuffer w)" "screen_ok w' = screen_ok w" "paint w' = paint w"
    by (simp_all add: screen_ok_def paint_def fun_eq_iff)
  show "\<And>i j. i < unat (stride (info w)) \<Longrightarrow> pixel_at w' i j = px i j"
    using assms by (simp add: repainted_def)
qed

lemma repainted_trans:
  assumes "repainted w px w1" "repainted w1 qx w2"
    and "\<And>i j. i < unat (stride (info w)) \<Longrightarrow> qx i j = rx i j"
  shows "repainted w rx w2"
proof -
  have "w2 = w\<lparr>framebuffer := framebuffer w2\<rparr>"
    using assms(1,2) by (cases w; cases w1; cases w2) (simp add: repainted_def)
  moreover have "info w1 = info w" by (rule repainted_keeps(1) [OF assms(1)])
  ultimately show ?thesis using assms unfolding repainted_def by simp
qed

lemma store_pixel_ok:
  assumes "screen_ok w" "i < unat (stride (info w))" "j < unat (fb_height (info w))"
    and "unat off = j * unat (stride (info w)) + i" "length color = 4"
  shows "\<exists>bo w'. store_pixel dbg w off color = Inr (bo, w') \<and> unat bo < length (framebuffer w) \<and>
    repainted w (\<lambda>i' j'. if i' = i \<and> j' = j then take (unat (bytes_per_pixel (info w))) color else pixel_at w i' j') w'"
proof -
  let ?s = "unat (stride (info w))"
  define b where "b = unat (bytes_per_pixel (info w))"
  define k where "k = j * ?s + i"
  let ?bo = "off * bytes_per_pixel (info w)" and ?be = "off * bytes_per_pixel (info w) + bytes_per_pixel (info w)"
  have b: "1 \<le> b" "b \<le> 4" "length (framebuffer w) < 2 ^ 63" using assms(1) by (auto simp: screen_ok_def b_def)
  have fit1: "(k + 1) * b \<le> length (framebuffer w)"
    unfolding k_def b_def by (rule screen_offset [OF assms(1-3)])
  then have fit: "k * b + b \<le> length (framebuffer w)" by (simp only: add_mult_distrib mult_1)
  have off: "unat off = k" using assms(4) by (simp add: k_def)
  have "k * b < 2 ^ 64" using fit b by simp
  then have bo: "u_mul dbg off (bytes_per_pixel (info w)) = Ret ?bo" "unat ?bo = k * b"
    by (simp_all add: u_mul_def unat_mult_exact off flip: b_def)
  have "unat ?bo + b < 2 ^ LENGTH(64)" unfolding bo(2) using fit b by simp
  then have be: "u_add dbg ?bo (bytes_per_pixel (info w)) = Ret ?be" "unat ?be = k * b + b"
    by (simp_all only: u_add_exact unat_add_exact bo(2) b_def)
  have guard: "\<not> ?be < ?bo" "\<not> length (framebuffer w) < unat ?be" "\<not> length color < b"
    using fit b assms(5) unfolding word_less_nat_alt bo(2) be(2) by linarith+
  let ?c = "take b color"
  let ?w = "w\<lparr>framebuffer := copy_from_slice (framebuffer w) (k * b) ?c\<rparr>"
  have lc: "length ?c = b" using assms(5) b by simp
  have "store_pixel dbg w off color = Inr (?bo, ?w)"
    using guard by (simp add: store_pixel_def Let_def bo be(1) flip: b_def)
  moreover have "unat ?bo < length (framebuffer w)" unfolding bo(2) using fit b by linarith
  moreover have "repainted w (\<lambda>i' j'. if i' = i \<and> j' = j then ?c else pixel_at w i' j') ?w"
    unfolding repainted_def
  proof (intro conjI allI impI)
    fix i' j' assume i': "i' < ?s"
    have "j' * ?s + i' = k \<longleftrightarrow> i' = i \<and> j' = j"
    proof
      assume "j' * ?s + i' = k"
      then have "(j' * ?s + i') div ?s = k div ?s" "(j' * ?s + i') mod ?s = k mod ?s" by simp_all
      then show "i' = i \<and> j' = j" using i' assms(2) by (simp add: k_def)
    qed (simp add: k_def)
    moreover have "pixel_at ?w i' j' = (if j' * ?s + i' = k then ?c else pixel_at w i' j')"
      using chunk_copy [OF lc fit1, of "j' * ?s + i'"] by (simp add: pixel_at_def Let_def flip: b_def)
    ultimately show "pixel_at ?w i' j' = (if i' = i \<and> j' = j then ?c else pixel_at w i' j')" by simp
  qed (use fit lc in simp_all)
  ultimately show ?thesis unfolding b_def by blast
qed


text \<open>The writer on screen coordinates: what one pixel, one row and one symbol change.\<close>

definition inside :: "nat \<Rightarrow> nat \<Rightarrow> nat \<Rightarrow> nat \<Rightarrow> nat \<Rightarrow> nat \<Rightarrow> bool" where
  "inside x y n m i j \<longleftrightarrow> x \<le> i \<and> i < x + n \<and> y \<le> j \<and> j < y + m"

lemma offset_ok:
  assumes "screen_ok w" "i < unat (stride (info w))" "j < unat (fb_height (info w))"
    and "unat x = i" "unat y = j"
  shows "u_mul dbg y (stride (info w)) = Ret (y * stride (info w))"
    "u_add dbg (y * stride (info w)) x = Ret (y * stride (info w) + x)"
    "unat (y * stride (info w) + x) = j * unat (stride (info w)) + i"
proof -
  have b: "j * unat (stride (info w)) + i < 2 ^ 63" by (rule screen_offset [OF assms(1-3)])
  then have m: "unat y * unat (stride (info w)) < 2 ^ LENGTH(64)" using assms(5) by simp
  then show "u_mul dbg y (stride (info w)) = Ret (y * stride (info w))" by (simp add: u_mul_def)
  have "unat (y * stride (info w)) = j * unat (stride (info w))"
    using unat_mult_exact [OF m] assms(5) by simp
  moreover from this have a: "unat (y * stride (info w)) + unat x < 2 ^ LENGTH(64)" using b assms(4) by simp
  ultimately show "u_add dbg (y * stride (info w)) x = Ret (y * stride (info w) + x)"
    "unat (y * stride (info w) + x) = j * unat (stride (info w)) + i"
    using unat_add_exact [OF a] assms(4) by (simp_all only: u_add_exact)
qed

lemma write_pixel_ok:
  assumes "screen_ok w" "i < unat (stride (info w))" "j < unat (fb_height (info w))"
    and "unat x = i" "unat y = j"
  shows "\<exists>w'. write_pixel dbg w x y b = Inr w' \<and>
    repainted w (\<lambda>i' j'. if i' = i \<and> j' = j then paint w b else pixel_at w i' j') w'"
proof -
  have "pixel_format (info w) \<noteq> Unknown" using assms(1) by (simp add: screen_ok_def)
  then obtain c where c: "pixel_color (pixel_format (info w)) (panic_mode w) b = Some c" "length c = 4"
    by (rule pixel_color_Some)
  note o = offset_ok [OF assms]
  from store_pixel_ok [OF assms(1-3) o(3) c(2), of dbg] obtain bo w' where
    st: "store_pixel dbg w (y * stride (info w) + x) c = Inr (bo, w')" "unat bo < length (framebuffer w)"
    and rp: "repainted w (\<lambda>i' j'. if i' = i \<and> j' = j then take (unat (bytes_per_pixel (info w))) c
      else pixel_at w i' j') w'" by blast
  have "write_pixel dbg w x y b = Inr w'"
    using st repainted_keeps(5) [OF rp] by (simp add: write_pixel_def o(1,2) c(1))
  moreover have pc: "take (unat (bytes_per_pixel (info w))) c = paint w b" by (simp add: paint_def c(1))
  ultimately show ?thesis using rp [unfolded pc] by blast
qed

lemma write_row_ok:
  assumes "screen_ok w" "unat (x_pos w) + x + length row \<le> unat (stride (info w))"
    and "unat (y_pos w) + y < unat (fb_height (info w))"
  shows "\<exists>w'. write_row dbg w y x row = Inr w' \<and>
    repainted w (\<lambda>i j. if inside (unat (x_pos w) + x) (unat (y_pos w) + y) (length row) 1 i j
      then paint w (row ! (i - (unat (x_pos w) + x))) else pixel_at w i j) w'"
  using assms
proof (induction row arbitrary: w x)
  case Nil
  then show ?case by (auto simp: inside_def repainted_def)
next
  case (Cons b row)
  let ?x = "x_pos w + of_nat x" and ?y = "y_pos w + of_nat y"
  have sx: "unat (of_nat x :: usize) = x" "unat (x_pos w) + x < 2 ^ LENGTH(64)"
    using Cons.prems(2) unat_bound64 [of "stride (info w)"] by (simp_all add: unat_of_nat take_bit_nat_eq_self)
  have sy: "unat (of_nat y :: usize) = y" "unat (y_pos w) + y < 2 ^ LENGTH(64)"
    using Cons.prems(3) unat_bound64 [of "fb_height (info w)"] by (simp_all add: unat_of_nat take_bit_nat_eq_self)
  have ux: "unat ?x = unat (x_pos w) + x" "u_add dbg (x_pos w) (of_nat x) = Ret ?x"
    using unat_add_exact [of "x_pos w" "of_nat x"] u_add_exact [of "x_pos w" "of_nat x"] sx by simp_all
  have uy: "unat ?y = unat (y_pos w) + y" "u_add dbg (y_pos w) (of_nat y) = Ret ?y"
    using unat_add_exact [of "y_pos w" "of_nat y"] u_add_exact [of "y_pos w" "of_nat y"] sy by simp_all
  have "unat (x_pos w) + x < unat (stride (info w))" using Cons.prems(2) by simp
  from write_pixel_ok [OF Cons.prems(1) this Cons.prems(3) ux(1) uy(1), of dbg b] obtain w1 where
    w1: "write_pixel dbg w ?x ?y b = Inr w1" and
    rp: "repainted w (\<lambda>i' j'. if i' = unat (x_pos w) + x \<and> j' = unat (y_pos w) + y
      then paint w b else pixel_at w i' j') w1" by blast
  note k = repainted_keeps [OF rp]
  have "\<exists>w'. write_row dbg w1 y (Suc x) row = Inr w' \<and>
    repainted w1 (\<lambda>i j. if inside (unat (x_pos w1) + Suc x) (unat (y_pos w1) + y) (length row) 1 i j
      then paint w1 (row ! (i - (unat (x_pos w1) + Suc x))) else pixel_at w1 i j) w'"
    by (rule Cons.IH) (use Cons.prems in \<open>simp_all add: k\<close>)
  then obtain w2 where w2: "write_row dbg w1 y (Suc x) row = Inr w2" and
    rp2: "repainted w1 (\<lambda>i j. if inside (unat (x_pos w) + Suc x) (unat (y_pos w) + y) (length row) 1 i j
      then paint w (row ! (i - (unat (x_pos w) + Suc x))) else pixel_at w1 i j) w2"
    unfolding k(1-4,8) by blast
  have "repainted w (\<lambda>i j. if inside (unat (x_pos w) + x) (unat (y_pos w) + y) (length (b # row)) 1 i j
      then paint w ((b # row) ! (i - (unat (x_pos w) + x))) else pixel_at w i j) w2"
    by (rule repainted_trans [OF rp rp2]) (auto simp: inside_def k(6) nth_Cons' Suc_diff_Suc)
  then show ?case by (auto simp: ux(2) uy(2) w1 w2)
qed

lemma write_rows_ok:
  assumes "screen_ok w" "\<forall>row \<in> set rows. length row = n"
    and "unat (x_pos w) + n \<le> unat (stride (info w))"
    and "unat (y_pos w) + y + length rows \<le> unat (fb_height (info w))"
  shows "\<exists>w'. write_rows dbg w y rows = Inr w' \<and>
    repainted w (\<lambda>i j. if inside (unat (x_pos w)) (unat (y_pos w) + y) n (length rows) i j
      then paint w (rows ! (j - (unat (y_pos w) + y)) ! (i - unat (x_pos w))) else pixel_at w i j) w'"
  using assms
proof (induction rows arbitrary: w y)
  case Nil
  then show ?case by (auto simp: inside_def repainted_def)
next
  case (Cons row rows)
  have "\<exists>w'. write_row dbg w y 0 row = Inr w' \<and>
    repainted w (\<lambda>i j. if inside (unat (x_pos w) + 0) (unat (y_pos w) + y) (length row) 1 i j
      then paint w (row ! (i - (unat (x_pos w) + 0))) else pixel_at w i j) w'"
    by (rule write_row_ok) (use Cons.prems in simp_all)
  moreover have n: "length row = n" using Cons.prems(2) by simp
  ultimately obtain w1 where w1: "write_row dbg w y 0 row = Inr w1" and
    rp: "repainted w (\<lambda>i j. if inside (unat (x_pos w)) (unat (y_pos w) + y) n 1 i j
      then paint w (row ! (i - unat (x_pos w))) else pixel_at w i j) w1"
    unfolding n add_0_right by blast
  note k = repainted_keeps [OF rp]
  have "\<exists>w'. write_rows dbg w1 (Suc y) rows = Inr w' \<and>
    repainted w1 (\<lambda>i j. if inside (unat (x_pos w1)) (unat (y_pos w1) + Suc y) n (length rows) i j
      then paint w1 (rows ! (j - (unat (y_pos w1) + Suc y)) ! (i - unat (x_pos w1))) else pixel_at w1 i j) w'"
    by (rule Cons.IH) (use Cons.prems in \<open>simp_all add: k\<close>)
  then obtain w2 where w2: "write_rows dbg w1 (Suc y) rows = Inr w2" and
    rp2: "repainted w1 (\<lambda>i j. if inside (unat (x_pos w)) (unat (y_pos w) + Suc y) n (length rows) i j
      then paint w (rows ! (j - (unat (y_pos w) + Suc y)) ! (i - unat (x_pos w))) else pixel_at w1 i j) w2"
    unfolding k(1-4,8) by blast
  have "repainted w (\<lambda>i j. if inside (unat (x_pos w)) (unat (y_pos w) + y) n (length (row # rows)) i j
      then paint w ((row # rows) ! (j - (unat (y_pos w) + y)) ! (i - unat (x_pos w))) else pixel_at w i j) w2"
    by (rule repainted_trans [OF rp rp2]) (auto simp: inside_def k(6) nth_Cons' Suc_diff_Suc)
  then show ?case by (auto simp: w1 w2)
qed


lemma write_rendered_char_ok:
  assumes "screen_ok w" "length (raster r) = 16" "\<forall>row \<in> set (raster r). length row = unat (raster_w r)"
    and "unat (x_pos w) + unat (raster_w r) \<le> unat (stride (info w))"
    and "unat (y_pos w) + 16 \<le> unat (fb_height (info w))"
  shows "\<exists>w'. write_rendered_char dbg w r = Inr (w'\<lparr>x_pos := x_pos w + raster_w r\<rparr>) \<and>
    unat (x_pos w + raster_w r) = unat (x_pos w) + unat (raster_w r) \<and>
    repainted w (\<lambda>i j. if inside (unat (x_pos w)) (unat (y_pos w)) (unat (raster_w r)) 16 i j
      then paint w (raster r ! (j - unat (y_pos w)) ! (i - unat (x_pos w))) else pixel_at w i j) w'"
proof -
  have "\<exists>w'. write_rows dbg w 0 (raster r) = Inr w' \<and>
    repainted w (\<lambda>i j. if inside (unat (x_pos w)) (unat (y_pos w) + 0) (unat (raster_w r)) (length (raster r)) i j
      then paint w (raster r ! (j - (unat (y_pos w) + 0)) ! (i - unat (x_pos w))) else pixel_at w i j) w'"
    by (rule write_rows_ok) (use assms in simp_all)
  then obtain w' where w': "write_rows dbg w 0 (raster r) = Inr w'" and
    rp: "repainted w (\<lambda>i j. if inside (unat (x_pos w)) (unat (y_pos w)) (unat (raster_w r)) 16 i j
      then paint w (raster r ! (j - unat (y_pos w)) ! (i - unat (x_pos w))) else pixel_at w i j) w'"
    unfolding assms(2) add_0_right by blast
  have b: "unat (x_pos w) + unat (raster_w r) < 2 ^ LENGTH(64)"
    using assms(4) unat_bound64 [of "stride (info w)"] by simp
  have "write_rendered_char dbg w r = Inr (w'\<lparr>x_pos := x_pos w + raster_w r\<rparr>)"
    using b unat_bound [of "raster_w r"]
    by (simp add: write_rendered_char_def w' LETTER_SPACING_def u_add_def repainted_keeps(2) [OF rp])
  then show ?thesis using rp unat_add_exact [OF b] by blast
qed

lemma newline_ok:
  assumes "unat (y_pos w) < 2 ^ 63"
  shows "newline dbg w = Inr (w\<lparr>x_pos := 1, y_pos := y_pos w + 18\<rparr>)"
    "unat (y_pos w + 18) = unat (y_pos w) + 18"
proof -
  have b: "unat (y_pos w) + unat (18 :: usize) < 2 ^ LENGTH(64)" using assms by simp
  show "unat (y_pos w + 18) = unat (y_pos w) + 18" using unat_add_exact [OF b] by simp
  have "u_add dbg CHAR_RASTER_HEIGHT LINE_SPACING = Ret 18"
    by (simp add: u_add_def CHAR_RASTER_HEIGHT_def LINE_SPACING_def)
  then show "newline dbg w = Inr (w\<lparr>x_pos := 1, y_pos := y_pos w + 18\<rparr>)"
    using u_add_exact [OF b, of dbg] by (simp add: newline_def carriage_return_def BORDER_PADDING_def)
qed

lemma clear_keeps:
  "info (clear w) = info w" "panic_mode (clear w) = panic_mode w" "x_pos (clear w) = 1" "y_pos (clear w) = 1"
  "length (framebuffer (clear w)) = length (framebuffer w)" "screen_ok (clear w) = screen_ok w"
  "paint (clear w) = paint w"
  by (simp_all add: clear_def screen_ok_def paint_def fun_eq_iff BORDER_PADDING_def)

lemma clear_pixel:
  assumes "screen_ok w" "i < unat (stride (info w))" "j < unat (fb_height (info w))"
  shows "pixel_at (clear w) i j = replicate (unat (bytes_per_pixel (info w))) 0"
proof -
  let ?b = "unat (bytes_per_pixel (info w))" and ?k = "j * unat (stride (info w)) + i"
  have "(?k + 1) * ?b \<le> length (framebuffer w)" by (rule screen_offset [OF assms])
  then have "?k * ?b + ?b \<le> length (framebuffer w)" by (simp only: add_mult_distrib mult_1)
  then have "min (length (framebuffer w) - ?k * ?b) ?b = ?b" by (simp add: min_absorb2)
  then show ?thesis by (simp add: pixel_at_def Let_def clear_def map_replicate_const min.commute)
qed

lemma font_okD:
  assumes "font_ok F"
  shows "\<exists>r. get_char_raster F c = Ret r \<and> length (raster r) = 16 \<and> raster_w r = get_raster_width F \<and>
    (\<forall>row \<in> set (raster r). length row = unat (get_raster_width F))"
  using assms by (cases "get_raster F c") (auto simp: font_ok_def get_char_raster_def)

text \<open>The cursor movement before a symbol is drawn, as a state.\<close>

definition placed :: "FrameBufferWriter \<Rightarrow> nat \<times> nat \<times> bool \<Rightarrow> FrameBufferWriter \<Rightarrow> bool" where
  "placed w p w2 \<longleftrightarrow> (case p of (x, y, erased) \<Rightarrow>
     unat (x_pos w2) = x \<and> unat (y_pos w2) = y \<and> info w2 = info w \<and> panic_mode w2 = panic_mode w \<and>
     framebuffer w2 = (if erased then map (\<lambda>_. 0) (framebuffer w) else framebuffer w))"

lemma write_char_placed:
  assumes "console_ok F w" "c \<noteq> 10" "c \<noteq> 13" "unat (y_pos w) < 2 ^ 63" "get_char_raster F c = Ret r"
  shows "\<exists>w2. write_char dbg F w c = write_rendered_char dbg w2 r \<and> placed w (place F w) w2"
proof -
  let ?rw = "get_raster_width F"
  have ok: "unat ?rw < 2 ^ 16" "unat (x_pos w) \<le> unat (fb_width (info w))" "unat (fb_width (info w)) < 2 ^ 63"
    using assms(1) by (simp_all add: console_ok_def font_ok_def word_less_nat_alt)
  then have bx: "unat (x_pos w) + unat ?rw < 2 ^ LENGTH(64)" by simp
  let ?wrap = "fb_width (info w) \<le> x_pos w + ?rw"
  let ?w1 = "if ?wrap then w\<lparr>x_pos := 1, y_pos := y_pos w + 18\<rparr> else w"
  have wrap: "?wrap \<longleftrightarrow> unat (fb_width (info w)) \<le> unat (x_pos w) + unat ?rw"
    by (simp add: word_le_nat_alt unat_add_exact [OF bx])
  have y1: "unat (y_pos ?w1) \<le> unat (y_pos w) + 18" using newline_ok(2) [OF assms(4)] by simp
  have by1: "unat (y_pos ?w1) + unat (16 :: usize) < 2 ^ LENGTH(64)" using y1 assms(4) by simp
  have by2: "unat (y_pos ?w1 + 16) + unat (1 :: usize) < 2 ^ LENGTH(64)"
    using y1 assms(4) unat_add_exact [OF by1] by simp
  have ey: "unat (y_pos ?w1 + 16 + 1) = unat (y_pos ?w1) + 17"
    using unat_add_exact [OF by1] unat_add_exact [OF by2] by simp
  let ?er = "fb_height (info w) \<le> y_pos ?w1 + 16 + 1"
  let ?w2 = "if ?er then clear ?w1 else ?w1"
  have "write_char dbg F w c = write_rendered_char dbg ?w2 r"
    using u_add_exact [OF bx, of dbg] u_add_exact [OF by1, of dbg] u_add_exact [OF by2, of dbg]
      newline_ok(1) [OF assms(4), of dbg] assms(2,3,5)
    by (simp add: write_char_def Let_def CHAR_RASTER_HEIGHT_def BORDER_PADDING_def split del: if_split)
       (cases ?wrap; simp)
  moreover have "placed w (place F w) ?w2"
    using ey newline_ok(2) [OF assms(4)]
    by (cases ?wrap) (auto simp: placed_def place_def wrap [symmetric] word_le_nat_alt clear_keeps clear_def BORDER_PADDING_def)
  ultimately show ?thesis by blast
qed


lemma place_visible:
  assumes "console_ok F w" "place F w = (x, y, erased)"
  shows "x + unat (get_raster_width F) \<le> unat (fb_width (info w))" "y + 16 \<le> unat (fb_height (info w))"
    "y \<le> unat (y_pos w) + 18"
  using assms by (auto simp: place_def console_ok_def split: if_splits prod.splits)

definition drawn ::
    "font \<Rightarrow> FrameBufferWriter \<Rightarrow> RasterizedChar \<Rightarrow> FrameBufferWriter \<Rightarrow> bool" where
  "drawn F w r w' \<longleftrightarrow> (case place F w of (x, y, erased) \<Rightarrow>
     unat (x_pos w') = x + unat (get_raster_width F) \<and> unat (y_pos w') = y \<and>
     info w' = info w \<and> panic_mode w' = panic_mode w \<and> length (framebuffer w') = length (framebuffer w) \<and>
     (\<forall>i < unat (stride (info w)). \<forall>j < unat (fb_height (info w)).
        pixel_at w' i j =
          (if inside x y (unat (get_raster_width F)) 16 i j then paint w (raster r ! (j - y) ! (i - x))
           else if erased then replicate (unat (bytes_per_pixel (info w))) 0
           else pixel_at w i j)))"

lemma write_char_drawn:
  assumes "console_ok F w" "c \<noteq> 10" "c \<noteq> 13" "unat (y_pos w) < 2 ^ 63"
  shows "\<exists>r w'. get_char_raster F c = Ret r \<and> write_char dbg F w c = Inr w' \<and> drawn F w r w'"
proof -
  obtain x y erased where pl: "place F w = (x, y, erased)" by (cases "place F w") auto
  note vis = place_visible [OF assms(1) pl]
  have fo: "font_ok F" and so: "screen_ok w" using assms(1) by (auto simp: console_ok_def)
  from font_okD [OF fo, of c] obtain r where r: "get_char_raster F c = Ret r" "length (raster r) = 16"
    "raster_w r = get_raster_width F" "\<forall>row \<in> set (raster r). length row = unat (get_raster_width F)" by blast
  from write_char_placed [OF assms r(1), of dbg] obtain w2 where
    w2: "write_char dbg F w c = write_rendered_char dbg w2 r" and "placed w (place F w) w2" by blast
  then have p: "unat (x_pos w2) = x" "unat (y_pos w2) = y" "info w2 = info w" "panic_mode w2 = panic_mode w"
    "framebuffer w2 = (if erased then map (\<lambda>_. 0) (framebuffer w) else framebuffer w)"
    by (simp_all add: placed_def pl)
  have so2: "screen_ok w2" using so by (simp add: screen_ok_def p)
  have ws: "unat (fb_width (info w)) \<le> unat (stride (info w))" using so by (simp add: screen_ok_def word_le_nat_alt)
  have "\<exists>w'. write_rendered_char dbg w2 r = Inr (w'\<lparr>x_pos := x_pos w2 + raster_w r\<rparr>) \<and>
    unat (x_pos w2 + raster_w r) = unat (x_pos w2) + unat (raster_w r) \<and>
    repainted w2 (\<lambda>i j. if inside (unat (x_pos w2)) (unat (y_pos w2)) (unat (raster_w r)) 16 i j
      then paint w2 (raster r ! (j - unat (y_pos w2)) ! (i - unat (x_pos w2))) else pixel_at w2 i j) w'"
    by (rule write_rendered_char_ok) (use so2 r vis ws in \<open>simp_all add: p(1-3)\<close>)
  then obtain w' where w': "write_rendered_char dbg w2 r = Inr (w'\<lparr>x_pos := x_pos w2 + raster_w r\<rparr>)"
    "unat (x_pos w2 + raster_w r) = unat (x_pos w2) + unat (raster_w r)" and
    rp: "repainted w2 (\<lambda>i j. if inside x y (unat (get_raster_width F)) 16 i j
      then paint w2 (raster r ! (j - y) ! (i - x)) else pixel_at w2 i j) w'"
    unfolding p(1,2) r(3) by blast
  note k = repainted_keeps [OF rp]
  have px: "pixel_at (w'\<lparr>x_pos := v\<rparr>) i j = pixel_at w' i j" for v i j by (simp add: pixel_at_def)
  have pt: "paint w2 = paint w" by (simp add: paint_def p fun_eq_iff)
  have old: "pixel_at w2 i j = (if erased then replicate (unat (bytes_per_pixel (info w))) 0 else pixel_at w i j)"
    if "i < unat (stride (info w))" "j < unat (fb_height (info w))" for i j
    using clear_pixel [OF so that] by (simp add: pixel_at_def p(3,5) clear_def Let_def)
  have "drawn F w r (w'\<lparr>x_pos := x_pos w2 + raster_w r\<rparr>)"
    using w'(2) by (simp add: drawn_def pl k(1-5) p(1-4) r(3) px k(6) pt old) (simp add: p(5))
  then show ?thesis using r(1) w2 w'(1) by metis
qed

lemma drawn_console_ok:
  assumes "drawn F w r w'" "console_ok F w"
  shows "console_ok F w'" "unat (y_pos w') \<le> unat (y_pos w) + 18"
proof -
  obtain x y erased where pl: "place F w = (x, y, erased)" by (cases "place F w") auto
  show "console_ok F w'" "unat (y_pos w') \<le> unat (y_pos w) + 18"
    using assms place_visible [OF assms(2) pl] by (simp_all add: drawn_def pl console_ok_def screen_ok_def)
qed

lemma write_char_ok:
  assumes "console_ok F w" "unat (y_pos w) < 2 ^ 63"
  shows "\<exists>w'. write_char dbg F w c = Inr w' \<and> console_ok F w' \<and> unat (y_pos w') \<le> unat (y_pos w) + 18 \<and>
    info w' = info w \<and> panic_mode w' = panic_mode w \<and> length (framebuffer w') = length (framebuffer w)"
proof -
  have w1: "1 \<le> unat (fb_width (info w))" using assms(1) by (simp add: console_ok_def)
  consider "c = 10" | "c = 13" | "c \<noteq> 10" "c \<noteq> 13" by blast
  then show ?thesis
  proof cases
    case 1
    then show ?thesis using assms(1) w1 newline_ok(1) [OF assms(2), of dbg] newline_ok(2) [OF assms(2)]
      by (simp add: write_char_def console_ok_def screen_ok_def)
  next
    case 2
    then show ?thesis using assms(1) w1
      by (simp add: write_char_def carriage_return_def BORDER_PADDING_def console_ok_def screen_ok_def)
  next
    case 3
    from write_char_drawn [OF assms(1) this assms(2), of dbg] obtain r w' where
      "write_char dbg F w c = Inr w'" and d: "drawn F w r w'" by blast
    then show ?thesis using drawn_console_ok [OF d assms(1)]
      by (auto simp: drawn_def split: prod.splits)
  qed
qed

lemma write_str_ok:
  assumes "console_ok F w" "unat (y_pos w) + 18 * length s < 2 ^ 63"
  shows "\<exists>w'. write_str dbg F w s = Inr w' \<and> console_ok F w' \<and> unat (y_pos w') \<le> unat (y_pos w) + 18 * length s \<and>
    info w' = info w \<and> panic_mode w' = panic_mode w \<and> length (framebuffer w') = length (framebuffer w)"
  using assms
proof (induction s arbitrary: w)
  case Nil
  then show ?case by simp
next
  case (Cons c s)
  have "unat (y_pos w) < 2 ^ 63" using Cons.prems(2) by simp
  from write_char_ok [OF Cons.prems(1) this, of dbg c] obtain w1 where
    w1: "write_char dbg F w c = Inr w1" "console_ok F w1" "unat (y_pos w1) \<le> unat (y_pos w) + 18"
    "info w1 = info w" "panic_mode w1 = panic_mode w" "length (framebuffer w1) = length (framebuffer w)" by blast
  have "unat (y_pos w1) + 18 * length s < 2 ^ 63" using w1(3) Cons.prems(2) by simp
  from Cons.IH [OF w1(2) this] obtain w2 where
    "write_str dbg F w1 s = Inr w2" "console_ok F w2" "unat (y_pos w2) \<le> unat (y_pos w1) + 18 * length s"
    "info w2 = info w1" "panic_mode w2 = panic_mode w1" "length (framebuffer w2) = length (framebuffer w1)" by blast
  then show ?case using w1 by auto
qed


lemma paint_cols_ok:
  assumes "screen_ok w" "\<forall>x \<in> set xs. x < unat (stride (info w))" "y < unat (fb_height (info w))" "length color = 4"
  shows "\<exists>w'. paint_cols dbg color w y xs = Inr w' \<and>
    repainted w (\<lambda>i j. if j = y \<and> i \<in> set xs then take (unat (bytes_per_pixel (info w))) color else pixel_at w i j) w'"
  using assms
proof (induction xs arbitrary: w)
  case Nil
  then show ?case by (simp add: repainted_refl)
next
  case (Cons x xs)
  have x: "x < unat (stride (info w))" using Cons.prems(2) by simp
  have ux: "unat (of_nat x :: usize) = x"
    using x unat_bound64 [of "stride (info w)"] by (simp add: unat_of_nat take_bit_nat_eq_self)
  have uy: "unat (of_nat y :: usize) = y"
    using Cons.prems(3) unat_bound64 [of "fb_height (info w)"] by (simp add: unat_of_nat take_bit_nat_eq_self)
  note o = offset_ok [OF Cons.prems(1) x Cons.prems(3) ux uy]
  from store_pixel_ok [OF Cons.prems(1) x Cons.prems(3) o(3) Cons.prems(4), of dbg] obtain bo w1 where
    st: "store_pixel dbg w (of_nat y * stride (info w) + of_nat x) color = Inr (bo, w1)" and
    rp: "repainted w (\<lambda>i' j'. if i' = x \<and> j' = y then take (unat (bytes_per_pixel (info w))) color
      else pixel_at w i' j') w1" by blast
  note k = repainted_keeps [OF rp]
  have "\<exists>w'. paint_cols dbg color w1 y xs = Inr w' \<and> repainted w1 (\<lambda>i j. if j = y \<and> i \<in> set xs
      then take (unat (bytes_per_pixel (info w1))) color else pixel_at w1 i j) w'"
    by (rule Cons.IH) (use Cons.prems in \<open>simp_all add: k\<close>)
  then obtain w2 where w2: "paint_cols dbg color w1 y xs = Inr w2" and
    rp2: "repainted w1 (\<lambda>i j. if j = y \<and> i \<in> set xs
      then take (unat (bytes_per_pixel (info w))) color else pixel_at w1 i j) w2"
    unfolding k(1) by blast
  have "repainted w (\<lambda>i j. if j = y \<and> i \<in> set (x # xs)
      then take (unat (bytes_per_pixel (info w))) color else pixel_at w i j) w2"
    by (rule repainted_trans [OF rp rp2]) (auto simp: k(6))
  then show ?case using st w2 by (simp add: o(1,2))
qed

lemma paint_lines_ok:
  assumes "screen_ok w" "\<forall>y \<in> set ys. y < unat (fb_height (info w))" "length color = 4"
  shows "\<exists>w'. paint_lines dbg color w ys = Inr w' \<and>
    repainted w (\<lambda>i j. if j \<in> set ys \<and> i < unat (fb_width (info w))
      then take (unat (bytes_per_pixel (info w))) color else pixel_at w i j) w'"
  using assms
proof (induction ys arbitrary: w)
  case Nil
  then show ?case by (simp add: repainted_refl)
next
  case (Cons y ys)
  have ws: "unat (fb_width (info w)) \<le> unat (stride (info w))"
    using Cons.prems(1) by (simp add: screen_ok_def word_le_nat_alt)
  have "\<exists>w'. paint_cols dbg color w y [0..<unat (fb_width (info w))] = Inr w' \<and>
    repainted w (\<lambda>i j. if j = y \<and> i \<in> set [0..<unat (fb_width (info w))]
      then take (unat (bytes_per_pixel (info w))) color else pixel_at w i j) w'"
    by (rule paint_cols_ok) (use Cons.prems ws in auto)
  then obtain w1 where w1: "paint_cols dbg color w y [0..<unat (fb_width (info w))] = Inr w1" and
    rp: "repainted w (\<lambda>i j. if j = y \<and> i \<in> set [0..<unat (fb_width (info w))]
      then take (unat (bytes_per_pixel (info w))) color else pixel_at w i j) w1" by blast
  note k = repainted_keeps [OF rp]
  have "\<exists>w'. paint_lines dbg color w1 ys = Inr w' \<and>
    repainted w1 (\<lambda>i j. if j \<in> set ys \<and> i < unat (fb_width (info w1))
      then take (unat (bytes_per_pixel (info w1))) color else pixel_at w1 i j) w'"
    by (rule Cons.IH) (use Cons.prems in \<open>simp_all add: k\<close>)
  then obtain w2 where w2: "paint_lines dbg color w1 ys = Inr w2" and
    rp2: "repainted w1 (\<lambda>i j. if j \<in> set ys \<and> i < unat (fb_width (info w))
      then take (unat (bytes_per_pixel (info w))) color else pixel_at w1 i j) w2"
    unfolding k(1) by blast
  have "repainted w (\<lambda>i j. if j \<in> set (y # ys) \<and> i < unat (fb_width (info w))
      then take (unat (bytes_per_pixel (info w))) color else pixel_at w i j) w2"
    by (rule repainted_trans [OF rp rp2]) (auto simp: k(6))
  then show ?case using w1 w2 by simp
qed

lemma panic_screen_ok:
  assumes "screen_ok w" "panic_color (pixel_format (info w)) = Some c"
  shows "\<exists>w'. panic_screen dbg w = Inr w' \<and> panic_mode w' \<and> x_pos w' = 1 \<and> y_pos w' = 1 \<and> info w' = info w \<and>
    length (framebuffer w') = length (framebuffer w) \<and>
    (\<forall>i < unat (stride (info w)). \<forall>j < unat (fb_height (info w)).
       pixel_at w' i j = (if i < unat (fb_width (info w)) then take (unat (bytes_per_pixel (info w))) c
         else pixel_at w i j))"
proof -
  let ?w1 = "w\<lparr>x_pos := 1, y_pos := 1\<rparr>"
  have i1: "info ?w1 = info w" by simp
  have "length c = 4" using assms(2) by (cases "pixel_format (info w)") auto
  then have "\<exists>w'. paint_lines dbg c ?w1 [0..<unat (fb_height (info ?w1))] = Inr w' \<and>
    repainted ?w1 (\<lambda>i j. if j \<in> set [0..<unat (fb_height (info ?w1))] \<and> i < unat (fb_width (info ?w1))
      then take (unat (bytes_per_pixel (info ?w1))) c else pixel_at ?w1 i j) w'"
    by (intro paint_lines_ok) (use assms(1) in \<open>auto simp: screen_ok_def\<close>)
  then obtain w2 where w2: "paint_lines dbg c ?w1 [0..<unat (fb_height (info w))] = Inr w2" and
    rp: "repainted ?w1 (\<lambda>i j. if j \<in> set [0..<unat (fb_height (info w))] \<and> i < unat (fb_width (info w))
      then take (unat (bytes_per_pixel (info w))) c else pixel_at ?w1 i j) w2" unfolding i1 by blast
  note k = repainted_keeps [OF rp]
  have px: "pixel_at (v\<lparr>panic_mode := True\<rparr>) i j = pixel_at v i j" "pixel_at ?w1 i j = pixel_at w i j" for v i j
    by (simp_all add: pixel_at_def)
  have "panic_screen dbg w = Inr (w2\<lparr>panic_mode := True\<rparr>)"
    using w2 by (simp add: panic_screen_def Let_def BORDER_PADDING_def assms(2))
  then show ?thesis using k(1-6) by (auto simp: px)
qed


lemma panic_locked: "locked L \<Longrightarrow> panic_nested n dbg F L text = Repanic L"
  by (induction n) (simp_all add: panic_handler_def)

section \<open>A concrete console\<close>

definition demo_font :: font where
  "demo_font = \<lparr>get_raster = (\<lambda>c. Some \<lparr>raster = replicate 16 [255, 0], raster_w = 2\<rparr>), get_raster_width = 2\<rparr>"

definition demo_info :: "PixelFormat \<Rightarrow> FrameBufferInfo" where
  "demo_info f = \<lparr>fb_width = 4, fb_height = 20, pixel_format = f, bytes_per_pixel = 3, stride = 4\<rparr>"

definition demo_writer :: "PixelFormat \<Rightarrow> FrameBufferWriter" where
  "demo_writer f = FrameBufferWriter_new (replicate 240 0) (demo_info f)"

lemma demo_writer_fields:
  "info (demo_writer f) = demo_info f" "x_pos (demo_writer f) = 1" "y_pos (demo_writer f) = 1"
  "panic_mode (demo_writer f) = False" "framebuffer (demo_writer f) = replicate 240 0"
  by (simp_all add: demo_writer_def FrameBufferWriter_new_def clear_def BORDER_PADDING_def map_replicate_const)

lemma demo_console_ok: "console_ok demo_font (demo_writer Rgb)"
  by (simp add: console_ok_def font_ok_def screen_ok_def demo_font_def demo_writer_fields demo_info_def)

lemma demo_place: "place demo_font (demo_writer Rgb) = (1, 1, False)"
  by (simp add: place_def demo_font_def demo_writer_fields demo_info_def)

lemma demo_paint:
  "paint (demo_writer Rgb) 255 = [255, 255, 127]" "paint (demo_writer Rgb) 0 = [0, 0, 0]"
  "pixel_at (demo_writer Rgb) 3 (Suc 0) = [0, 0, 0]"
proof -
  have b: "unat (bytes_per_pixel (info (demo_writer Rgb))) = Suc (Suc (Suc 0))"
    by (simp add: demo_writer_fields demo_info_def)
  have d: "(255 :: u8) div 2 = 127" "(0 :: u8) div 2 = 0" by (simp_all add: word_arith_nat_div)
  have f: "pixel_color (pixel_format (info (demo_writer Rgb))) (panic_mode (demo_writer Rgb)) i = Some [i, i, i div 2, 0]" for i
    by (simp add: demo_writer_fields demo_info_def)
  show "paint (demo_writer Rgb) 255 = [255, 255, 127]" "paint (demo_writer Rgb) 0 = [0, 0, 0]"
    by (simp_all add: paint_def b f d)
  show "pixel_at (demo_writer Rgb) 3 (Suc 0) = [0, 0, 0]"
    by (simp add: pixel_at_def Let_def b demo_writer_fields demo_info_def) (simp add: numeral_3_eq_3)
qed

lemma demo_unknown:
  "write_str True demo_font (demo_writer Unknown) [79] = Inl ((demo_writer Unknown)\<lparr>info := demo_info Rgb\<rparr>)"
proof -
  have r: "get_char_raster demo_font 79 = Ret \<lparr>raster = [255, 0] # replicate 15 [255, 0], raster_w = 2\<rparr>"
    by (simp add: get_char_raster_def demo_font_def numeral_eq_Suc)
  have w: "get_raster_width demo_font = 2" by (simp add: demo_font_def)
  show ?thesis
    by (simp add: write_char_def r w demo_writer_fields u_add_def u_mul_def CHAR_RASTER_HEIGHT_def
        BORDER_PADDING_def write_rendered_char_def write_pixel_def demo_info_def)
qed

section \<open>Properties\<close>

text \<open>
  Claim C33. Drawing a symbol: \<open>write_char\<close> of a printable character never panics, the cell of
  the symbol lies on the visible part of the screen, every pixel of the cell has the colour of the
  raster of the character (or of the replacement character), every other pixel of the screen is
  unchanged, or black when the text had reached the bottom and the screen was erased, and the
  cursor stands right behind the cell.
\<close>

theorem write_char_draws:
  assumes "console_ok F w" "c \<noteq> 10" "c \<noteq> 13" "unat (y_pos w) < 2 ^ 63" "place F w = (x, y, erased)"
  shows "\<exists>r w'. get_char_raster F c = Ret r \<and> write_char dbg F w c = Inr w' \<and>
    x + unat (get_raster_width F) \<le> unat (fb_width (info w)) \<and> y + 16 \<le> unat (fb_height (info w)) \<and>
    unat (x_pos w') = x + unat (get_raster_width F) \<and> unat (y_pos w') = y \<and> info w' = info w \<and>
    (\<forall>i < unat (stride (info w)). \<forall>j < unat (fb_height (info w)).
       pixel_at w' i j =
         (if inside x y (unat (get_raster_width F)) 16 i j then paint w (raster r ! (j - y) ! (i - x))
          else if erased then replicate (unat (bytes_per_pixel (info w))) 0
          else pixel_at w i j))"
proof -
  from write_char_drawn [OF assms(1-4), of dbg] obtain r w' where
    "get_char_raster F c = Ret r" "write_char dbg F w c = Inr w'" "drawn F w r w'" by blast
  then show ?thesis using place_visible [OF assms(1,5)]
    by (intro exI [of _ r] exI [of _ w']) (simp add: drawn_def assms(5))
qed

theorem write_char_draws_witness:
  "\<exists>w'. write_char True demo_font (demo_writer Rgb) 65 = Inr w' \<and> x_pos w' = 3 \<and> y_pos w' = 1 \<and>
    pixel_at w' 1 1 = [255, 255, 127] \<and> pixel_at w' 2 1 = [0, 0, 0] \<and> pixel_at w' 3 1 = [0, 0, 0]"
proof -
  have "unat (y_pos (demo_writer Rgb)) < 2 ^ 63" "(65 :: rchar) \<noteq> 10" "(65 :: rchar) \<noteq> 13"
    by (simp_all add: demo_writer_fields)
  from write_char_draws [OF demo_console_ok this(2,3,1) demo_place, of True] obtain r w' where
    w: "get_char_raster demo_font 65 = Ret r" "write_char True demo_font (demo_writer Rgb) 65 = Inr w'"
    "unat (x_pos w') = 1 + unat (get_raster_width demo_font)" "unat (y_pos w') = 1" and
    px: "\<forall>i < unat (stride (info (demo_writer Rgb))). \<forall>j < unat (fb_height (info (demo_writer Rgb))).
       pixel_at w' i j =
         (if inside 1 1 (unat (get_raster_width demo_font)) 16 i j
          then paint (demo_writer Rgb) (raster r ! (j - 1) ! (i - 1))
          else if False then replicate (unat (bytes_per_pixel (info (demo_writer Rgb)))) 0
          else pixel_at (demo_writer Rgb) i j)" by blast
  have r: "r = \<lparr>raster = replicate 16 [255, 0], raster_w = 2\<rparr>"
    using w(1) by (simp add: get_char_raster_def demo_font_def)
  have "unat (x_pos w') = unat (3 :: usize)" "unat (y_pos w') = unat (1 :: usize)"
    using w(3,4) by (simp_all add: demo_font_def)
  then have xy: "x_pos w' = 3" "y_pos w' = 1" by (simp_all only: word_unat_eq_iff)
  have geo: "unat (stride (info (demo_writer Rgb))) = 4" "unat (fb_height (info (demo_writer Rgb))) = 20"
    "unat (get_raster_width demo_font) = 2"
    by (simp_all add: demo_font_def demo_writer_fields demo_info_def)
  have "pixel_at w' 1 1 = [255, 255, 127]" using px [rule_format, of 1 1] by (simp add: geo inside_def r demo_paint)
  moreover have "pixel_at w' 2 1 = [0, 0, 0]" using px [rule_format, of 2 1] by (simp add: geo inside_def r demo_paint)
  moreover have "pixel_at w' 3 1 = [0, 0, 0]" using px [rule_format, of 3 1] by (simp add: geo inside_def demo_paint)
  ultimately show ?thesis using w(2) xy by blast
qed

text \<open>
  Claim C34. Writing any text to a usable console never panics, in the debug and in the release
  build, and leaves a usable console of the same geometry: no slice of the framebuffer is
  out of bounds and no coordinate overflows, whatever characters, line feeds and carriage returns
  the text contains.
\<close>

theorem write_str_never_panics:
  assumes "console_ok F w" "unat (y_pos w) + 18 * length s < 2 ^ 63"
  shows "\<exists>w'. write_str dbg F w s = Inr w' \<and> console_ok F w' \<and> info w' = info w \<and>
    length (framebuffer w') = length (framebuffer w)"
  using write_str_ok [OF assms, of dbg] by blast

theorem write_str_never_panics_witness:
  "\<exists>w'. write_str True demo_font (demo_writer Rgb) [72, 10, 13, 105, 33, 10, 10] = Inr w' \<and>
    console_ok demo_font w'"
proof -
  have "unat (y_pos (demo_writer Rgb)) + 18 * length [72, 10, 13, 105, 33, 10, 10 :: rchar] < 2 ^ 63"
    by (simp add: demo_writer_fields)
  from write_str_never_panics [OF demo_console_ok this, of True] show ?thesis by blast
qed

text \<open>
  Claim C35. The panic handler. With a usable console whose lock is free it paints every visible
  pixel dark red, leaves the other bytes alone, writes the message in panic mode and stops in its
  final loop with the lock free. A panic raised while a record is being logged leaves the lock
  held: the handler then panics itself, and so does every handler entered after it, so neither
  the panic screen nor the message ever appears.
\<close>

theorem panic_handler_correct:
  "(console_ok F (writer L) \<and> \<not> locked L \<and> 1 + 18 * length msg < 2 ^ 63 \<longrightarrow>
     (\<exists>c w L'. panic_color (pixel_format (info (writer L))) = Some c \<and> panic_screen dbg (writer L) = Inr w \<and>
       (\<forall>i < unat (stride (info (writer L))). \<forall>j < unat (fb_height (info (writer L))).
          pixel_at w i j = (if i < unat (fb_width (info (writer L)))
            then take (unat (bytes_per_pixel (info (writer L)))) c else pixel_at (writer L) i j)) \<and>
       write_str dbg F w msg = Inr (writer L') \<and>
       panic_handler dbg F (Some L) msg = Looping (Some L') \<and> \<not> locked L' \<and> panic_mode (writer L'))) \<and>
   (\<forall>L'. Logger_log dbg F L text = Panicked L' \<longrightarrow> panic_nested n dbg F L' msg = Repanic L')"
proof (intro conjI impI allI)
  assume a: "console_ok F (writer L) \<and> \<not> locked L \<and> 1 + 18 * length msg < 2 ^ 63"
  let ?w = "writer L"
  have so: "screen_ok ?w" using a by (simp add: console_ok_def)
  then obtain c where c: "panic_color (pixel_format (info ?w)) = Some c"
    using panic_color_Some by (auto simp: screen_ok_def)
  from panic_screen_ok [OF so c, of dbg] obtain w where
    w: "panic_screen dbg ?w = Inr w" "panic_mode w" "x_pos w = 1" "y_pos w = 1" "info w = info ?w"
      "length (framebuffer w) = length (framebuffer ?w)" and
    px: "\<forall>i < unat (stride (info ?w)). \<forall>j < unat (fb_height (info ?w)).
      pixel_at w i j = (if i < unat (fb_width (info ?w)) then take (unat (bytes_per_pixel (info ?w))) c
        else pixel_at ?w i j)" by blast
  have ok: "console_ok F w" using a w by (auto simp: console_ok_def screen_ok_def)
  have "unat (y_pos w) + 18 * length msg < 2 ^ 63" using a w(4) by simp
  from write_str_ok [OF ok this, of dbg] obtain w2 where
    w2: "write_str dbg F w msg = Inr w2" "panic_mode w2 = panic_mode w" by blast
  let ?L = "L\<lparr>writer := w2\<rparr>"
  have "panic_handler dbg F (Some L) msg = Looping (Some ?L)"
    using a w(1) w2(1) by (simp add: panic_handler_def Logger_log_def)
  moreover have "write_str dbg F w msg = Inr (writer ?L)" "\<not> locked ?L" "panic_mode (writer ?L)"
    using a w(2) w2 by simp_all
  ultimately show "\<exists>c w L'. panic_color (pixel_format (info (writer L))) = Some c \<and> panic_screen dbg (writer L) = Inr w \<and>
       (\<forall>i < unat (stride (info (writer L))). \<forall>j < unat (fb_height (info (writer L))).
          pixel_at w i j = (if i < unat (fb_width (info (writer L)))
            then take (unat (bytes_per_pixel (info (writer L)))) c else pixel_at (writer L) i j)) \<and>
       write_str dbg F w msg = Inr (writer L') \<and>
       panic_handler dbg F (Some L) msg = Looping (Some L') \<and> \<not> locked L' \<and> panic_mode (writer L')"
    using c w(1) px by blast
next
  fix L' assume "Logger_log dbg F L text = Panicked L'"
  then have "locked L'" by (auto simp: Logger_log_def split: if_splits sum.splits)
  then show "panic_nested n dbg F L' msg = Repanic L'" by (rule panic_locked)
qed

text \<open>
  The second part at a framebuffer of a format that is not supported: the first character
  panics under the lock, after the writer has been switched to a supported format.
\<close>

theorem panic_handler_correct_witness:
  "(\<exists>L'. panic_handler True demo_font (Some \<lparr>locked = False, writer = demo_writer Rgb\<rparr>) [79, 10] =
      Looping (Some L') \<and> panic_mode (writer L')) \<and>
   (\<exists>L'. Logger_log True demo_font \<lparr>locked = False, writer = demo_writer Unknown\<rparr> [79] = Panicked L' \<and>
      pixel_format (info (writer L')) = Rgb \<and>
      panic_nested 1000 True demo_font L' [79] = Repanic L')"
proof
  let ?L = "\<lparr>locked = False, writer = demo_writer Rgb\<rparr>"
  have "console_ok demo_font (writer ?L) \<and> \<not> locked ?L \<and> 1 + 18 * length [79, 10 :: rchar] < 2 ^ 63"
    using demo_console_ok by simp
  from panic_handler_correct [THEN conjunct1, rule_format, OF this, of True]
  show "\<exists>L'. panic_handler True demo_font (Some ?L) [79, 10] = Looping (Some L') \<and> panic_mode (writer L')"
    by blast
next
  let ?L = "\<lparr>locked = False, writer = demo_writer Unknown\<rparr>"
  let ?L' = "\<lparr>locked = True, writer = (demo_writer Unknown)\<lparr>info := demo_info Rgb\<rparr>\<rparr>"
  have L: "Logger_log True demo_font ?L [79] = Panicked ?L'"
    using demo_unknown by (simp add: Logger_log_def)
  from panic_handler_correct [THEN conjunct2, rule_format, OF this, of 1000 "[79]"]
  have "panic_nested 1000 True demo_font ?L' [79] = Repanic ?L'" .
  moreover have "pixel_format (info (writer ?L')) = Rgb" by (simp add: demo_info_def)
  ultimately show "\<exists>L'. Logger_log True demo_font ?L [79] = Panicked L' \<and> pixel_format (info (writer L')) = Rgb \<and>
      panic_nested 1000 True demo_font L' [79] = Repanic L'"
    using L by blast
qed

end
