(* ===== verification/Syscalls.thy ===== *)
theory Syscalls
  imports Segments Traces
begin

unbundle bit_operations_syntax

text \<open>
  The system-call path: the set-up of the \<open>syscall\<close> instruction, its assembly stub and its
  entry function (\<open>arch/x86_64/syscall.rs\<close>), and the dispatcher (\<open>syscall.rs\<close>).

  A parameter is the conversion that \<open>num_enum\<close> derives from the discriminants of
  \<open>Syscall\<close>; \<open>num_enum_ok\<close> is its documented behaviour. The stub is a list of instructions
  run by an interpreter over the general-purpose registers and a memory of eight-byte cells;
  what the called Rust function leaves in the registers it may change, and what it writes below
  the stack pointer, are arbitrary.

  Shown: the dispatcher on every number, the round trip of a system call through the stub with
  what it loses and where it writes, and the selectors that the \<open>syscall\<close> and \<open>sysret\<close>
  instructions load.
\<close>

section \<open>Numbers and the dispatcher\<close>

datatype Syscall =
    AttachIrq | CreateTask | RemoveTask | TaskSleep | MapMemory | UnmapMemory | GrantMemory
  | Send | Receive | IpcCall | Invalid u8

datatype SysError = InvalidValue | UnknownSyscall u8

text \<open>The discriminant of each variant that is not the catch-all.\<close>

fun Syscall_code :: "Syscall \<Rightarrow> u8" where
  "Syscall_code AttachIrq = 0"
| "Syscall_code CreateTask = 1"
| "Syscall_code RemoveTask = 2"
| "Syscall_code TaskSleep = 3"
| "Syscall_code MapMemory = 10"
| "Syscall_code UnmapMemory = 11"
| "Syscall_code GrantMemory = 12"
| "Syscall_code Send = 20"
| "Syscall_code Receive = 21"
| "Syscall_code IpcCall = 22"
| "Syscall_code (Invalid n) = 255"

definition listed :: "Syscall list" where
  "listed = [AttachIrq, CreateTask, RemoveTask, TaskSleep, MapMemory, UnmapMemory, GrantMemory,
     Send, Receive, IpcCall]"

text \<open>
  \<open>FromPrimitive\<close> with a \<open>catch_all\<close> variant: a number that is the discriminant of a variant
  gives that variant, any other number is wrapped in the catch-all.
\<close>

definition num_enum_ok :: "(u8 \<Rightarrow> Syscall) \<Rightarrow> bool" where
  "num_enum_ok from_u8 \<longleftrightarrow>
     (\<forall>s \<in> set listed. from_u8 (Syscall_code s) = s) \<and>
     (\<forall>n. n \<notin> Syscall_code ` set listed \<longrightarrow> from_u8 n = Invalid n)"

definition num_enum_doc :: "u8 \<Rightarrow> Syscall" where
  "num_enum_doc n = (case find (\<lambda>s. Syscall_code s = n) listed of Some s \<Rightarrow> s | None \<Rightarrow> Invalid n)"

definition Syscall_from :: "(u8 \<Rightarrow> Syscall) \<Rightarrow> u64 \<Rightarrow> Syscall" where
  "Syscall_from from_u8 v = from_u8 (ucast v)"

definition handler :: "(u8 \<Rightarrow> Syscall) \<Rightarrow> u64 \<Rightarrow> u64 list \<Rightarrow> (SysError + unit) outcome" where
  "handler from_u8 nr args =
     (case Syscall_from from_u8 nr of
        AttachIrq \<Rightarrow> Panic
      | CreateTask \<Rightarrow> Ret (Inr ())
      | Invalid n \<Rightarrow> Ret (Inl (UnknownSyscall n))
      | _ \<Rightarrow> Panic)"

record Regs =
  s_rax :: u64
  s_rdi :: u64
  s_rsi :: u64
  s_rdx :: u64
  s_r8 :: u64
  s_r9 :: u64
  s_r10 :: u64
  s_r11 :: u64
  s_rcx :: u64

text \<open>
  The entry function is stated for any dispatcher \<open>h\<close>, since the one there is, \<open>handler\<close>, ignores the
  arguments it is called with.
\<close>

type_synonym dispatcher = "u64 \<Rightarrow> u64 list \<Rightarrow> (SysError + unit) outcome"

definition syscall_entry :: "dispatcher \<Rightarrow> Regs \<Rightarrow> u64 outcome" where
  "syscall_entry h r =
     obind (h (s_rax r) [s_rdi r, s_rsi r, s_rdx r, s_r10 r, s_r8 r, s_r9 r]) (\<lambda>_. Ret 1)"

section \<open>The assembly stub\<close>

datatype insn = Swapgs | Push reg | Mov reg reg | Call_entry | Pop reg | Sysretq

record ucpu =
  gpr :: "reg \<Rightarrow> u64"
  cells :: "u64 \<Rightarrow> u64"
  rip :: u64
  rflags :: u64
  kernel_gs :: bool
  user_mode :: bool

text \<open>The called function: the cells it writes below the stack pointer, the return address first,
  and the registers it leaves behind.\<close>

record callee =
  below :: "u64 list"
  leaves :: "reg \<Rightarrow> u64"

definition syscall_stub :: "insn list" where
  "syscall_stub =
     [Swapgs, Push RCX, Push R11, Push R10, Push R9, Push R8, Push RDX, Push RSI, Push RDI, Push RAX,
      Mov RDI RSP, Call_entry,
      Pop RAX, Pop RDI, Pop RSI, Pop RDX, Pop R8, Pop R9, Pop R10, Pop R11, Pop RCX,
      Swapgs, Sysretq]"

text \<open>The \<open>repr(C)\<close> layout of \<open>Regs\<close>.\<close>

definition Regs_at :: "(u64 \<Rightarrow> u64) \<Rightarrow> u64 \<Rightarrow> Regs" where
  "Regs_at m a = \<lparr>s_rax = m a, s_rdi = m (a + 8), s_rsi = m (a + 16), s_rdx = m (a + 24), s_r8 = m (a + 32),
     s_r9 = m (a + 40), s_r10 = m (a + 48), s_r11 = m (a + 56), s_rcx = m (a + 64)\<rparr>"

text \<open>The registers that the C calling convention makes a function keep.\<close>

fun callee_saved :: "reg \<Rightarrow> bool" where
  "callee_saved RBX = True"
| "callee_saved RBP = True"
| "callee_saved RSP = True"
| "callee_saved R12 = True"
| "callee_saved R13 = True"
| "callee_saved R14 = True"
| "callee_saved R15 = True"
| "callee_saved _ = False"

fun write_below :: "(u64 \<Rightarrow> u64) \<Rightarrow> u64 \<Rightarrow> u64 list \<Rightarrow> (u64 \<Rightarrow> u64)" where
  "write_below m a [] = m"
| "write_below m a (v # vs) = write_below (m(a - 8 := v)) (a - 8) vs"

text \<open>The bits of the flags that \<open>sysret\<close> takes from \<open>r11\<close>.\<close>

definition SYSRET_FLAGS :: u64 where "SYSRET_FLAGS = 0x3C7FD7"

fun run_insn :: "dispatcher \<Rightarrow> callee \<Rightarrow> insn \<Rightarrow> ucpu \<Rightarrow> ucpu outcome" where
  "run_insn h C Swapgs s = Ret (s\<lparr>kernel_gs := \<not> kernel_gs s\<rparr>)"
| "run_insn h C (Push r) s =
     Ret (s\<lparr>cells := (cells s)(gpr s RSP - 8 := gpr s r), gpr := (gpr s)(RSP := gpr s RSP - 8)\<rparr>)"
| "run_insn h C (Mov d r) s = Ret (s\<lparr>gpr := (gpr s)(d := gpr s r)\<rparr>)"
| "run_insn h C Call_entry s =
     obind (syscall_entry h (Regs_at (cells s) (gpr s RDI))) (\<lambda>v.
       Ret (s\<lparr>cells := write_below (cells s) (gpr s RSP) (below C),
              gpr := (\<lambda>r. if r = RAX then v else if callee_saved r then gpr s r else leaves C r)\<rparr>))"
| "run_insn h C (Pop r) s =
     Ret (s\<lparr>gpr := (gpr s)(RSP := gpr s RSP + 8, r := cells s (gpr s RSP))\<rparr>)"
| "run_insn h C Sysretq s =
     Ret (s\<lparr>rip := gpr s RCX, rflags := (gpr s R11 AND SYSRET_FLAGS) OR 2, user_mode := True\<rparr>)"

fun run_insns :: "dispatcher \<Rightarrow> callee \<Rightarrow> insn list \<Rightarrow> ucpu \<Rightarrow> ucpu outcome" where
  "run_insns h C [] s = Ret s"
| "run_insns h C (i # is) s = obind (run_insn h C i s) (run_insns h C is)"

section \<open>Model-specific registers\<close>

record msrs =
  STAR :: u64
  LSTAR :: u64
  SFMASK :: u64
  EFER :: u64

definition init_syscall ::
    "bool \<Rightarrow> x86_crate \<Rightarrow> u64 \<Rightarrow> msrs \<Rightarrow> io_trace \<Rightarrow> (msrs \<times> io_trace) outcome" where
  "init_syscall dbg X stub_addr m t =
     obind (GDT X) (\<lambda>(_, sel).
     let t1 = log_record dbg Debug (MsgSelectors (user_code_selector sel) (code_selector sel)) t;
         m1 = m\<lparr>STAR := star_write_raw X (user_code_selector sel) (code_selector sel)\<rparr> in
     obind (expect (virt_new X stub_addr)) (\<lambda>entry_addr.
     let m2 = m1\<lparr>LSTAR := entry_addr\<rparr> in
     obind (expect (rflags_from_bits X (push_bit 9 1 OR push_bit 10 1))) (\<lambda>flags.
     let m3 = m2\<lparr>SFMASK := flags\<rparr> in
       Ret (m3\<lparr>EFER := EFER m3 OR push_bit 0 1 OR push_bit 8 1 OR push_bit 10 1\<rparr>, t1))))"

text \<open>The processor: what the \<open>syscall\<close> and \<open>sysret\<close> instructions load from \<open>STAR\<close>, and
  the entry to the kernel.\<close>

definition syscall_cs :: "msrs \<Rightarrow> u16" where
  "syscall_cs m = ucast (drop_bit 32 (STAR m)) AND 0xFFFC"

definition syscall_ss :: "msrs \<Rightarrow> u16" where
  "syscall_ss m = ucast (drop_bit 32 (STAR m)) + 8"

definition sysret_cs :: "msrs \<Rightarrow> u16" where
  "sysret_cs m = (ucast (drop_bit 48 (STAR m)) + 16) OR 3"

definition sysret_ss :: "msrs \<Rightarrow> u16" where
  "sysret_ss m = (ucast (drop_bit 48 (STAR m)) + 8) OR 3"

definition enter_kernel :: "msrs \<Rightarrow> ucpu \<Rightarrow> ucpu" where
  "enter_kernel m s = s\<lparr>gpr := (gpr s)(RCX := rip s, R11 := rflags s), rip := LSTAR m,
     rflags := rflags s AND NOT (SFMASK m), user_mode := False\<rparr>"

definition do_syscall :: "dispatcher \<Rightarrow> callee \<Rightarrow> msrs \<Rightarrow> ucpu \<Rightarrow> ucpu outcome" where
  "do_syscall h C m s = run_insns h C syscall_stub (enter_kernel m s)"

section \<open>Lemmas\<close>

lemma num_enum_doc_ok: "num_enum_ok num_enum_doc"
  by (auto simp: num_enum_ok_def num_enum_doc_def listed_def)

lemma handler_cases:
  assumes "num_enum_ok N"
  shows "handler N nr args =
    (if (ucast nr :: u8) = 1 then Ret (Inr ())
     else if (ucast nr :: u8) \<in> {0, 2, 3, 10, 11, 12, 20, 21, 22} then Panic
     else Ret (Inl (UnknownSyscall (ucast nr))))"
proof -
  have l: "\<And>s. s \<in> set listed \<Longrightarrow> N (Syscall_code s) = s" using assms by (simp add: num_enum_ok_def)
  have v: "N 0 = AttachIrq" "N 1 = CreateTask" "N 2 = RemoveTask" "N 3 = TaskSleep" "N 10 = MapMemory"
    "N 11 = UnmapMemory" "N 12 = GrantMemory" "N 20 = Send" "N 21 = Receive" "N 22 = IpcCall"
    using l [of AttachIrq] l [of CreateTask] l [of RemoveTask] l [of TaskSleep] l [of MapMemory]
      l [of UnmapMemory] l [of GrantMemory] l [of Send] l [of Receive] l [of IpcCall]
    by (simp_all add: listed_def)
  show ?thesis
  proof (cases "(ucast nr :: u8) \<in> {0, 1, 2, 3, 10, 11, 12, 20, 21, 22}")
    case True
    then show ?thesis by (auto simp: handler_def Syscall_from_def v)
  next
    case False
    then have "N (ucast nr) = Invalid (ucast nr)"
      using assms by (auto simp: num_enum_ok_def listed_def)
    then show ?thesis using False by (simp add: handler_def Syscall_from_def)
  qed
qed

lemma write_below_other:
  "(\<And>k. k < length vs \<Longrightarrow> x \<noteq> a - 8 * of_nat (k + 1)) \<Longrightarrow> write_below m a vs x = m x"
proof (induction vs arbitrary: m a)
  case (Cons v vs)
  have "write_below (m(a - 8 := v)) (a - 8) vs x = (m(a - 8 := v)) x"
  proof (rule Cons.IH)
    fix k assume "k < length vs"
    then show "x \<noteq> a - 8 - 8 * of_nat (k + 1)" using Cons.prems [of "Suc k"] by (simp add: algebra_simps)
  qed
  moreover have "x \<noteq> a - 8" using Cons.prems [of 0] by simp
  ultimately show ?case by simp
qed simp

lemma below_distinct:
  assumes "j < 2 ^ 33"
  shows "(a :: u64) \<noteq> a - 8 * of_nat (j + 1)"
proof
  assume "a = a - 8 * of_nat (j + 1)"
  then have "of_nat (8 * (j + 1)) = (0 :: u64)" by (simp add: algebra_simps)
  then have "unat (of_nat (8 * (j + 1)) :: u64) = 0" by (simp only: unsigned_0)
  then show False
    using assms by (simp add: unat_of_nat take_bit_nat_eq_self del: of_nat_mult of_nat_add of_nat_Suc)
qed

lemma write_below_at:
  "k < length vs \<Longrightarrow> length vs < 2 ^ 33 \<Longrightarrow> write_below m a vs (a - 8 * of_nat (k + 1)) = vs ! k"
proof (induction vs arbitrary: m a k)
  case (Cons v vs)
  show ?case
  proof (cases k)
    case 0
    have "write_below (m(a - 8 := v)) (a - 8) vs (a - 8) = (m(a - 8 := v)) (a - 8)"
      by (rule write_below_other, rule below_distinct) (use Cons.prems in simp)
    then show ?thesis using 0 by simp
  next
    case (Suc j)
    then have "write_below (m(a - 8 := v)) (a - 8) vs ((a - 8) - 8 * of_nat (j + 1)) = vs ! j"
      using Cons.prems by (intro Cons.IH) simp_all
    moreover have "a - 8 * of_nat (k + 1) = (a - 8) - 8 * of_nat (j + 1)"
      using Suc by (simp add: algebra_simps)
    ultimately show ?thesis using Suc by (simp only: write_below.simps nth_Cons_Suc)
  qed
qed simp

lemma write_below_first:
  "k < length vs \<Longrightarrow> length (vs @ ws) < 2 ^ 33 \<Longrightarrow> write_below m a (vs @ ws) (a - 8 * of_nat (k + 1)) = vs ! k"
  using write_below_at [of k "vs @ ws" m a] by (simp add: nth_append)

lemma callee_saved_iff:
  "callee_saved r \<longleftrightarrow> r \<notin> {RAX, RCX, RDX, RSI, RDI, R8, R9, R10, R11}"
  by (cases r) simp_all

text \<open>The saved cells, from the stack pointer downwards.\<close>

definition saved :: "ucpu \<Rightarrow> u64 list" where
  "saved s = [gpr s RCX, gpr s R11, gpr s R10, gpr s R9, gpr s R8, gpr s RDX, gpr s RSI, gpr s RDI, gpr s RAX]"

lemma stub_run:
  assumes "length (below C) < 2 ^ 32"
  shows "run_insns h C syscall_stub s =
    obind (h (gpr s RAX) [gpr s RDI, gpr s RSI, gpr s RDX, gpr s R10, gpr s R8, gpr s R9]) (\<lambda>_.
      Ret (s\<lparr>cells := write_below (cells s) (gpr s RSP) (saved s @ below C),
        rip := gpr s RCX, rflags := (gpr s R11 AND SYSRET_FLAGS) OR 2, user_mode := True\<rparr>))"
proof -
  let ?c = "write_below (cells s) (gpr s RSP) (saved s @ below C)"
  have "?c (gpr s RSP - 8 * of_nat (k + 1)) = saved s ! k" if "k < 9" for k
    by (rule write_below_first) (use that assms in \<open>simp_all add: saved_def\<close>)
  from this [of 0] this [of 1] this [of 2] this [of 3] this [of 4] this [of 5] this [of 6] this [of 7] this [of 8]
  have w: "?c (gpr s RSP - 8) = gpr s RCX" "?c (gpr s RSP - 16) = gpr s R11" "?c (gpr s RSP - 24) = gpr s R10"
    "?c (gpr s RSP - 32) = gpr s R9" "?c (gpr s RSP - 40) = gpr s R8" "?c (gpr s RSP - 48) = gpr s RDX"
    "?c (gpr s RSP - 56) = gpr s RSI" "?c (gpr s RSP - 64) = gpr s RDI" "?c (gpr s RSP - 72) = gpr s RAX"
    by (simp_all add: saved_def)
  show ?thesis
  proof (cases "h (gpr s RAX) [gpr s RDI, gpr s RSI, gpr s RDX, gpr s R10, gpr s R8, gpr s R9]")
    case (Ret v)
    then show ?thesis using w [unfolded saved_def]
      by (cases s) (simp add: syscall_stub_def syscall_entry_def Regs_at_def saved_def fun_eq_iff callee_saved_iff)
  qed (simp_all add: syscall_stub_def syscall_entry_def Regs_at_def)
qed

lemma init_syscall_Ret:
  assumes "x86_crate_ok X" "canonical_addr stub"
  shows "init_syscall dbg X stub m t = Ret (m\<lparr>STAR := 0x001B000800000000, LSTAR := stub, SFMASK := 0x600,
      EFER := EFER m OR 1 OR 0x100 OR 0x400\<rparr>, log_record dbg Debug (MsgSelectors 0x1B 0x08) t)"
proof -
  have "rflags_from_bits X 0x600 = Some 0x600" "star_write_raw X 0x1B 0x08 = 0x001B000800000000"
    using assms(1) by (simp_all add: x86_crate_ok_def)
  then show ?thesis
    using virt_new_ok [OF assms] by (simp add: init_syscall_def GDT_Ret [OF assms(1)])
qed

section \<open>A concrete system call\<close>

definition demo_callee :: callee where
  "demo_callee = \<lparr>below = [0xAAAA, 0xBBBB], leaves = (\<lambda>_. 0xCCCC)\<rparr>"

definition demo_user :: "u64 \<Rightarrow> ucpu" where
  "demo_user nr = \<lparr>gpr = (\<lambda>_. 5)(RAX := nr, RSP := 0x7000, RDI := 11, RSI := 12, RDX := 13, R10 := 14, R8 := 15, R9 := 16), cells = (\<lambda>_. 0), rip = 0x400000,
     rflags = 0x202, kernel_gs = False, user_mode = True\<rparr>"

section \<open>Properties\<close>

text \<open>
  Claim C39. The dispatcher on every system-call number: only the low eight bits of the number
  count; number 1 succeeds, each of the other nine listed numbers panics the kernel, and any
  other number is answered with the error that names it.
\<close>

theorem syscall_dispatch:
  assumes "num_enum_ok N"
  shows "handler N nr args =
      (if nr AND 0xFF = 1 then Ret (Inr ())
       else if nr AND 0xFF \<in> {0, 2, 3, 10, 11, 12, 20, 21, 22} then Panic
       else Ret (Inl (UnknownSyscall (ucast nr)))) \<and>
    handler N (nr AND 0xFF) args = handler N nr args"
proof -
  have m: "(0xFF :: u64) = mask 8" by (simp add: mask_eq_exp_minus_1)
  have u: "nr AND 0xFF = ucast (ucast nr :: u8)"
    unfolding m by (rule bit_word_eqI) (auto simp: bit_simps)
  have i: "(ucast x :: u64) = v \<longleftrightarrow> unat x = unat v" for x :: u8 and v :: u64
    using unat_bound [of x]
    by (simp add: word_unat_eq_iff [of "ucast x :: u64"] unsigned_ucast_eq take_bit_nat_eq_self)
  have "(ucast (nr AND 0xFF) :: u8) = ucast nr" unfolding m by (rule bit_word_eqI) (auto simp: bit_simps)
  then show ?thesis unfolding handler_cases [OF assms]
    by (simp only: u i insert_iff empty_iff word_unat_eq_iff [of "ucast nr :: u8"]) simp
qed

theorem syscall_dispatch_witness:
  "handler num_enum_doc 0x101 [] = Ret (Inr ()) \<and> handler num_enum_doc 20 [] = Panic \<and>
   handler num_enum_doc 0x1234 [] = Ret (Inl (UnknownSyscall 0x34))"
  using syscall_dispatch [OF num_enum_doc_ok, of "0x101" "[]"] syscall_dispatch [OF num_enum_doc_ok, of 20 "[]"]
    syscall_dispatch [OF num_enum_doc_ok, of "0x1234" "[]"] by simp

text \<open>
  Claim C28. A system call from user mode through the stub, for any dispatcher in the place of
  \<open>handler\<close>. The dispatcher is called with the number in \<open>rax\<close> and the arguments in \<open>rdi\<close>,
  \<open>rsi\<close>, \<open>rdx\<close>, \<open>r10\<close>, \<open>r8\<close> and \<open>r9\<close>, in this order. If it panics, so does the
  call. Otherwise the stub returns to user mode behind the \<open>syscall\<close> instruction with the GS
  base swapped back and every general-purpose register as it was (but for \<open>rcx\<close> and
  \<open>r11\<close>, which the instruction itself overwrites): the value that \<open>syscall_entry\<close> returns is
  lost. The registers are saved right below the stack pointer that the user program chose, and no
  cell is written but those and the ones below them. With \<open>handler\<close> nothing but a return or a
  panic happens.
\<close>

theorem syscall_roundtrip:
  assumes "length (below C) < 2 ^ 32"
  shows "(case h (gpr s RAX) [gpr s RDI, gpr s RSI, gpr s RDX, gpr s R10, gpr s R8, gpr s R9] of
      Ret _ \<Rightarrow> \<exists>s'. do_syscall h C m s = Ret s' \<and> gpr s' = (gpr s)(RCX := rip s, R11 := rflags s) \<and> rip s' = rip s \<and>
        rflags s' = (rflags s AND SYSRET_FLAGS) OR 2 \<and> user_mode s' \<and> kernel_gs s' = kernel_gs s \<and>
        (\<forall>k < 9. cells s' (gpr s RSP - 8 * of_nat (k + 1)) =
          [rip s, rflags s, gpr s R10, gpr s R9, gpr s R8, gpr s RDX, gpr s RSI, gpr s RDI, gpr s RAX] ! k) \<and>
        (\<forall>a. (\<forall>k < 9 + length (below C). a \<noteq> gpr s RSP - 8 * of_nat (k + 1)) \<longrightarrow> cells s' a = cells s a)
    | Panic \<Rightarrow> do_syscall h C m s = Panic
    | Fault \<Rightarrow> do_syscall h C m s = Fault) \<and>
    do_syscall (handler N) C m s \<noteq> Fault"
proof -
  let ?args = "[gpr s RDI, gpr s RSI, gpr s RDX, gpr s R10, gpr s R8, gpr s R9]"
  let ?v = "[rip s, rflags s, gpr s R10, gpr s R9, gpr s R8, gpr s RDX, gpr s RSI, gpr s RDI, gpr s RAX]"
  let ?c = "write_below (cells s) (gpr s RSP) (?v @ below C)"
  let ?s = "s\<lparr>gpr := (gpr s)(RCX := rip s, R11 := rflags s), cells := ?c,
      rflags := (rflags s AND SYSRET_FLAGS) OR 2, user_mode := True\<rparr>"
  have run: "do_syscall h C m s = obind (h (gpr s RAX) ?args) (\<lambda>_. Ret ?s)" for h
    unfolding do_syscall_def stub_run [OF assms] by (simp add: enter_kernel_def saved_def)
  have nine: "?c (gpr s RSP - 8 * of_nat (k + 1)) = ?v ! k" if "k < 9" for k
    by (rule write_below_first) (use that assms in simp_all)
  have other: "?c a = cells s a" if "\<forall>k < 9 + length (below C). a \<noteq> gpr s RSP - 8 * of_nat (k + 1)" for a
    by (rule write_below_other) (use that in auto)
  have "handler N (gpr s RAX) ?args \<noteq> Fault" by (simp add: handler_def split: Syscall.splits)
  then have handler: "do_syscall (handler N) C m s \<noteq> Fault"
    unfolding run by (cases "handler N (gpr s RAX) ?args") simp_all
  show ?thesis
  proof (cases "h (gpr s RAX) ?args")
    case (Ret v)
    have "do_syscall h C m s = Ret ?s" unfolding run Ret by simp
    moreover have "cells ?s = ?c" by simp
    ultimately show ?thesis unfolding Ret outcome.case using nine other handler
      by (intro conjI exI [of _ ?s]) simp_all
  qed (use handler in \<open>simp_all add: run\<close>)
qed

text \<open>The kernel's own dispatcher, and one that panics when it gets the arguments in order.\<close>

theorem syscall_roundtrip_witness:
  "(\<exists>s'. do_syscall (handler num_enum_doc) demo_callee \<lparr>STAR = 0, LSTAR = 0x1000, SFMASK = 0, EFER = 0\<rparr> (demo_user 1) = Ret s' \<and>
    gpr s' RAX = 1 \<and> gpr s' RSP = 0x7000 \<and> rip s' = 0x400000 \<and> cells s' 0x6FB8 = 1 \<and> cells s' 0x6FF8 = 0x400000 \<and>
    cells s' 0x7000 = 0) \<and>
   do_syscall (\<lambda>n as. if as = [11, 12, 13, 14, 15, 16] then Panic else Ret (Inr ())) demo_callee
     \<lparr>STAR = 0, LSTAR = 0x1000, SFMASK = 0, EFER = 0\<rparr> (demo_user 1) = Panic"
proof -
  let ?m = "\<lparr>STAR = 0, LSTAR = 0x1000, SFMASK = 0, EFER = 0\<rparr>" and ?s = "demo_user 1"
  let ?args = "[gpr ?s RDI, gpr ?s RSI, gpr ?s RDX, gpr ?s R10, gpr ?s R8, gpr ?s R9]"
  have l: "length (below demo_callee) < 2 ^ 32" by (simp add: demo_callee_def)
  have args: "?args = [11, 12, 13, 14, 15, 16]" by (simp add: demo_user_def)
  have h: "handler num_enum_doc (gpr ?s RAX) args = Ret (Inr ())" for args
    unfolding handler_cases [OF num_enum_doc_ok] by (simp add: demo_user_def)
  from conjunct1 [OF syscall_roundtrip [OF l, where h = "handler num_enum_doc" and s = ?s and m = ?m]] obtain s' where
    s': "do_syscall (handler num_enum_doc) demo_callee ?m ?s = Ret s'" "gpr s' = (gpr ?s)(RCX := rip ?s, R11 := rflags ?s)"
      "rip s' = rip ?s" and
    k: "\<forall>k < 9. cells s' (gpr ?s RSP - 8 * of_nat (k + 1)) =
      [rip ?s, rflags ?s, gpr ?s R10, gpr ?s R9, gpr ?s R8, gpr ?s RDX, gpr ?s RSI, gpr ?s RDI, gpr ?s RAX] ! k" and
    o: "\<forall>a. (\<forall>k < 9 + length (below demo_callee). a \<noteq> gpr ?s RSP - 8 * of_nat (k + 1)) \<longrightarrow> cells s' a = cells ?s a"
    unfolding h outcome.case by blast
  have "cells s' 0x6FB8 = 1" "cells s' 0x6FF8 = 0x400000"
    using k [rule_format, of 8] k [rule_format, of 0] by (simp_all add: demo_user_def)
  moreover have "cells s' 0x7000 = 0"
  proof -
    have "cells s' 0x7000 = cells ?s 0x7000"
    proof (rule o [rule_format])
      fix j assume "j < 9 + length (below demo_callee)"
      then have "j < 2 ^ 33" by (simp add: demo_callee_def)
      from below_distinct [OF this, of "0x7000"] show "0x7000 \<noteq> gpr ?s RSP - 8 * of_nat (j + 1)"
        by (simp add: demo_user_def)
    qed
    then show ?thesis by (simp add: demo_user_def)
  qed
  moreover have "do_syscall (\<lambda>n as. if as = [11, 12, 13, 14, 15, 16] then Panic else Ret (Inr ())) demo_callee ?m ?s = Panic"
    using conjunct1 [OF syscall_roundtrip [OF l, where s = ?s and m = ?m
        and h = "\<lambda>n as. if as = [11, 12, 13, 14, 15, 16] then Panic else Ret (Inr ())"]]
    unfolding args by simp
  ultimately show ?thesis using s' by (intro conjI exI [of _ s']) (simp_all add: demo_user_def)
qed

text \<open>
  Claim C38. The selectors after \<open>init_syscall\<close>: the \<open>syscall\<close> instruction loads the kernel code
  and the kernel data segment, with interrupts masked and the entry at the stub, and \<open>sysret\<close>
  loads the user data segment as the stack segment; but the code selector that \<open>sysret\<close>
  loads is not the user code segment: it points at the task state segment.
\<close>

theorem syscall_selectors:
  assumes "x86_crate_ok X" "canonical_addr stub"
  shows "\<exists>m' io' t sel. init_syscall dbg X stub m io = Ret (m', io') \<and> GDT X = Ret (t, sel) \<and>
    syscall_cs m' = code_selector sel \<and> selected t (syscall_cs m') = Some KernelCode \<and>
    syscall_ss m' = data_selector sel \<and> selected t (syscall_ss m') = Some KernelData \<and>
    sysret_ss m' = user_data_selector sel \<and> selected t (sysret_ss m') = Some UserData \<and>
    selected t (user_code_selector sel) = Some UserCode \<and>
    sysret_cs m' \<noteq> user_code_selector sel \<and> selected t (sysret_cs m') = Some TssSegment \<and>
    LSTAR m' = stub \<and> bit (SFMASK m') 9 \<and> bit (SFMASK m') 10 \<and> bit (EFER m') 0 \<and>
    (\<forall>i. bit (EFER m) i \<longrightarrow> bit (EFER m') i)"
proof -
  note g = GDT_Ret [OF assms(1)] and i = init_syscall_Ret [OF assms, of dbg m io]
  have "syscall_cs m' = 0x08" "syscall_ss m' = 0x10" "sysret_cs m' = 0x2B" "sysret_ss m' = 0x23"
    if "STAR m' = 0x001B000800000000" for m'
    by (simp_all add: syscall_cs_def syscall_ss_def sysret_cs_def sysret_ss_def that)
  then show ?thesis
    by (simp add: i g selected_def Let_def bit_or_iff)
qed

theorem syscall_selectors_witness:
  "\<exists>m' io'. init_syscall True x86_doc 0x201000 \<lparr>STAR = 0, LSTAR = 0, SFMASK = 0, EFER = 0x500\<rparr> [] = Ret (m', io') \<and>
    LSTAR m' = 0x201000 \<and> bit (EFER m') 0"
proof -
  have "canonical_addr 0x201000" by (simp add: canonical_addr_def)
  from syscall_selectors [OF x86_doc_ok this] show ?thesis by blast
qed

end
