(* ===== verification/Boot.thy ===== *)
theory Boot
  imports Console Syscalls Interrupts
begin

text \<open>
  The start of the kernel (\<open>main.rs\<close>): what the boot loader hands over, the order in which the
  components are initialised, and the state in which the first core enters the scheduler.

  The boot information, the font, the devices, the identification of the processor and the
  addresses that the linker chooses are parameters, and so is the text \<open>fmt\<close> that the formatting
  machinery makes of a log record. The log records of the trace are drawn on the console in their
  order. The theory \<open>Startup\<close> adds the interrupts that arrive while this code is still running.

  Shown: with usable boot information the kernel starts without a panic in both build profiles,
  every record it logs is drawn, and it enters an idle scheduler; from then on, in a release build,
  every timer interrupt is handled and returns, for ever, with a single further record.
\<close>

section \<open>Configuration and boot information\<close>

definition KERNEL_STACK_GUARD :: u64 where "KERNEL_STACK_GUARD = 0xffffffff70000000"
definition BOOT_INFO_ADDR :: u64 where "BOOT_INFO_ADDR = 0xffffffff40000000"
definition PHYS_MEM_OFFSET :: u64 where "PHYS_MEM_OFFSET = 0xffff800000000000"
definition RECURSIVE_P4_ADDR :: u64 where "RECURSIVE_P4_ADDR = 0xffffff0000000000"
definition KERNEL_STACK_SIZE :: u64 where "KERNEL_STACK_SIZE = 128 * 1024"

datatype Mapping = Dynamic | FixedAddress u64

record BootloaderConfig =
  aslr :: bool
  kernel_stack :: Mapping
  kernel_stack_size :: u64
  boot_info :: Mapping
  physical_memory :: "Mapping option"
  page_table_recursive :: "Mapping option"

text \<open>The defaults of the boot loader are a parameter; the kernel overrides these fields.\<close>

definition BOOTLOADER_CONFIG :: "BootloaderConfig \<Rightarrow> BootloaderConfig" where
  "BOOTLOADER_CONFIG new_default = new_default\<lparr>aslr := False,
     kernel_stack := FixedAddress KERNEL_STACK_GUARD, kernel_stack_size := KERNEL_STACK_SIZE,
     boot_info := FixedAddress BOOT_INFO_ADDR, physical_memory := Some (FixedAddress PHYS_MEM_OFFSET),
     page_table_recursive := Some (FixedAddress RECURSIVE_P4_ADDR)\<rparr>"

record BootInfo =
  bi_framebuffer :: "(u8 list \<times> FrameBufferInfo) option"
  bi_physical_memory_offset :: "u64 option"
  bi_rsdp_addr :: "u64 option"

text \<open>What the processor, the linker and the boot loader fix.\<close>

record platform =
  crate :: x86_crate
  hw :: devices
  cpuid_ebx :: u32
  cpuid_eax :: u32
  static_stacks :: stacks
  stub_addr :: u64
  msr_reset :: msrs

record 'h kernel_state =
  logger :: Logger
  level :: LevelFilter
  irq_state :: irq_cpu
  msr_state :: msrs
  globals :: "'h globals"

section \<open>The entry point\<close>

text \<open>The logger at a sequence of records.\<close>

fun render :: "bool \<Rightarrow> font \<Rightarrow> (Level \<Rightarrow> msg \<Rightarrow> rchar list) \<Rightarrow> Logger \<Rightarrow> (Level \<times> msg) list \<Rightarrow> Logger logged" where
  "render dbg F fmt L [] = Done L"
| "render dbg F fmt L ((lv, m) # rs) =
     (case Logger_log dbg F L (fmt lv m) of Done L' \<Rightarrow> render dbg F fmt L' rs | e \<Rightarrow> e)"

text \<open>A record that can not be drawn panics; the lock of the logger is free whenever the start-up code
  logs, so that it never waits.\<close>

definition main ::
    "bool \<Rightarrow> font \<Rightarrow> (Level \<Rightarrow> msg \<Rightarrow> rchar list) \<Rightarrow> 'h heap_ops \<Rightarrow> platform \<Rightarrow> rchar list \<Rightarrow> BootInfo \<Rightarrow>
      ('h kernel_state \<times> control) outcome" where
  "main dbg F fmt H P text b =
     obind (expect (bi_framebuffer b)) (\<lambda>(fb, i).
     case console_init dbg F None fb i text of
       Done (L, lv) \<Rightarrow>
         obind (expect (bi_physical_memory_offset b)) (\<lambda>off.
         obind (expect (virt_new (crate P) off)) (\<lambda>offset.
         obind (expect (bi_rsdp_addr b)) (\<lambda>rsdp.
         obind (Apic_init dbg (crate P) (hw P) Apic_new rsdp offset []) (\<lambda>(a, t1).
         obind (interrupts_load (crate P) (static_stacks P) t1) (\<lambda>(irq, t2).
         obind (calibrate dbg (hw P) Tick_new a t2) (\<lambda>(tk, t3).
         let (SCHEDULER, t4) = init_scheduler H (cpuid_eax P) OnceLock_new t3 in
         obind (init_syscall dbg (crate P) (stub_addr P) (msr_reset P) t4) (\<lambda>(m, t5).
         obind (expect (OnceLock_get SCHEDULER)) (\<lambda>pc.
         obind (PerCore_get_mut (cpuid_ebx P) pc) (\<lambda>ex.
         obind (run H \<lparr>tcbs = Map.empty, scs = Map.empty, exec = ex\<rparr>) (\<lambda>(s, c).
         case render dbg F fmt L (logs t5) of
           Done L' \<Rightarrow>
             Ret (\<lparr>logger = L', level = lv, irq_state = irq, msr_state = m,
                   globals = \<lparr>APIC = \<lparr>held = False, guarded = a\<rparr>, TICKS = \<lparr>held = False, guarded = tk\<rparr>, log_held = False,
                     ksys = \<lparr>io = t5, sched = SCHEDULER\<lparr>cell := Some (PerCore_put (cpuid_ebx P) pc (exec s))\<rparr>,
                       ktcbs = tcbs s, kscs = scs s\<rparr>\<rparr>\<rparr>, c)
         | _ \<Rightarrow> Panic))))))))))
     | _ \<Rightarrow> Panic)"

section \<open>Lemmas\<close>

text \<open>The characters of the records that are drawn.\<close>

definition text_size :: "(Level \<Rightarrow> msg \<Rightarrow> rchar list) \<Rightarrow> (Level \<times> msg) list \<Rightarrow> nat" where
  "text_size fmt rs = sum_list (map (\<lambda>(lv, m). length (fmt lv m)) rs)"

lemma text_size_simps [simp]:
  "text_size fmt [] = 0" "text_size fmt ((lv, m) # rs) = length (fmt lv m) + text_size fmt rs"
  "text_size fmt (rs @ rs') = text_size fmt rs + text_size fmt rs'"
  by (simp_all add: text_size_def)

lemma text_size_le:
  assumes "\<And>lv m. length (fmt lv m) \<le> n"
  shows "text_size fmt rs \<le> n * length rs"
proof (induction rs)
  case (Cons r rs)
  then show ?case using assms [of "fst r" "snd r"] by (cases r) simp
qed simp

lemma render_ok:
  assumes "\<not> locked L" "console_ok F (writer L)" "unat (y_pos (writer L)) + 18 * text_size fmt rs < 2 ^ 63"
  shows "\<exists>L'. render dbg F fmt L rs = Done L' \<and> \<not> locked L' \<and> console_ok F (writer L') \<and>
    unat (y_pos (writer L')) \<le> unat (y_pos (writer L)) + 18 * text_size fmt rs"
  using assms
proof (induction rs arbitrary: L)
  case Nil
  then show ?case by simp
next
  case (Cons r rs)
  obtain lv m where r: "r = (lv, m)" by (cases r)
  have "unat (y_pos (writer L)) + 18 * length (fmt lv m) < 2 ^ 63" using Cons.prems(3) r by simp
  from write_str_ok [OF Cons.prems(2) this, of dbg] obtain w where
    w: "write_str dbg F (writer L) (fmt lv m) = Inr w" "console_ok F w"
      "unat (y_pos w) \<le> unat (y_pos (writer L)) + 18 * length (fmt lv m)" by blast
  have log: "Logger_log dbg F L (fmt lv m) = Done (L\<lparr>writer := w\<rparr>)"
    using Cons.prems(1) w(1) by (simp add: Logger_log_def)
  have "unat (y_pos (writer (L\<lparr>writer := w\<rparr>))) + 18 * text_size fmt rs < 2 ^ 63"
    using Cons.prems(3) w(3) r by simp
  from Cons.IH [OF _ _ this] Cons.prems(1) w log r show ?case by fastforce
qed

text \<open>The window of physical memory at \<open>off\<close> contains the registers of the interrupt controllers.\<close>

definition controllers_mapped :: "devices \<Rightarrow> u64 \<Rightarrow> bool" where
  "controllers_mapped D off \<longleftrightarrow>
     (let a = \<lparr>io_apic_addr = 0xFEC00000 + off, lapic_addr = 0xFEE00000 + off\<rparr>
      in ioapic_mapped D a \<and> lapic_mapped D a \<and> mapped D (lapic_addr a + 0xF0))"

text \<open>Usable boot information on a usable platform; the texts of the log records are bounded.\<close>

definition boot_ok :: "font \<Rightarrow> (Level \<Rightarrow> msg \<Rightarrow> rchar list) \<Rightarrow> platform \<Rightarrow> rchar list \<Rightarrow> BootInfo \<Rightarrow> bool" where
  "boot_ok F fmt P text b \<longleftrightarrow>
     (\<exists>fb i off. bi_framebuffer b = Some (fb, i) \<and> console_ok F (FrameBufferWriter_new fb i) \<and>
        bi_physical_memory_offset b = Some off \<and> bi_rsdp_addr b \<noteq> None \<and>
        canonical_addr off \<and> canonical_addr (0xFEC00000 + off) \<and> canonical_addr (0xFEE00000 + off) \<and>
        unat off + 0xFEE00000 < 2 ^ 64 \<and> controllers_mapped (hw P) off) \<and>
     length text < 2 ^ 32 \<and> (\<forall>lv m. length (fmt lv m) < 2 ^ 32) \<and>
     x86_crate_ok (crate P) \<and> has_apic (hw P) \<and> stacks_ok (static_stacks P) \<and> canonical_addr (stub_addr P) \<and>
     unat (cpuid (cpuid_ebx P)) < min (unat (sysinfo (cpuid_eax P))) 16"

lemma Apic_init_Ret:
  assumes "x86_crate_ok X" "has_apic D" "canonical_addr (0xFEC00000 + off)" "canonical_addr (0xFEE00000 + off)"
    and "unat off + 0xFEE00000 < 2 ^ 64" "controllers_mapped D off"
  shows "\<exists>t'. Apic_init dbg X D a rsdp off t =
      Ret (a\<lparr>io_apic_addr := 0xFEC00000 + off, lapic_addr := 0xFEE00000 + off\<rparr>, t') \<and>
    logs t' = logs t @ [(Info, MsgApic (0xFEC00000 + off) (0xFEE00000 + off))]"
proof -
  have "u_add dbg 0xFEC00000 off = Ret (0xFEC00000 + off)" "u_add dbg 0xFEE00000 off = Ret (0xFEE00000 + off)"
    using assms(5) by (simp_all add: u_add_def)
  then have "map_apic dbg X 0xFEC00000 off = Ret (0xFEC00000 + off)" "map_apic dbg X 0xFEE00000 off = Ret (0xFEE00000 + off)"
    using virt_new_ok [OF assms(1)] assms(3,4) by (simp_all add: map_apic_def)
  moreover have "mapped D (0xFEC00000 + off)" "mapped D (0xFEE00000 + off + 0xF0)"
    using assms(6) by (simp_all add: controllers_mapped_def ioapic_mapped_def Let_def)
  ultimately show ?thesis using assms(2)
    by (simp add: Apic_init_def Let_def enable_lapic_def enable_io_apic_def Pic_disable_def read_volatile_def
        write_volatile_def outb_def reg_ptr_def)
qed

text \<open>The records of the start-up, after the first.\<close>

definition boot_log :: "bool \<Rightarrow> u64 \<Rightarrow> u32 \<Rightarrow> (Level \<times> msg) list" where
  "boot_log dbg off n =
     [(Info, MsgApic (0xFEC00000 + off) (0xFEE00000 + off)), (Info, MsgInterrupts)] @
     (if dbg then [(Debug, MsgCalibration), (Debug, MsgPit (from_millis 50) 59659)] else []) @
     map (\<lambda>i. (Warn, MsgCoreBounds i)) [16..<unat n] @ [(Info, MsgSchedulers n)] @
     (if dbg then [(Debug, MsgSelectors 0x1B 0x08)] else [])"

lemma boot_log_length: "length (boot_log dbg off (sysinfo eax)) \<le> 64"
  using sysinfo_bound [of eax] by (cases dbg) (auto simp: boot_log_def)

text \<open>The console during the start-up: all records are drawn, and there is room for another.\<close>

lemma boot_console:
  assumes ok: "boot_ok F fmt P text b" and fb: "bi_framebuffer b = Some (fb, i)"
  shows "\<exists>L L1. console_init dbg F None fb i text = Done (L, if dbg then LevelDebug else LevelInfo) \<and>
    render dbg F fmt L (boot_log dbg off (sysinfo eax)) = Done L1 \<and> \<not> locked L1 \<and>
    (\<forall>dbg' lv m. \<exists>L'. render dbg' F fmt L1 [(lv, m)] = Done L')"
proof -
  have c: "console_ok F (FrameBufferWriter_new fb i)" and t: "length text < 2 ^ 32"
    and f: "\<And>lv m. length (fmt lv m) \<le> 2 ^ 32" "\<And>lv m. length (fmt lv m) < 2 ^ 32"
    using ok fb by (auto simp: boot_ok_def less_imp_le)
  have y0: "unat (y_pos (FrameBufferWriter_new fb i)) = 1" by (simp add: FrameBufferWriter_new_def clear_keeps)
  then have "unat (y_pos (FrameBufferWriter_new fb i)) + 18 * length text < 2 ^ 63" using t by simp
  from write_str_ok [OF c this, of dbg] obtain w where
    w: "write_str dbg F (FrameBufferWriter_new fb i) text = Inr w" "console_ok F w" "unat (y_pos w) \<le> 1 + 18 * length text"
    unfolding y0 by blast
  let ?L = "\<lparr>locked = False, writer = w\<rparr>"
  have con: "console_init dbg F None fb i text = Done (?L, if dbg then LevelDebug else LevelInfo)"
    using w(1) by (simp add: console_init_def Logger_log_def Logger_new_def)
  have size: "text_size fmt (boot_log dbg off (sysinfo eax)) \<le> 2 ^ 32 * 64"
    using text_size_le [where rs = "boot_log dbg off (sysinfo eax)", OF f(1)] boot_log_length [of dbg off eax]
    by (meson le_trans mult_le_mono2)
  have "unat (y_pos (writer ?L)) + 18 * text_size fmt (boot_log dbg off (sysinfo eax)) < 2 ^ 63"
    using w(3) t size by simp
  from render_ok [OF _ _ this, of F dbg] w(2) obtain L1 where
    L1: "render dbg F fmt ?L (boot_log dbg off (sysinfo eax)) = Done L1" "\<not> locked L1" "console_ok F (writer L1)"
      "unat (y_pos (writer L1)) \<le> unat (y_pos w) + 18 * text_size fmt (boot_log dbg off (sysinfo eax))" by auto
  have "\<exists>L'. render dbg' F fmt L1 [(lv, m)] = Done L'" for dbg' lv m
  proof -
    have "unat (y_pos (writer L1)) + 18 * text_size fmt [(lv, m)] < 2 ^ 63"
      using L1(4) w(3) t size f(2) [of lv m] by simp
    from render_ok [OF L1(2,3) this, of dbg'] show ?thesis by blast
  qed
  with con L1(1,2) show ?thesis by blast
qed

text \<open>The core with a fresh executor: nothing is ready, so that a tick changes nothing.\<close>

definition idle_core :: "'h heap_ops \<Rightarrow> u32 \<Rightarrow> 'h globals \<Rightarrow> bool" where
  "idle_core H ebx g \<longleftrightarrow> \<not> held (TICKS g) \<and> \<not> held (APIC g) \<and>
     (\<exists>pc. OnceLock_get (sched (ksys g)) = Some pc \<and> PerCore_get_mut ebx pc = Ret (Executor_new H))"

lemma new_pop: "heap_spec H I \<alpha> \<Longrightarrow> h_pop H (h_new H) = None"
  using heap_new [of H I \<alpha>] heap_pop_empty [of H I \<alpha> "h_new H"] by auto

lemma idle_preempt:
  assumes "heap_spec H I \<alpha>" "exec s = Executor_new H"
  shows "preempt dbg H s = Ret (s, Return)"
  using assms(2) new_pop [OF assms(1)] heap_new [OF assms(1)] heap_peek [OF assms(1), of "h_new H"]
  by (simp add: preempt_def inc_tick_def should_preempt_def Executor_new_def)

lemma idle_tick:
  assumes "heap_spec H I \<alpha>" "idle_core H ebx g" "\<not> is_calibration (guarded (TICKS g))"
    and mapped: "lapic_mapped D (guarded (APIC g))"
  shows "\<exists>g'. timer_handler False H D ebx g = Finished g' \<and> idle_core H ebx g' \<and> APIC g' = APIC g \<and>
    \<not> is_calibration (guarded (TICKS g')) \<and> logs (io (ksys g')) = logs (io (ksys g))"
proof -
  from assms(2) obtain pc where pc: "OnceLock_get (sched (ksys g)) = Some pc" "PerCore_get_mut ebx pc = Ret (Executor_new H)"
    by (auto simp: idle_core_def)
  have "once (sched (ksys g)) = INITIALIZED" using pc(1) by (auto simp: OnceLock_get_def split: if_splits)
  then have "OnceLock_get ((sched (ksys g))\<lparr>cell := Some pc\<rparr>) = Some pc" by (simp add: OnceLock_get_def)
  then show ?thesis using assms pc
    by (simp add: timer_handler_def tick_handler_def idle_preempt [OF assms(1)] PerCore_put_same idle_core_def
        mapped_Ret [OF mapped] Let_def)
qed

lemma idle_irqs:
  assumes H: "heap_spec H I \<alpha>" and idle: "idle_core H ebx g"
    and g: "TICKS g = \<lparr>held = False, guarded = calibrating False D a v t 0\<rparr>" "APIC g = \<lparr>held = False, guarded = a\<rparr>"
      "io (ksys g) = t" "\<not> log_held g" and mapped: "lapic_mapped D a"
  shows "\<exists>g'. timer_irqs False H D ebx n g = Finished g' \<and> (is_calibration (guarded (TICKS g')) \<longleftrightarrow> n < 10) \<and>
    logs (io (ksys g')) = logs t @ (if n < 10 then [] else [(Info, MsgTimer (mean_cycles False D a v t))])"
proof -
  have cd: "counts_down False D a v t" by (simp add: counts_down_def)
  have c0: "io (ksys g) = calib_trace False D a t 0" by (simp add: g(3))
  note start = g(1,2) c0 cd g(4) mapped
  let ?new = "[(Info, MsgTimer (mean_cycles False D a v t))]"
  have late: "\<exists>g'. timer_irqs False H D ebx (10 + m) g = Finished g' \<and> idle_core H ebx g' \<and> APIC g' = APIC g \<and>
      \<not> is_calibration (guarded (TICKS g')) \<and> logs (io (ksys g')) = logs t @ ?new" for m
  proof (induction m)
    case 0
    show ?case using calib_last [OF start, of H ebx] idle g(2)
      by (simp add: idle_core_def logs_last logs_calib del: upt_Suc)
  next
    case (Suc m)
    then obtain g' where g': "timer_irqs False H D ebx (10 + m) g = Finished g'" "idle_core H ebx g'" "APIC g' = APIC g"
      "\<not> is_calibration (guarded (TICKS g'))" "logs (io (ksys g')) = logs t @ ?new" by blast
    have "lapic_mapped D (guarded (APIC g'))" using mapped g(2) g'(3) by simp
    from idle_tick [OF H g'(2,4) this] g'(3,5) show ?case unfolding add_Suc_right timer_irqs.simps g'(1) by simp
  qed
  show ?thesis
  proof (cases "n < 10")
    case True
    then show ?thesis using calib_irqs [OF start True, of H ebx]
      by (simp add: calib_state_def calibrating_def logs_calib)
  next
    case False
    then have "10 + (n - 10) = n" by simp
    then show ?thesis using late [of "n - 10"] False by auto
  qed
qed

text \<open>The state in which the first core enters the scheduler.\<close>

definition boot_state ::
    "bool \<Rightarrow> 'h heap_ops \<Rightarrow> platform \<Rightarrow> u64 \<Rightarrow> Logger \<Rightarrow> segment_regs \<Rightarrow> u32 \<Rightarrow> io_trace \<Rightarrow> 'h kernel_state" where
  "boot_state dbg H P off L sr v t =
     (let a = \<lparr>io_apic_addr = 0xFEC00000 + off, lapic_addr = 0xFEE00000 + off\<rparr> in
      \<lparr>logger = L, level = if dbg then LevelDebug else LevelInfo,
       irq_state = \<lparr>segs = sr, idtr = IDT, interrupts_on = True\<rparr>,
       msr_state = (msr_reset P)\<lparr>STAR := 0x001B000800000000, LSTAR := stub_addr P, SFMASK := 0x600,
         EFER := EFER (msr_reset P) OR 1 OR 0x100 OR 0x400\<rparr>,
       globals = \<lparr>APIC = \<lparr>held = False, guarded = a\<rparr>,
         TICKS = \<lparr>held = False, guarded = calibrating dbg (hw P) a v t 0\<rparr>, log_held = False,
         ksys = \<lparr>io = t,
           sched = \<lparr>once = INITIALIZED, cell = Some (fresh_cores (ucast (sysinfo (cpuid_eax P))) (Executor_new H))\<rparr>,
           ktcbs = Map.empty, kscs = Map.empty\<rparr>\<rparr>\<rparr>)"

lemma boot_irqs:
  assumes "heap_spec H I \<alpha>" "unat (cpuid (cpuid_ebx P)) < min (unat (sysinfo (cpuid_eax P))) 16"
    and mapped: "controllers_mapped (hw P) off"
  shows "\<exists>g' mean. timer_irqs False H (hw P) (cpuid_ebx P) n (globals (boot_state False H P off L sr v t)) = Finished g' \<and>
    (is_calibration (guarded (TICKS g')) \<longleftrightarrow> n < 10) \<and>
    logs (io (ksys g')) = logs t @ (if n < 10 then [] else [(Info, MsgTimer mean)])"
proof -
  let ?g = "globals (boot_state False H P off L sr v t)"
  let ?a = "\<lparr>io_apic_addr = 0xFEC00000 + off, lapic_addr = 0xFEE00000 + off\<rparr>"
  have "idle_core H (cpuid_ebx P) ?g"
    using new_core [of "cpuid_ebx P" "cpuid_eax P" "Executor_new H"] assms(2)
    by (simp add: boot_state_def Let_def idle_core_def OnceLock_get_def)
  from idle_irqs [OF assms(1) this, where a = ?a and v = v and t = t and D = "hw P" and n = n]
  show ?thesis using mapped by (auto simp: boot_state_def controllers_mapped_def Let_def)
qed

lemma main_starts:
  assumes H: "heap_spec H I \<alpha>" and ok: "boot_ok F fmt P text b"
  shows "\<exists>fb i off L L1 sr v t. main dbg F fmt H P text b = Ret (boot_state dbg H P off L1 sr v t, Halted) \<and>
    bi_framebuffer b = Some (fb, i) \<and> bi_physical_memory_offset b = Some off \<and> controllers_mapped (hw P) off \<and>
    logs t = boot_log dbg off (sysinfo (cpuid_eax P)) \<and>
    console_init dbg F None fb i text = Done (L, if dbg then LevelDebug else LevelInfo) \<and>
    render dbg F fmt L (boot_log dbg off (sysinfo (cpuid_eax P))) = Done L1 \<and> \<not> locked L1 \<and>
    (\<forall>dbg' lv m. \<exists>L'. render dbg' F fmt L1 [(lv, m)] = Done L')"
proof -
  from ok obtain fb i off rsdp where b: "bi_framebuffer b = Some (fb, i)" "bi_rsdp_addr b = Some rsdp"
      "bi_physical_memory_offset b = Some off" and
    off: "canonical_addr off" "canonical_addr (0xFEC00000 + off)" "canonical_addr (0xFEE00000 + off)" "unat off + 0xFEE00000 < 2 ^ 64" "controllers_mapped (hw P) off" and
    P: "x86_crate_ok (crate P)" "has_apic (hw P)" "stacks_ok (static_stacks P)" "canonical_addr (stub_addr P)"
      "unat (cpuid (cpuid_ebx P)) < min (unat (sysinfo (cpuid_eax P))) 16"
    unfolding boot_ok_def by blast
  let ?n = "sysinfo (cpuid_eax P)"
  from boot_console [OF ok b(1), of dbg off "cpuid_eax P"] obtain L L1 where
    con: "console_init dbg F None fb i text = Done (L, if dbg then LevelDebug else LevelInfo)" and
    L1: "render dbg F fmt L (boot_log dbg off ?n) = Done L1" "\<not> locked L1"
      "\<forall>dbg' lv m. \<exists>L'. render dbg' F fmt L1 [(lv, m)] = Done L'" by blast
  let ?a = "\<lparr>io_apic_addr = 0xFEC00000 + off, lapic_addr = 0xFEE00000 + off\<rparr>"
  from Apic_init_Ret [OF P(1,2) off(2-5), of dbg Apic_new rsdp "[]"] obtain t1 where
    ap: "Apic_init dbg (crate P) (hw P) Apic_new rsdp off [] = Ret (?a, t1)"
      "logs t1 = [(Info, MsgApic (0xFEC00000 + off) (0xFEE00000 + off))]" by (auto simp: Apic_new_def)
  from gdt_load_Ret [OF P(1,3)] obtain sr where gl: "gdt_load (crate P) (static_stacks P) = Ret sr" by blast
  have pc: "PerCore_get_mut (cpuid_ebx P) (fresh_cores (ucast ?n) (Executor_new H)) = Ret (Executor_new H)"
    unfolding new_core using P(5) by simp
  have idle: "schedule H \<lparr>tcbs = Map.empty, scs = Map.empty, exec = Executor_new H\<rparr> =
      Ret (\<lparr>tcbs = Map.empty, scs = Map.empty, exec = Executor_new H\<rparr>, Halted)"
    using new_pop [OF H] by (simp add: schedule_def Executor_new_def)
  define t2 where "t2 = t1 @ [Log Info MsgInterrupts]"
  define v where "v = counter (hw P) ?a (calib_start dbg ?a t2)"
  define t5 where "t5 = log_record dbg Debug (MsgSelectors 0x1B 0x08) (after_read (hw P) ?a (calib_start dbg ?a t2) @
    map (\<lambda>i. Log Warn (MsgCoreBounds i)) [16..<unat ?n] @ [Log Info (MsgSchedulers ?n)])"
  have t5: "logs t5 = boot_log dbg off ?n"
    by (simp add: t5_def t2_def ap(2) calib_start_def boot_log_def logs_warnings)
  have mapped: "ioapic_mapped (hw P) ?a" "lapic_mapped (hw P) ?a"
    using off(5) by (simp_all add: controllers_mapped_def Let_def)
  have "main dbg F fmt H P text b = Ret (boot_state dbg H P off L1 sr v t5, Halted)"
    using b con ap(1) pc idle PerCore_put_same [OF pc] t5 L1(1)
    by (simp add: main_def virt_new_ok [OF P(1) off(1)] interrupts_load_def gl calibrate_eq [OF mapped, of _ _ t5] init_scheduler_new
        init_syscall_Ret [OF P(1,4)] OnceLock_get_def run_def Let_def boot_state_def
        del: logs_append logs_log_record logs_device flip: t2_def v_def t5_def)
  with b con L1 t5 off(5) show ?thesis by blast
qed

section \<open>A concrete platform\<close>

definition demo_platform :: platform where
  "demo_platform = \<lparr>crate = x86_doc, hw = demo_devices, cpuid_ebx = 0, cpuid_eax = 0,
     static_stacks = \<lparr>double_fault_stack = 0x10000, nmi_stack = 0x12000, machine_check_stack = 0x14000,
       privilege_stack = 0x16000\<rparr>,
     stub_addr = 0x201000, msr_reset = \<lparr>STAR = 0, LSTAR = 0, SFMASK = 0, EFER = 0x500\<rparr>\<rparr>"

definition demo_boot :: BootInfo where
  "demo_boot = \<lparr>bi_framebuffer = Some (replicate 240 0, demo_info Rgb), bi_physical_memory_offset = Some PHYS_MEM_OFFSET,
     bi_rsdp_addr = Some 0xE0000\<rparr>"

definition demo_fmt :: "Level \<Rightarrow> msg \<Rightarrow> rchar list" where
  "demo_fmt lv m = [if lv = Error then 69 else 73, 10]"

lemma demo_boot_ok: "boot_ok demo_font demo_fmt demo_platform [79, 75, 10] demo_boot"
  using demo_console_ok x86_doc_ok
  by (simp add: boot_ok_def demo_fmt_def demo_boot_def demo_platform_def demo_writer_def PHYS_MEM_OFFSET_def canonical_addr_def
      controllers_mapped_def ioapic_mapped_def lapic_mapped_def mapped_def reg_ptr_def Let_def
      has_apic_def demo_devices_def stacks_ok_def stack_ok_def cpuid_def sysinfo_def)

section \<open>Properties\<close>

text \<open>
  Claim C11. With usable boot information on a usable platform, where the window of physical memory
  covers the interrupt controllers, the kernel starts without a panic in
  both build profiles: the console is unlocked, interrupts are on, the \<open>syscall\<close> instruction
  enters the stub, the two interrupt controllers are addressed through the physical-memory window, the
  log records of all components are drawn in order, and the core halts in an empty scheduler. From
  then on, in a release build and whatever the devices answer, every timer interrupt is handled and
  returns: the first ten calibrate the timer, with a single record for the last of them, all later
  ones find nothing to schedule, and that record can be drawn as well. Without a framebuffer, a
  physical-memory offset or an ACPI root pointer the kernel panics.
\<close>

theorem boot_correct:
  assumes "heap_spec H I \<alpha>"
  shows "(boot_ok F fmt P text b \<longrightarrow>
      (\<exists>st off. main dbg F fmt H P text b = Ret (st, Halted) \<and> \<not> locked (logger st) \<and>
        level st = (if dbg then LevelDebug else LevelInfo) \<and>
        interrupts_on (irq_state st) \<and> LSTAR (msr_state st) = stub_addr P \<and>
        bi_physical_memory_offset b = Some off \<and>
        guarded (APIC (globals st)) = \<lparr>io_apic_addr = 0xFEC00000 + off, lapic_addr = 0xFEE00000 + off\<rparr> \<and>
        logs (io (ksys (globals st))) = boot_log dbg off (sysinfo (cpuid_eax P)) \<and>
        (\<exists>L fb i. bi_framebuffer b = Some (fb, i) \<and> console_init dbg F None fb i text = Done (L, level st) \<and>
          render dbg F fmt L (boot_log dbg off (sysinfo (cpuid_eax P))) = Done (logger st)) \<and>
        (\<not> dbg \<longrightarrow> (\<forall>n. \<exists>g' mean L'. timer_irqs False H (hw P) (cpuid_ebx P) n (globals st) = Finished g' \<and>
          (is_calibration (guarded (TICKS g')) \<longleftrightarrow> n < 10) \<and>
          logs (io (ksys g')) = boot_log dbg off (sysinfo (cpuid_eax P)) @ (if n < 10 then [] else [(Info, MsgTimer mean)]) \<and>
          render False F fmt (logger st) [(Info, MsgTimer mean)] = Done L')))) \<and>
    (bi_framebuffer b = None \<or> bi_physical_memory_offset b = None \<or> bi_rsdp_addr b = None
     \<longrightarrow> main dbg F fmt H P text b = Panic)"
proof (intro conjI impI)
  assume ok: "boot_ok F fmt P text b"
  from main_starts [OF assms ok, of dbg] obtain fb i off L L1 sr v t where
    m: "main dbg F fmt H P text b = Ret (boot_state dbg H P off L1 sr v t, Halted)"
      "bi_framebuffer b = Some (fb, i)" "bi_physical_memory_offset b = Some off" "logs t = boot_log dbg off (sysinfo (cpuid_eax P))"
      "console_init dbg F None fb i text = Done (L, if dbg then LevelDebug else LevelInfo)"
      "render dbg F fmt L (boot_log dbg off (sysinfo (cpuid_eax P))) = Done L1" "\<not> locked L1"
      "\<forall>dbg' lv m. \<exists>L'. render dbg' F fmt L1 [(lv, m)] = Done L'" "controllers_mapped (hw P) off" by blast
  have "unat (cpuid (cpuid_ebx P)) < min (unat (sysinfo (cpuid_eax P))) 16" using ok by (simp add: boot_ok_def)
  note irqs = boot_irqs [OF assms this m(9), where L = L1 and sr = sr and v = v and t = t]
  let ?st = "boot_state dbg H P off L1 sr v t"
  show "\<exists>st off. main dbg F fmt H P text b = Ret (st, Halted) \<and> \<not> locked (logger st) \<and>
        level st = (if dbg then LevelDebug else LevelInfo) \<and>
        interrupts_on (irq_state st) \<and> LSTAR (msr_state st) = stub_addr P \<and>
        bi_physical_memory_offset b = Some off \<and>
        guarded (APIC (globals st)) = \<lparr>io_apic_addr = 0xFEC00000 + off, lapic_addr = 0xFEE00000 + off\<rparr> \<and>
        logs (io (ksys (globals st))) = boot_log dbg off (sysinfo (cpuid_eax P)) \<and>
        (\<exists>L fb i. bi_framebuffer b = Some (fb, i) \<and> console_init dbg F None fb i text = Done (L, level st) \<and>
          render dbg F fmt L (boot_log dbg off (sysinfo (cpuid_eax P))) = Done (logger st)) \<and>
        (\<not> dbg \<longrightarrow> (\<forall>n. \<exists>g' mean L'. timer_irqs False H (hw P) (cpuid_ebx P) n (globals st) = Finished g' \<and>
          (is_calibration (guarded (TICKS g')) \<longleftrightarrow> n < 10) \<and>
          logs (io (ksys g')) = boot_log dbg off (sysinfo (cpuid_eax P)) @ (if n < 10 then [] else [(Info, MsgTimer mean)]) \<and>
          render False F fmt (logger st) [(Info, MsgTimer mean)] = Done L'))"
  proof (intro exI [of _ ?st] exI [of _ off] conjI impI allI)
    show "\<exists>L fb i. bi_framebuffer b = Some (fb, i) \<and> console_init dbg F None fb i text = Done (L, level ?st) \<and>
        render dbg F fmt L (boot_log dbg off (sysinfo (cpuid_eax P))) = Done (logger ?st)"
      using m by (auto simp: boot_state_def Let_def)
    show "\<exists>g' mean L'. timer_irqs False H (hw P) (cpuid_ebx P) n (globals ?st) = Finished g' \<and>
        (is_calibration (guarded (TICKS g')) \<longleftrightarrow> n < 10) \<and>
        logs (io (ksys g')) = boot_log dbg off (sysinfo (cpuid_eax P)) @ (if n < 10 then [] else [(Info, MsgTimer mean)]) \<and>
        render False F fmt (logger ?st) [(Info, MsgTimer mean)] = Done L'" if "\<not> dbg" for n
      using irqs [where n = n] that m(4,8) by (auto simp: boot_state_def Let_def)
  qed (use m in \<open>simp_all add: boot_state_def Let_def\<close>)
next
  assume none: "bi_framebuffer b = None \<or> bi_physical_memory_offset b = None \<or> bi_rsdp_addr b = None"
  show "main dbg F fmt H P text b = Panic"
  proof (cases "bi_framebuffer b")
    case (Some fi)
    then show ?thesis using none
      by (cases "bi_physical_memory_offset b"; cases "virt_new (crate P) (the (bi_physical_memory_offset b))")
         (auto simp: main_def split: logged.splits prod.splits)
  qed (simp add: main_def)
qed

theorem boot_correct_witness:
  "\<exists>st. main False demo_font demo_fmt list_heap demo_platform [79, 75, 10] demo_boot = Ret (st, Halted) \<and>
    (\<exists>g' mean. timer_irqs False list_heap demo_devices 0 1000 (globals st) = Finished g' \<and>
      logs (io (ksys g')) = [(Info, MsgApic 0xFFFF8000FEC00000 0xFFFF8000FEE00000), (Info, MsgInterrupts),
        (Info, MsgSchedulers 1), (Info, MsgTimer mean)])"
proof -
  have not_False: "\<not> False" by simp
  have p: "hw demo_platform = demo_devices" "cpuid_ebx demo_platform = 0" "sysinfo (cpuid_eax demo_platform) = 1"
    "bi_physical_memory_offset demo_boot = Some 0xFFFF800000000000"
    by (simp_all add: demo_platform_def demo_boot_def sysinfo_def PHYS_MEM_OFFSET_def)
  from boot_correct [OF list_heap_spec, THEN conjunct1, rule_format, OF demo_boot_ok, of False] obtain st off where
    st: "main False demo_font demo_fmt list_heap demo_platform [79, 75, 10] demo_boot = Ret (st, Halted)"
    "Some 0xFFFF800000000000 = Some off" and
    irqs: "\<not> False \<longrightarrow> (\<forall>n. \<exists>g' mean L'. timer_irqs False list_heap demo_devices 0 n (globals st) = Finished g' \<and>
      (is_calibration (guarded (TICKS g')) \<longleftrightarrow> n < 10) \<and>
      logs (io (ksys g')) = boot_log False off 1 @ (if n < 10 then [] else [(Info, MsgTimer mean)]) \<and>
      render False demo_font demo_fmt (logger st) [(Info, MsgTimer mean)] = Done L')"
    unfolding p by (elim exE conjE)
  have off: "off = 0xFFFF800000000000" using st(2) by (simp only: option.inject)
  have "boot_log False off 1 @ (if (1000 :: nat) < 10 then [] else [(Info, MsgTimer mean)]) =
    [(Info, MsgApic 0xFFFF8000FEC00000 0xFFFF8000FEE00000), (Info, MsgInterrupts), (Info, MsgSchedulers 1), (Info, MsgTimer mean)]" for mean
    by (simp add: boot_log_def off)
  with irqs [rule_format, OF not_False, of 1000] st(1) show ?thesis by metis
qed

end
