(* ===== verification/Startup.thy ===== *)
theory Startup
  imports Boot
begin

text \<open>
  The start of the kernel (\<open>main.rs\<close>) with timer interrupts. From the instruction that enables
  interrupts on (\<open>interrupts/mod.rs\<close>), the code of \<open>main\<close> is split at the points between which an
  interrupt can see a difference: taking and releasing the lock of the timer and that of the logger,
  storing the calibrated timer, publishing the scheduler. The handler of the timer may run between
  any two points. Calibration, which runs with the lock of the timer held, is one step, since a
  handler that finds the lock held does nothing else.

  Shown: without interrupts the steps compute what \<open>main\<close> of the theory \<open>Boot\<close> computes; with
  interrupts, in a release build, the start-up code never panics and can always finish, and in every
  reachable state it is told exactly whether an interrupt returns, waits for ever, panics, or
  accesses memory that is not mapped.
\<close>

section \<open>Program points\<close>

text \<open>\<open>Logging rs p\<close> has the records \<open>rs\<close> to write before it continues at \<open>p\<close>.\<close>

datatype 'h boot_point =
    Logging "(Level \<times> msg) list" "'h boot_point"
  | LockTicks
  | Calibrate
  | UnlockTicks
  | RelockTicks
  | StoreTicks
  | SetScheduler "'h Executor PerCore"
  | InitSyscall
  | SetMsrs msrs
  | Enter
  | Halting

record 'h startup =
  point :: "'h boot_point"
  local_ticks :: Tick
  msr :: msrs
  shared :: "'h globals"

definition set_held :: "bool \<Rightarrow> 'h globals \<Rightarrow> 'h globals" where
  "set_held b g = g\<lparr>TICKS := (TICKS g)\<lparr>held := b\<rparr>\<rparr>"

definition add_io :: "io list \<Rightarrow> 'h globals \<Rightarrow> 'h globals" where
  "add_io t g = g\<lparr>ksys := (ksys g)\<lparr>io := io (ksys g) @ t\<rparr>\<rparr>"

text \<open>A lock that is held is tried again.\<close>

fun boot_step :: "bool \<Rightarrow> 'h heap_ops \<Rightarrow> platform \<Rightarrow> 'h startup \<Rightarrow> 'h boot_point \<Rightarrow> 'h startup outcome" where
  "boot_step dbg H P s (Logging [] p) = Ret (s\<lparr>point := p\<rparr>)"
| "boot_step dbg H P s (Logging ((lv, m) # rs) p) =
     (if \<not> log_held (shared s) then Ret (s\<lparr>shared := (shared s)\<lparr>log_held := True\<rparr>\<rparr>)
      else Ret (s\<lparr>shared := (add_io [Log lv m] (shared s))\<lparr>log_held := False\<rparr>, point := Logging rs p\<rparr>))"
| "boot_step dbg H P s LockTicks =
     (if held (TICKS (shared s)) then Ret s
      else Ret (s\<lparr>shared := set_held True (shared s), point := Calibrate\<rparr>))"
| "boot_step dbg H P s Calibrate =
     obind (calibrate dbg (hw P) (guarded (TICKS (shared s))) (guarded (APIC (shared s))) (io (ksys (shared s)))) (\<lambda>(tk, t).
       Ret (s\<lparr>local_ticks := tk, shared := (shared s)\<lparr>ksys := (ksys (shared s))\<lparr>io := t\<rparr>\<rparr>, point := UnlockTicks\<rparr>))"
| "boot_step dbg H P s UnlockTicks = Ret (s\<lparr>shared := set_held False (shared s), point := RelockTicks\<rparr>)"
| "boot_step dbg H P s RelockTicks =
     (if held (TICKS (shared s)) then Ret s
      else Ret (s\<lparr>shared := set_held True (shared s), point := StoreTicks\<rparr>))"
| "boot_step dbg H P s StoreTicks =
     (let (pc, t) = PerCore_new (ucast (sysinfo (cpuid_eax P))) (Executor_new H) [] in
      Ret (s\<lparr>shared := (shared s)\<lparr>TICKS := \<lparr>held = False, guarded = local_ticks s\<rparr>\<rparr>,
             point := Logging (logs t) (SetScheduler pc)\<rparr>))"
| "boot_step dbg H P s (SetScheduler pc) =
     Ret (s\<lparr>shared := (shared s)\<lparr>ksys := (ksys (shared s))\<lparr>sched := snd (OnceLock_set (sched (ksys (shared s))) pc)\<rparr>\<rparr>,
            point := Logging [(Info, MsgSchedulers (sysinfo (cpuid_eax P)))] InitSyscall\<rparr>)"
| "boot_step dbg H P s InitSyscall =
     obind (init_syscall dbg (crate P) (stub_addr P) (msr s) []) (\<lambda>(m, t).
       Ret (s\<lparr>point := Logging (logs t) (SetMsrs m)\<rparr>))"
| "boot_step dbg H P s (SetMsrs m) = Ret (s\<lparr>msr := m, point := Enter\<rparr>)"
| "boot_step dbg H P s Enter =
     obind (expect (OnceLock_get (sched (ksys (shared s))))) (\<lambda>pc.
     obind (PerCore_get_mut (cpuid_ebx P) pc) (\<lambda>ex.
     obind (run H \<lparr>tcbs = ktcbs (ksys (shared s)), scs = kscs (ksys (shared s)), exec = ex\<rparr>) (\<lambda>(c, _).
       Ret (s\<lparr>shared := (shared s)\<lparr>ksys := (ksys (shared s))\<lparr>
           sched := (sched (ksys (shared s)))\<lparr>cell := Some (PerCore_put (cpuid_ebx P) pc (exec c))\<rparr>,
           ktcbs := tcbs c, kscs := scs c\<rparr>\<rparr>, point := Halting\<rparr>))))"
| "boot_step dbg H P s Halting = Ret s"

definition main_step :: "bool \<Rightarrow> 'h heap_ops \<Rightarrow> platform \<Rightarrow> 'h startup \<Rightarrow> 'h startup outcome" where
  "main_step dbg H P s = boot_step dbg H P s (point s)"

fun main_steps :: "bool \<Rightarrow> 'h heap_ops \<Rightarrow> platform \<Rightarrow> nat \<Rightarrow> 'h startup \<Rightarrow> 'h startup outcome" where
  "main_steps dbg H P 0 s = Ret s"
| "main_steps dbg H P (Suc n) s = obind (main_step dbg H P s) (main_steps dbg H P n)"

text \<open>The kernel right after it has enabled interrupts, with the trace \<open>t\<close> of what it did so far.\<close>

definition enabled :: "platform \<Rightarrow> Apic \<Rightarrow> io_trace \<Rightarrow> 'h startup" where
  "enabled P a t = \<lparr>point = Logging [(Info, MsgInterrupts)] LockTicks, local_ticks = Tick_new, msr = msr_reset P,
     shared = \<lparr>APIC = \<lparr>held = False, guarded = a\<rparr>, TICKS = \<lparr>held = False, guarded = Tick_new\<rparr>, log_held = False,
       ksys = \<lparr>io = t, sched = OnceLock_new, ktcbs = Map.empty, kscs = Map.empty\<rparr>\<rparr>\<rparr>"

text \<open>The code goes on, or an interrupt arrives and is handled.\<close>

definition boot_irq :: "bool \<Rightarrow> 'h heap_ops \<Rightarrow> platform \<Rightarrow> 'h startup \<Rightarrow> 'h globals irq_result" where
  "boot_irq dbg H P s = timer_handler dbg H (hw P) (cpuid_ebx P) (shared s)"

inductive startup_step :: "bool \<Rightarrow> 'h heap_ops \<Rightarrow> platform \<Rightarrow> 'h startup \<Rightarrow> 'h startup \<Rightarrow> bool"
  for dbg H P where
  code: "main_step dbg H P s = Ret s' \<Longrightarrow> startup_step dbg H P s s'"
| irq: "boot_irq dbg H P s = Finished g \<Longrightarrow> startup_step dbg H P s (s\<lparr>shared := g\<rparr>)"

inductive_cases startup_stepE: "startup_step dbg H P s s'"

section \<open>The timer during the start\<close>

definition tick_ok :: "Apic \<Rightarrow> Tick \<Rightarrow> bool" where
  "tick_ok a tk \<longleftrightarrow> apic tk = a \<and> tick_duration tk = from_millis 50 \<and> length (calibration tk) = 10 \<and>
     (is_calibration tk \<longrightarrow> unat (calibration_idx tk) < 10)"

text \<open>The interrupt that ends the calibration is the only one that writes a record.\<close>

definition last_round :: "Tick \<Rightarrow> bool" where
  "last_round tk \<longleftrightarrow> is_calibration tk \<and> unat (calibration_idx tk) = 9"

lemma tick_ok_new: "tick_ok Apic_new Tick_new"
  by (simp add: tick_ok_def Tick_new_def CALIBRATION_SAMPLES_def)

lemma calibrate_tick_ok:
  assumes "tick_ok a' tk" "ioapic_mapped D a" "lapic_mapped D a"
  shows "\<exists>tk' t'. calibrate dbg D tk a t = Ret (tk', t') \<and> tick_ok a tk' \<and> is_calibration tk'"
  using assms by (simp add: calibrate_def tick_ok_def Let_def set_ioapic_eq init_counters_eq)

lemma end_calibration_round:
  assumes ok: "tick_ok a tk" "is_calibration tk" and mapped: "lapic_mapped D a"
  shows "\<exists>tk' t'. end_calibration False D tk t = Ret (tk', t') \<and> tick_ok a tk' \<and>
    (logs t' = logs t \<longleftrightarrow> \<not> last_round tk)"
proof -
  let ?i = "unat (calibration_idx tk)" and ?v = "counter D a t" and ?t1 = "after_read D a t"
  have i: "?i < 10" and tk: "apic tk = a" "tick_duration tk = from_millis 50" "length (calibration tk) = 10"
    using ok by (simp_all add: tick_ok_def)
  then have i1: "unat (calibration_idx tk + 1) = Suc ?i" by (simp add: unat_add_exact)
  define tk1 where "tk1 = tk\<lparr>calibration := (calibration tk)[?i := cycles_of (lapic_counter tk - ?v)],
    calibration_idx := calibration_idx tk + 1\<rparr>"
  have sum: "sum_u32 False 0 xs = Ret (sum_list xs)" for xs using sum_u32_eq [of False 0 xs] by simp
  have dur: "lapic_mapped D (apic tk1)" "tick_duration tk1 = from_millis 50" using tk mapped by (simp_all add: tk1_def)
  have "end_calibration False D tk t =
      (if ?i = 9 then Ret (tk1\<lparr>is_calibration := False\<rparr>, programmed a True (sum_list (calibration tk1) div 10)
         (log_record False Info (MsgTimer (sum_list (calibration tk1) div 10)) ?t1))
       else init_counters False D tk1 ?t1)"
    using i i1 tk sum
    by (simp add: end_calibration_def mapped_Ret [OF mapped] sample_50 u_sub_def CALIBRATION_SAMPLES_def tk1_def Let_def)
  then show ?thesis
    using i i1 tk ok(2) init_counters_eq [OF dur, of False ?t1]
    by (auto simp: tick_ok_def last_round_def tk1_def log_record_def)
qed

text \<open>A timer whose controller is at address 0 has all its registers in page 0.\<close>

lemma lapic_mapped_new: "lapic_mapped D Apic_new \<longleftrightarrow> mapped_page D 0"
  by (simp add: lapic_mapped_def mapped_def reg_ptr_def Apic_new_def)

lemma end_calibration_fault:
  "apic tk = Apic_new \<Longrightarrow> \<not> mapped_page D 0 \<Longrightarrow> end_calibration False D tk t = Fault"
  by (simp add: end_calibration_def read_counter_eq mapped_def reg_ptr_def Apic_new_def)

text \<open>What a timer interrupt does while the core has nothing to run.\<close>

definition unset_or_idle :: "'h heap_ops \<Rightarrow> u32 \<Rightarrow> 'h scheduler \<Rightarrow> bool" where
  "unset_or_idle H ebx sc \<longleftrightarrow>
     (case OnceLock_get sc of None \<Rightarrow> True | Some pc \<Rightarrow> PerCore_get_mut ebx pc = Ret (Executor_new H))"

lemma start_irq:
  assumes H: "heap_spec H I \<alpha>" and tk: "tick_ok a (guarded (TICKS g))" and apic: "\<not> held (APIC g)"
    and sc: "unset_or_idle H ebx (sched (ksys g))" and mapped: "lapic_mapped D (guarded (APIC g))"
    and a: "lapic_mapped D a \<or> a = Apic_new"
    and r: "r = timer_handler False H D ebx g"
  shows "held (TICKS g) \<Longrightarrow> r = Stuck"
    and "\<not> held (TICKS g) \<Longrightarrow> is_calibration (guarded (TICKS g)) \<Longrightarrow> \<not> lapic_mapped D a \<Longrightarrow> r = Undefined"
    and "\<not> held (TICKS g) \<Longrightarrow> lapic_mapped D a \<Longrightarrow> log_held g \<Longrightarrow> last_round (guarded (TICKS g)) \<Longrightarrow> r = Stuck"
    and "\<not> held (TICKS g) \<Longrightarrow> \<not> is_calibration (guarded (TICKS g)) \<Longrightarrow> OnceLock_get (sched (ksys g)) = None \<Longrightarrow>
      r = Panicking"
    and "\<not> held (TICKS g) \<Longrightarrow> \<not> (log_held g \<and> last_round (guarded (TICKS g))) \<Longrightarrow>
      (if is_calibration (guarded (TICKS g)) then lapic_mapped D a else OnceLock_get (sched (ksys g)) \<noteq> None) \<Longrightarrow>
      \<exists>tk' t'. r = Finished (g\<lparr>TICKS := \<lparr>held = False, guarded = tk'\<rparr>, ksys := (ksys g)\<lparr>io := t'\<rparr>\<rparr>) \<and> tick_ok a tk'"
proof -
  let ?tk = "guarded (TICKS g)"
  show "held (TICKS g) \<Longrightarrow> r = Stuck" by (simp add: r timer_handler_def)
  have "apic ?tk = a" using tk by (simp add: tick_ok_def)
  then show "\<not> held (TICKS g) \<Longrightarrow> is_calibration ?tk \<Longrightarrow> \<not> lapic_mapped D a \<Longrightarrow> r = Undefined"
    using a end_calibration_fault [of ?tk D] by (auto simp: r timer_handler_def tick_handler_def lapic_mapped_new)
  { assume free: "\<not> held (TICKS g)" and cal: "is_calibration ?tk" and m: "lapic_mapped D a"
    from end_calibration_round [OF tk cal m, of "io (ksys g)"] obtain tk' t' where
      e: "end_calibration False D ?tk (io (ksys g)) = Ret (tk', t')" "tick_ok a tk'"
      "logs t' = logs (io (ksys g)) \<longleftrightarrow> \<not> last_round ?tk" by blast
    then have "r = (if log_held g \<and> last_round ?tk then Stuck
        else Finished (g\<lparr>TICKS := \<lparr>held = False, guarded = tk'\<rparr>,
          ksys := (ksys g)\<lparr>io := acknowledged (guarded (APIC g)) t'\<rparr>\<rparr>))"
      using free cal apic by (simp add: r timer_handler_def tick_handler_def mapped_Ret [OF mapped] Let_def)
    with e(2) have "r = (if log_held g \<and> last_round ?tk then Stuck else r) \<and> (log_held g \<and> last_round ?tk \<or>
      (\<exists>tk' t'. r = Finished (g\<lparr>TICKS := \<lparr>held = False, guarded = tk'\<rparr>, ksys := (ksys g)\<lparr>io := t'\<rparr>\<rparr>) \<and> tick_ok a tk'))"
      by auto }
  note calibration = this
  show "\<not> held (TICKS g) \<Longrightarrow> lapic_mapped D a \<Longrightarrow> log_held g \<Longrightarrow> last_round ?tk \<Longrightarrow> r = Stuck"
    using calibration by (auto simp: last_round_def)
  show "\<not> held (TICKS g) \<Longrightarrow> \<not> is_calibration ?tk \<Longrightarrow> OnceLock_get (sched (ksys g)) = None \<Longrightarrow> r = Panicking"
    by (simp add: r timer_handler_def tick_handler_def)
  { assume free: "\<not> held (TICKS g)" and tick: "\<not> is_calibration ?tk" and set: "OnceLock_get (sched (ksys g)) \<noteq> None"
    from set sc obtain pc where pc: "OnceLock_get (sched (ksys g)) = Some pc" "PerCore_get_mut ebx pc = Ret (Executor_new H)"
      by (auto simp: unset_or_idle_def)
    then have "cell (sched (ksys g)) = Some pc" by (simp add: OnceLock_get_def split: if_splits)
    then have same: "(sched (ksys g))\<lparr>cell := Some pc\<rparr> = sched (ksys g)" by simp
    have "r = Finished (g\<lparr>TICKS := \<lparr>held = False, guarded = ?tk\<lparr>tick_count := tick_count ?tk + 1\<rparr>\<rparr>,
        ksys := (ksys g)\<lparr>io := acknowledged (guarded (APIC g)) (io (ksys g))\<rparr>\<rparr>)"
      using free tick pc apic same
      by (simp add: r timer_handler_def tick_handler_def idle_preempt [OF H] PerCore_put_same mapped_Ret [OF mapped] Let_def)
    moreover have "tick_ok a (?tk\<lparr>tick_count := tick_count ?tk + 1\<rparr>)" using tk by (simp add: tick_ok_def)
    ultimately have "\<exists>tk' t'. r = Finished (g\<lparr>TICKS := \<lparr>held = False, guarded = tk'\<rparr>, ksys := (ksys g)\<lparr>io := t'\<rparr>\<rparr>) \<and>
      tick_ok a tk'" by blast }
  then show "\<not> held (TICKS g) \<Longrightarrow> \<not> (log_held g \<and> last_round ?tk) \<Longrightarrow>
      (if is_calibration ?tk then lapic_mapped D a else OnceLock_get (sched (ksys g)) \<noteq> None) \<Longrightarrow>
      \<exists>tk' t'. r = Finished (g\<lparr>TICKS := \<lparr>held = False, guarded = tk'\<rparr>, ksys := (ksys g)\<lparr>io := t'\<rparr>\<rparr>) \<and> tick_ok a tk'"
    using calibration by (auto split: if_splits)
qed

section \<open>Invariant of the start\<close>

fun holds_ticks :: "'h boot_point \<Rightarrow> bool" where
  "holds_ticks Calibrate \<longleftrightarrow> True"
| "holds_ticks UnlockTicks \<longleftrightarrow> True"
| "holds_ticks StoreTicks \<longleftrightarrow> True"
| "holds_ticks _ \<longleftrightarrow> False"

text \<open>Whether the calibrated timer has been stored, and whether the scheduler has been published.\<close>

fun ticks_stored :: "'h boot_point \<Rightarrow> bool" where
  "ticks_stored (Logging rs p) \<longleftrightarrow> ticks_stored p"
| "ticks_stored p \<longleftrightarrow> \<not> holds_ticks p \<and> p \<noteq> LockTicks \<and> p \<noteq> RelockTicks"

fun scheduler_set :: "'h boot_point \<Rightarrow> bool" where
  "scheduler_set (Logging rs p) \<longleftrightarrow> scheduler_set p"
| "scheduler_set p \<longleftrightarrow> p = InitSyscall \<or> p = Enter \<or> p = Halting \<or> (\<exists>m. p = SetMsrs m)"

definition boot_cores :: "'h heap_ops \<Rightarrow> platform \<Rightarrow> 'h Executor PerCore" where
  "boot_cores H P = fresh_cores (ucast (sysinfo (cpuid_eax P))) (Executor_new H)"

definition boot_msrs :: "platform \<Rightarrow> msrs" where
  "boot_msrs P = (msr_reset P)\<lparr>STAR := 0x001B000800000000, LSTAR := stub_addr P, SFMASK := 0x600,
     EFER := EFER (msr_reset P) OR 1 OR 0x100 OR 0x400\<rparr>"

text \<open>The points that the code reaches, with the values it carries there.\<close>

fun point_ok :: "'h heap_ops \<Rightarrow> platform \<Rightarrow> Apic \<Rightarrow> 'h startup \<Rightarrow> 'h boot_point \<Rightarrow> bool" where
  "point_ok H P a s (Logging rs p) \<longleftrightarrow> p \<in> {LockTicks, SetScheduler (boot_cores H P), InitSyscall, SetMsrs (boot_msrs P)} \<and>
     point_ok H P a s p"
| "point_ok H P a s (SetScheduler pc) \<longleftrightarrow> pc = boot_cores H P \<and> msr s = msr_reset P"
| "point_ok H P a s (SetMsrs m) \<longleftrightarrow> m = boot_msrs P"
| "point_ok H P a s Enter \<longleftrightarrow> msr s = boot_msrs P"
| "point_ok H P a s Halting \<longleftrightarrow> msr s = boot_msrs P"
| "point_ok H P a s UnlockTicks \<longleftrightarrow> tick_ok a (local_ticks s) \<and> msr s = msr_reset P"
| "point_ok H P a s RelockTicks \<longleftrightarrow> tick_ok a (local_ticks s) \<and> msr s = msr_reset P"
| "point_ok H P a s StoreTicks \<longleftrightarrow> tick_ok a (local_ticks s) \<and> msr s = msr_reset P"
| "point_ok H P a s _ \<longleftrightarrow> msr s = msr_reset P"

definition boot_sched :: "'h heap_ops \<Rightarrow> platform \<Rightarrow> 'h scheduler" where
  "boot_sched H P = \<lparr>once = INITIALIZED, cell = Some (boot_cores H P)\<rparr>"

definition shared_ok :: "'h heap_ops \<Rightarrow> platform \<Rightarrow> Apic \<Rightarrow> 'h boot_point \<Rightarrow> 'h globals \<Rightarrow> bool" where
  "shared_ok H P a p g \<longleftrightarrow> APIC g = \<lparr>held = False, guarded = a\<rparr> \<and> ktcbs (ksys g) = Map.empty \<and> kscs (ksys g) = Map.empty \<and>
     (held (TICKS g) \<longleftrightarrow> holds_ticks p) \<and> tick_ok (if ticks_stored p then a else Apic_new) (guarded (TICKS g)) \<and>
     sched (ksys g) = (if scheduler_set p then boot_sched H P else OnceLock_new) \<and>
     (log_held g \<longrightarrow> (\<exists>r rs q. p = Logging (r # rs) q))"

definition startup_inv :: "'h heap_ops \<Rightarrow> platform \<Rightarrow> Apic \<Rightarrow> 'h startup \<Rightarrow> bool" where
  "startup_inv H P a s \<longleftrightarrow> shared_ok H P a (point s) (shared s) \<and> point_ok H P a s (point s)"

lemma enabled_inv: "startup_inv H P a (enabled P a t)"
  by (simp add: startup_inv_def shared_ok_def enabled_def tick_ok_new)

text \<open>The platform the start relies on: the part of \<open>boot_ok\<close> that concerns it.\<close>

definition platform_ok :: "platform \<Rightarrow> Apic \<Rightarrow> bool" where
  "platform_ok P a \<longleftrightarrow> ioapic_mapped (hw P) a \<and> lapic_mapped (hw P) a \<and> x86_crate_ok (crate P) \<and> canonical_addr (stub_addr P) \<and>
     unat (cpuid (cpuid_ebx P)) < min (unat (sysinfo (cpuid_eax P))) 16"

lemma boot_platform:
  assumes "boot_ok F fmt P text b" "bi_physical_memory_offset b = Some off"
  shows "platform_ok P \<lparr>io_apic_addr = 0xFEC00000 + off, lapic_addr = 0xFEE00000 + off\<rparr>"
  using assms by (auto simp: boot_ok_def platform_ok_def controllers_mapped_def Let_def)

lemma boot_core:
  "platform_ok P a \<Longrightarrow> PerCore_get_mut (cpuid_ebx P) (boot_cores H P) = Ret (Executor_new H)"
  by (simp add: boot_cores_def new_core platform_ok_def)

lemma boot_sched_get [simp]: "OnceLock_get (boot_sched H P) = Some (boot_cores H P)" "OnceLock_get OnceLock_new = None"
  by (simp_all add: boot_sched_def OnceLock_get_def OnceLock_new_def once_consts)

lemma unset_or_idle_start:
  "platform_ok P a \<Longrightarrow> shared_ok H P a p g \<Longrightarrow> unset_or_idle H (cpuid_ebx P) (sched (ksys g))"
  by (auto simp: unset_or_idle_def shared_ok_def boot_core)

lemma start_mapped:
  "platform_ok P a \<Longrightarrow> shared_ok H P a p g \<Longrightarrow> lapic_mapped (hw P) (guarded (APIC g))"
  "platform_ok P a \<Longrightarrow> lapic_mapped (hw P) (if b then a else Apic_new) \<or> (if b then a else Apic_new) = Apic_new"
  by (auto simp: platform_ok_def shared_ok_def)

text \<open>An interrupt that returns keeps the invariant.\<close>

lemma irq_keeps:
  assumes H: "heap_spec H I \<alpha>" and P: "platform_ok P a" and inv: "startup_inv H P a s"
    and irq: "boot_irq False H P s = Finished g"
  shows "startup_inv H P a (s\<lparr>shared := g\<rparr>)"
proof -
  let ?g = "shared s" and ?ap = "if ticks_stored (point s) then a else Apic_new"
  from inv have sh: "shared_ok H P a (point s) ?g" by (simp add: startup_inv_def)
  then have tk: "tick_ok ?ap (guarded (TICKS ?g))" and apic: "\<not> held (APIC ?g)" by (simp_all add: shared_ok_def)
  note c = start_irq [OF H tk apic unset_or_idle_start [OF P sh] start_mapped(1) [OF P sh] start_mapped(2) [OF P]
      irq [symmetric, unfolded boot_irq_def]]
  have free: "\<not> held (TICKS ?g)" using c(1) by blast
  have cal: "is_calibration (guarded (TICKS ?g)) \<Longrightarrow> lapic_mapped (hw P) ?ap" using c(2) free by blast
  have "\<not> (log_held ?g \<and> last_round (guarded (TICKS ?g)))" using c(3) free cal by (auto simp: last_round_def)
  moreover have "if is_calibration (guarded (TICKS ?g)) then lapic_mapped (hw P) ?ap else OnceLock_get (sched (ksys ?g)) \<noteq> None"
    using c(4) free cal by (cases "is_calibration (guarded (TICKS ?g))") auto
  ultimately have "\<exists>tk' t'. Finished g = Finished (?g\<lparr>TICKS := \<lparr>held = False, guarded = tk'\<rparr>, ksys := (ksys ?g)\<lparr>io := t'\<rparr>\<rparr>) \<and>
      tick_ok ?ap tk'" by (rule c(5) [OF free])
  then obtain tk' t' where
    g: "g = ?g\<lparr>TICKS := \<lparr>held = False, guarded = tk'\<rparr>, ksys := (ksys ?g)\<lparr>io := t'\<rparr>\<rparr>" "tick_ok ?ap tk'" by auto
  have "shared_ok H P a (point s) g"
    using sh g free by (auto simp: shared_ok_def)
  moreover have "point_ok H P a (s\<lparr>shared := g\<rparr>) p = point_ok H P a s p" for p
    by (induction p) simp_all
  ultimately show ?thesis using inv by (simp add: startup_inv_def)
qed

text \<open>How many steps the code still has to take.\<close>

fun steps_left :: "platform \<Rightarrow> bool \<Rightarrow> 'h boot_point \<Rightarrow> nat" where
  "steps_left P b (Logging rs p) = 2 * length rs + 1 - (if b then 1 else 0) + steps_left P False p"
| "steps_left P b Halting = 0"
| "steps_left P b Enter = 1"
| "steps_left P b (SetMsrs m) = 2"
| "steps_left P b InitSyscall = 6"
| "steps_left P b (SetScheduler pc) = 10"
| "steps_left P b StoreTicks = 12 + 2 * unat (sysinfo (cpuid_eax P))"
| "steps_left P b RelockTicks = 13 + 2 * unat (sysinfo (cpuid_eax P))"
| "steps_left P b UnlockTicks = 14 + 2 * unat (sysinfo (cpuid_eax P))"
| "steps_left P b Calibrate = 15 + 2 * unat (sysinfo (cpuid_eax P))"
| "steps_left P b LockTicks = 16 + 2 * unat (sysinfo (cpuid_eax P))"

definition left_of :: "platform \<Rightarrow> 'h startup \<Rightarrow> nat" where
  "left_of P s = steps_left P (log_held (shared s)) (point s)"

lemma point_ok_frame [simp]:
  "point_ok H P a (s\<lparr>shared := g\<rparr>) p = point_ok H P a s p"
  "point_ok H P a (s\<lparr>point := q\<rparr>) p = point_ok H P a s p"
  by (induction p) simp_all

lemmas start_simps = main_step_def startup_inv_def shared_ok_def left_of_def set_held_def add_io_def

lemma log_keeps:
  assumes inv: "startup_inv H P a s" and p: "point s = Logging rs p"
  shows "\<exists>s'. main_step False H P s = Ret s' \<and> startup_inv H P a s' \<and> left_of P s' < left_of P s"
proof (cases rs)
  case Nil
  with p inv show ?thesis by (auto simp: start_simps)
next
  case (Cons r rs')
  obtain lv m where r: "r = (lv, m)" by (cases r)
  show ?thesis
    using inv p Cons r by (cases "log_held (shared s)") (auto simp: start_simps)
qed

lemma calibrate_keeps:
  assumes P: "platform_ok P a" and inv: "startup_inv H P a s" and p: "point s = Calibrate"
  shows "\<exists>s'. main_step False H P s = Ret s' \<and> startup_inv H P a s' \<and> left_of P s' < left_of P s"
proof -
  from inv p have "tick_ok Apic_new (guarded (TICKS (shared s)))" by (simp add: startup_inv_def shared_ok_def)
  from calibrate_tick_ok [OF this, of "hw P" a False "io (ksys (shared s))"] P obtain tk t where
    "calibrate False (hw P) (guarded (TICKS (shared s))) a (io (ksys (shared s))) = Ret (tk, t)" "tick_ok a tk" by (auto simp: platform_ok_def)
  with inv p show ?thesis by (auto simp: start_simps)
qed

lemma enter_keeps:
  assumes H: "heap_spec H I \<alpha>" and P: "platform_ok P a" and inv: "startup_inv H P a s" and p: "point s = Enter"
  shows "\<exists>s'. main_step False H P s = Ret s' \<and> startup_inv H P a s' \<and> left_of P s' < left_of P s"
proof -
  have "run H \<lparr>tcbs = Map.empty, scs = Map.empty, exec = Executor_new H\<rparr> =
      Ret (\<lparr>tcbs = Map.empty, scs = Map.empty, exec = Executor_new H\<rparr>, Halted)"
    using new_pop [OF H] by (simp add: run_def schedule_def Executor_new_def)
  moreover have "(boot_sched H P)\<lparr>cell := Some (boot_cores H P)\<rparr> = boot_sched H P" by (simp add: boot_sched_def)
  ultimately show ?thesis
    using inv p boot_core [OF P, of H] PerCore_put_same [OF boot_core [OF P, of H]]
    by (auto simp: start_simps)
qed

lemma init_keeps:
  assumes P: "platform_ok P a" and inv: "startup_inv H P a s"
  shows "point s = StoreTicks \<Longrightarrow>
      \<exists>s'. main_step False H P s = Ret s' \<and> startup_inv H P a s' \<and> left_of P s' < left_of P s"
    and "point s = InitSyscall \<Longrightarrow>
      \<exists>s'. main_step False H P s = Ret s' \<and> startup_inv H P a s' \<and> left_of P s' < left_of P s"
    and "point s = SetScheduler pc \<Longrightarrow>
      \<exists>s'. main_step False H P s = Ret s' \<and> startup_inv H P a s' \<and> left_of P s' < left_of P s"
proof -
  have crate: "x86_crate_ok (crate P)" "canonical_addr (stub_addr P)" using P by (simp_all add: platform_ok_def)
  note [simp] = start_simps
  show "\<exists>s'. main_step False H P s = Ret s' \<and> startup_inv H P a s' \<and> left_of P s' < left_of P s" if p: "point s = StoreTicks"
    using inv p by (auto simp: PerCore_new_eq ucast_sysinfo logs_warnings simp flip: boot_cores_def)
  show "\<exists>s'. main_step False H P s = Ret s' \<and> startup_inv H P a s' \<and> left_of P s' < left_of P s" if p: "point s = InitSyscall"
    using inv p by (auto simp: init_syscall_Ret [OF crate] boot_msrs_def log_record_def)
  show "\<exists>s'. main_step False H P s = Ret s' \<and> startup_inv H P a s' \<and> left_of P s' < left_of P s" if p: "point s = SetScheduler pc"
    using inv p by (auto simp: OnceLock_set_def OnceLock_new_def boot_sched_def)
qed

lemma code_keeps:
  assumes H: "heap_spec H I \<alpha>" and P: "platform_ok P a" and inv: "startup_inv H P a s"
  shows "\<exists>s'. main_step False H P s = Ret s' \<and> startup_inv H P a s' \<and>
    (point s = Halting \<or> left_of P s' < left_of P s)"
proof (cases "point s")
  case (Logging rs p)
  with log_keeps [OF inv] show ?thesis by blast
next
  case Calibrate
  with calibrate_keeps [OF P inv] show ?thesis by blast
next
  case StoreTicks
  with init_keeps(1) [OF P inv] show ?thesis by blast
next
  case InitSyscall
  with init_keeps(2) [OF P inv] show ?thesis by blast
next
  case (SetScheduler pc)
  with init_keeps(3) [OF P inv] show ?thesis by blast
next
  case Enter
  with enter_keeps [OF H P inv] show ?thesis by blast
qed (use inv in \<open>auto simp: start_simps\<close>)

text \<open>From every state of the start the code alone reaches its end.\<close>

lemma code_finishes:
  assumes H: "heap_spec H I \<alpha>" and P: "platform_ok P a"
  shows "startup_inv H P a s \<Longrightarrow>
    \<exists>n s'. main_steps False H P n s = Ret s' \<and> point s' = Halting \<and> startup_inv H P a s'"
proof (induction "left_of P s" arbitrary: s rule: less_induct)
  case less
  show ?case
  proof (cases "point s = Halting")
    case True
    then show ?thesis using less.prems by (intro exI [of _ 0] exI [of _ s]) simp
  next
    case False
    with code_keeps [OF H P less.prems] obtain s1 where
      s1: "main_step False H P s = Ret s1" "startup_inv H P a s1" "left_of P s1 < left_of P s" by blast
    from less.hyps [OF s1(3,2)] obtain n s' where
      "main_steps False H P n s1 = Ret s'" "point s' = Halting" "startup_inv H P a s'" by blast
    with s1(1) show ?thesis by (intro exI [of _ "Suc n"] exI [of _ s']) simp
  qed
qed

lemma startup_reach:
  assumes H: "heap_spec H I \<alpha>" and P: "platform_ok P a" and reach: "(startup_step False H P)\<^sup>*\<^sup>* (enabled P a t) s"
  shows "startup_inv H P a s"
  using reach
proof (induction rule: rtranclp_induct)
  case base
  show ?case by (rule enabled_inv)
next
  case (step s s')
  from step.hyps(2) consider "main_step False H P s = Ret s'"
    | g where "boot_irq False H P s = Finished g" "s' = s\<lparr>shared := g\<rparr>"
    by (rule startup_stepE) blast+
  then show ?case
  proof cases
    case 1
    with code_keeps [OF H P step.IH] show ?thesis by auto
  next
    case 2
    with irq_keeps [OF H P step.IH] show ?thesis by simp
  qed
qed

section \<open>The start without interrupts\<close>

definition runs_to :: "bool \<Rightarrow> 'h heap_ops \<Rightarrow> platform \<Rightarrow> 'h startup \<Rightarrow> 'h startup \<Rightarrow> bool" where
  "runs_to dbg H P s s' \<longleftrightarrow> (\<exists>n. main_steps dbg H P n s = Ret s')"

lemma runs_to_refl: "runs_to dbg H P s s"
  unfolding runs_to_def by (rule exI [of _ 0]) simp

lemma runs_to_step: "main_step dbg H P s = Ret s1 \<Longrightarrow> runs_to dbg H P s1 s' \<Longrightarrow> runs_to dbg H P s s'"
  unfolding runs_to_def
proof (elim exE)
  fix n assume "main_step dbg H P s = Ret s1" "main_steps dbg H P n s1 = Ret s'"
  then show "\<exists>n. main_steps dbg H P n s = Ret s'" by (intro exI [of _ "Suc n"]) simp
qed

text \<open>Writing records without an interrupt in between.\<close>

definition log_entries :: "(Level \<times> msg) list \<Rightarrow> io_trace" where
  "log_entries rs = map (\<lambda>(lv, m). Log lv m) rs"

lemma runs_to_logged:
  assumes "\<not> log_held (shared s)" "point s = Logging rs p"
    and "runs_to dbg H P (s\<lparr>point := p, shared := add_io (log_entries rs) (shared s)\<rparr>) s'"
  shows "runs_to dbg H P s s'"
  using assms
proof (induction rs arbitrary: s)
  case Nil
  then have "s\<lparr>point := p, shared := add_io (log_entries []) (shared s)\<rparr> = s\<lparr>point := p\<rparr>"
    by (simp add: add_io_def log_entries_def)
  with Nil show ?case by (intro runs_to_step [of dbg H P s "s\<lparr>point := p\<rparr>"]) (simp_all add: main_step_def)
next
  case (Cons r rs)
  obtain lv m where r: "r = (lv, m)" by (cases r)
  let ?s1 = "s\<lparr>shared := (shared s)\<lparr>log_held := True\<rparr>\<rparr>"
  let ?s2 = "s\<lparr>shared := add_io [Log lv m] (shared s), point := Logging rs p\<rparr>"
  have "(add_io [Log lv m] ((shared s)\<lparr>log_held := True\<rparr>))\<lparr>log_held := False\<rparr> = add_io [Log lv m] (shared s)"
    using Cons.prems(1) by (simp add: add_io_def)
  then have steps: "main_step dbg H P s = Ret ?s1" "main_step dbg H P ?s1 = Ret ?s2"
    using Cons.prems(1,2) r by (simp_all add: main_step_def)
  have "?s2\<lparr>point := p, shared := add_io (log_entries rs) (shared ?s2)\<rparr> =
      s\<lparr>point := p, shared := add_io (log_entries (r # rs)) (shared s)\<rparr>"
    by (simp add: add_io_def log_entries_def r)
  with Cons.prems(3) have rest: "runs_to dbg H P (?s2\<lparr>point := p, shared := add_io (log_entries rs) (shared ?s2)\<rparr>) s'"
    by (simp only:)
  have "\<not> log_held (shared ?s2)" "point ?s2 = Logging rs p" using Cons.prems(1) by (simp_all add: add_io_def)
  from Cons.IH [OF this rest] have "runs_to dbg H P ?s2 s'" .
  from runs_to_step [OF steps(2) this] show ?case by (rule runs_to_step [OF steps(1)])
qed

lemma log_record_append: "log_record dbg lv m t = t @ log_entries (logs (log_record dbg lv m []))"
  by (simp add: log_record_def log_entries_def)

definition start_at ::
    "Apic \<Rightarrow> 'h boot_point \<Rightarrow> Tick \<Rightarrow> msrs \<Rightarrow> Tick spinlock \<Rightarrow> io_trace \<Rightarrow> 'h scheduler \<Rightarrow> 'h startup" where
  "start_at a p tk m lk t sc = \<lparr>point = p, local_ticks = tk, msr = m,
     shared = \<lparr>APIC = \<lparr>held = False, guarded = a\<rparr>, TICKS = lk, log_held = False,
       ksys = \<lparr>io = t, sched = sc, ktcbs = Map.empty, kscs = Map.empty\<rparr>\<rparr>\<rparr>"

lemma start_at_logged:
  "runs_to dbg H P (start_at a p tk m lk (t @ log_entries rs) sc) s' \<Longrightarrow>
    runs_to dbg H P (start_at a (Logging rs p) tk m lk t sc) s'"
  by (rule runs_to_logged [where p = p and rs = rs]) (simp_all add: start_at_def add_io_def)

lemma init_syscall_logs:
  assumes "init_syscall dbg X stub m t = Ret (m', t')"
  shows "\<exists>t0. init_syscall dbg X stub m [] = Ret (m', t0) \<and> t' = t @ log_entries (logs t0)"
  using assms log_record_append [of dbg Debug _ t]
  by (auto simp: init_syscall_def obind_Ret_iff Let_def)

lemma warnings_logs: "log_entries (logs (map (\<lambda>i. Log Warn (MsgCoreBounds i)) xs)) = map (\<lambda>i. Log Warn (MsgCoreBounds i)) xs"
  by (simp add: logs_warnings log_entries_def comp_def)

lemma enabled_start_at:
  "enabled P a t = start_at a (Logging [(Info, MsgInterrupts)] LockTicks) Tick_new (msr_reset P)
     \<lparr>held = False, guarded = Tick_new\<rparr> t OnceLock_new"
  by (simp add: enabled_def start_at_def)

lemma ticks_runs:
  assumes cal: "calibrate dbg (hw P) Tick_new a (t @ [Log Info MsgInterrupts]) = Ret (tk, t3)"
    and rest: "runs_to dbg H P (start_at a StoreTicks tk (msr_reset P) \<lparr>held = True, guarded = Tick_new\<rparr> t3 OnceLock_new) s'"
  shows "runs_to dbg H P (enabled P a t) s'"
proof -
  let ?m0 = "msr_reset P" and ?new = "\<lparr>held = False, guarded = Tick_new\<rparr>" and ?lk = "\<lparr>held = True, guarded = Tick_new\<rparr>"
  let ?t2 = "t @ [Log Info MsgInterrupts]"
  have steps:
    "main_step dbg H P (start_at a LockTicks Tick_new ?m0 ?new ?t2 OnceLock_new) =
      Ret (start_at a Calibrate Tick_new ?m0 ?lk ?t2 OnceLock_new)"
    "main_step dbg H P (start_at a Calibrate Tick_new ?m0 ?lk ?t2 OnceLock_new) =
      Ret (start_at a UnlockTicks tk ?m0 ?lk t3 OnceLock_new)"
    "main_step dbg H P (start_at a UnlockTicks tk ?m0 ?lk t3 OnceLock_new) =
      Ret (start_at a RelockTicks tk ?m0 ?new t3 OnceLock_new)"
    "main_step dbg H P (start_at a RelockTicks tk ?m0 ?new t3 OnceLock_new) =
      Ret (start_at a StoreTicks tk ?m0 ?lk t3 OnceLock_new)"
    using cal by (simp_all add: main_step_def start_at_def set_held_def)
  have "runs_to dbg H P (start_at a LockTicks Tick_new ?m0 ?new ?t2 OnceLock_new) s'"
    by (intro runs_to_step [OF steps(1)] runs_to_step [OF steps(2)] runs_to_step [OF steps(3)] runs_to_step [OF steps(4)] rest)
  then show ?thesis
    unfolding enabled_start_at by (intro start_at_logged) (simp add: log_entries_def)
qed

lemma init_runs:
  assumes sch: "init_scheduler H (cpuid_eax P) OnceLock_new t3 = (sc, t4)"
    and sys: "init_syscall dbg (crate P) (stub_addr P) m0 t4 = Ret (m, t5)"
    and rest: "runs_to dbg H P (start_at a Enter tk m \<lparr>held = False, guarded = tk\<rparr> t5 sc) s'"
  shows "runs_to dbg H P (start_at a StoreTicks tk m0 \<lparr>held = True, guarded = tk0\<rparr> t3 OnceLock_new) s'"
proof -
  let ?n = "sysinfo (cpuid_eax P)" and ?free = "\<lparr>held = False, guarded = tk\<rparr>"
  let ?cores = "fresh_cores (ucast ?n) (Executor_new H)" and ?ws = "map (\<lambda>i. Log Warn (MsgCoreBounds i)) [16..<unat ?n]"
  have sc: "sc = \<lparr>once = INITIALIZED, cell = Some ?cores\<rparr>" "t4 = (t3 @ ?ws) @ log_entries [(Info, MsgSchedulers ?n)]"
    using sch by (simp_all add: init_scheduler_new log_entries_def)
  from init_syscall_logs [OF sys] obtain t0 where
    t0: "init_syscall dbg (crate P) (stub_addr P) m0 [] = Ret (m, t0)" "t5 = t4 @ log_entries (logs t0)" by blast
  have steps:
    "main_step dbg H P (start_at a StoreTicks tk m0 \<lparr>held = True, guarded = tk0\<rparr> t3 OnceLock_new) =
      Ret (start_at a (Logging (logs ?ws) (SetScheduler ?cores)) tk m0 ?free t3 OnceLock_new)"
    "main_step dbg H P (start_at a (SetScheduler ?cores) tk m0 ?free (t3 @ ?ws) OnceLock_new) =
      Ret (start_at a (Logging [(Info, MsgSchedulers ?n)] InitSyscall) tk m0 ?free (t3 @ ?ws) sc)"
    "main_step dbg H P (start_at a InitSyscall tk m0 ?free t4 sc) =
      Ret (start_at a (Logging (logs t0) (SetMsrs m)) tk m0 ?free t4 sc)"
    "main_step dbg H P (start_at a (SetMsrs m) tk m0 ?free t5 sc) = Ret (start_at a Enter tk m ?free t5 sc)"
    using t0(1) by (simp_all add: main_step_def start_at_def PerCore_new_eq ucast_sysinfo OnceLock_set_def OnceLock_new_def sc(1))
  from runs_to_step [OF steps(4) rest] have "runs_to dbg H P (start_at a (Logging (logs t0) (SetMsrs m)) tk m0 ?free t4 sc) s'"
    unfolding t0(2) by (rule start_at_logged)
  from runs_to_step [OF steps(3) this]
  have "runs_to dbg H P (start_at a (Logging [(Info, MsgSchedulers ?n)] InitSyscall) tk m0 ?free (t3 @ ?ws) sc) s'"
    unfolding sc(2) by (rule start_at_logged)
  from runs_to_step [OF steps(2) this]
  have "runs_to dbg H P (start_at a (Logging (logs ?ws) (SetScheduler ?cores)) tk m0 ?free t3 OnceLock_new) s'"
    by (intro start_at_logged) (simp only: warnings_logs)
  from runs_to_step [OF steps(1) this] show ?thesis .
qed

lemma drawn_iff:
  "(case r of Done L \<Rightarrow> Ret (f L) | _ \<Rightarrow> Panic) = Ret x \<longleftrightarrow> (\<exists>L. r = Done L \<and> x = f L)"
  by (cases r) auto

text \<open>
  The steps of the start-up refine \<open>main\<close>: whenever \<open>main\<close> starts the kernel, in either
  build profile, then the steps, taken without an interrupt from the state in which interrupts are
  enabled, end in the idle loop with the same global state and the same processor registers.
\<close>

lemma startup_refines_main:
  assumes "main dbg F fmt H P text b = Ret (st, ctl)"
  shows "\<exists>a t n s off rsdp. Option.bind (bi_physical_memory_offset b) (virt_new (crate P)) = Some off \<and>
    bi_rsdp_addr b = Some rsdp \<and> Apic_init dbg (crate P) (hw P) Apic_new rsdp off [] = Ret (a, t) \<and>
    main_steps dbg H P n (enabled P a t) = Ret s \<and> point s = Halting \<and> shared s = globals st \<and> msr s = msr_state st"
proof -
  from assms obtain fb i where fb: "bi_framebuffer b = Some (fb, i)"
    by (auto simp: main_def obind_Ret_iff expect_Ret_iff)
  with assms obtain L0 lv0 where con: "console_init dbg F None fb i text = Done (L0, lv0)"
    by (cases "console_init dbg F None fb i text") (auto simp: main_def)
  from assms fb con obtain off0 off rsdp a t irq t2 tk t3 sc t4 m t5 pc ex c L lv where
    b: "bi_physical_memory_offset b = Some off0" "virt_new (crate P) off0 = Some off" "bi_rsdp_addr b = Some rsdp"
    and init: "Apic_init dbg (crate P) (hw P) Apic_new rsdp off [] = Ret (a, t)"
      "interrupts_load (crate P) (static_stacks P) t = Ret (irq, t2)"
      "calibrate dbg (hw P) Tick_new a t2 = Ret (tk, t3)"
      "init_scheduler H (cpuid_eax P) OnceLock_new t3 = (sc, t4)"
      "init_syscall dbg (crate P) (stub_addr P) (msr_reset P) t4 = Ret (m, t5)"
    and core: "OnceLock_get sc = Some pc" "PerCore_get_mut (cpuid_ebx P) pc = Ret ex"
      "run H \<lparr>tcbs = Map.empty, scs = Map.empty, exec = ex\<rparr> = Ret (c, ctl)"
    and st: "st = \<lparr>logger = L, level = lv, irq_state = irq, msr_state = m,
      globals = \<lparr>APIC = \<lparr>held = False, guarded = a\<rparr>, TICKS = \<lparr>held = False, guarded = tk\<rparr>, log_held = False,
        ksys = \<lparr>io = t5, sched = sc\<lparr>cell := Some (PerCore_put (cpuid_ebx P) pc (exec c))\<rparr>, ktcbs = tcbs c, kscs = scs c\<rparr>\<rparr>\<rparr>"
    by (auto simp: main_def obind_Ret_iff expect_Ret_iff Let_def init_scheduler_new drawn_iff)
  let ?lk = "\<lparr>held = False, guarded = tk\<rparr>"
  let ?s = "\<lparr>point = Halting, local_ticks = tk, msr = m, shared = globals st\<rparr>"
  have t2: "t2 = t @ [Log Info MsgInterrupts]" using init(2) by (auto simp: interrupts_load_def obind_Ret_iff)
  have "main_step dbg H P (start_at a Enter tk m ?lk t5 sc) = Ret ?s"
    using core by (simp add: main_step_def start_at_def st)
  from runs_to_step [OF this runs_to_refl] have "runs_to dbg H P (enabled P a t) ?s"
    by (intro ticks_runs [OF init(3) [unfolded t2]] init_runs [OF init(4,5)])
  then obtain n where "main_steps dbg H P n (enabled P a t) = Ret ?s" by (auto simp: runs_to_def)
  with b init(1) st show ?thesis by (intro exI [of _ a] exI [of _ t] exI [of _ n] exI [of _ ?s]) simp
qed

section \<open>Properties\<close>

text \<open>
  Claim C12. Timer interrupts at any moment of the start, in a release build and with both interrupt
  controllers mapped. In every state that the start-up code reaches with any number of interrupts in
  between, the code can go on to its end, the idle loop, without a panic. What an interrupt does there
  is exactly this. While \<open>main\<close> holds the lock of the timer, in the statement that calibrates
  it or the one that stores it, the handler waits for that lock for ever. Otherwise, until the
  calibrated timer is stored, the handler works on one whose controller is at address 0; unless page
  0 is mapped, its first access is a page fault. Otherwise the interrupt that ends the calibration
  waits for ever when it hits code that is writing a log record. Otherwise, once the calibration has
  ended, an interrupt before the scheduler is published panics. In all other cases it returns.
\<close>

theorem startup_interrupts:
  assumes H: "heap_spec H I \<alpha>" and P: "platform_ok P a" and reach: "(startup_step False H P)\<^sup>*\<^sup>* (enabled P a t) s"
  shows "(\<exists>n s'. main_steps False H P n s = Ret s' \<and> point s' = Halting \<and> idle_core H (cpuid_ebx P) (shared s')) \<and>
    (held (TICKS (shared s)) \<longleftrightarrow> point s \<in> {Calibrate, UnlockTicks, StoreTicks}) \<and>
    apic (guarded (TICKS (shared s))) = (if ticks_stored (point s) then a else Apic_new) \<and>
    (if held (TICKS (shared s)) then boot_irq False H P s = Stuck
     else if is_calibration (guarded (TICKS (shared s))) \<and> \<not> ticks_stored (point s) \<and> \<not> mapped_page (hw P) 0
     then boot_irq False H P s = Undefined
     else if log_held (shared s) \<and> last_round (guarded (TICKS (shared s))) then boot_irq False H P s = Stuck
     else if \<not> is_calibration (guarded (TICKS (shared s))) \<and> \<not> scheduler_set (point s) then boot_irq False H P s = Panicking
     else \<exists>g. boot_irq False H P s = Finished g)"
proof -
  let ?g = "shared s" and ?tk = "guarded (TICKS (shared s))" and ?ap = "if ticks_stored (point s) then a else Apic_new"
  have inv: "startup_inv H P a s" by (rule startup_reach [OF H P reach])
  then have sh: "shared_ok H P a (point s) ?g" by (simp add: startup_inv_def)
  note d = sh [unfolded shared_ok_def]
  have tk: "tick_ok ?ap ?tk" and apic: "\<not> held (APIC ?g)" using d by simp_all
  have set: "OnceLock_get (sched (ksys ?g)) = None \<longleftrightarrow> \<not> scheduler_set (point s)" using d by simp
  have mapped: "lapic_mapped (hw P) ?ap \<longleftrightarrow> ticks_stored (point s) \<or> mapped_page (hw P) 0"
    using P by (simp add: platform_ok_def lapic_mapped_new)
  note c = start_irq [OF H tk apic unset_or_idle_start [OF P sh] start_mapped(1) [OF P sh] start_mapped(2) [OF P],
      of "boot_irq False H P s", unfolded boot_irq_def, OF refl, folded boot_irq_def, unfolded set mapped not_not]
  have "\<exists>n s'. main_steps False H P n s = Ret s' \<and> point s' = Halting \<and> idle_core H (cpuid_ebx P) (shared s')"
  proof -
    from code_finishes [OF H P inv] obtain n s' where
      s': "main_steps False H P n s = Ret s'" "point s' = Halting" "startup_inv H P a s'" by blast
    then have "idle_core H (cpuid_ebx P) (shared s')"
      by (simp add: startup_inv_def shared_ok_def idle_core_def boot_core [OF P])
    with s' show ?thesis by blast
  qed
  moreover have "held (TICKS ?g) \<longleftrightarrow> point s \<in> {Calibrate, UnlockTicks, StoreTicks}"
    using d by (cases "point s") simp_all
  moreover have "apic ?tk = ?ap" using tk by (simp add: tick_ok_def)
  moreover have "\<not> held (TICKS ?g) \<Longrightarrow> \<not> (log_held ?g \<and> last_round ?tk) \<Longrightarrow>
      (if is_calibration ?tk then ticks_stored (point s) \<or> mapped_page (hw P) 0 else scheduler_set (point s)) \<Longrightarrow>
      \<exists>g. boot_irq False H P s = Finished g"
    using c(5) by blast
  moreover have "last_round ?tk \<longrightarrow> is_calibration ?tk" by (simp add: last_round_def)
  ultimately show ?thesis using c(1-4) by (auto split: if_splits)
qed

text \<open>Where the exceptions are reached: storing the timer, and ten interrupts right after it.\<close>

lemma main_steps_reach: "main_steps dbg H P n s = Ret s' \<Longrightarrow> (startup_step dbg H P)\<^sup>*\<^sup>* s s'"
proof (induction n arbitrary: s)
  case (Suc n)
  then obtain s1 where "main_step dbg H P s = Ret s1" "main_steps dbg H P n s1 = Ret s'"
    by (auto simp: obind_Ret_iff)
  with Suc.IH [of s1] show ?case by (meson code converse_rtranclp_into_rtranclp)
qed simp

lemma irqs_reach:
  "timer_irqs dbg H (hw P) (cpuid_ebx P) n (shared s) = Finished g \<Longrightarrow> (startup_step dbg H P)\<^sup>*\<^sup>* s (s\<lparr>shared := g\<rparr>)"
proof (induction n arbitrary: g)
  case (Suc n)
  then obtain g1 where g1: "timer_irqs dbg H (hw P) (cpuid_ebx P) n (shared s) = Finished g1"
    "timer_handler dbg H (hw P) (cpuid_ebx P) g1 = Finished g" by (auto split: irq_result.splits)
  then have "boot_irq dbg H P (s\<lparr>shared := g1\<rparr>) = Finished g" by (simp add: boot_irq_def)
  from rtranclp.rtrancl_into_rtrancl [of "startup_step dbg H P", OF Suc.IH [OF g1(1)] irq [OF this]] show ?case by simp
qed simp

lemma exceptions_reached:
  fixes H :: "'h heap_ops" and P :: platform and a :: Apic and t :: io_trace
  assumes P: "platform_ok P a"
  defines "from_start \<equiv> (startup_step False H P)\<^sup>*\<^sup>* (enabled P a t)"
  shows "\<exists>s. from_start s \<and> point s = StoreTicks"
    and "\<exists>s. from_start s \<and> \<not> held (TICKS (shared s)) \<and> \<not> is_calibration (guarded (TICKS (shared s))) \<and>
      \<not> scheduler_set (point s)"
proof -
  let ?t2 = "t @ [Log Info MsgInterrupts]"
  define t3 where "t3 = after_read (hw P) a (calib_start False a ?t2)"
  define v where "v = counter (hw P) a (calib_start False a ?t2)"
  define tk where "tk = calibrating False (hw P) a v t3 0"
  have mapped: "ioapic_mapped (hw P) a" "lapic_mapped (hw P) a" using P by (simp_all add: platform_ok_def)
  have cal: "calibrate False (hw P) Tick_new a ?t2 = Ret (tk, t3)"
    using calibrate_eq [OF mapped, of False ?t2 t3] by (simp add: tk_def t3_def v_def)
  define s1 :: "'h startup" where
    "s1 = start_at a StoreTicks tk (msr_reset P) \<lparr>held = True, guarded = Tick_new\<rparr> t3 OnceLock_new"
  from ticks_runs [OF cal runs_to_refl] have "runs_to False H P (enabled P a t) s1" by (simp add: s1_def)
  then have reach1: "from_start s1" unfolding from_start_def by (auto simp: runs_to_def intro: main_steps_reach)
  then show "\<exists>s. from_start s \<and> point s = StoreTicks" by (intro exI [of _ s1]) (simp add: s1_def start_at_def)
  obtain s2 where s2: "main_step False H P s1 = Ret s2" "\<not> scheduler_set (point s2)"
    "TICKS (shared s2) = \<lparr>held = False, guarded = tk\<rparr>" "APIC (shared s2) = \<lparr>held = False, guarded = a\<rparr>"
    "io (ksys (shared s2)) = t3" "\<not> log_held (shared s2)"
    by (simp add: s1_def main_step_def start_at_def PerCore_new_eq)
  have "counts_down False (hw P) a v t3" by (simp add: counts_down_def)
  from calib_last [OF s2(3) [unfolded tk_def] s2(4) _ this s2(6) mapped(2), of H "cpuid_ebx P"] s2(5) obtain g where
    g: "timer_irqs False H (hw P) (cpuid_ebx P) 10 (shared s2) = Finished g"
    "\<not> held (TICKS g)" "\<not> is_calibration (guarded (TICKS g))" by auto
  have "from_start (s2\<lparr>shared := g\<rparr>)"
    using reach1 code [OF s2(1)] irqs_reach [OF g(1)] unfolding from_start_def by (meson rtranclp.rtrancl_into_rtrancl rtranclp_trans)
  with g s2(2) show "\<exists>s. from_start s \<and> \<not> held (TICKS (shared s)) \<and> \<not> is_calibration (guarded (TICKS (shared s))) \<and>
      \<not> scheduler_set (point s)" by (intro exI [of _ "s2\<lparr>shared := g\<rparr>"]) simp
qed

theorem startup_interrupts_witness:
  "\<exists>s1 s2. boot_irq False list_heap demo_platform (enabled demo_platform demo_apic []) = Undefined \<and>
     (startup_step False list_heap demo_platform)\<^sup>*\<^sup>* (enabled demo_platform demo_apic []) s1 \<and>
     boot_irq False list_heap demo_platform s1 = Stuck \<and>
     (startup_step False list_heap demo_platform)\<^sup>*\<^sup>* (enabled demo_platform demo_apic []) s2 \<and>
     boot_irq False list_heap demo_platform s2 = Panicking \<and>
     (\<exists>n s'. main_steps False list_heap demo_platform n s2 = Ret s' \<and> point s' = Halting)"
proof -
  have P: "platform_ok demo_platform demo_apic"
    using boot_platform [OF demo_boot_ok, of PHYS_MEM_OFFSET] by (simp add: demo_boot_def demo_apic_def PHYS_MEM_OFFSET_def)
  note use = startup_interrupts [OF list_heap_spec P]
  have page: "\<not> mapped_page (hw demo_platform) 0" by (simp add: demo_platform_def demo_devices_def)
  let ?s0 = "enabled demo_platform demo_apic [] :: Entry list startup"
  have "\<not> held (TICKS (shared ?s0))" "is_calibration (guarded (TICKS (shared ?s0)))" "\<not> ticks_stored (point ?s0)"
    by (simp_all add: enabled_def Tick_new_def)
  with use [OF rtranclp.rtrancl_refl] page have s0: "boot_irq False list_heap demo_platform ?s0 = Undefined" by simp
  from exceptions_reached(1) [OF P, of list_heap "[]"] obtain s1 where
    s1: "(startup_step False list_heap demo_platform)\<^sup>*\<^sup>* (enabled demo_platform demo_apic []) s1" "point s1 = StoreTicks" by blast
  from use [OF s1(1)] s1(2) have "boot_irq False list_heap demo_platform s1 = Stuck" by (simp split: if_splits)
  moreover from exceptions_reached(2) [OF P, of list_heap "[]"] obtain s2 where
    s2: "(startup_step False list_heap demo_platform)\<^sup>*\<^sup>* (enabled demo_platform demo_apic []) s2"
    "\<not> held (TICKS (shared s2))" "\<not> is_calibration (guarded (TICKS (shared s2)))" "\<not> scheduler_set (point s2)" by blast
  from use [OF s2(1)] s2(2-4) have "boot_irq False list_heap demo_platform s2 = Panicking"
    "\<exists>n s'. main_steps False list_heap demo_platform n s2 = Ret s' \<and> point s' = Halting"
    by (auto simp: last_round_def split: if_splits)
  ultimately show ?thesis using s0 s1(1) s2(1) by blast
qed

end
