(* ===== verification/Spec2Isabelle.thy ===== *)
theory Spec2Isabelle
  imports CSpaces Contracts Typing VSpaces Tlb Kernel Startup
begin

text \<open>
  Verification of the chick microkernel, an experimental capability kernel for x86-64 written in
  Rust. Paths below are relative to \<open>src/src/kernel/src/\<close>.

  \<^bold>\<open>The program.\<close> Every kernel object is reached through a capability in a slot; slots form nodes,
  nodes form a space in which a pointer is resolved bit by bit, and a derivation chain links each
  capability to those derived from it, so that it can be revoked. Untyped memory is retyped into
  objects. Threads exchange messages through endpoints with queues of waiting threads, and an
  earliest-deadline-first scheduler per core runs them. An address space is a tree of page tables
  with four levels. Below that lie segments, interrupts and the timer, the entry path of system
  calls, and a console that draws log records into a framebuffer. \<open>main\<close> initialises these
  parts in order and enters the scheduler of the first core.

  \<^bold>\<open>How the code is modelled.\<close> A struct is a record, an enum a datatype, an integer a word of its
  width, and the operations are executable functions with the names of the source. The result type
  \<open>outcome\<close> separates return, panic and access to memory where no object lives; a Rust
  \<open>Result\<close> is a sum. The flag \<open>dbg\<close> selects the build profile, since overflow checks and debug
  assertions exist only in debug builds. Pointers are addresses in explicit stores: slots, threads,
  scheduling contexts, endpoints, tables, bytes. Third-party code is a parameter with its documented
  behaviour as a hypothesis, each with an instance for which it holds: the bit flags and address types
  of \<open>ext\<close>, the bounded heap \<open>heap_ops\<close>, the font, the \<open>x86_64\<close> crate, the numbers that
  \<open>num_enum\<close> decodes, and the answers of the devices, about which nothing is assumed. A register of an
  interrupt controller can be accessed only where its virtual page is mapped.

  \<^bold>\<open>Theories.\<close>
  \<^item> \<open>Prelude\<close>: integers, outcomes, checked arithmetic, stores. \<open>Links\<close>: intrusive doubly linked
    lists, as the locale \<open>linked_node\<close> of a record with two links; interpreted for the derivation
    chain and for the queues of threads. \<open>Traces\<close>: device accesses and log records in order.
  \<^item> \<open>Caps\<close> (\<open>macros.rs\<close>, \<open>error.rs\<close>, \<open>objects/mod.rs\<close>, \<open>traits.rs\<close>, \<open>nullcap.rs\<close>), \<open>Mdb\<close> and
    \<open>CNodes\<close> (\<open>objects/cnode.rs\<close>), \<open>CSpaces\<close> (\<open>cspace.rs\<close>): typed references, the derivation
    chain, the encoding of nodes, and lookup. Shown: insertion and removal keep the chain
    well-formed and acyclic, revocation ends and nullifies exactly what was derived, lookup returns
    exactly the slot the bits of the pointer lead to, or for a node of width zero never returns.
    \<open>Contracts\<close>: the clauses \<open>requires\<close> and \<open>ensures\<close>, the loop invariant and the proof functions that
    these files are annotated with, as predicates, and the locale \<open>contract\<close> of an operation that meets
    its clauses, interpreted for the operations on chains, nodes, references and null capabilities.
    Shown: which of these contracts hold, and the missing preconditions of the two that do not. The
    clauses of \<open>get\<close>, \<open>is_null\<close> and \<open>insert_raw\<close>, which repeat their bodies, are left out.
  \<^item> \<open>Frames\<close>, \<open>VSpaceCaps\<close>, \<open>Retype\<close> (\<open>vspace.rs\<close>, \<open>objects/frame.rs\<close>, \<open>objects/vspace.rs\<close>,
    \<open>objects/untyped.rs\<close>): the words of these capabilities, and retyping. Shown: over any sequence
    of retypings the objects lie in their region and never overlap. \<open>Typing\<close> joins all operations
    on slots in one step relation that keeps every slot well-typed.
  \<^item> \<open>Paging\<close> and \<open>VSpaces\<close> (\<open>arch/x86_64/vspace/\<close>, \<open>objects/vspace.rs\<close>): entries, with the trait
    of the four kinds as the locale \<open>page_table_entry\<close>, levels, tables, and the operations on address spaces
    with the translation buffer. Shown: walking computes a reference translation, mapping,
    unmapping and installing tables implement operations on an abstract map, and no sequence of
    them leaves a stale cached translation. \<open>Tlb\<close> (\<open>tlb.rs\<close>): the other maintenance routines.
  \<^item> \<open>Threads\<close> (\<open>objects/tcb.rs\<close>, \<open>trapframe.rs\<close>), \<open>Scheduler\<close> (\<open>scheduler/executor.rs\<close>), \<open>Sync\<close>
    (\<open>sync.rs\<close>, \<open>percore.rs\<close>, \<open>mod.rs\<close>), \<open>Ipc\<close>, \<open>Cancel\<close>, \<open>IpcSteps\<close> (\<open>objects/endpoint.rs\<close>):
    threads and their queues, which implement the locale \<open>fifo_queue\<close>, the ready queue, one-time
    initialisation under any interleaving, and message passing. Shown: the executor is safe
    under any sequence of calls, and exactly which calls keep its ready queue free of duplicates; the
    invariant of the endpoints over all sequences of operations, the effect of every operation on every
    branch, and that the loops that cancel many threads end. \<open>Kernel\<close> joins the three parts that write to the
    threads of a core, message passing, executor and timer interrupt with its locks, in one step
    relation. Shown: in any interleaving that respects the obligations of the callers neither side
    breaks the invariant of the other, and no thread is ready and waiting at once; that the timer
    stops with the first switch it makes; and that without one of these obligations, which the code
    does not enforce, the invariant breaks.
  \<^item> \<open>Segments\<close> (\<open>interrupts/gdt.rs\<close>), \<open>Devices\<close> (\<open>pic.rs\<close>, \<open>pit.rs\<close>, \<open>apic.rs\<close>, \<open>acpi.rs\<close>),
    \<open>Interrupts\<close> (\<open>tick.rs\<close>, \<open>interrupts/\<close>), \<open>Syscalls\<close> (\<open>syscall.rs\<close>, \<open>arch/x86_64/syscall.rs\<close>),
    \<open>Console\<close> (\<open>console/\<close>, the panic handler), \<open>Boot\<close> (\<open>main.rs\<close>). Shown: calibration ends after ten
    interrupts, with which period, what a timer interrupt does to locks and controller, that the
    stub hands the arguments over in order and restores every register, that text never leaves the framebuffer, and that the kernel starts
    without a panic and handles every later timer interrupt while idle. \<open>Startup\<close> splits \<open>main\<close>
    into the steps between which an interrupt can arrive. Shown: the steps refine \<open>main\<close>, they can
    always go on to the idle loop, and at which of them a timer interrupt waits for ever, faults or panics.
  \<^item> This theory: a fresh address space, across retyping and paging, and on which mapping of memory
    it depends that its root table is empty.

  \<^bold>\<open>Loops and bounds.\<close> The loops of lookup, revocation and cancellation are partial functions, for
  which \<open>None\<close> is a loop that never ends; that they end is part of the properties. All
  other recursion is structural. No fuel is used. The bounds in hypotheses come from the machine:
  physical addresses have 52 bits, virtual ones are canonical, and the length of a text that is drawn is bounded so
  that the line counter, which grows by at most 18 for each character, can not overflow.

  \<^bold>\<open>Not modelled.\<close> The host tools \<open>build.rs\<close> and \<open>src/src/main.rs\<close>, which build a disk image and start an
  emulator. Third-party crates, which are parameters. The ACPI tables, which the kernel does not read yet.
  The text of a log record, which the formatting machinery of the language makes. Interrupts inside an
  operation, apart from the start-up code and from records that are being written: a handler is applied to a
  state between two operations, because the kernel runs with interrupts masked after the entry of a
  system call. Weak memory: the one atomic that is shared is used
  with acquire and release only, and its accesses are taken in one order. The instructions of a
  thread in user mode. The functions that Rust derives (\<open>Debug\<close>, \<open>Clone\<close>, \<open>Default\<close>) and the macro
  \<open>symbol!\<close>, which has no callers.
\<close>

section \<open>A fresh address space\<close>

text \<open>
  Retyping and the operations on address spaces see memory in two ways. The former clears bytes
  through pointers that are physical addresses, the latter read tables of 64-bit entries,
  little-endian as the processor does, through pointers that lie an offset behind the physical
  address. \<open>reach\<close> tells which of the cells that retyping writes a pointer reaches, if physical memory is
  also mapped at its own addresses; it depends on the page tables that the boot loader left.
\<close>

definition read_u64 :: "(ptr \<Rightarrow> u8) \<Rightarrow> ptr \<Rightarrow> u64" where
  "read_u64 m a = foldr (\<lambda>k acc. push_bit 8 acc OR ucast (m (a + of_nat k))) [0..<8] 0"

definition table_at :: "(ptr \<Rightarrow> u8) \<Rightarrow> ptr \<Rightarrow> table" where
  "table_at m p = map (\<lambda>i. read_u64 m (p + 8 * of_nat i)) [0..<ENTRIES_PER_TABLE]"

definition tables_of :: "(ptr \<Rightarrow> ptr) \<Rightarrow> (ptr \<Rightarrow> u8) \<Rightarrow> ptr \<Rightarrow> table option" where
  "tables_of reach m a = Some (table_at (m \<circ> reach) a)"

lemma read_u64_zero:
  assumes "\<And>k. k < 8 \<Longrightarrow> m (a + of_nat k) = 0"
  shows "read_u64 m a = 0"
proof -
  have "foldr (\<lambda>k acc. push_bit 8 acc OR ucast (m (a + of_nat k))) ks (0 :: u64) = 0"
    if "\<forall>k \<in> set ks. m (a + of_nat k) = 0" for ks
    using that by (induction ks) simp_all
  with assms show ?thesis by (simp add: read_u64_def)
qed

lemma unat_within:
  assumes "unat (p :: u64) + n < 2 ^ 64"
  shows "unat (p + of_nat n) = unat p + n"
proof -
  have "unat (of_nat n :: u64) = n" using assms by (simp add: unsigned_of_nat take_bit_nat_eq_self)
  with assms show ?thesis by (simp add: unat_plus_if_size word_size)
qed

lemma table_at_byte: "p + 8 * of_nat i + of_nat k = p + of_nat (8 * i + k)" for p :: u64
  by simp

lemma table_at_cleared:
  assumes "\<And>k. k < 4096 \<Longrightarrow> m (p + of_nat k) = 0"
  shows "table_at m p = Table_new"
proof -
  have "read_u64 m (p + 8 * of_nat i) = 0" if i: "i < 512" for i
    by (rule read_u64_zero) (simp only: table_at_byte, rule assms, use i in simp)
  then show ?thesis by (simp add: table_at_def Table_new_def ENTRIES_PER_TABLE_def list_eq_iff_nth_eq)
qed

lemma table_at_cong:
  assumes "\<And>k. k < 4096 \<Longrightarrow> m (p + of_nat k) = m' (p + of_nat k)"
  shows "table_at m p = table_at m' p"
proof -
  have "read_u64 m (p + 8 * of_nat i) = read_u64 m' (p + 8 * of_nat i)" if i: "i < 512" for i
  proof -
    have "m (p + 8 * of_nat i + of_nat k) = m' (p + 8 * of_nat i + of_nat k)" if "k \<in> set [0..<8]" for k
      unfolding table_at_byte by (rule assms) (use i that in simp)
    then show ?thesis unfolding read_u64_def by (intro foldr_cong) simp_all
  qed
  then show ?thesis by (simp add: table_at_def ENTRIES_PER_TABLE_def)
qed

text \<open>Claim C36. Untyped memory to address space: in a region of ordinary untyped memory with room for
  it, retyping one address space into an empty slot succeeds, and the capability found there names a
  page of the region. Whether its root table is empty depends on the mapping of memory. If the pointers
  behind the offset, through which the operations on address spaces read this page, reach the memory
  that was cleared through the physical address, then the root is the empty table, the tables reached from it are well-formed,
  so every operation is defined on them, and nothing is mapped: the walk of every canonical address
  ends at the root level, and every other address is rejected. If they reach other memory, then the
  root table is whatever was there before.\<close>

theorem retyped_vspace_root:
  assumes "ext_ok E" "r_slots s self = Some raw" "untyped_ok raw" "\<not> untyped_is_device raw"
    and "r_slots s p = Some c" "cap_type c = NullObj"
    and "round_up (unat (free_offset raw)) 12 + 2 ^ 12 \<le> 2 ^ unat (bit_size raw)"
    and "unat (paddr raw) + 2 ^ unat (bit_size raw) + unat OFFSET < 2 ^ 64"
  shows "\<exists>s' cap. retype dbg E s self VSpace n [p] = Ret (Inr (), s') \<and>
    r_slots s' p = Some cap \<and> cap_type cap = VSpace \<and> VSpaceCap_asid cap \<noteq> 0 \<and>
    unat (vs_root cap) = unat (paddr raw) + round_up (unat (free_offset raw)) 12 \<and>
    (\<forall>reach. (\<forall>k < 4096. reach (vs_root cap + OFFSET + of_nat k) = vs_root cap + of_nat k) \<longrightarrow>
      tables_of reach (r_mem s') (vs_root cap + OFFSET) = Some Table_new \<and>
      vs_ok OFFSET (tables_of reach (r_mem s')) (vs_root cap) \<and>
      (\<forall>v. walk dbg E OFFSET (tables_of reach (r_mem s')) cap v =
         Ret (if is_canonical v then Inr (NotMapped 4) else Inl InvalidVAddr))) \<and>
    (\<forall>reach. (\<forall>k < 4096. \<forall>j < 4096. reach (vs_root cap + OFFSET + of_nat k) \<noteq> vs_root cap + of_nat j) \<longrightarrow>
      tables_of reach (r_mem s') (vs_root cap + OFFSET) = tables_of reach (r_mem s) (vs_root cap + OFFSET))"
proof -
  let ?off = "round_up (unat (free_offset raw)) 12"
  have "object_size VSpace n \<noteq> None" "creatable VSpace n" by (simp_all add: creatable_def object_size_def)
  from retype_success [OF assms(1-3) this, of "[p]" 12 ?off dbg] assms(4-7)
  obtain s' cap where s': "retype dbg E s self VSpace n [p] = Ret (Inr (), s')" "r_slots s' p = Some cap"
    "fresh_object VSpace 12 (untyped_is_device raw) (unat (paddr raw) + ?off) cap" and
    mem: "\<And>x. r_mem s' x = (if unat (paddr raw) + ?off \<le> unat x \<and> unat x < unat (paddr raw) + ?off + 4096 then 0 else r_mem s x)"
    by (auto simp: object_bits_def clears_def)
  then have cap: "cap_type cap = VSpace" "unat (vs_root cap) = unat (paddr raw) + ?off" "VSpaceCap_asid cap \<noteq> 0"
    by (auto simp: fresh_object_def vs_root_def)
  have fit: "unat (vs_root cap) + 4096 \<le> unat (paddr raw) + 2 ^ unat (bit_size raw)"
    "unat (paddr raw) + 2 ^ unat (bit_size raw) \<le> 2 ^ 52"
    using assms(3,7) cap(2) by (simp_all add: untyped_ok_def)
  have in_page: "unat (vs_root cap + of_nat k) = unat (vs_root cap) + k" if "k < 4096" for k
    using fit that by (intro unat_within) simp
  have "tables_of reach (r_mem s') (vs_root cap + OFFSET) = Some Table_new \<and>
      vs_ok OFFSET (tables_of reach (r_mem s')) (vs_root cap) \<and>
      (\<forall>v. walk dbg E OFFSET (tables_of reach (r_mem s')) cap v =
         Ret (if is_canonical v then Inr (NotMapped 4) else Inl InvalidVAddr))"
    if reach: "\<forall>k < 4096. reach (vs_root cap + OFFSET + of_nat k) = vs_root cap + of_nat k" for reach
  proof -
    have "table_at (r_mem s' \<circ> reach) (vs_root cap + OFFSET) = Table_new"
      by (rule table_at_cleared) (use reach in_page in \<open>simp add: mem cap(2) [symmetric]\<close>)
    then have new: "tables_of reach (r_mem s') (vs_root cap + OFFSET) = Some Table_new" by (simp add: tables_of_def)
    have "vs_root cap < 0x10000000000000" "unat (vs_root cap) + unat OFFSET < 2 ^ 64"
      using fit assms(8) by (simp_all add: word_less_nat_alt)
    then have ok: "vs_ok OFFSET (tables_of reach (r_mem s')) (vs_root cap)" using new by (intro vs_ok_new)
    have "tr OFFSET (tables_of reach (r_mem s')) v 4 (vs_root cap) = Some (4, 0)" for v
      using new by (simp add: tr.simps(2) [where l = 3, simplified] Table_new_entry ltable_def)
    with new ok show ?thesis by (simp add: walk_tr [OF assms(1) ok] vmap_of_def a_walk_def)
  qed
  moreover have "tables_of reach (r_mem s') (vs_root cap + OFFSET) = tables_of reach (r_mem s) (vs_root cap + OFFSET)"
    if reach: "\<forall>k < 4096. \<forall>j < 4096. reach (vs_root cap + OFFSET + of_nat k) \<noteq> vs_root cap + of_nat j" for reach
  proof -
    have "r_mem s' x = r_mem s x" if x: "\<forall>j < 4096. x \<noteq> vs_root cap + of_nat j" for x
    proof -
      have "\<not> (unat (vs_root cap) \<le> unat x \<and> unat x < unat (vs_root cap) + 4096)"
      proof
        assume r: "unat (vs_root cap) \<le> unat x \<and> unat x < unat (vs_root cap) + 4096"
        then have "unat (vs_root cap + of_nat (unat x - unat (vs_root cap))) = unat x" by (subst in_page) auto
        then have "x = vs_root cap + of_nat (unat x - unat (vs_root cap))" by (simp only: word_unat_eq_iff)
        moreover have "unat x - unat (vs_root cap) < 4096" using r by linarith
        ultimately show False using x by blast
      qed
      then show ?thesis by (auto simp: mem cap(2))
    qed
    with reach show ?thesis unfolding tables_of_def by (intro arg_cong [of _ _ Some] table_at_cong) simp
  qed
  ultimately show ?thesis using s'(1,2) cap by blast
qed

text \<open>One region, with memory mapped at its own addresses and an offset behind them, and with the
  offset leading to other memory.\<close>

theorem retyped_vspace_root_witness:
  "\<exists>s' cap. retype True ext_doc demo_untyped 0x40 VSpace 0 [0x80] = Ret (Inr (), s') \<and>
     r_slots s' 0x80 = Some cap \<and>
     walk True ext_doc 0x18000000000 (tables_of (\<lambda>x. x - 0x18000000000) (r_mem s')) cap 0x400000 = Ret (Inr (NotMapped 4)) \<and>
     tables_of id (r_mem s') (vs_root cap + 0x18000000000) = tables_of id (r_mem demo_untyped) (vs_root cap + 0x18000000000)"
proof -
  let ?raw = "UntypedCap_mint 0x100000 16 False" and ?off = "0x18000000000 :: u64"
  have reads: "bit_size ?raw = 16" "free_offset ?raw = 0" "untyped_is_device ?raw = False" "paddr ?raw = 0x100000"
    using mint_untyped_reads [of 16 "0x100000" False] by simp_all (simp add: UntypedCap_mint_def)
  from demo_untyped_ok(3) obtain c where c: "r_slots demo_untyped 0x80 = Some c" "cap_type c = NullObj" by auto
  have h: "\<not> untyped_is_device ?raw" "round_up (unat (free_offset ?raw)) 12 + 2 ^ 12 \<le> 2 ^ unat (bit_size ?raw)"
    "unat (paddr ?raw) + 2 ^ unat (bit_size ?raw) + unat ?off < 2 ^ 64" by (simp_all add: reads round_up_def)
  from retyped_vspace_root [OF ext_doc_ok demo_untyped_ok(1,2) h(1) c h(2,3), of True 0] obtain s' cap where
    s': "retype True ext_doc demo_untyped 0x40 VSpace 0 [0x80] = Ret (Inr (), s')" "r_slots s' 0x80 = Some cap"
    "unat (vs_root cap) = unat (paddr ?raw) + round_up (unat (free_offset ?raw)) 12" and
    same: "\<forall>reach. (\<forall>k < 4096. reach (vs_root cap + ?off + of_nat k) = vs_root cap + of_nat k) \<longrightarrow>
      tables_of reach (r_mem s') (vs_root cap + ?off) = Some Table_new \<and> vs_ok ?off (tables_of reach (r_mem s')) (vs_root cap) \<and>
      (\<forall>v. walk True ext_doc ?off (tables_of reach (r_mem s')) cap v =
         Ret (if is_canonical v then Inr (NotMapped 4) else Inl InvalidVAddr))" and
    apart: "\<forall>reach. (\<forall>k < 4096. \<forall>j < 4096. reach (vs_root cap + ?off + of_nat k) \<noteq> vs_root cap + of_nat j) \<longrightarrow>
      tables_of reach (r_mem s') (vs_root cap + ?off) = tables_of reach (r_mem demo_untyped) (vs_root cap + ?off)"
    by (elim exE conjE)
  have "is_canonical 0x400000" by (simp add: is_canonical_def)
  moreover have "\<forall>k < 4096. (\<lambda>x. x - ?off) (vs_root cap + ?off + of_nat k) = vs_root cap + of_nat k" by simp
  ultimately have "walk True ext_doc ?off (tables_of (\<lambda>x. x - ?off) (r_mem s')) cap 0x400000 = Ret (Inr (NotMapped 4))"
    using same [THEN spec, of "\<lambda>x. x - ?off"] by simp
  moreover have "id (vs_root cap + ?off + of_nat k) \<noteq> vs_root cap + of_nat j" if "k < 4096" "j < 4096" for k j
  proof
    assume "id (vs_root cap + ?off + of_nat k) = vs_root cap + of_nat j"
    then have "?off + of_nat k = (of_nat j :: u64)" by (simp add: add.assoc)
    moreover have "unat (?off + of_nat k) = unat ?off + k" using that by (intro unat_within) simp
    moreover have "unat (of_nat j :: u64) = j" using that by (simp add: unsigned_of_nat take_bit_nat_eq_self)
    ultimately show False using that by simp
  qed
  then have "tables_of id (r_mem s') (vs_root cap + ?off) = tables_of id (r_mem demo_untyped) (vs_root cap + ?off)"
    using apart by blast
  ultimately show ?thesis using s'(1,2) by blast
qed

end
